(* ===== verification/Prelude.thy ===== *)
theory Prelude
  imports Complex_Main "HOL-Library.Word"
begin

text \<open>
  Shared vocabulary of the development: the widths of the C++ integers the sources use, the
  exceptions they throw, the parts of the C++ standard library the modelled code calls
  (\<^verbatim>\<open>std::to_string\<close>, \<^verbatim>\<open>strtol\<close>, \<^verbatim>\<open>std::stoi\<close>, \<^verbatim>\<open>std::string::find\<close>, ...), and the generic
  lemmas on lists, strings and words that the component theories share.

  Strings are \<^verbatim>\<open>std::string\<close>, that is byte sequences, modelled as \<^typ>\<open>string\<close>; a \<^verbatim>\<open>char\<close> is a
  byte.  A C++ exception is the left injection of a sum type.
\<close>

section \<open>Machine integers\<close>

type_synonym u8 = "8 word"
type_synonym u16 = "16 word"
type_synonym u32 = "32 word"
type_synonym u64 = "64 word"

lemma unat_less_2p: "unat (w :: 'a::len word) < 2 ^ LENGTH('a)"
  by (rule unsigned_less)

lemma unat_u16_less: "unat (w :: u16) < 65536"
  using unat_less_2p [of w] by simp

lemma unat_of_nat_id: "n < 2 ^ LENGTH('a::len) \<Longrightarrow> unat (of_nat n :: 'a word) = n"
  by (simp add: unat_of_nat)

section \<open>Collections of facts\<close>

named_theorems exn_simps \<open>equations that run the exception monad\<close>
named_theorems str_simps \<open>equations on the string functions of the standard library\<close>

section \<open>Exceptions\<close>

text \<open>
  The exceptions that can leave the modelled functions.  \<open>Invalid_field_format\<close> is
  \<^verbatim>\<open>pfaedle::gtfs::invalid_field_format\<close> (its payload is the message without the fixed prefix);
  \<open>Invalid_argument\<close> and \<open>Out_of_range\<close> are those of the standard library,
  \<open>Std_exception\<close> is a bare \<^verbatim>\<open>std::exception\<close>.
\<close>

datatype cpp_exn =
    Invalid_field_format string
  | Invalid_argument string
  | Out_of_range string
  | Std_exception

type_synonym 'a res = "cpp_exn + 'a"

definition exn_bind :: "'e + 'a \<Rightarrow> ('a \<Rightarrow> 'e + 'b) \<Rightarrow> 'e + 'b" where
  "exn_bind r f = (case r of Inl e \<Rightarrow> Inl e | Inr x \<Rightarrow> f x)"

lemma exn_bind_Inl [simp, exn_simps]: "exn_bind (Inl e) f = Inl e"
  by (simp add: exn_bind_def)

lemma exn_bind_Inr [simp, exn_simps]: "exn_bind (Inr x) f = f x"
  by (simp add: exn_bind_def)

lemma exn_bind_eq_Inr_iff: "exn_bind r f = Inr y \<longleftrightarrow> (\<exists>x. r = Inr x \<and> f x = Inr y)"
  by (cases r) auto

lemma exn_bind_eq_Inl_iff:
  "exn_bind r f = Inl e \<longleftrightarrow> r = Inl e \<or> (\<exists>x. r = Inr x \<and> f x = Inl e)"
  by (cases r) auto

lemmas exn_bind_iffs = exn_bind_eq_Inr_iff exn_bind_eq_Inl_iff

section \<open>Characters\<close>

definition isdigit :: "char \<Rightarrow> bool" where
  "isdigit c \<longleftrightarrow> 48 \<le> (of_char c :: nat) \<and> (of_char c :: nat) \<le> 57"

definition isspace :: "char \<Rightarrow> bool" where
  "isspace c \<longleftrightarrow> (of_char c :: nat) = 32 \<or> (9 \<le> (of_char c :: nat) \<and> (of_char c :: nat) \<le> 13)"

definition isupper :: "char \<Rightarrow> bool" where
  "isupper c \<longleftrightarrow> 65 \<le> (of_char c :: nat) \<and> (of_char c :: nat) \<le> 90"

definition islower :: "char \<Rightarrow> bool" where
  "islower c \<longleftrightarrow> 97 \<le> (of_char c :: nat) \<and> (of_char c :: nat) \<le> 122"

definition isalpha :: "char \<Rightarrow> bool" where
  "isalpha c \<longleftrightarrow> isupper c \<or> islower c"

definition tolower :: "char \<Rightarrow> char" where
  "tolower c = (if isupper c then char_of ((of_char c :: nat) + 32) else c)"

definition toupper :: "char \<Rightarrow> char" where
  "toupper c = (if islower c then char_of ((of_char c :: nat) - 32) else c)"

definition digit_char :: "nat \<Rightarrow> char" where
  "digit_char d = char_of (48 + d)"

text \<open>The value of a digit in a base up to 16, as \<^verbatim>\<open>strtol\<close> reads it.\<close>

definition digit_val :: "nat \<Rightarrow> char \<Rightarrow> nat option" where
  "digit_val base c =
     (let n = (of_char c :: nat);
          v = (if isdigit c then Some (n - 48)
               else if 97 \<le> n \<and> n \<le> 122 then Some (n - 87)
               else if 65 \<le> n \<and> n \<le> 90 then Some (n - 55)
               else None)
      in case v of None \<Rightarrow> None | Some d \<Rightarrow> if d < base then Some d else None)"

lemma of_char_digit_char [simp]: "d < 10 \<Longrightarrow> (of_char (digit_char d) :: nat) = 48 + d"
  by (simp add: digit_char_def)

lemma isdigit_digit_char [simp]: "d < 10 \<Longrightarrow> isdigit (digit_char d)"
  by (simp add: isdigit_def)

lemma isspace_digit_char [simp]: "d < 10 \<Longrightarrow> \<not> isspace (digit_char d)"
  by (simp add: isspace_def)

lemma digit_val_digit_char [simp]: "d < 10 \<Longrightarrow> digit_val 10 (digit_char d) = Some d"
  by (simp add: digit_val_def Let_def isdigit_def)

lemma digit_char_numerals:
  "digit_char 0 = CHR ''0''" "digit_char 1 = CHR ''1''" "digit_char 2 = CHR ''2''"
  "digit_char 3 = CHR ''3''" "digit_char 4 = CHR ''4''" "digit_char 5 = CHR ''5''"
  "digit_char 6 = CHR ''6''" "digit_char 7 = CHR ''7''" "digit_char 8 = CHR ''8''"
  "digit_char 9 = CHR ''9''" "digit_char (Suc 0) = CHR ''1''"
  by code_simp+

lemma digit_char_neq:
  assumes "d < 10" "\<not> isdigit c"
  shows "digit_char d \<noteq> c" "c \<noteq> digit_char d"
  using assms by auto

lemma digit_char_inject: "\<lbrakk>d < 10; d' < 10\<rbrakk> \<Longrightarrow> digit_char d = digit_char d' \<longleftrightarrow> d = d'"
  by (metis add_left_cancel of_char_digit_char)

section \<open>Decimal conversion\<close>

text \<open>\<^verbatim>\<open>std::to_string\<close> on unsigned values, and on signed ones.\<close>

fun to_string :: "nat \<Rightarrow> string" where
  "to_string n = (if n < 10 then [digit_char n] else to_string (n div 10) @ [digit_char (n mod 10)])"

declare to_string.simps [simp del]

definition int_to_string :: "int \<Rightarrow> string" where
  "int_to_string i = (if i < 0 then CHR ''-'' # to_string (nat (- i)) else to_string (nat i))"

lemma to_string_small: "n < 10 \<Longrightarrow> to_string n = [digit_char n]"
  by (simp add: to_string.simps)

lemma to_string_big: "10 \<le> n \<Longrightarrow> to_string n = to_string (n div 10) @ [digit_char (n mod 10)]"
  by (subst to_string.simps) simp

lemma to_string_not_Nil [simp]: "to_string n \<noteq> []"
  by (subst to_string.simps) simp

lemma to_string_digits: "c \<in> set (to_string n) \<Longrightarrow> isdigit c"
proof (induction n rule: to_string.induct)
  case (1 n)
  then show ?case
    by (cases "n < 10") (auto simp: to_string_small to_string_big)
qed

lemma length_to_string_le:
  "n < 10 ^ Suc k \<Longrightarrow> length (to_string n) \<le> Suc k"
proof (induction k arbitrary: n)
  case 0
  then show ?case by (simp add: to_string_small)
next
  case (Suc k)
  then show ?case
    by (cases "n < 10") (auto simp: to_string_small to_string_big)
qed

lemma to_string_two_digits:
  "\<lbrakk>10 \<le> n; n < 100\<rbrakk> \<Longrightarrow> to_string n = [digit_char (n div 10), digit_char (n mod 10)]"
  by (simp add: to_string_big to_string_small)

lemma to_string_four_digits:
  assumes "1000 \<le> n" "n < 10000"
  shows "to_string n = [digit_char (n div 1000), digit_char (n div 100 mod 10),
                        digit_char (n div 10 mod 10), digit_char (n mod 10)]"
proof -
  have "to_string n = to_string (n div 10) @ [digit_char (n mod 10)]"
    using assms by (simp add: to_string_big)
  also have "to_string (n div 10) = to_string (n div 100) @ [digit_char (n div 10 mod 10)]"
    using assms by (simp add: to_string_big div_mult2_eq [symmetric])
  also have "to_string (n div 100) = [digit_char (n div 1000), digit_char (n div 100 mod 10)]"
    using assms by (subst to_string_two_digits) (simp_all add: div_mult2_eq [symmetric])
  finally show ?thesis by simp
qed

text \<open>
  \<^verbatim>\<open>strtol(s, &end, base)\<close>: leading white space, an optional sign, for base 16 an optional
  \<^verbatim>\<open>0x\<close>, then the longest run of digits.  The result is the value (before any clamping to the
  range of \<^verbatim>\<open>long\<close>) and the unprocessed rest; without a digit nothing is consumed.
\<close>

fun read_digits :: "nat \<Rightarrow> nat \<Rightarrow> string \<Rightarrow> nat \<times> string" where
  "read_digits base acc [] = (acc, [])"
| "read_digits base acc (c # cs) =
     (case digit_val base c of
        None \<Rightarrow> (acc, c # cs)
      | Some d \<Rightarrow> read_digits base (acc * base + d) cs)"

definition strip_sign :: "string \<Rightarrow> bool \<times> string" where
  "strip_sign s = (case s of [] \<Rightarrow> (False, [])
     | c # cs \<Rightarrow> if c = CHR ''-'' then (True, cs) else if c = CHR ''+'' then (False, cs)
                 else (False, c # cs))"

definition strip_0x :: "nat \<Rightarrow> string \<Rightarrow> string" where
  "strip_0x base s = (case s of
       z # x # d # cs \<Rightarrow>
         if base = 16 \<and> z = CHR ''0'' \<and> (x = CHR ''x'' \<or> x = CHR ''X'') \<and> digit_val 16 d \<noteq> None
         then d # cs else s
     | _ \<Rightarrow> s)"

definition strtol :: "nat \<Rightarrow> string \<Rightarrow> int \<times> string" where
  "strtol base s =
     (let (neg, t) = strip_sign (dropWhile isspace s);
          u = strip_0x base t
      in case u of
           [] \<Rightarrow> (0, s)
         | c # _ \<Rightarrow>
             (case digit_val base c of
                None \<Rightarrow> (0, s)
              | Some _ \<Rightarrow> (let (n, rest) = read_digits base 0 u
                          in (if neg then - int n else int n, rest))))"

text \<open>\<^verbatim>\<open>std::stoi\<close>: the value must fit a 32-bit \<^verbatim>\<open>int\<close>, trailing characters are ignored.\<close>

definition stoi :: "string \<Rightarrow> int res" where
  "stoi s =
     (let (v, rest) = strtol 10 s
      in if rest = s then Inl (Invalid_argument ''stoi'')
         else if v < - (2 ^ 31) \<or> 2 ^ 31 \<le> v then Inl (Out_of_range ''stoi'')
         else Inr v)"

text \<open>\<^verbatim>\<open>static_cast<uint16_t>\<close> of an \<^verbatim>\<open>int\<close> reduces modulo \<open>2\<^sup>1\<^sup>6\<close>.\<close>

definition to_u16 :: "int \<Rightarrow> u16" where
  "to_u16 i = word_of_int i"

lemma read_digits_append_digit:
  "\<lbrakk>\<forall>c\<in>set cs. digit_val base c \<noteq> None\<rbrakk> \<Longrightarrow>
     read_digits base acc (cs @ ds) = read_digits base (fst (read_digits base acc cs)) ds"
  by (induction cs arbitrary: acc) (auto split: option.splits)

lemma digit_val_isdigit: "isdigit c \<Longrightarrow> digit_val 10 c \<noteq> None"
  by (auto simp: digit_val_def isdigit_def Let_def)

lemma read_digits_rest: "\<forall>c\<in>set cs. isdigit c \<Longrightarrow> snd (read_digits 10 acc cs) = []"
  by (induction cs arbitrary: acc) (auto split: option.splits dest: digit_val_isdigit)

lemma read_digits_to_string: "read_digits 10 0 (to_string n) = (n, [])"
proof (induction n rule: to_string.induct)
  case (1 n)
  show ?case
  proof (cases "n < 10")
    case True
    then show ?thesis by (simp add: to_string_small)
  next
    case False
    have "\<forall>c\<in>set (to_string (n div 10)). digit_val 10 c \<noteq> None"
      using to_string_digits digit_val_isdigit by blast
    with 1 False show ?thesis
      by (simp add: to_string_big read_digits_append_digit)
  qed
qed

lemma strip_0x_10 [simp]: "strip_0x 10 s = s"
  by (simp add: strip_0x_def split: list.splits)

lemma isalpha_not:
  assumes "isalpha c"
  shows "\<not> isspace c" "\<not> isdigit c" "c \<noteq> CHR ''-''" "c \<noteq> CHR ''+''" "digit_val 10 c = None"
proof -
  have n: "65 \<le> (of_char c :: nat) \<and> of_char c \<le> (90 :: nat) \<or>
           97 \<le> (of_char c :: nat) \<and> of_char c \<le> (122 :: nat)"
    using assms by (simp add: isalpha_def isupper_def islower_def)
  then show "\<not> isspace c" and d: "\<not> isdigit c" by (auto simp: isspace_def isdigit_def)
  show "c \<noteq> CHR ''-''" "c \<noteq> CHR ''+''" using n by auto
  show "digit_val 10 c = None" using n d by (auto simp: digit_val_def Let_def)
qed

lemma strtol_alpha: "isalpha c \<Longrightarrow> strtol 10 (c # cs) = (0, c # cs)"
  by (simp add: strtol_def strip_sign_def isalpha_not)

lemma strtol_digits:
  assumes "s \<noteq> []" "\<forall>c\<in>set s. isdigit c"
  shows "strtol 10 s = (int (fst (read_digits 10 0 s)), [])"
proof -
  obtain c cs where s: "s = c # cs" using assms(1) by (cases s) auto
  have c: "isdigit c" using assms s by simp
  then have "\<not> isspace c" and "c \<noteq> CHR ''-''" and "c \<noteq> CHR ''+''"
    by (auto simp: isdigit_def isspace_def)
  moreover obtain d where "digit_val 10 c = Some d"
    using digit_val_isdigit [OF c] by auto
  ultimately show ?thesis
    using read_digits_rest [of s 0] assms(2)
    by (simp add: strtol_def s strip_sign_def prod_eq_iff split: prod.split)
qed

lemma stoi_digits:
  assumes "s \<noteq> []" "\<forall>c\<in>set s. isdigit c" "fst (read_digits 10 0 s) < 2 ^ 31"
  shows "stoi s = Inr (int (fst (read_digits 10 0 s)))"
  using assms by (simp add: stoi_def strtol_digits)

lemma stoi_to_string: "n < 2 ^ 31 \<Longrightarrow> stoi (to_string n) = Inr (int n)"
  by (subst stoi_digits) (auto simp: read_digits_to_string to_string_digits)

lemma strtol_minus_digits:
  assumes "s \<noteq> []" "\<forall>c\<in>set s. isdigit c"
  shows "strtol 10 (CHR ''-'' # s) = (- int (fst (read_digits 10 0 s)), [])"
proof -
  obtain c cs where s: "s = c # cs" using assms(1) by (cases s) auto
  obtain d where "digit_val 10 c = Some d" using digit_val_isdigit assms(2) s by fastforce
  then show ?thesis
    using read_digits_rest [of s 0] assms(2)
    by (simp add: strtol_def s strip_sign_def isspace_def prod_eq_iff split: prod.split)
qed

lemma stoi_int_to_string:
  assumes "- (2 ^ 31) \<le> i" "i < 2 ^ 31"
  shows "stoi (int_to_string i) = Inr i"
proof (cases "i < 0")
  case True
  have "strtol 10 (CHR ''-'' # to_string (nat (- i))) = (i, [])"
    using True by (subst strtol_minus_digits) (auto simp: read_digits_to_string to_string_digits)
  with True assms show ?thesis by (simp add: stoi_def int_to_string_def)
next
  case False
  then show ?thesis using assms stoi_to_string [of "nat i"] by (simp add: int_to_string_def)
qed

lemma to_u16_of_nat: "n < 2 ^ 16 \<Longrightarrow> unat (to_u16 (int n)) = n"
  by (simp add: to_u16_def unat_of_nat)

section \<open>Formatting of doubles\<close>

text \<open>
  A finite \<^verbatim>\<open>double\<close> is a rational number, and \<^typ>\<open>rat\<close> models it.  \<^verbatim>\<open>std::fixed\<close> with
  \<^verbatim>\<open>std::setprecision(p)\<close> prints the value rounded to \<open>p\<close> decimals, ties to even.
\<close>

definition round_half_even :: "rat \<Rightarrow> int" where
  "round_half_even x =
     (let n = \<lfloor>x\<rfloor>; r = x - of_int n
      in if r < 1 / 2 then n else if 1 / 2 < r then n + 1 else if even n then n else n + 1)"

definition pad_left :: "nat \<Rightarrow> string \<Rightarrow> string" where
  "pad_left w s = replicate (w - length s) CHR ''0'' @ s"

definition fixed_str :: "nat \<Rightarrow> rat \<Rightarrow> string" where
  "fixed_str p x =
     (let n = nat (round_half_even (\<bar>x\<bar> * 10 ^ p));
          ds = pad_left (Suc p) (to_string n);
          k = length ds - p
      in (if x < 0 then ''-'' else []) @ take k ds @ (if p = 0 then [] else CHR ''.'' # drop k ds))"

text \<open>
  A \<^verbatim>\<open>double\<close> is a rational number, an infinity or a NaN, the last two with their sign bit.  The rounding of
  decimal input to the nearest binary fraction is not modelled.
\<close>

datatype double = Finite rat | Infinity bool | NaN bool

definition double_less :: "double \<Rightarrow> double \<Rightarrow> bool" where
  "double_less x y = (case (x, y) of
       (Finite p, Finite q) \<Rightarrow> p < q
     | (Finite _, Infinity neg) \<Rightarrow> \<not> neg
     | (Infinity neg, Finite _) \<Rightarrow> neg
     | (Infinity neg, Infinity neg') \<Rightarrow> neg \<and> \<not> neg'
     | _ \<Rightarrow> False)"

definition fixed_double :: "nat \<Rightarrow> double \<Rightarrow> string" where
  "fixed_double p x = (case x of
       Finite q \<Rightarrow> fixed_str p q
     | Infinity neg \<Rightarrow> (if neg then ''-inf'' else ''inf'')
     | NaN neg \<Rightarrow> (if neg then ''-nan'' else ''nan''))"

section \<open>String searching\<close>

text \<open>
  \<^verbatim>\<open>s.find(p)\<close> as the position of the first occurrence; \<open>None\<close> is \<^verbatim>\<open>npos\<close>.
\<close>

fun starts_with :: "'a list \<Rightarrow> 'a list \<Rightarrow> bool" where
  "starts_with [] s = True"
| "starts_with (p # ps) [] = False"
| "starts_with (p # ps) (c # cs) = (p = c \<and> starts_with ps cs)"

fun find_str :: "'a list \<Rightarrow> 'a list \<Rightarrow> nat option" where
  "find_str p [] = (if p = [] then Some 0 else None)"
| "find_str p (c # cs) =
     (if starts_with p (c # cs) then Some 0 else map_option Suc (find_str p cs))"

lemma starts_with_iff: "starts_with p s \<longleftrightarrow> (\<exists>t. s = p @ t)"
  by (induction p s rule: starts_with.induct) auto

lemma find_str_Some:
  "find_str p s = Some i \<Longrightarrow> starts_with p (drop i s) \<and> i + length p \<le> length s \<and>
     (\<forall>j<i. \<not> starts_with p (drop j s))"
proof (induction p s arbitrary: i rule: find_str.induct)
  case (2 p c cs)
  show ?case
  proof (cases "starts_with p (c # cs)")
    case True
    then have "length p \<le> length (c # cs)"
      by (metis starts_with_iff length_append le_add1)
    with 2 True show ?thesis by auto
  next
    case False
    with 2 obtain k where "find_str p cs = Some k" and "i = Suc k" by auto
    with 2 False show ?thesis by (auto simp: less_Suc_eq_0_disj)
  qed
qed (auto split: if_splits)

lemma find_str_None: "find_str p s = None \<longleftrightarrow> \<not> (\<exists>a b. s = a @ p @ b)"
proof (induction p s rule: find_str.induct)
  case (1 p)
  then show ?case by auto
next
  case (2 p c cs)
  have "(\<exists>a b. c # cs = a @ p @ b) \<longleftrightarrow> starts_with p (c # cs) \<or> (\<exists>a b. cs = a @ p @ b)"
    by (auto simp: starts_with_iff Cons_eq_append_conv)
  with 2 show ?case by auto
qed

text \<open>\<^verbatim>\<open>std::getline(stream, s, sep)\<close>: nothing is extracted at the end of the stream.\<close>

definition getline_sep :: "char \<Rightarrow> string \<Rightarrow> (string \<times> string) option" where
  "getline_sep sep s = (if s = [] then None
     else Some (takeWhile (\<lambda>c. c \<noteq> sep) s, drop 1 (dropWhile (\<lambda>c. c \<noteq> sep) s)))"

lemma getline_sep_line: "sep \<notin> set l \<Longrightarrow> getline_sep sep (l @ sep # rest) = Some (l, rest)"
  by (induction l) (auto simp: getline_sep_def)

lemma getline_sep_shorter:
  assumes "getline_sep sep s = Some (l, r)"
  shows "length r < length s"
proof -
  from assms have "s \<noteq> []" and r: "r = drop 1 (dropWhile (\<lambda>c. c \<noteq> sep) s)"
    by (auto simp: getline_sep_def split: if_splits)
  have "length (dropWhile (\<lambda>c. c \<noteq> sep) s) \<le> length s" by (rule length_dropWhile_le)
  moreover have "0 < length s" using \<open>s \<noteq> []\<close> by simp
  ultimately show ?thesis unfolding r length_drop by linarith
qed

text \<open>\<^verbatim>\<open>s.c_str()\<close> seen by a C function: the bytes before the first NUL.\<close>

definition c_str :: "string \<Rightarrow> string" where
  "c_str s = takeWhile (\<lambda>c. c \<noteq> CHR 0x00) s"

lemma c_str_Cons: "c_str (c # cs) = (if c = CHR 0x00 then [] else c # c_str cs)"
  by (simp add: c_str_def)

section \<open>Reading doubles\<close>

text \<open>
  \<^verbatim>\<open>strtod\<close> in the C locale: leading white space, an optional sign, then \<^verbatim>\<open>infinity\<close>, \<^verbatim>\<open>inf\<close> or
  \<^verbatim>\<open>nan\<close> (with an optional parenthesised tag) in any case, a hexadecimal number, or a decimal number.  A number is
  a run of digits with at most one point among them and an optional exponent.  The result is the value and the
  unprocessed rest; when nothing can be converted the rest is the whole string.
\<close>

definition starts_with_ci :: "string \<Rightarrow> string \<Rightarrow> bool" where
  "starts_with_ci p s = starts_with p (map tolower s)"

text \<open>The digits of the mantissa: their value without the point, and how many of them follow the point.\<close>

definition read_mantissa :: "nat \<Rightarrow> string \<Rightarrow> (nat \<times> nat \<times> string) option" where
  "read_mantissa base s =
     (let (n, r) = read_digits base 0 s;
          (m, r') = (case r of c # cs \<Rightarrow> if c = CHR ''.'' then read_digits base n cs else (n, r) | [] \<Rightarrow> (n, r));
          k = (if r' = r then 0 else length r - 1 - length r')
      in if length s = length r \<and> k = 0 then None else Some (m, k, r'))"

text \<open>An exponent letter counts only when a digit follows it, after an optional sign.\<close>

definition read_exponent :: "char \<Rightarrow> string \<Rightarrow> int \<times> string" where
  "read_exponent letter s =
     (case s of
        [] \<Rightarrow> (0, s)
      | c # cs \<Rightarrow>
          (let (neg, t) = strip_sign cs in
           if tolower c = letter \<and> t \<noteq> [] \<and> isdigit (hd t)
           then (let (e, r) = read_digits 10 0 t in (if neg then - int e else int e, r))
           else (0, s)))"

definition scale_by :: "rat \<Rightarrow> int \<Rightarrow> rat" where
  "scale_by b e = (if 0 \<le> e then b ^ nat e else 1 / b ^ nat (- e))"

definition nan_tag :: "string \<Rightarrow> string" where
  "nan_tag s =
     (case s of
        c # cs \<Rightarrow>
          (let t = dropWhile (\<lambda>d. isdigit d \<or> isalpha d \<or> d = CHR ''_'') cs
           in if c = CHR ''('' \<and> t \<noteq> [] \<and> hd t = CHR '')'' then tl t else s)
      | [] \<Rightarrow> s)"

definition strtod :: "string \<Rightarrow> double \<times> string" where
  "strtod s =
     (let (neg, t) = strip_sign (dropWhile isspace s);
          sgn_of = (\<lambda>q. if neg then - q else q)
      in if starts_with_ci ''infinity'' t then (Infinity neg, drop 8 t)
         else if starts_with_ci ''inf'' t then (Infinity neg, drop 3 t)
         else if starts_with_ci ''nan'' t then (NaN neg, nan_tag (drop 3 t))
         else case (if starts_with_ci ''0x'' t then read_mantissa 16 (drop 2 t) else None) of
           Some (m, k, r) \<Rightarrow>
             (let (e, r') = read_exponent CHR ''p'' r
              in (Finite (sgn_of (of_nat m * scale_by 2 (e - 4 * int k))), r'))
         | None \<Rightarrow>
             (case read_mantissa 10 t of
                None \<Rightarrow> (Finite 0, s)
              | Some (m, k, r) \<Rightarrow>
                  (let (e, r') = read_exponent CHR ''e'' r
                   in (Finite (sgn_of (of_nat m * scale_by 10 (e - int k))), r'))))"

text \<open>
  \<^verbatim>\<open>std::stod\<close> throws when nothing is converted and when the value leaves the range of normal doubles.
\<close>

definition double_range_error :: "double \<Rightarrow> bool" where
  "double_range_error d = (case d of
       Finite q \<Rightarrow> 2 ^ 1024 - 2 ^ 970 \<le> \<bar>q\<bar> \<or> q \<noteq> 0 \<and> \<bar>q\<bar> < 1 / 2 ^ 1022
     | _ \<Rightarrow> False)"

definition stod :: "string \<Rightarrow> double res" where
  "stod s =
     (let (v, rest) = strtod (c_str s)
      in if rest = c_str s then Inl (Invalid_argument ''stod'')
         else if double_range_error v then Inl (Out_of_range ''stod'')
         else Inr v)"

lemma stod_exn: "stod s = Inl e \<Longrightarrow> e = Invalid_argument ''stod'' \<or> e = Out_of_range ''stod''"
  by (auto simp: stod_def split: prod.splits if_splits)

lemma stoi_exn: "stoi s = Inl e \<Longrightarrow> e = Invalid_argument ''stoi'' \<or> e = Out_of_range ''stoi''"
  by (auto simp: stoi_def split: prod.splits if_splits)

lemma stoi_range: "stoi s = Inr v \<Longrightarrow> - (2 ^ 31) \<le> v \<and> v < 2 ^ 31"
  by (auto simp: stoi_def not_less not_le split: prod.splits if_splits)

section \<open>Lists\<close>

lemma takeWhile_dropWhile_mem: "dropWhile P xs = [] \<longleftrightarrow> (\<forall>x\<in>set xs. P x)"
  by (induction xs) auto

lemma dropWhile_idem_hd: "xs = [] \<or> \<not> P (hd xs) \<Longrightarrow> dropWhile P xs = xs"
  by (cases xs) auto

lemma set_nth_ball: "(\<forall>i<length xs. P (xs ! i)) \<longleftrightarrow> (\<forall>x\<in>set xs. P x)"
  by (metis in_set_conv_nth nth_mem)

section \<open>Ordered maps\<close>

text \<open>
  \<^verbatim>\<open>std::map\<close> is an association list in the order of its keys.  \<open>map_insert\<close> is \<^verbatim>\<open>insert\<close> and \<^verbatim>\<open>emplace\<close>: the entry of
  a key that is present is kept.  Strings are ordered lexicographically by bytes.
\<close>

fun str_less :: "string \<Rightarrow> string \<Rightarrow> bool" where
  "str_less _ [] = False"
| "str_less [] (_ # _) = True"
| "str_less (a # as) (b # bs) = ((of_char a :: nat) < of_char b \<or> a = b \<and> str_less as bs)"

fun place_key :: "('k \<Rightarrow> 'k \<Rightarrow> bool) \<Rightarrow> 'k \<times> 'a \<Rightarrow> ('k \<times> 'a) list \<Rightarrow> ('k \<times> 'a) list" where
  "place_key lt kv [] = [kv]"
| "place_key lt kv ((k, v) # m) =
     (if lt (fst kv) k then kv # (k, v) # m else (k, v) # place_key lt kv m)"

definition map_insert :: "('k \<Rightarrow> 'k \<Rightarrow> bool) \<Rightarrow> 'k \<times> 'a \<Rightarrow> ('k \<times> 'a) list \<Rightarrow> ('k \<times> 'a) list" where
  "map_insert lt kv m = (if map_of m (fst kv) = None then place_key lt kv m else m)"

lemma place_key_of: "map_of m k = None \<Longrightarrow> map_of (place_key lt (k, v) m) = (map_of m)(k \<mapsto> v)"
  by (induction lt "(k, v)" m rule: place_key.induct) (auto split: if_splits)

lemma map_insert_of: "map_of (map_insert lt (k, v) m) k' =
    (if k' = k then (case map_of m k of None \<Rightarrow> Some v | Some w \<Rightarrow> Some w) else map_of m k')"
  by (auto simp: map_insert_def place_key_of split: option.split)

lemma str_less_irrefl [simp]: "\<not> str_less a a"
  by (induction a) auto

lemma str_less_asym: "str_less a b \<Longrightarrow> \<not> str_less b a"
  by (induction a b rule: str_less.induct) auto

text \<open>Inserting entries in key order appends them.\<close>

lemma place_key_last: "\<forall>k'\<in>set (map fst m). \<not> lt k k' \<Longrightarrow> place_key lt (k, v) m = m @ [(k, v)]"
  by (induction lt "(k, v)" m rule: place_key.induct) auto

lemma fold_map_insert_sorted:
  assumes "\<And>a b. lt a b \<Longrightarrow> \<not> lt b a" "\<And>a. \<not> lt a a"
  shows "sorted_wrt lt (map fst (m @ kvs)) \<Longrightarrow> fold (map_insert lt) kvs m = m @ kvs"
proof (induction kvs arbitrary: m)
  case (Cons kv kvs)
  obtain k v where kv: "kv = (k, v)" by fastforce
  have ltk: "lt k' k" if "k' \<in> set (map fst m)" for k'
    using Cons.prems that by (auto simp: kv sorted_wrt_append)
  then have "\<forall>k'\<in>set (map fst m). \<not> lt k k'" using ltk assms(1) by blast
  moreover have "map_of m k = None"
    using ltk assms(2) by (auto simp: map_of_eq_None_iff)
  ultimately have "map_insert lt kv m = m @ [kv]" by (simp add: kv map_insert_def place_key_last)
  then show ?case using Cons.IH [of "m @ [kv]"] Cons.prems by simp
qed simp

text \<open>The comparison of a \<^verbatim>\<open>std::map\<close> is a strict linear order; then inserting keeps the entries in key order.\<close>

locale key_order =
  fixes lt :: "'k \<Rightarrow> 'k \<Rightarrow> bool"
  assumes lt_irrefl: "\<not> lt a a"
    and lt_trans: "lt a b \<Longrightarrow> lt b c \<Longrightarrow> lt a c"
    and lt_total: "a \<noteq> b \<Longrightarrow> \<not> lt a b \<Longrightarrow> lt b a"
begin

lemma lt_asym: "lt a b \<Longrightarrow> \<not> lt b a"
  using lt_irrefl lt_trans by blast

lemma set_place_key: "set (place_key lt kv m) = insert kv (set m)"
  by (induction lt kv m rule: place_key.induct) auto

lemma place_key_sorted:
  "\<lbrakk>sorted_wrt lt (map fst m); fst kv \<notin> fst ` set m\<rbrakk> \<Longrightarrow> sorted_wrt lt (map fst (place_key lt kv m))"
proof (induction m)
  case (Cons e m)
  obtain k v where e: "e = (k, v)" by fastforce
  have before: "lt k k'" if "k' \<in> fst ` set m" for k' using Cons.prems(1) that by (auto simp: e)
  show ?case
  proof (cases "lt (fst kv) k")
    case True
    then show ?thesis using Cons.prems(1) before lt_trans [OF True] by (auto simp: e)
  next
    case False
    then have "lt k (fst kv)" using lt_total Cons.prems(2) by (auto simp: e)
    moreover have "sorted_wrt lt (map fst (place_key lt kv m))" using Cons by simp
    ultimately show ?thesis using False before by (auto simp: e set_place_key)
  qed
qed simp

lemma map_insert_sorted: "sorted_wrt lt (map fst m) \<Longrightarrow> sorted_wrt lt (map fst (map_insert lt kv m))"
  by (auto simp: map_insert_def map_of_eq_None_iff place_key_sorted)

lemma set_map_insert: "set (map_insert lt kv m) \<subseteq> insert kv (set m)"
  by (auto simp: map_insert_def set_place_key)

end

lemma str_less_trans: "str_less a b \<Longrightarrow> str_less b c \<Longrightarrow> str_less a c"
proof (induction a b arbitrary: c rule: str_less.induct)
  case (3 a as b bs)
  then show ?case by (cases c) auto
next
  case (2 x xs)
  then show ?case by (cases c) auto
qed simp

lemma str_less_total: "a \<noteq> b \<Longrightarrow> \<not> str_less a b \<Longrightarrow> str_less b a"
proof (induction a b rule: str_less.induct)
  case (1 a)
  then show ?case by (cases a) auto
next
  case (3 a as b bs)
  have "a = b" if "(of_char a :: nat) = of_char b" using that by simp
  with 3 show ?case by (auto simp: not_less le_less)
qed simp

interpretation strs: key_order str_less
  by unfold_locales (auto intro: str_less_trans str_less_total)

end
