(* ===== verification/Gtfs_Misc.thy ===== *)
theory Gtfs_Misc
  imports Prelude
begin

text \<open>
  The helpers of \<^verbatim>\<open>gtfs/misc.h\<close> and \<^verbatim>\<open>gtfs/misc.cpp\<close>: zero padding, joining and quoting of CSV
  fields, white-space trimming, and the translations between GTFS route-type codes, route types
  and their names.
\<close>

section \<open>Definitions\<close>

definition csv_separator :: char where
  "csv_separator = CHR '',''"

definition quote :: char where
  "quote = CHR 0x22"

definition append_leading_zero :: "string \<Rightarrow> bool \<Rightarrow> string res" where
  "append_leading_zero s check =
     (if check \<and> 2 < length s
      then Inl (Invalid_field_format (''The string for appending zero is too long: '' @ s))
      else if length s = 2 then Inr s
      else Inr (CHR ''0'' # s))"

definition add_trailing_slash :: "string \<Rightarrow> string" where
  "add_trailing_slash path = (if path \<noteq> [] \<and> last path \<noteq> CHR ''/'' then path @ ''/'' else path)"

text \<open>\<open>write_joined\<close> is the text appended to the stream, without and with the final \<^verbatim>\<open>std::endl\<close>.\<close>

fun join_fields :: "string list \<Rightarrow> string" where
  "join_fields [] = []"
| "join_fields [e] = e"
| "join_fields (e # f # es) = e @ [csv_separator] @ join_fields (f # es)"

definition write_joined :: "string list \<Rightarrow> string" where
  "write_joined elements = join_fields elements @ [CHR 0x0A]"

text \<open>The loop of \<open>unquote_text\<close>, with its two flags.\<close>

fun unquote_loop :: "bool \<Rightarrow> bool \<Rightarrow> string \<Rightarrow> string" where
  "unquote_loop prev_is_quote prev_is_skipped [] = []"
| "unquote_loop prev_is_quote prev_is_skipped (c # cs) =
     (if c \<noteq> quote then c # unquote_loop False False cs
      else if prev_is_quote then
        (if prev_is_skipped then c # unquote_loop True False cs else unquote_loop True True cs)
      else c # unquote_loop True prev_is_skipped cs)"

definition unquote_text :: "string \<Rightarrow> string" where
  "unquote_text text =
     (if 1 < length text \<and> hd text = quote \<and> last text = quote
      then unquote_loop False False (butlast (tl text))
      else unquote_loop False False text)"

text \<open>\<^verbatim>\<open>std::quoted(text, quote, quote)\<close> doubles every quotation mark and adds the delimiters.\<close>

fun escape_quotes :: "string \<Rightarrow> string" where
  "escape_quotes [] = []"
| "escape_quotes (c # cs) = (if c = quote then [quote, quote] else [c]) @ escape_quotes cs"

definition quote_text :: "string \<Rightarrow> string" where
  "quote_text text = [quote] @ escape_quotes text @ [quote]"

definition wrap :: "string \<Rightarrow> string" where
  "wrap text = (if \<forall>c\<in>set text. c \<noteq> quote \<and> c \<noteq> csv_separator then text else quote_text text)"

definition wrap_double :: "double \<Rightarrow> string" where
  "wrap_double val = fixed_double 6 val"

definition wrap_enum :: "int \<Rightarrow> string" where
  "wrap_enum val = int_to_string val"

definition is_delimiter :: "char \<Rightarrow> bool" where
  "is_delimiter c \<longleftrightarrow> c = CHR '' '' \<or> c = CHR 0x09"

definition trim_spaces :: "string \<Rightarrow> string" where
  "trim_spaces token = rev (dropWhile is_delimiter (rev (dropWhile is_delimiter token)))"

definition normalize_token :: "string \<Rightarrow> bool \<Rightarrow> string" where
  "normalize_token token has_quotes =
     (let res = trim_spaces token in if has_quotes then unquote_text res else res)"

subsection \<open>Route types\<close>

text \<open>
  \<^verbatim>\<open>enum class route_type\<close> has underlying type \<^verbatim>\<open>int\<close>, and the reader casts arbitrary integers to
  it, so a route type is an integer; the enumerators the functions below mention are constants.
\<close>

datatype route_type = Route_type (rt_code: int)

definition Tram :: route_type where "Tram = Route_type 0"
definition Subway :: route_type where "Subway = Route_type 1"
definition Rail :: route_type where "Rail = Route_type 2"
definition Bus :: route_type where "Bus = Route_type 3"
definition Ferry :: route_type where "Ferry = Route_type 4"
definition CableTram :: route_type where "CableTram = Route_type 5"
definition AerialLift :: route_type where "AerialLift = Route_type 6"
definition Funicular :: route_type where "Funicular = Route_type 7"
definition Trolleybus :: route_type where "Trolleybus = Route_type 11"
definition Monorail :: route_type where "Monorail = Route_type 12"
definition CoachService :: route_type where "CoachService = Route_type 200"

lemmas route_type_defs = Tram_def Subway_def Rail_def Bus_def Ferry_def CableTram_def
  AerialLift_def Funicular_def Trolleybus_def Monorail_def CoachService_def

definition get_route_type :: "int \<Rightarrow> route_type res" where
  "get_route_type t =
     (if t \<in> {2, 100, 101, 102, 103, 104, 105, 106, 107, 108, 109, 110, 111, 112, 113, 114, 115,
              117, 300, 400, 403, 404, 405, 1503} then Inr Rail
      else if t = 3 then Inr Bus
      else if t \<in> {200, 201, 202, 203, 204, 205, 206, 207, 208, 209} then Inr CoachService
      else if t \<in> {700, 701, 702, 703, 704, 705, 706, 707, 708, 709, 710, 711, 712, 713, 714, 715,
                    716, 717, 800, 1500, 1501, 1505, 1506, 1507} then Inr Bus
      else if t \<in> {1, 401, 402, 500, 600} then Inr Subway
      else if t \<in> {0, 900, 901, 902, 903, 904, 905, 906} then Inr Tram
      else if t \<in> {4, 1000, 1200, 1502} then Inr Ferry
      else if t \<in> {6, 1300, 1301, 1304, 1306, 1307} then Inr AerialLift
      else if t \<in> {7, 116, 1303, 1302, 1400} then Inr Funicular
      else if t = 5 then Inr CableTram
      else if t = 11 then Inr Trolleybus
      else Inl (Invalid_field_format ''invalid route type provided''))"

text \<open>
  The name table has 12 entries; the index is the enumerator cast to \<^verbatim>\<open>size_t\<close>.  \<open>None\<close> is a read
  outside of the array.
\<close>

definition route_type_names :: "string list" where
  "route_type_names = [''tram'', ''subway'', ''rail'', ''bus'', ''ferry'', ''cablecar'',
     ''gondola'', ''funicular'', '''', '''', '''', ''trolleybus'']"

definition get_route_type_string :: "route_type \<Rightarrow> string option" where
  "get_route_type_string t =
     (if t = CoachService then Some ''coach''
      else if 0 \<le> rt_code t \<and> rt_code t < 12 then Some (route_type_names ! nat (rt_code t))
      else None)"

text \<open>
  The number in front is read by \<^verbatim>\<open>strtol\<close> on the C string (up to the first NUL), clamped to
  \<^verbatim>\<open>long\<close>, and passed on as an \<^verbatim>\<open>int\<close>.
\<close>

definition clamp_long :: "int \<Rightarrow> int" where
  "clamp_long v = max (- (2 ^ 63)) (min (2 ^ 63 - 1) v)"

definition long_to_int :: "int \<Rightarrow> int" where
  "long_to_int v = sint (word_of_int v :: 32 word)"

definition get_route_types_from_string :: "string \<Rightarrow> route_type set res" where
  "get_route_types_from_string name =
     (if name = [] then Inr {}
      else case strtol 10 (c_str name) of (v, rem) \<Rightarrow>
        if rem = [] then exn_bind (get_route_type (long_to_int (clamp_long v))) (\<lambda>i. Inr {i})
        else (let name = map tolower name in
          if name = ''all'' then
            Inr {Tram, Subway, Rail, Bus, CoachService, Ferry, CableTram, AerialLift, Funicular,
                 Trolleybus}
          else if name = ''bus'' then Inr {Bus}
          else if name = ''trolley'' \<or> name = ''trolleybus'' \<or> name = ''trolley-bus''
            then Inr {Trolleybus}
          else if name = ''tram'' \<or> name = ''streetcar'' \<or> name = ''light_rail'' \<or>
                  name = ''lightrail'' \<or> name = ''light-rail'' then Inr {Tram}
          else if name = ''train'' \<or> name = ''rail'' then Inr {Rail}
          else if name = ''ferry'' \<or> name = ''boat'' \<or> name = ''ship'' then Inr {Ferry}
          else if name = ''subway'' \<or> name = ''metro'' then Inr {Subway}
          else if name = ''cablecar'' \<or> name = ''cable_car'' \<or> name = ''cable-car''
            then Inr {CableTram}
          else if name = ''gondola'' then Inr {AerialLift}
          else if name = ''funicular'' then Inr {Funicular}
          else if name = ''coach'' then Inr {CoachService}
          else Inr {}))"

text \<open>\<^verbatim>\<open>std::hex\<close> with fill \<^verbatim>\<open>'0'\<close> and width 6.\<close>

definition hex_digit :: "nat \<Rightarrow> char" where
  "hex_digit d = (if d < 10 then digit_char d else char_of (87 + d))"

fun to_hex :: "nat \<Rightarrow> string" where
  "to_hex n = (if n < 16 then [hex_digit n] else to_hex (n div 16) @ [hex_digit (n mod 16)])"

declare to_hex.simps [simp del]

definition get_hex_color_string :: "u32 \<Rightarrow> string" where
  "get_hex_color_string color = pad_left 6 (to_hex (unat color))"

section \<open>Quoting\<close>

lemma quote_neq_separator [simp]: "quote \<noteq> csv_separator" "csv_separator \<noteq> quote"
  by (simp_all add: quote_def csv_separator_def)

lemma not_delimiter_special [simp]: "\<not> is_delimiter quote" "\<not> is_delimiter csv_separator"
  by (simp_all add: is_delimiter_def quote_def csv_separator_def)

lemma unquote_loop_escape:
  "f = g \<Longrightarrow> unquote_loop f g (escape_quotes s) = s"
  by (induction s arbitrary: f g) auto

lemma unquote_quote_text: "unquote_text (quote_text s) = s"
  by (simp add: unquote_text_def quote_text_def unquote_loop_escape)

lemma quote_text_ends:
  "quote_text s \<noteq> []" "hd (quote_text s) = quote" "last (quote_text s) = quote"
  by (simp_all add: quote_text_def)

section \<open>Trimming\<close>

lemma dropWhile_rev_id:
  "s = [] \<or> \<not> P (last s) \<Longrightarrow> rev (dropWhile P (rev s)) = s"
  by (cases s rule: rev_cases) auto

lemma trim_spaces_id:
  assumes "s = [] \<or> (\<not> is_delimiter (hd s) \<and> \<not> is_delimiter (last s))"
  shows "trim_spaces s = s"
  using assms by (auto simp: trim_spaces_def dropWhile_idem_hd dropWhile_rev_id)

lemma trim_spaces_ends:
  "trim_spaces s \<noteq> [] \<Longrightarrow>
     \<not> is_delimiter (hd (trim_spaces s)) \<and> \<not> is_delimiter (last (trim_spaces s))"
proof -
  let ?t = "dropWhile is_delimiter s"
  assume ne: "trim_spaces s \<noteq> []"
  then have t: "dropWhile is_delimiter (rev ?t) \<noteq> []"
    by (auto simp: trim_spaces_def)
  then have "\<not> is_delimiter (hd (dropWhile is_delimiter (rev ?t)))"
    using hd_dropWhile by blast
  then have last: "\<not> is_delimiter (last (trim_spaces s))"
    using t by (simp add: trim_spaces_def last_rev)
  have tne: "?t \<noteq> []" using t by (metis dropWhile.simps(1) rev.simps(1))
  then have hd: "\<not> is_delimiter (hd ?t)" using hd_dropWhile by blast
  have "rev ?t = takeWhile is_delimiter (rev ?t) @ dropWhile is_delimiter (rev ?t)" by simp
  then have "?t = trim_spaces s @ rev (takeWhile is_delimiter (rev ?t))"
    by (metis rev_append rev_rev_ident trim_spaces_def)
  with ne have "hd (trim_spaces s) = hd ?t" by (metis hd_append2)
  with hd last show ?thesis by simp
qed

lemma trim_spaces_idem: "trim_spaces (trim_spaces s) = trim_spaces s"
  using trim_spaces_ends [of s] trim_spaces_id by blast

section \<open>Route types\<close>

lemma route_type_switch_range:
  "(if a then Inr Rail else if b then Inr Bus else if c then Inr CoachService
    else if d then Inr Bus else if e then Inr Subway else if f then Inr Tram
    else if g then Inr Ferry else if h then Inr AerialLift else if i then Inr Funicular
    else if j then Inr CableTram else if k then Inr Trolleybus else Inl x) = Inr t \<Longrightarrow>
   t \<in> {Rail, Bus, CoachService, Subway, Tram, Ferry, AerialLift, Funicular, CableTram, Trolleybus}"
  by (auto split: if_splits)

lemma get_route_type_range:
  "get_route_type n = Inr t \<Longrightarrow>
     t \<in> {Rail, Bus, CoachService, Subway, Tram, Ferry, AerialLift, Funicular, CableTram, Trolleybus}"
  unfolding get_route_type_def by (rule route_type_switch_range)

lemma route_types_of_names:
  "get_route_types_from_string ''tram'' = Inr {Tram}"
  "get_route_types_from_string ''subway'' = Inr {Subway}"
  "get_route_types_from_string ''rail'' = Inr {Rail}"
  "get_route_types_from_string ''bus'' = Inr {Bus}"
  "get_route_types_from_string ''ferry'' = Inr {Ferry}"
  "get_route_types_from_string ''cablecar'' = Inr {CableTram}"
  "get_route_types_from_string ''gondola'' = Inr {AerialLift}"
  "get_route_types_from_string ''funicular'' = Inr {Funicular}"
  "get_route_types_from_string ''trolleybus'' = Inr {Trolleybus}"
  "get_route_types_from_string ''coach'' = Inr {CoachService}"
  by (simp_all add: get_route_types_from_string_def c_str_Cons strtol_alpha isalpha_def
      isupper_def islower_def tolower_def)

lemma route_type_strings:
  "get_route_type_string Tram = Some ''tram''"
  "get_route_type_string Subway = Some ''subway''"
  "get_route_type_string Rail = Some ''rail''"
  "get_route_type_string Bus = Some ''bus''"
  "get_route_type_string Ferry = Some ''ferry''"
  "get_route_type_string CableTram = Some ''cablecar''"
  "get_route_type_string AerialLift = Some ''gondola''"
  "get_route_type_string Funicular = Some ''funicular''"
  "get_route_type_string Trolleybus = Some ''trolleybus''"
  "get_route_type_string CoachService = Some ''coach''"
  by (simp_all add: get_route_type_string_def route_type_names_def route_type_defs
      nat_eq_iff nth_Cons')

text \<open>
  C35: every GTFS route-type code that \<open>get_route_type\<close> accepts is mapped to a route type whose
  name lies inside the name table of \<open>get_route_type_string\<close>, and parsing that name with
  \<open>get_route_types_from_string\<close> gives back exactly that route type.
\<close>

theorem route_type_name_roundtrip:
  assumes "get_route_type n = Inr t"
  shows "\<exists>s. get_route_type_string t = Some s \<and> get_route_types_from_string s = Inr {t}"
  using get_route_type_range [OF assms]
  by (auto simp: route_type_strings route_types_of_names)

theorem route_type_name_roundtrip_witness:
  "get_route_type 1303 = Inr Funicular \<and>
   (\<exists>s. get_route_type_string Funicular = Some s \<and>
        get_route_types_from_string s = Inr {Funicular})"
proof -
  have h: "get_route_type 1303 = Inr Funicular" by (simp add: get_route_type_def)
  show ?thesis using h route_type_name_roundtrip [OF h] by blast
qed

text \<open>
  \<open>get_route_type_string\<close> reads outside of its 12-entry name table exactly for the route types
  other than the coach service whose code is negative or at least 12; the enumerator
  \<^verbatim>\<open>Monorail\<close> of \<^verbatim>\<open>route_type.h\<close> is one of them.
\<close>

lemma route_type_string_out_of_bounds:
  "(get_route_type_string t = None \<longleftrightarrow>
     rt_code t \<noteq> 200 \<and> (rt_code t < 0 \<or> length route_type_names \<le> nat (rt_code t))) \<and>
   get_route_type_string Monorail = None"
  by (cases t) (auto simp: get_route_type_string_def route_type_defs route_type_names_def)

end
