(* ===== verification/Csv_Parser.thy ===== *)
theory Csv_Parser
  imports Gtfs_Misc "HOL-Library.AList"
begin

text \<open>
  \<^verbatim>\<open>gtfs/access/csv_parser.cpp\<close>: splitting one CSV record into fields, and the parser object that
  reads the header and the rows of a file.  The file system is a parameter \<open>fs\<close> that maps a path
  to the content of the file; the open \<^verbatim>\<open>ifstream\<close> is the part of the content not yet read.
\<close>

section \<open>Definitions\<close>

datatype result_code =
    OK
  | END_OF_FILE
  | ERROR_INVALID_GTFS_PATH
  | ERROR_FILE_ABSENT
  | ERROR_REQUIRED_FIELD_ABSENT
  | ERROR_INVALID_FIELD_FORMAT

record result =
  code :: result_code
  message :: string

definition mk_result :: "result_code \<Rightarrow> string \<Rightarrow> result" where
  "mk_result c m = \<lparr>code = c, message = m\<rparr>"

text \<open>The loop of \<open>split_record\<close>; \<open>token\<close> is the field read so far.\<close>

fun split_loop :: "string \<Rightarrow> bool \<Rightarrow> bool \<Rightarrow> string \<Rightarrow> string list" where
  "split_loop token is_inside_quotes quotes_in_token [] = [normalize_token token quotes_in_token]"
| "split_loop token is_inside_quotes quotes_in_token (c # cs) =
     (if c = quote then split_loop (token @ [c]) (\<not> is_inside_quotes) True cs
      else if c = csv_separator then
        (if is_inside_quotes then split_loop (token @ [c]) is_inside_quotes quotes_in_token cs
         else normalize_token token quotes_in_token # split_loop [] is_inside_quotes False cs)
      else if c \<noteq> CHR 0x09 \<and> c \<noteq> CHR 0x0D
        then split_loop (token @ [c]) is_inside_quotes quotes_in_token cs
      else split_loop token is_inside_quotes quotes_in_token cs)"

definition utf8_bom :: string where
  "utf8_bom = [CHR 0xEF, CHR 0xBB, CHR 0xBF]"

definition split_record :: "string \<Rightarrow> bool \<Rightarrow> string list" where
  "split_record record is_header =
     split_loop [] False False
       (if is_header \<and> 2 < length record \<and> take 3 record = utf8_bom then drop 3 record else record)"

abbreviation getline :: "string \<Rightarrow> (string \<times> string) option" where
  "getline \<equiv> getline_sep (CHR 0x0A)"

record csv_parser =
  field_sequence :: "string list"
  gtfs_path :: string
  csv_stream :: "string option"

definition csv_parser_init :: "string \<Rightarrow> csv_parser" where
  "csv_parser_init gtfs_directory =
     \<lparr>field_sequence = [], gtfs_path = gtfs_directory, csv_stream = None\<rparr>"

definition read_header :: "(string \<Rightarrow> string option) \<Rightarrow> string \<Rightarrow> csv_parser \<Rightarrow> result \<times> csv_parser" where
  "read_header fs csv_filename p =
     (let p = p\<lparr>csv_stream := fs (gtfs_path p @ csv_filename)\<rparr> in
      case csv_stream p of
        None \<Rightarrow> (mk_result ERROR_FILE_ABSENT (''File '' @ csv_filename @ '' could not be opened''), p)
      | Some content \<Rightarrow>
          (case getline content of
             None \<Rightarrow> (mk_result ERROR_INVALID_FIELD_FORMAT (''Empty header in file '' @ csv_filename), p)
           | Some (header, rest) \<Rightarrow>
               (let p = p\<lparr>csv_stream := Some rest\<rparr> in
                if header = []
                then (mk_result ERROR_INVALID_FIELD_FORMAT (''Empty header in file '' @ csv_filename), p)
                else (mk_result OK [], p\<lparr>field_sequence := split_record header True\<rparr>))))"

text \<open>
  The row object is a \<^verbatim>\<open>std::map\<close> from field names to values: an association list with distinct
  keys, in which a later assignment to a key replaces an earlier one.
\<close>

type_synonym parsed_csv_row = "(string \<times> string) list"

fun assign_fields :: "string list \<Rightarrow> string list \<Rightarrow> parsed_csv_row \<Rightarrow> parsed_csv_row" where
  "assign_fields (f # fs) (v # vs) obj = assign_fields fs vs (AList.update f v obj)"
| "assign_fields _ _ obj = obj"

definition read_row :: "csv_parser \<Rightarrow> result \<times> parsed_csv_row \<times> csv_parser" where
  "read_row p =
     (case Option.bind (csv_stream p) getline of
        None \<Rightarrow> (mk_result END_OF_FILE [], [], p)
      | Some (row, rest) \<Rightarrow>
          (let p = p\<lparr>csv_stream := Some rest\<rparr> in
           if row = [CHR 0x0D] then (mk_result OK [], [], p)
           else (mk_result OK [], assign_fields (field_sequence p) (split_record row False) [], p)))"

section \<open>Splitting inverts joining\<close>

text \<open>
  The fields that survive being written: no tabs and line ends, and no blanks at the ends unless
  the field is quoted because of a comma or a quotation mark.
\<close>

definition needs_quotes :: "string \<Rightarrow> bool" where
  "needs_quotes f \<longleftrightarrow> quote \<in> set f \<or> csv_separator \<in> set f"

definition csv_safe :: "string \<Rightarrow> bool" where
  "csv_safe f \<longleftrightarrow> (\<forall>c\<in>set f. c \<noteq> CHR 0x09 \<and> c \<noteq> CHR 0x0D \<and> c \<noteq> CHR 0x0A) \<and>
     (f = [] \<or> needs_quotes f \<or> (hd f \<noteq> CHR '' '' \<and> last f \<noteq> CHR '' ''))"

lemma wrap_eq: "wrap f = (if needs_quotes f then quote_text f else f)"
  by (auto simp: wrap_def needs_quotes_def)

lemma split_loop_plain:
  assumes "\<forall>c\<in>set f. c \<noteq> quote \<and> c \<noteq> csv_separator \<and> c \<noteq> CHR 0x09 \<and> c \<noteq> CHR 0x0D"
  shows "split_loop tok inside q (f @ rest) = split_loop (tok @ f) inside q rest"
  using assms by (induction f arbitrary: tok) auto

lemma split_loop_escaped:
  assumes "\<forall>c\<in>set f. c \<noteq> CHR 0x09 \<and> c \<noteq> CHR 0x0D"
  shows "split_loop tok True True (escape_quotes f @ rest) =
         split_loop (tok @ escape_quotes f) True True rest"
  using assms by (induction f arbitrary: tok) auto

lemma split_loop_wrap:
  assumes "csv_safe f"
  shows "split_loop [] False False (wrap f @ rest) = split_loop (wrap f) False (needs_quotes f) rest"
proof (cases "needs_quotes f")
  case True
  then show ?thesis
    using assms by (simp add: wrap_eq quote_text_def csv_safe_def split_loop_escaped)
next
  case False
  then have w: "wrap f = f" by (simp add: wrap_eq)
  have "\<forall>c\<in>set f. c \<noteq> quote \<and> c \<noteq> csv_separator \<and> c \<noteq> CHR 0x09 \<and> c \<noteq> CHR 0x0D"
    using assms False unfolding csv_safe_def needs_quotes_def by metis
  from split_loop_plain [OF this] False show ?thesis unfolding w by simp
qed

lemma normalize_wrap:
  assumes "csv_safe f"
  shows "normalize_token (wrap f) (needs_quotes f) = f"
proof (cases "needs_quotes f")
  case True
  have "trim_spaces (quote_text f) = quote_text f"
    by (rule trim_spaces_id) (simp add: quote_text_ends)
  with True show ?thesis
    by (simp add: wrap_eq normalize_token_def unquote_quote_text)
next
  case False
  have "trim_spaces f = f"
  proof (rule trim_spaces_id, cases "f = []")
    case f: False
    then show "f = [] \<or> \<not> is_delimiter (hd f) \<and> \<not> is_delimiter (last f)"
      using assms False by (auto simp: csv_safe_def is_delimiter_def)
  qed simp
  with False show ?thesis by (simp add: wrap_eq normalize_token_def)
qed

lemma split_loop_joined:
  "\<lbrakk>flds \<noteq> []; \<forall>f\<in>set flds. csv_safe f\<rbrakk> \<Longrightarrow>
     split_loop [] False False (join_fields (map wrap flds)) = flds"
proof (induction flds rule: join_fields.induct)
  case (2 f)
  then show ?case using split_loop_wrap [of f "[]"] by (simp add: normalize_wrap)
next
  case (3 f g fs)
  then show ?case by (simp add: split_loop_wrap normalize_wrap)
qed simp

text \<open>
  C29: splitting is a left inverse of writing.  A non-empty record whose fields contain no tab or line
  end, and no blank at either end unless they contain a comma or quotation mark, is read back field
  by field after every field was wrapped and the fields were joined with commas.
\<close>

theorem split_record_join_roundtrip:
  assumes "flds \<noteq> []" "\<forall>f\<in>set flds. csv_safe f"
  shows "split_record (join_fields (map wrap flds)) False = flds"
  using assms by (simp add: split_record_def split_loop_joined)

theorem split_record_join_roundtrip_witness:
  "split_record (join_fields (map wrap [''27681'', ''Sisters, OR'', [], [quote] @ '' x ''])) False =
     [''27681'', ''Sisters, OR'', [], [quote] @ '' x '']"
  by (rule split_record_join_roundtrip)
    (auto simp: csv_safe_def needs_quotes_def quote_def csv_separator_def)

section \<open>Reading rows\<close>

lemma map_of_assign_fields:
  "\<lbrakk>distinct fs; k \<notin> set fs\<rbrakk> \<Longrightarrow> map_of (assign_fields fs vs obj) k = map_of obj k"
  by (induction fs vs obj rule: assign_fields.induct) (auto simp: update_conv)

lemma map_of_assign_fields_nth:
  "\<lbrakk>distinct fs; i < length fs; i < length vs\<rbrakk> \<Longrightarrow>
     map_of (assign_fields fs vs obj) (fs ! i) = Some (vs ! i)"
proof (induction fs vs obj arbitrary: i rule: assign_fields.induct)
  case (1 f fs v vs obj)
  then show ?case
    by (cases i) (auto simp: map_of_assign_fields update_conv)
qed auto

lemma assign_fields_not_Nil: "obj \<noteq> [] \<Longrightarrow> assign_fields fs vs obj \<noteq> []"
  by (induction fs vs obj rule: assign_fields.induct) (auto simp: update_nonempty)

lemma join_fields_no_newline:
  "\<forall>f\<in>set flds. CHR 0x0A \<notin> set f \<Longrightarrow> CHR 0x0A \<notin> set (join_fields flds)"
  by (induction flds rule: join_fields.induct) (auto simp: csv_separator_def)

lemma set_escape_quotes: "set (escape_quotes f) = set f"
  by (induction f) auto

lemma set_wrap: "set (wrap f) \<subseteq> insert quote (set f)"
  by (auto simp: wrap_eq quote_text_def set_escape_quotes)

lemma csv_safe_wrap: "csv_safe f \<Longrightarrow> CHR 0x0A \<notin> set (wrap f)"
  using set_wrap [of f] by (auto simp: csv_safe_def quote_def)

lemma read_row_written:
  assumes "csv_stream p = Some (write_joined (map wrap vals) @ rest)" "vals \<noteq> []" "\<forall>v\<in>set vals. csv_safe v"
  shows "read_row p = (mk_result OK [], assign_fields (field_sequence p) vals [], p\<lparr>csv_stream := Some rest\<rparr>)"
proof -
  let ?line = "join_fields (map wrap vals)"
  have "CHR 0x0A \<notin> set ?line"
    using assms(3) csv_safe_wrap by (intro join_fields_no_newline) auto
  then have "getline (write_joined (map wrap vals) @ rest) = Some (?line, rest)"
    by (simp add: write_joined_def getline_sep_line)
  moreover have split: "split_record ?line False = vals"
    using assms(2,3) by (simp add: split_record_def split_loop_joined)
  moreover have "?line \<noteq> [CHR 0x0D]"
  proof
    assume cr: "?line = [CHR 0x0D]"
    have "split_record [CHR 0x0D] False = [[]]"
      by (simp add: split_record_def quote_def csv_separator_def normalize_token_def trim_spaces_def)
    with split cr have "vals = [[]]" by simp
    then have "?line = []" by (simp add: wrap_def)
    with cr show False by simp
  qed
  ultimately show ?thesis using assms(1) by (simp add: read_row_def Let_def)
qed

text \<open>
  Reading a row that was written by \<open>write_joined\<close> from wrapped fields succeeds, advances the
  stream to the next line, and yields an object that maps the \<open>i\<close>-th header field to the \<open>i\<close>-th
  value for every column both have, and no other key.
\<close>

theorem read_row_of_written:
  assumes "csv_stream p = Some (write_joined (map wrap vals) @ rest)"
    and "distinct (field_sequence p)" "vals \<noteq> []" "\<forall>v\<in>set vals. csv_safe v"
  shows "\<exists>obj. read_row p = (mk_result OK [], obj, p\<lparr>csv_stream := Some rest\<rparr>) \<and>
     (\<forall>i. i < length (field_sequence p) \<longrightarrow> i < length vals \<longrightarrow>
        map_of obj (field_sequence p ! i) = Some (vals ! i)) \<and>
     (\<forall>k. k \<notin> set (field_sequence p) \<longrightarrow> map_of obj k = None)"
  using assms(2) read_row_written [OF assms(1,3,4)]
  by (auto simp: map_of_assign_fields_nth map_of_assign_fields)

theorem read_row_of_written_witness:
  "\<exists>obj. read_row \<lparr>field_sequence = [''stop_id'', ''stop_name''], gtfs_path = [],
        csv_stream = Some (write_joined (map wrap [''7'', ''A, B'']) @ ''next'')\<rparr> =
      (mk_result OK [], obj, \<lparr>field_sequence = [''stop_id'', ''stop_name''], gtfs_path = [],
        csv_stream = Some ''next''\<rparr>) \<and>
     map_of obj ''stop_id'' = Some ''7'' \<and> map_of obj ''stop_name'' = Some ''A, B''"
proof -
  let ?p = "\<lparr>field_sequence = [''stop_id'', ''stop_name''], gtfs_path = [],
        csv_stream = Some (write_joined (map wrap [''7'', ''A, B'']) @ ''next'')\<rparr>"
  have a: "\<forall>v\<in>set [''7'', ''A, B'']. csv_safe v"
    by (auto simp: csv_safe_def needs_quotes_def quote_def csv_separator_def)
  from read_row_of_written [of ?p "[''7'', ''A, B'']" "''next''", OF _ _ _ a]
  obtain obj where "read_row ?p = (mk_result OK [], obj, ?p\<lparr>csv_stream := Some ''next''\<rparr>)"
    and nth: "\<And>i. i < 2 \<Longrightarrow> map_of obj ([''stop_id'', ''stop_name''] ! i) = Some ([''7'', ''A, B''] ! i)"
    by auto
  with nth [of 0] nth [of 1] show ?thesis by simp
qed

end
