(* ===== verification/Gtfs_Time.thy ===== *)
theory Gtfs_Time
  imports Gtfs_Misc
begin

text \<open>
  \<^verbatim>\<open>gtfs/time.h\<close> and \<^verbatim>\<open>gtfs/time.cpp\<close>: the time of day of a GTFS feed, with its three
  constructors, \<open>add_seconds\<close> and \<open>limit_hours_to_24max\<close>.  Hours, minutes and seconds are
  \<^verbatim>\<open>uint16_t\<close>, the total is \<^verbatim>\<open>size_t\<close> (64 bit).
\<close>

section \<open>Definitions\<close>

record time =
  time_is_provided :: bool
  raw_time :: string
  total_seconds :: u64
  hh :: u16
  mm :: u16
  ss :: u16

definition time_default :: time where
  "time_default = \<lparr>time_is_provided = False, raw_time = [], total_seconds = 0,
                   hh = 0, mm = 0, ss = 0\<rparr>"

text \<open>
  The product is computed in \<^verbatim>\<open>int\<close> after integer promotion; with 16-bit operands it stays below
  \<open>2\<^sup>3\<^sup>1\<close>, so it is the exact value.
\<close>

definition set_total_seconds :: "time \<Rightarrow> time" where
  "set_total_seconds t =
     t\<lparr>total_seconds := of_nat (unat (hh t) * 60 * 60 + unat (mm t) * 60 + unat (ss t))\<rparr>"

definition set_raw_time :: "time \<Rightarrow> time res" where
  "set_raw_time t =
     exn_bind (append_leading_zero (to_string (unat (hh t))) False) (\<lambda>hh_str.
     exn_bind (append_leading_zero (to_string (unat (mm t))) True) (\<lambda>mm_str.
     exn_bind (append_leading_zero (to_string (unat (ss t))) True) (\<lambda>ss_str.
     Inr (t\<lparr>raw_time := hh_str @ '':'' @ mm_str @ '':'' @ ss_str\<rparr>))))"

definition limit_hours_to_24max :: "time \<Rightarrow> (bool \<times> time) res" where
  "limit_hours_to_24max t =
     (if unat (hh t) < 24 then Inr (False, t)
      else exn_bind (set_raw_time (set_total_seconds (t\<lparr>hh := hh t mod 24\<rparr>)))
             (\<lambda>t'. Inr (True, t')))"

definition time_of_string :: "string \<Rightarrow> time res" where
  "time_of_string s =
     (if s = [] then Inr time_default
      else
       (let len = length s in
        if \<not> (len = 7 \<or> len = 8) \<or> (s ! (len - 3) \<noteq> CHR '':'' \<and> s ! (len - 6) \<noteq> CHR '':'')
        then Inl (Invalid_field_format (''time is not in [H]H:MM:SS format: '' @ s))
        else
          exn_bind (stoi (take (len - 6) s)) (\<lambda>h.
          exn_bind (stoi (take 2 (drop (len - 5) s))) (\<lambda>m.
          exn_bind (stoi (drop (len - 2) s)) (\<lambda>sec.
          let t = time_default\<lparr>raw_time := s, hh := to_u16 h, mm := to_u16 m, ss := to_u16 sec\<rparr>
          in if 60 < unat (mm t) \<or> 60 < unat (ss t)
             then Inl (Invalid_field_format (''time minutes/seconds wrong value: '' @
                    to_string (unat (mm t)) @ '' minutes, '' @ to_string (unat (ss t)) @ '' seconds''))
             else Inr ((set_total_seconds t)\<lparr>time_is_provided := True\<rparr>))))))"

text \<open>The common tail of the two numeric constructors.\<close>

definition time_finish :: "time \<Rightarrow> time res" where
  "time_finish t =
     (if 60 < unat (mm t) \<or> 60 < unat (ss t)
      then Inl (Invalid_field_format (''time is out of range: '' @ to_string (unat (mm t)) @
             ''minutes '' @ to_string (unat (ss t)) @ ''seconds''))
      else exn_bind (set_raw_time (set_total_seconds t))
             (\<lambda>t'. Inr (t'\<lparr>time_is_provided := True\<rparr>)))"

definition time_of_seconds :: "u64 \<Rightarrow> time res" where
  "time_of_seconds seconds =
     (let h = ucast (seconds div 3600);
          seconds = seconds mod 3600
      in time_finish (time_default\<lparr>hh := h, mm := ucast (seconds div 60), ss := ucast (seconds mod 60)\<rparr>))"

definition time_of_hms :: "u16 \<Rightarrow> u16 \<Rightarrow> u16 \<Rightarrow> time res" where
  "time_of_hms hours minutes seconds =
     time_finish (time_default\<lparr>hh := hours, mm := minutes, ss := seconds\<rparr>)"

definition add_seconds :: "time \<Rightarrow> u64 \<Rightarrow> time res" where
  "add_seconds t seconds =
     (let h = seconds div 3600;
          seconds = seconds mod 3600;
          m = seconds div 60;
          s = seconds mod 60;
          t = t\<lparr>ss := ss t + ucast s\<rparr>;
          t = (if 60 < unat (ss t) then t\<lparr>ss := ss t mod 60, mm := mm t + 1\<rparr> else t);
          t = t\<lparr>mm := mm t + ucast m\<rparr>;
          t = (if 60 < unat (mm t) then t\<lparr>mm := mm t mod 60, hh := hh t + 1\<rparr> else t);
          t = t\<lparr>hh := hh t + ucast h\<rparr>
      in set_raw_time (set_total_seconds t))"

definition time_eq :: "time \<Rightarrow> time \<Rightarrow> bool" where
  "time_eq lhs rhs \<longleftrightarrow> (hh lhs, mm lhs, ss lhs) = (hh rhs, mm rhs, ss rhs) \<and>
     time_is_provided lhs = time_is_provided rhs"

section \<open>The invariant\<close>

text \<open>
  Minutes and seconds are at most 60 (the constructors admit 60 itself), and the cached total is
  the one of the three fields.
\<close>

definition hms_seconds :: "time \<Rightarrow> nat" where
  "hms_seconds t = unat (hh t) * 3600 + unat (mm t) * 60 + unat (ss t)"

definition time_wf :: "time \<Rightarrow> bool" where
  "time_wf t \<longleftrightarrow> unat (mm t) \<le> 60 \<and> unat (ss t) \<le> 60 \<and> unat (total_seconds t) = hms_seconds t"

lemma hms_seconds_less: "hms_seconds t < 2 ^ 64"
  using unat_u16_less [of "hh t"] unat_u16_less [of "mm t"] unat_u16_less [of "ss t"]
  by (simp add: hms_seconds_def)

lemma set_total_seconds_total [simp]:
  "unat (total_seconds (set_total_seconds t)) = hms_seconds t"
proof -
  have "unat (total_seconds (set_total_seconds t)) = unat (of_nat (hms_seconds t) :: u64)"
    by (simp only: set_total_seconds_def hms_seconds_def mult.assoc) (simp add: time.simps)
  also have "\<dots> = hms_seconds t"
    using hms_seconds_less [of t] by (subst unat_of_nat_id) simp_all
  finally show ?thesis .
qed

lemma set_total_seconds_fields [simp]:
  "hh (set_total_seconds t) = hh t" "mm (set_total_seconds t) = mm t"
  "ss (set_total_seconds t) = ss t" "raw_time (set_total_seconds t) = raw_time t"
  "time_is_provided (set_total_seconds t) = time_is_provided t"
  by (simp_all add: set_total_seconds_def)

lemma hms_seconds_upd [simp]:
  "hms_seconds (t\<lparr>raw_time := r\<rparr>) = hms_seconds t"
  "hms_seconds (t\<lparr>total_seconds := n\<rparr>) = hms_seconds t"
  "hms_seconds (t\<lparr>time_is_provided := b\<rparr>) = hms_seconds t"
  "hms_seconds (set_total_seconds t) = hms_seconds t"
  by (simp_all add: hms_seconds_def)

text \<open>The two-digit rendering of minutes and seconds.\<close>

definition two_digits :: "nat \<Rightarrow> string" where
  "two_digits n = [digit_char (n div 10), digit_char (n mod 10)]"

lemma append_leading_zero_two_digits:
  "n < 100 \<Longrightarrow> append_leading_zero (to_string n) b = Inr (two_digits n)"
  by (cases "n < 10")
    (auto simp: append_leading_zero_def to_string_small to_string_two_digits two_digits_def
      digit_char_numerals)

definition hours_string :: "nat \<Rightarrow> string" where
  "hours_string h = (if h < 100 then two_digits h else CHR ''0'' # to_string h)"

lemma length_to_string_ge3: "100 \<le> h \<Longrightarrow> 3 \<le> length (to_string h)"
  by (simp add: to_string_big [of h] to_string_big [of "h div 10"] Suc_le_eq)

lemma append_leading_zero_hours:
  "append_leading_zero (to_string h) False = Inr (hours_string h)"
proof (cases "h < 100")
  case True
  then show ?thesis by (simp add: append_leading_zero_two_digits hours_string_def)
next
  case False
  then have "length (to_string h) \<noteq> 2" using length_to_string_ge3 [of h] by simp
  with False show ?thesis by (simp add: append_leading_zero_def hours_string_def)
qed

definition time_string :: "time \<Rightarrow> string" where
  "time_string t = hours_string (unat (hh t)) @ '':'' @ two_digits (unat (mm t)) @ '':'' @
     two_digits (unat (ss t))"

lemma set_raw_time_ok:
  "\<lbrakk>unat (mm t) < 100; unat (ss t) < 100\<rbrakk> \<Longrightarrow>
     set_raw_time t = Inr (t\<lparr>raw_time := time_string t\<rparr>)"
  by (simp add: set_raw_time_def append_leading_zero_hours append_leading_zero_two_digits
      time_string_def)

lemma time_finish_iff:
  "time_finish t =
     (if 60 < unat (mm t) \<or> 60 < unat (ss t)
      then Inl (Invalid_field_format (''time is out of range: '' @ to_string (unat (mm t)) @
             ''minutes '' @ to_string (unat (ss t)) @ ''seconds''))
      else Inr ((set_total_seconds t)\<lparr>raw_time := time_string t, time_is_provided := True\<rparr>))"
  by (simp add: time_finish_def set_raw_time_ok time_string_def)

section \<open>Adding seconds\<close>

text \<open>The carries of \<open>add_seconds\<close>, on natural numbers.\<close>

definition carry60 :: "nat \<Rightarrow> nat" where
  "carry60 n = (if 60 < n then n mod 60 else n)"

lemma carry60_le: "carry60 n \<le> 60"
  by (simp add: carry60_def)

lemma carry60_value: "n < 120 \<Longrightarrow> carry60 n + (if 60 < n then 60 else 0) = n"
  by (auto simp: carry60_def mod_if)

lemma unat_add_ucast_u16:
  "unat (a :: u16) + unat (b :: u64) < 65536 \<Longrightarrow> unat (a + ucast b) = unat a + unat b"
  by (simp add: unat_word_ariths unsigned_ucast_eq take_bit_nat_eq_self)

lemma add_seconds_fields:
  fixes n :: u64
  assumes "unat (mm t) \<le> 60" "unat (ss t) \<le> 60"
  defines "s1 \<equiv> unat (ss t) + unat n mod 60"
  defines "m1 \<equiv> unat (mm t) + (if 60 < s1 then 1 else 0) + unat n mod 3600 div 60"
  shows "\<exists>t'. add_seconds t n = Inr t' \<and> unat (ss t') = carry60 s1 \<and> unat (mm t') = carry60 m1 \<and>
           hh t' = hh t + (if 60 < m1 then 1 else 0) + ucast (n div 3600) \<and>
           unat (total_seconds t') = hms_seconds t' \<and> raw_time t' = time_string t' \<and>
           time_is_provided t' = time_is_provided t"
proof -
  let ?s = "n mod 3600 mod 60" and ?m = "n mod 3600 div 60"
  have us: "unat ?s = unat n mod 60" and um: "unat ?m = unat n mod 3600 div 60"
    by (simp_all add: unat_div_distrib unat_mod_distrib mod_mod_cancel)
  have mb: "unat n mod 3600 div 60 < 60" by (simp add: less_mult_imp_div_less)
  define sw where "sw = ss t + ucast ?s"
  have sw: "unat sw = s1"
    unfolding sw_def s1_def using assms(2) us by (subst unat_add_ucast_u16) simp_all
  define mc where "mc = (if 60 < unat sw then mm t + 1 else mm t)"
  have mc: "unat mc = unat (mm t) + (if 60 < s1 then 1 else 0)"
    using assms(1) sw by (auto simp: mc_def unat_word_ariths)
  define mw where "mw = mc + ucast ?m"
  have mw: "unat mw = m1"
    unfolding mw_def m1_def using assms(1) mc um mb
    by (subst unat_add_ucast_u16) (simp_all split: if_splits)
  define t' where "t' = t\<lparr>ss := (if 60 < unat sw then sw mod 60 else sw),
      mm := (if 60 < unat mw then mw mod 60 else mw),
      hh := hh t + (if 60 < unat mw then 1 else 0) + ucast (n div 3600)\<rparr>"
  have st: "unat (ss t') = carry60 s1" and mt: "unat (mm t') = carry60 m1"
    using sw mw by (auto simp: t'_def carry60_def unat_mod_distrib)
  have "add_seconds t n = set_raw_time (set_total_seconds t')"
    unfolding add_seconds_def Let_def t'_def mw_def mc_def sw_def
    by (cases t) (simp add: time.defs)
  also have "\<dots> = Inr ((set_total_seconds t')\<lparr>raw_time := time_string t'\<rparr>)"
    using st mt carry60_le [of s1] carry60_le [of m1]
    by (simp add: set_raw_time_ok time_string_def)
  finally show ?thesis
    using st mt mw by (simp add: t'_def time_string_def)
qed

section \<open>Times that the program can build\<close>

lemma time_of_string_wf: "time_of_string s = Inr t \<Longrightarrow> time_wf t"
  by (auto simp: time_of_string_def time_wf_def time_default_def Let_def exn_bind_iffs hms_seconds_def
      split: if_splits)

lemma time_finish_wf: "time_finish t = Inr t' \<Longrightarrow> time_wf t'"
  by (auto simp: time_finish_iff time_wf_def split: if_splits)

lemma add_seconds_wf:
  assumes "time_wf t"
  shows "\<exists>t'. add_seconds t n = Inr t' \<and> time_wf t'"
proof -
  from assms have "unat (mm t) \<le> 60" "unat (ss t) \<le> 60" by (simp_all add: time_wf_def)
  from add_seconds_fields [OF this, of n] show ?thesis
    by (metis carry60_le time_wf_def)
qed

lemma limit_hours_wf:
  assumes "time_wf t"
  shows "\<exists>b t'. limit_hours_to_24max t = Inr (b, t') \<and> time_wf t' \<and>
           (b \<longleftrightarrow> 24 \<le> unat (hh t)) \<and> unat (hh t') = unat (hh t) mod 24 \<and>
           mm t' = mm t \<and> ss t' = ss t"
  using assms
  by (auto simp: limit_hours_to_24max_def time_wf_def set_raw_time_ok unat_mod_distrib)

inductive time_reach :: "time \<Rightarrow> bool" where
  reach_default: "time_reach time_default"
| reach_string: "time_of_string s = Inr t \<Longrightarrow> time_reach t"
| reach_seconds: "time_of_seconds n = Inr t \<Longrightarrow> time_reach t"
| reach_hms: "time_of_hms h m s = Inr t \<Longrightarrow> time_reach t"
| reach_add: "\<lbrakk>time_reach t; add_seconds t n = Inr t'\<rbrakk> \<Longrightarrow> time_reach t'"
| reach_limit: "\<lbrakk>time_reach t; limit_hours_to_24max t = Inr (b, t')\<rbrakk> \<Longrightarrow> time_reach t'"

lemma time_default_wf: "time_wf time_default"
  by (simp add: time_wf_def time_default_def hms_seconds_def)

lemma time_reach_wf: "time_reach t \<Longrightarrow> time_wf t"
proof (induction rule: time_reach.induct)
  case (reach_add t n t')
  then show ?case using add_seconds_wf [of t n] by auto
next
  case (reach_limit t b t')
  then show ?case using limit_hours_wf [of t] by auto
qed (auto simp: time_of_seconds_def time_of_hms_def Let_def time_default_wf
      dest: time_of_string_wf time_finish_wf)

text \<open>
  C30: every \<open>time\<close> object the program can build, by any constructor followed by any sequence of
  \<open>add_seconds\<close> and \<open>limit_hours_to_24max\<close>, keeps minutes and seconds at most 60 and its cached
  total equal to \<open>hh * 3600 + mm * 60 + ss\<close>; on such objects neither operation ever throws, and
  \<open>limit_hours_to_24max\<close> leaves hours below 24.
\<close>

theorem time_objects_consistent:
  assumes "time_reach t"
  shows "unat (mm t) \<le> 60 \<and> unat (ss t) \<le> 60 \<and>
     unat (total_seconds t) = unat (hh t) * 3600 + unat (mm t) * 60 + unat (ss t) \<and>
     (\<exists>t'. add_seconds t n = Inr t') \<and>
     (\<exists>b t'. limit_hours_to_24max t = Inr (b, t') \<and> unat (hh t') < 24)"
proof -
  have wf: "time_wf t" using assms by (rule time_reach_wf)
  then show ?thesis
    using add_seconds_wf [OF wf, of n] limit_hours_wf [OF wf]
    by (fastforce simp: time_wf_def hms_seconds_def)
qed

lemma time_of_hms_ok:
  "\<lbrakk>unat m \<le> 60; unat s \<le> 60\<rbrakk> \<Longrightarrow>
   \<exists>t. time_of_hms h m s = Inr t \<and> hh t = h \<and> mm t = m \<and> ss t = s \<and>
       raw_time t = time_string t \<and> time_is_provided t"
  by (simp add: time_of_hms_def time_finish_iff time_string_def)

theorem time_objects_consistent_witness:
  "\<exists>t. time_of_hms 25 59 60 = Inr t \<and> time_reach t \<and> unat (total_seconds t) = 93600 \<and>
     (\<exists>b t'. limit_hours_to_24max t = Inr (b, t') \<and> unat (hh t') < 24)"
proof -
  obtain t where t: "time_of_hms 25 59 60 = Inr t" and "hh t = 25" "mm t = 59" "ss t = 60"
    using time_of_hms_ok [of "59" "60" "25"] by auto
  moreover from t have r: "time_reach t" by (rule reach_hms)
  ultimately show ?thesis using time_objects_consistent [OF r, of 0] by auto
qed

section \<open>Arithmetic\<close>

text \<open>
  C31: adding \<open>n\<close> seconds to a consistent time whose minute field is a proper minute (below 60) adds
  exactly \<open>n\<close> to its total, as long as the hour field does not run over 16 bits; the printed text is
  renewed and the provided flag kept.
\<close>

theorem add_seconds_total:
  fixes n :: u64
  assumes "time_wf t" "unat (mm t) < 60" "unat (hh t) + unat n div 3600 + 1 < 65536"
  shows "\<exists>t'. add_seconds t n = Inr t' \<and>
     unat (total_seconds t') = unat (total_seconds t) + unat n \<and>
     raw_time t' = time_string t' \<and> time_is_provided t' = time_is_provided t"
proof -
  let ?s1 = "unat (ss t) + unat n mod 60"
  let ?m1 = "unat (mm t) + (if 60 < ?s1 then 1 else 0) + unat n mod 3600 div 60"
  have wf: "unat (mm t) \<le> 60" "unat (ss t) \<le> 60" "unat (total_seconds t) = hms_seconds t"
    using assms(1) by (simp_all add: time_wf_def)
  from add_seconds_fields [OF wf(1,2), of n] obtain t' where
    ok: "add_seconds t n = Inr t'" and s: "unat (ss t') = carry60 ?s1" and
    m: "unat (mm t') = carry60 ?m1" and
    h: "hh t' = hh t + (if 60 < ?m1 then 1 else 0) + ucast (n div 3600)" and
    tot: "unat (total_seconds t') = hms_seconds t'" and
    rest: "raw_time t' = time_string t'" "time_is_provided t' = time_is_provided t"
    by blast
  have n3600: "unat (n div 3600) = unat n div 3600" by (simp add: unat_div_distrib)
  have h1: "unat (hh t + (if 60 < ?m1 then 1 else 0)) = unat (hh t) + (if 60 < ?m1 then 1 else 0)"
    using assms(3) by (auto simp: unat_word_ariths)
  have hh': "unat (hh t') = unat (hh t) + (if 60 < ?m1 then 1 else 0) + unat n div 3600"
    unfolding h using h1 assms(3) n3600 by (subst unat_add_ucast_u16) (simp_all split: if_splits)
  have "?s1 < 120" using wf(2) mod_less_divisor [of 60 "unat n"] by linarith
  then have cs: "carry60 ?s1 + (if 60 < ?s1 then 60 else 0) = ?s1" by (rule carry60_value)
  have "unat n mod 3600 div 60 < 60" by (simp add: less_mult_imp_div_less)
  then have "?m1 < 120" using assms(2) by (simp split: if_splits)
  then have cm: "carry60 ?m1 + (if 60 < ?m1 then 60 else 0) = ?m1" by (rule carry60_value)
  have n: "unat n = unat n div 3600 * 3600 + unat n mod 3600 div 60 * 60 + unat n mod 60"
  proof -
    have "unat n mod 60 = unat n mod 3600 mod 60" by (simp add: mod_mod_cancel)
    then show ?thesis by presburger
  qed
  have "hms_seconds t' = hms_seconds t + unat n"
    unfolding hms_seconds_def hh' m s using cs cm n by (simp split: if_splits)
  with ok tot wf(3) rest show ?thesis by simp
qed

theorem add_seconds_total_witness:
  "\<exists>t t'. time_of_hms 23 59 59 = Inr t \<and> add_seconds t 3661 = Inr t' \<and>
     unat (total_seconds t') = unat (total_seconds t) + 3661"
proof -
  obtain t where t: "time_of_hms 23 59 59 = Inr t" and f: "hh t = 23" "mm t = 59" "ss t = 59"
    using time_of_hms_ok [of "59" "59" "23"] by auto
  have "time_wf t" using reach_hms [OF t] by (rule time_reach_wf)
  from add_seconds_total [OF this, of 3661] f t show ?thesis by auto
qed

text \<open>
  The carry of \<open>add_seconds\<close> is wrong for the minute value 60, which all constructors admit:
  adding 59 minutes and 59 seconds to \<open>0:60:60\<close> loses an hour of the total.
\<close>

lemma add_seconds_minute_60_loses_hour:
  "\<exists>t t'. time_of_hms 0 60 60 = Inr t \<and> add_seconds t 3599 = Inr t' \<and>
     unat (total_seconds t) = 3660 \<and> unat (total_seconds t') = 3659"
proof -
  obtain t where t: "time_of_hms 0 60 60 = Inr t" and f: "hh t = 0" "mm t = 60" "ss t = 60"
    using time_of_hms_ok [of "60" "60" "0"] by auto
  have wf: "time_wf t" using reach_hms [OF t] by (rule time_reach_wf)
  have "unat (mm t) \<le> 60" "unat (ss t) \<le> 60" using f by simp_all
  from add_seconds_fields [OF this, of 3599] obtain t' where t': "add_seconds t 3599 = Inr t'"
    and "unat (ss t') = 59" "unat (mm t') = 0" "unat (hh t') = 1"
    and "unat (total_seconds t') = hms_seconds t'"
    by (auto simp: carry60_def f)
  with t f wf show ?thesis by (auto simp: hms_seconds_def time_wf_def)
qed

text \<open>
  The constructor from a number of seconds is exact below \<open>65536 * 3600\<close>: it never throws, the
  total is that number, and minutes and seconds are normalised (below 60).
\<close>

theorem time_of_seconds_exact:
  fixes n :: u64
  assumes "unat n < 65536 * 3600"
  shows "\<exists>t. time_of_seconds n = Inr t \<and> unat (total_seconds t) = unat n \<and>
     unat (mm t) < 60 \<and> unat (ss t) < 60 \<and> time_is_provided t"
proof -
  let ?t = "time_default\<lparr>hh := ucast (n div 3600), mm := ucast (n mod 3600 div 60),
    ss := ucast (n mod 3600 mod 60)\<rparr>"
  have d: "unat n div 3600 < 65536" using assms by (simp add: less_mult_imp_div_less)
  have mlt: "unat n mod 3600 div 60 < 60" by (simp add: less_mult_imp_div_less)
  have h: "unat (hh ?t) = unat n div 3600"
    using d by (simp add: unsigned_ucast_eq unat_div_distrib take_bit_nat_eq_self)
  have m: "unat (mm ?t) = unat n mod 3600 div 60"
    using mlt by (simp add: unsigned_ucast_eq unat_div_distrib unat_mod_distrib take_bit_nat_eq_self)
  have s: "unat (ss ?t) = unat n mod 3600 mod 60"
    using mod_less_divisor [of 60 "unat n mod 3600"]
    by (simp add: unsigned_ucast_eq unat_mod_distrib take_bit_nat_eq_self less_trans [of _ 60])
  have "hms_seconds ?t = unat n" unfolding hms_seconds_def h m s by presburger
  moreover have "time_of_seconds n =
      Inr ((set_total_seconds ?t)\<lparr>raw_time := time_string ?t, time_is_provided := True\<rparr>)"
    unfolding time_of_seconds_def Let_def
    by (subst time_finish_iff) (use m s mlt mod_less_divisor [of 60 "unat n mod 3600"] in auto)
  ultimately show ?thesis using m s mlt by auto
qed

theorem time_of_seconds_exact_witness:
  "unat (86399 :: u64) < 65536 * 3600 \<and>
   (\<exists>t. time_of_seconds 86399 = Inr t \<and> unat (total_seconds t) = 86399)"
proof -
  have h: "unat (86399 :: u64) < 65536 * 3600" by simp
  show ?thesis using h time_of_seconds_exact [OF h] by auto
qed

section \<open>Printing and parsing\<close>

lemma stoi_digit_pair:
  assumes "a < 10" "b < 10"
  shows "stoi [digit_char a, digit_char b] = Inr (int (10 * a + b))"
  using assms by (subst stoi_digits) (simp_all add: mult.commute)

lemma stoi_two_digits: "n < 100 \<Longrightarrow> stoi (two_digits n) = Inr (int n)"
  unfolding two_digits_def by (subst stoi_digit_pair) simp_all

lemma length_two_digits [simp]: "length (two_digits n) = 2"
  by (simp add: two_digits_def)

lemma time_of_string_eight:
  assumes "length a = 2" "length b = 2" "length c = 2"
  shows "time_of_string (a @ x # b @ y # c) =
    (if x \<noteq> CHR '':'' \<and> y \<noteq> CHR '':''
     then Inl (Invalid_field_format (''time is not in [H]H:MM:SS format: '' @ a @ x # b @ y # c))
     else exn_bind (stoi a) (\<lambda>h. exn_bind (stoi b) (\<lambda>m. exn_bind (stoi c) (\<lambda>sec.
       let t = time_default\<lparr>raw_time := a @ x # b @ y # c, hh := to_u16 h, mm := to_u16 m,
             ss := to_u16 sec\<rparr>
       in if 60 < unat (mm t) \<or> 60 < unat (ss t)
          then Inl (Invalid_field_format (''time minutes/seconds wrong value: '' @
                 to_string (unat (mm t)) @ '' minutes, '' @ to_string (unat (ss t)) @ '' seconds''))
          else Inr ((set_total_seconds t)\<lparr>time_is_provided := True\<rparr>)))))"
proof -
  have "(a @ x # b @ y # c) ! 5 = y" "(a @ x # b @ y # c) ! 2 = x"
    using assms by (simp_all add: nth_append)
  then show ?thesis
    using assms by (auto simp: time_of_string_def Let_def)
qed

text \<open>
  C32: a time built from hours, minutes and seconds with at most two-digit hours survives printing and
  parsing: reading back its raw text gives the identical object.
\<close>

theorem time_print_parse_roundtrip:
  assumes "time_of_hms h m s = Inr t" "unat h < 100"
  shows "time_of_string (raw_time t) = Inr t"
proof -
  from assms(1) have le: "unat m \<le> 60" "unat s \<le> 60" and
    t: "t = (set_total_seconds (time_default\<lparr>hh := h, mm := m, ss := s\<rparr>))
            \<lparr>raw_time := time_string (time_default\<lparr>hh := h, mm := m, ss := s\<rparr>),
             time_is_provided := True\<rparr>"
    by (auto simp: time_of_hms_def time_finish_iff split: if_splits)
  have raw: "raw_time t = two_digits (unat h) @ [CHR '':''] @ two_digits (unat m) @ [CHR '':''] @
      two_digits (unat s)"
    using assms(2) by (simp add: t time_string_def hours_string_def)
  have u: "to_u16 (uint w) = w" for w :: u16
    by (simp add: to_u16_def)
  show ?thesis
    unfolding raw using le assms(2)
    by (simp add: time_of_string_eight stoi_two_digits u Let_def t time_string_def
        hours_string_def set_total_seconds_def time_default_def)
qed

theorem time_print_parse_roundtrip_witness:
  "\<exists>t. time_of_hms 28 41 30 = Inr t \<and> raw_time t = ''28:41:30'' \<and>
     time_of_string (raw_time t) = Inr t"
proof -
  obtain t where t: "time_of_hms 28 41 30 = Inr t" and f: "hh t = 28" "mm t = 41" "ss t = 30"
    and r: "raw_time t = time_string t"
    using time_of_hms_ok [of 41 30 28] by auto
  have "raw_time t = ''28:41:30''"
    by (simp add: r f time_string_def hours_string_def two_digits_def digit_char_numerals)
  with t time_print_parse_roundtrip [OF t] show ?thesis by auto
qed

text \<open>
  What the constructor from text does on eight characters made of three digit pairs and two
  separators: only when both separators differ from a colon is the format rejected, minutes and
  seconds up to and including 60 are admitted, and otherwise the three numbers are read.
\<close>

theorem time_parse_digits:
  assumes "a < 100" "b < 100" "c < 100"
  shows "time_of_string (two_digits a @ [x] @ two_digits b @ [y] @ two_digits c) =
    (if x \<noteq> CHR '':'' \<and> y \<noteq> CHR '':''
     then Inl (Invalid_field_format (''time is not in [H]H:MM:SS format: '' @
            two_digits a @ [x] @ two_digits b @ [y] @ two_digits c))
     else if 60 < b \<or> 60 < c
     then Inl (Invalid_field_format (''time minutes/seconds wrong value: '' @
            to_string b @ '' minutes, '' @ to_string c @ '' seconds''))
     else Inr \<lparr>time_is_provided = True,
               raw_time = two_digits a @ [x] @ two_digits b @ [y] @ two_digits c,
               total_seconds = of_nat (a * 60 * 60 + b * 60 + c),
               hh = of_nat a, mm = of_nat b, ss = of_nat c\<rparr>)"
proof -
  have u: "unat (to_u16 (int n)) = n" if "n < 100" for n
    using that by (simp add: to_u16_of_nat)
  have w: "to_u16 (int n) = of_nat n" for n
    by (simp add: to_u16_def)
  have v: "unat (of_nat n :: u16) = n" if "n < 100" for n
    using that by (subst unat_of_nat_id) simp_all
  show ?thesis
    using assms
    by (simp add: time_of_string_eight stoi_two_digits u v w Let_def set_total_seconds_def
        time_default_def)
qed

theorem time_parse_digits_witness:
  "time_of_string ''12:34x56'' = Inr \<lparr>time_is_provided = True, raw_time = ''12:34x56'',
     total_seconds = 45296, hh = 12, mm = 34, ss = 56\<rparr>"
  using time_parse_digits [of 12 34 56 "CHR '':''" "CHR ''x''"]
  by (simp add: two_digits_def digit_char_numerals)

end
