(* ===== verification/Gtfs_Date.thy ===== *)
theory Gtfs_Date
  imports Gtfs_Time
begin

text \<open>
  \<^verbatim>\<open>gtfs/date.h\<close> and \<^verbatim>\<open>gtfs/date.cpp\<close>: calendar dates, their validity check and the two
  constructors, against the reference notion of a date of the Gregorian calendar.
\<close>

section \<open>Definitions\<close>

record date =
  date_is_provided :: bool
  raw_date :: string
  yyyy :: u16
  mon :: u16
  dd :: u16

definition date_default :: date where
  "date_default = \<lparr>date_is_provided = False, raw_date = [], yyyy = 0, mon = 0, dd = 0\<rparr>"

text \<open>\<open>check_valid\<close> has no result; it throws or returns.\<close>

definition check_valid :: "date \<Rightarrow> unit res" where
  "check_valid d =
     (let y = unat (yyyy d); m = unat (mon d); day = unat (dd d) in
      if y < 1000 \<or> 9999 < y \<or> m < 1 \<or> 12 < m \<or> day < 1 \<or> 31 < day
      then Inl (Invalid_field_format (''date check failed: out of range. '' @ to_string y @
             '' year, '' @ to_string m @ '' month, '' @ to_string day @ '' day''))
      else if m = 2 \<and> 28 < day \<and> (y mod 4 \<noteq> 0 \<or> (y mod 100 = 0 \<and> y mod 400 \<noteq> 0))
      then Inl (Invalid_field_format (''Invalid days count in February of non-leap year: '' @
             to_string day @ '' year'' @ to_string y))
      else if m = 2 \<and> 28 < day \<and> 29 < day
      then Inl (Invalid_field_format (''Invalid days count in February of leap year: '' @
             to_string day @ '' year'' @ to_string y))
      else if 30 < day \<and> (m = 4 \<or> m = 6 \<or> m = 9 \<or> m = 11)
      then Inl (Invalid_field_format (''Invalid days count in month: '' @ to_string day @
             '' days in '' @ to_string m))
      else Inr ())"

definition date_of_ymd :: "u16 \<Rightarrow> u16 \<Rightarrow> u16 \<Rightarrow> date res" where
  "date_of_ymd year month day =
     (let d = date_default\<lparr>yyyy := year, mon := month, dd := day\<rparr> in
      exn_bind (check_valid d) (\<lambda>_.
      exn_bind (append_leading_zero (to_string (unat (mon d))) True) (\<lambda>mm_str.
      exn_bind (append_leading_zero (to_string (unat (dd d))) True) (\<lambda>dd_str.
      Inr (d\<lparr>raw_date := to_string (unat (yyyy d)) @ mm_str @ dd_str, date_is_provided := True\<rparr>)))))"

definition date_of_string :: "string \<Rightarrow> date res" where
  "date_of_string s =
     (if s = [] then Inr date_default
      else if length s \<noteq> 8
      then Inl (Invalid_field_format (''date is not in YYYY:MM::DD format: '' @ s))
      else
        exn_bind (stoi (take 4 s)) (\<lambda>y.
        exn_bind (stoi (take 2 (drop 4 s))) (\<lambda>m.
        exn_bind (stoi (take 2 (drop 6 s))) (\<lambda>day.
        let d = date_default\<lparr>raw_date := s, yyyy := to_u16 y, mon := to_u16 m, dd := to_u16 day\<rparr>
        in exn_bind (check_valid d) (\<lambda>_. Inr (d\<lparr>date_is_provided := True\<rparr>))))))"

definition date_eq :: "date \<Rightarrow> date \<Rightarrow> bool" where
  "date_eq lhs rhs \<longleftrightarrow> (yyyy lhs, mon lhs, dd lhs) = (yyyy rhs, mon rhs, dd rhs) \<and>
     date_is_provided lhs = date_is_provided rhs"

section \<open>The Gregorian calendar\<close>

definition leap_year :: "nat \<Rightarrow> bool" where
  "leap_year y \<longleftrightarrow> 4 dvd y \<and> (100 dvd y \<longrightarrow> 400 dvd y)"

definition days_in_month :: "nat \<Rightarrow> nat \<Rightarrow> nat" where
  "days_in_month y m =
     (if m = 2 then (if leap_year y then 29 else 28)
      else if m \<in> {4, 6, 9, 11} then 30 else 31)"

definition gregorian :: "nat \<Rightarrow> nat \<Rightarrow> nat \<Rightarrow> bool" where
  "gregorian y m d \<longleftrightarrow> 1 \<le> m \<and> m \<le> 12 \<and> 1 \<le> d \<and> d \<le> days_in_month y m"

lemma not_leap_year_iff:
  "(y mod 4 \<noteq> 0 \<or> (y mod 100 = 0 \<and> y mod 400 \<noteq> 0)) \<longleftrightarrow> \<not> leap_year y"
  unfolding leap_year_def dvd_eq_mod_eq_0 by auto

lemma gregorian_iff:
  "gregorian y m d \<longleftrightarrow> \<not> (m < 1 \<or> 12 < m \<or> d < 1 \<or> 31 < d) \<and>
     \<not> (m = 2 \<and> 28 < d \<and> \<not> leap_year y) \<and> \<not> (m = 2 \<and> 28 < d \<and> 29 < d) \<and>
     \<not> (30 < d \<and> (m = 4 \<or> m = 6 \<or> m = 9 \<or> m = 11))"
  unfolding gregorian_def days_in_month_def by (cases "leap_year y") auto

lemma check_valid_iff:
  "check_valid d = Inr () \<longleftrightarrow>
     1000 \<le> unat (yyyy d) \<and> unat (yyyy d) \<le> 9999 \<and>
     gregorian (unat (yyyy d)) (unat (mon d)) (unat (dd d))"
  unfolding check_valid_def Let_def not_leap_year_iff gregorian_iff by (simp only: split: if_split) auto

lemma check_valid_upd [simp]:
  "check_valid (d\<lparr>raw_date := r\<rparr>) = check_valid d"
  "check_valid (d\<lparr>date_is_provided := b\<rparr>) = check_valid d"
  by (simp_all add: check_valid_def)

lemma check_valid_cases: "check_valid d = Inr () \<or> (\<exists>msg. check_valid d = Inl (Invalid_field_format msg))"
  by (simp add: check_valid_def Let_def)

lemma gregorian_bounds: "gregorian y m d \<Longrightarrow> m < 100 \<and> d < 100"
  by (auto simp: gregorian_def days_in_month_def split: if_splits)

lemma date_of_ymd_eq:
  "date_of_ymd y m day =
     (let d = date_default\<lparr>yyyy := y, mon := m, dd := day\<rparr> in
      case check_valid d of Inl e \<Rightarrow> Inl e
      | Inr _ \<Rightarrow> Inr (d\<lparr>raw_date := to_string (unat y) @ two_digits (unat m) @ two_digits (unat day),
                     date_is_provided := True\<rparr>))"
proof (cases "check_valid (date_default\<lparr>yyyy := y, mon := m, dd := day\<rparr>)")
  case (Inr u)
  then have "gregorian (unat y) (unat m) (unat day)"
    using check_valid_iff [of "date_default\<lparr>yyyy := y, mon := m, dd := day\<rparr>"] by simp
  from gregorian_bounds [OF this] Inr show ?thesis
    by (simp add: date_of_ymd_def append_leading_zero_two_digits)
qed (simp add: date_of_ymd_def)

text \<open>
  C33: the constructor from year, month and day accepts exactly the dates of the Gregorian calendar
  with a four-digit year, storing the three fields and the eight-digit text; on every other triple
  it throws \<open>invalid_field_format\<close>.
\<close>

theorem date_accepts_gregorian:
  "if 1000 \<le> unat y \<and> unat y \<le> 9999 \<and> gregorian (unat y) (unat m) (unat day)
   then date_of_ymd y m day =
     Inr \<lparr>date_is_provided = True,
          raw_date = to_string (unat y) @ two_digits (unat m) @ two_digits (unat day),
          yyyy = y, mon = m, dd = day\<rparr>
   else \<exists>msg. date_of_ymd y m day = Inl (Invalid_field_format msg)"
  using check_valid_iff [of "date_default\<lparr>yyyy := y, mon := m, dd := day\<rparr>"]
    check_valid_cases [of "date_default\<lparr>yyyy := y, mon := m, dd := day\<rparr>"]
  by (auto simp: date_of_ymd_eq Let_def date_default_def)

text \<open>
  C34: reading back the text of a date built from numbers gives the identical date.
\<close>

theorem date_print_parse_roundtrip:
  assumes "date_of_ymd y m day = Inr d"
  shows "date_of_string (raw_date d) = Inr d"
proof -
  let ?d = "date_default\<lparr>yyyy := y, mon := m, dd := day\<rparr>"
  from assms have ok: "check_valid ?d = Inr ()" and
    d: "d = ?d\<lparr>raw_date := to_string (unat y) @ two_digits (unat m) @ two_digits (unat day),
               date_is_provided := True\<rparr>"
    by (auto simp: date_of_ymd_eq Let_def split: sum.splits)
  then have y: "1000 \<le> unat y" "unat y \<le> 9999" and md: "unat m < 100" "unat day < 100"
    using gregorian_bounds by (auto simp: check_valid_iff)
  have len: "length (to_string (unat y)) = 4"
    using y by (simp add: to_string_four_digits)
  have u: "to_u16 (uint w) = w" for w :: u16
    by (simp add: to_u16_def)
  have chk: "check_valid \<lparr>date_is_provided = b, raw_date = r, yyyy = y, mon = m, dd = day\<rparr> = Inr ()"
    for b r using ok by (simp add: check_valid_iff)
  show ?thesis
    using md len y unat_u16_less [of y]
    by (simp add: d date_of_string_def stoi_two_digits stoi_to_string u Let_def date_default_def chk)
qed

theorem date_print_parse_roundtrip_witness:
  "\<exists>d. date_of_ymd 2024 2 29 = Inr d \<and> date_of_string (raw_date d) = Inr d"
proof -
  have "gregorian 2024 2 29" by (simp add: gregorian_def days_in_month_def leap_year_def)
  then obtain d where d: "date_of_ymd 2024 2 29 = Inr d"
    using check_valid_iff [of "date_default\<lparr>yyyy := 2024, mon := 2, dd := 29\<rparr>"]
    by (auto simp: date_of_ymd_eq Let_def)
  with date_print_parse_roundtrip [OF d] show ?thesis by blast
qed

end
