(* ===== verification/Util_String.thy ===== *)
theory Util_String
  imports Prelude
begin

text \<open>
  \<^verbatim>\<open>util/String.h\<close>: decoding, escaping, searching and replacing, splitting and joining, trimming,
  and the edit distance that station-name matching is built on.
\<close>

section \<open>Definitions\<close>

text \<open>
  \<open>urlDecode\<close>: a percent sign is followed by two characters handed to \<^verbatim>\<open>strtol\<close> with base 16; they
  are consumed when they hold no sign and \<^verbatim>\<open>strtol\<close> leaves nothing over.
\<close>

definition url_hex :: "string \<Rightarrow> char option" where
  "url_hex ah =
     (case strtol 16 (c_str ah) of (v, nonProced) \<Rightarrow>
        if CHR ''+'' \<notin> set ah \<and> CHR ''-'' \<notin> set ah \<and> length ah - length nonProced = 2
        then Some (char_of (nat (v mod 256))) else None)"

fun urlDecode :: "string \<Rightarrow> string" where
  "urlDecode [] = []"
| "urlDecode (c # cs) =
     (if c = CHR ''%'' then
        (case url_hex (take 2 cs) of
           Some h \<Rightarrow> h # urlDecode (drop 2 cs)
         | None \<Rightarrow> c # urlDecode cs)
      else if c = CHR ''+'' then CHR '' '' # urlDecode cs
      else c # urlDecode cs)"

definition hex_char :: "nat \<Rightarrow> char" where
  "hex_char d = (if d < 10 then digit_char d else char_of (87 + d))"

text \<open>\<open>jsonStringEscape\<close>; \<^verbatim>\<open>char\<close> is signed, so bytes from \<^verbatim>\<open>0x80\<close> on are not below \<^verbatim>\<open>0x1f\<close>.\<close>

definition json_escape_char :: "char \<Rightarrow> string" where
  "json_escape_char c =
     (if c = CHR 0x22 then [CHR 0x5C, CHR 0x22]
      else if c = CHR 0x5C then [CHR 0x5C, CHR 0x5C]
      else if c = CHR 0x08 then [CHR 0x5C, CHR ''b'']
      else if c = CHR 0x0C then [CHR 0x5C, CHR ''f'']
      else if c = CHR 0x0A then [CHR 0x5C, CHR ''n'']
      else if c = CHR 0x0D then [CHR 0x5C, CHR ''r'']
      else if c = CHR 0x09 then [CHR 0x5C, CHR ''t'']
      else if (of_char c :: nat) \<le> 31
        then [CHR 0x5C, CHR ''u'', CHR ''0'', CHR ''0'', hex_char (of_char c div 16),
              hex_char (of_char c mod 16)]
      else [c])"

definition jsonStringEscape :: "string \<Rightarrow> string" where
  "jsonStringEscape unesc = concat (map json_escape_char unesc)"

definition replace_first :: "string \<Rightarrow> string \<Rightarrow> string \<Rightarrow> bool \<times> string" where
  "replace_first subj frm to =
     (if frm = [] then (False, subj)
      else case find_str frm subj of
        None \<Rightarrow> (False, subj)
      | Some start_pos \<Rightarrow> (True, take start_pos subj @ to @ drop (start_pos + length frm) subj))"

text \<open>\<^verbatim>\<open>subj.find(frm, pos)\<close>.\<close>

definition find_from :: "'a list \<Rightarrow> 'a list \<Rightarrow> nat \<Rightarrow> nat option" where
  "find_from frm subj pos =
     (if pos \<le> length subj then map_option (\<lambda>i. pos + i) (find_str frm (drop pos subj)) else None)"

lemma find_from_Some:
  assumes "find_from frm subj pos = Some s"
  shows "pos \<le> s" "s + length frm \<le> length subj" "starts_with frm (drop s subj)"
    "pos \<le> j \<Longrightarrow> j < s \<Longrightarrow> \<not> starts_with frm (drop j subj)"
proof -
  from assms obtain i where p: "pos \<le> length subj" and i: "find_str frm (drop pos subj) = Some i"
    and s: "s = pos + i" by (auto simp: find_from_def split: if_splits)
  note f = find_str_Some [OF i]
  show "pos \<le> s" using s by simp
  show "s + length frm \<le> length subj" using f p s by auto
  show "starts_with frm (drop s subj)" using f s by (simp add: add.commute)
  show "pos \<le> j \<Longrightarrow> j < s \<Longrightarrow> \<not> starts_with frm (drop j subj)"
    using f [THEN conjunct2, THEN conjunct2, rule_format, of "j - pos"] s by simp
qed

text \<open>The \<^verbatim>\<open>for\<close> loop of \<open>replaceAll\<close>, started with the first search position.\<close>

function replace_loop :: "'a list \<Rightarrow> 'a list \<Rightarrow> nat \<Rightarrow> bool \<Rightarrow> 'a list \<Rightarrow> bool \<times> 'a list" where
  "replace_loop frm to pos found subj =
     (case find_from frm subj pos of
        None \<Rightarrow> (found, subj)
      | Some s \<Rightarrow>
          if frm = [] then (found, subj)
          else replace_loop frm to (s + length to) True
                 (take s subj @ to @ drop (s + length frm) subj))"
  by pat_completeness auto
termination
proof (relation "measure (\<lambda>(frm, to, pos, found, subj). length subj - pos)")
  fix frm to :: "'a list" and pos found subj s
  assume "find_from frm subj pos = Some s" "frm \<noteq> []"
  then obtain c cs where "frm = c # cs" "find_from (c # cs) subj pos = Some s"
    by (cases frm) auto
  then show "((frm, to, s + length to, True, take s subj @ to @ drop (s + length frm) subj),
      frm, to, pos, found, subj) \<in> measure (\<lambda>(frm, to, pos, found, subj). length subj - pos)"
    using find_from_Some(1,2) [of "c # cs" subj pos s] by auto
qed simp

declare replace_loop.simps [simp del]

definition replaceAll :: "string \<Rightarrow> string \<Rightarrow> string \<Rightarrow> bool \<times> string" where
  "replaceAll subj frm to =
     (if frm = [] then (False, subj) else replace_loop frm to 0 False subj)"

definition unixBasename :: "string \<Rightarrow> string" where
  "unixBasename pathname = rev (takeWhile (\<lambda>c. c \<noteq> CHR ''/'') (rev pathname))"

function split_str :: "char \<Rightarrow> string \<Rightarrow> string list" where
  "split_str sep s =
     (case getline_sep sep s of
        None \<Rightarrow> []
      | Some (line, rest) \<Rightarrow> line # split_str sep rest)"
  by pat_completeness auto
termination
  by (relation "measure (\<lambda>(sep, s). length s)") (auto simp: getline_sep_shorter)

declare split_str.simps [simp del]

definition is_ws :: "char \<Rightarrow> bool" where
  "is_ws c \<longleftrightarrow> c \<in> set '' '' \<or> c \<in> {CHR 0x09, CHR 0x0A, CHR 0x0B, CHR 0x0C, CHR 0x0D}"

definition ltrim :: "string \<Rightarrow> string" where
  "ltrim str = dropWhile is_ws str"

definition rtrim :: "string \<Rightarrow> string" where
  "rtrim str = rev (dropWhile is_ws (rev str))"

definition trim :: "string \<Rightarrow> string" where
  "trim str = ltrim (rtrim str)"

definition ends_with :: "string \<Rightarrow> string \<Rightarrow> bool" where
  "ends_with value ending \<longleftrightarrow>
     \<not> length value < length ending \<and> take (length ending) (rev value) = rev ending"

text \<open>
  \<open>editDist\<close> with its two row vectors: the inner loop fills \<open>cur\<close> from left to right, then the rows
  are swapped.
\<close>

definition edit_cell :: "'a list \<Rightarrow> 'a list \<Rightarrow> nat \<Rightarrow> nat list \<Rightarrow> nat list \<Rightarrow> nat \<Rightarrow> nat list" where
  "edit_cell s1 s2 i prev cur j =
     cur[j + 1 := min (prev ! (1 + j) + 1)
                   (min (cur ! j + 1) (prev ! j + (if s1 ! i = s2 ! j then 0 else 1)))]"

definition edit_row :: "'a list \<Rightarrow> 'a list \<Rightarrow> nat list \<times> nat list \<Rightarrow> nat \<Rightarrow> nat list \<times> nat list" where
  "edit_row s1 s2 rows i =
     (case rows of (cur, prev) \<Rightarrow>
        (prev, foldl (edit_cell s1 s2 i prev) (cur[0 := i + 1]) [0..<length s2]))"

definition editDist :: "'a list \<Rightarrow> 'a list \<Rightarrow> nat" where
  "editDist s1 s2 =
     (let cur = replicate (length s2 + 1) 0;
          prev = [0..<length s2 + 1]
      in snd (foldl (edit_row s1 s2) (cur, prev) [0..<length s1]) ! length s2)"

definition toUpper :: "string \<Rightarrow> string" where
  "toUpper str = map toupper str"

definition toLower :: "string \<Rightarrow> string" where
  "toLower str = map tolower str"

text \<open>\<open>implode\<close> of a vector of strings.\<close>

fun implode :: "string list \<Rightarrow> string \<Rightarrow> string" where
  "implode [] del = []"
| "implode [x] del = x"
| "implode (x # y # xs) del = x @ del @ implode (y # xs) del"

fun normalize_ws :: "bool \<Rightarrow> string \<Rightarrow> string" where
  "normalize_ws ws [] = []"
| "normalize_ws ws (c # cs) =
     (if isspace c then (if ws then normalize_ws True cs else CHR '' '' # normalize_ws True cs)
      else c # normalize_ws False cs)"

definition normalizeWhiteSpace :: "string \<Rightarrow> string" where
  "normalizeWhiteSpace input = normalize_ws False input"

section \<open>The edit distance\<close>

text \<open>
  One edit inserts, deletes or substitutes one character.  An alignment of cost \<open>n\<close> pairs two strings
  from left to right; it is the structure the dynamic program minimises over.
\<close>

inductive edit1 :: "'a list \<Rightarrow> 'a list \<Rightarrow> bool" where
  edit_ins: "edit1 (u @ v) (u @ x # v)"
| edit_del: "edit1 (u @ x # v) (u @ v)"
| edit_sub: "edit1 (u @ x # v) (u @ y # v)"

inductive align :: "nat \<Rightarrow> 'a list \<Rightarrow> 'a list \<Rightarrow> bool" where
  align_Nil: "align 0 [] []"
| align_match: "align n a b \<Longrightarrow> align n (x # a) (x # b)"
| align_sub: "align n a b \<Longrightarrow> align (Suc n) (x # a) (y # b)"
| align_del: "align n a b \<Longrightarrow> align (Suc n) (x # a) b"
| align_ins: "align n a b \<Longrightarrow> align (Suc n) a (y # b)"

inductive_cases align_ConsE: "align n a (y # b)"

lemma align_refl: "align 0 a a"
  by (induction a) (auto intro: align.intros)

lemma align_append: "align n a b \<Longrightarrow> align m c d \<Longrightarrow> align (n + m) (a @ c) (b @ d)"
  by (induction rule: align.induct) (auto intro: align.intros)

lemma align_single: "align 0 [x] [x]" "align 1 [x] [y]" "align 1 [x] []" "align 1 [] [y]"
  using align_match [OF align_Nil] align_sub [OF align_Nil] align_del [OF align_Nil]
    align_ins [OF align_Nil] by simp_all

lemma align_rev: "align n a b \<Longrightarrow> align n (rev a) (rev b)"
proof (induction rule: align.induct)
  case (align_match n a b x)
  then show ?case using align_append [OF _ align_single(1)] by fastforce
next
  case (align_sub n a b x y)
  then show ?case using align_append [OF _ align_single(2)] by fastforce
next
  case (align_del n a b x)
  then show ?case using align_append [OF _ align_single(3)] by fastforce
next
  case (align_ins n a b y)
  then show ?case using align_append [OF _ align_single(4)] by fastforce
qed (simp add: align_Nil)

lemma align_sym: "align n a b \<Longrightarrow> align n b a"
  by (induction rule: align.induct) (auto intro: align.intros)

lemma align_split:
  "align n a (u @ v) \<Longrightarrow>
     \<exists>a1 a2 n1 n2. a = a1 @ a2 \<and> n = n1 + n2 \<and> align n1 a1 u \<and> align n2 a2 v"
proof (induction n a "u @ v" arbitrary: u v rule: align.induct)
  case align_Nil
  then show ?case using align.align_Nil by fastforce
next
  case (align_match n a b x)
  show ?case
  proof (cases u)
    case Nil
    then show ?thesis using align.align_match [OF align_match.hyps(1), of x] align_match.hyps(3)
        align.align_Nil by (intro exI [of _ "[]"] exI [of _ "x # a"] exI [of _ 0] exI [of _ n]) simp
  next
    case (Cons c u')
    with align_match.hyps(2) [of u' v] align_match.hyps(3) obtain a1 a2 n1 n2
      where "a = a1 @ a2" "n = n1 + n2" "align n1 a1 u'" "align n2 a2 v" by auto
    with align_match.hyps(3) Cons show ?thesis
      by (intro exI [of _ "x # a1"] exI [of _ a2] exI [of _ n1] exI [of _ n2]) (simp add: align.align_match)
  qed
next
  case (align_sub n a b x y)
  show ?case
  proof (cases u)
    case Nil
    then show ?thesis using align.align_sub [OF align_sub.hyps(1), of x y] align_sub.hyps(3)
        align.align_Nil by (intro exI [of _ "[]"] exI [of _ "x # a"] exI [of _ 0] exI [of _ "Suc n"]) simp
  next
    case (Cons c u')
    with align_sub.hyps(2) [of u' v] align_sub.hyps(3) obtain a1 a2 n1 n2
      where "a = a1 @ a2" "n = n1 + n2" "align n1 a1 u'" "align n2 a2 v" by auto
    with align_sub.hyps(3) Cons show ?thesis
      by (intro exI [of _ "x # a1"] exI [of _ a2] exI [of _ "Suc n1"] exI [of _ n2])
        (simp add: align.align_sub)
  qed
next
  case (align_del n a x)
  then obtain a1 a2 n1 n2 where "a = a1 @ a2" "n = n1 + n2" "align n1 a1 u" "align n2 a2 v" by blast
  then show ?case
    by (intro exI [of _ "x # a1"] exI [of _ a2] exI [of _ "Suc n1"] exI [of _ n2])
      (simp add: align.align_del)
next
  case (align_ins n a b y)
  show ?case
  proof (cases u)
    case Nil
    then show ?thesis using align.align_ins [OF align_ins.hyps(1), of y] align_ins.hyps(3)
        align.align_Nil by (intro exI [of _ "[]"] exI [of _ a] exI [of _ 0] exI [of _ "Suc n"]) simp
  next
    case (Cons c u')
    with align_ins.hyps(2) [of u' v] align_ins.hyps(3) obtain a1 a2 n1 n2
      where "a = a1 @ a2" "n = n1 + n2" "align n1 a1 u'" "align n2 a2 v" by auto
    with align_ins.hyps(3) Cons show ?thesis
      by (intro exI [of _ a1] exI [of _ a2] exI [of _ "Suc n1"] exI [of _ n2])
        (simp add: align.align_ins)
  qed
qed

lemma align_drop_right:
  "align n a (x # v) \<Longrightarrow> \<exists>k\<le>Suc n. align k a v"
proof (induction n a "x # v" rule: align.induct)
  case (align_match n a)
  then show ?case by (intro exI [of _ "Suc n"]) (simp add: align.align_del)
next
  case (align_sub n a z)
  then show ?case by (intro exI [of _ "Suc n"]) (simp add: align.align_del)
next
  case (align_del n a z)
  then obtain k where "k \<le> Suc n" "align k a v" by blast
  then show ?case by (intro exI [of _ "Suc k"]) (simp add: align.align_del)
next
  case (align_ins n a)
  then show ?case by (intro exI [of _ n]) simp
qed

lemma align_subst_right:
  "align n a (x # v) \<Longrightarrow> \<exists>k\<le>Suc n. align k a (y # v)"
proof (induction n a "x # v" rule: align.induct)
  case (align_match n a)
  then show ?case by (intro exI [of _ "Suc n"]) (simp add: align.align_sub)
next
  case (align_sub n a z)
  then show ?case by (intro exI [of _ "Suc n"]) (simp add: align.align_sub)
next
  case (align_del n a z)
  then obtain k where "k \<le> Suc n" "align k a (y # v)" by blast
  then show ?case by (intro exI [of _ "Suc k"]) (simp add: align.align_del)
next
  case (align_ins n a)
  then show ?case by (intro exI [of _ "Suc n"]) (simp add: align.align_ins)
qed

lemma align_edit1:
  assumes "align n a b" "edit1 b c"
  shows "\<exists>k\<le>Suc n. align k a c"
  using assms(2,1)
proof (cases rule: edit1.cases)
  case (edit_ins u v x)
  with assms(1) align_split [of n a u v] obtain a1 a2 n1 n2 where
    "a = a1 @ a2" "n = n1 + n2" "align n1 a1 u" "align n2 a2 v" by blast
  then show ?thesis
    using align_append [of n1 a1 u "Suc n2" a2 "x # v"] edit_ins align.align_ins by fastforce
next
  case (edit_del u x v)
  with assms(1) align_split [of n a u "x # v"] obtain a1 a2 n1 n2 where
    s: "a = a1 @ a2" "n = n1 + n2" "align n1 a1 u" "align n2 a2 (x # v)" by blast
  from align_drop_right [OF s(4)] obtain k where "k \<le> Suc n2" "align k a2 v" by blast
  then show ?thesis using align_append [OF s(3)] s edit_del
    by (intro exI [of _ "n1 + k"]) auto
next
  case (edit_sub u x v y)
  with assms(1) align_split [of n a u "x # v"] obtain a1 a2 n1 n2 where
    s: "a = a1 @ a2" "n = n1 + n2" "align n1 a1 u" "align n2 a2 (x # v)" by blast
  from align_subst_right [OF s(4), of y] obtain k where "k \<le> Suc n2" "align k a2 (y # v)" by blast
  then show ?thesis using align_append [OF s(3)] s edit_sub
    by (intro exI [of _ "n1 + k"]) auto
qed

lemma edits_align: "(edit1 ^^ n) a b \<Longrightarrow> \<exists>k\<le>n. align k a b"
proof (induction n arbitrary: b)
  case 0
  then show ?case using align_refl by auto
next
  case (Suc n)
  then obtain c where "(edit1 ^^ n) a c" "edit1 c b" by auto
  with Suc.IH obtain k where "k \<le> n" "align k a c" by blast
  with align_edit1 [OF _ \<open>edit1 c b\<close>] show ?case by (meson Suc_le_mono order_trans)
qed

lemma edit1_Cons: "edit1 a b \<Longrightarrow> edit1 (x # a) (x # b)"
  by (induction rule: edit1.induct) (metis edit1.intros append_Cons)+

lemma edits_Cons: "(edit1 ^^ n) a b \<Longrightarrow> (edit1 ^^ n) (x # a) (x # b)"
  by (induction n arbitrary: b) (auto intro: edit1_Cons)

lemma edit1_hd: "edit1 b (y # b)" "edit1 (x # b) b" "edit1 (x # b) (y # b)"
  using edit_ins [of "[]" b y] edit_del [of "[]" x b] edit_sub [of "[]" x b y] by simp_all

lemma align_edits: "align n a b \<Longrightarrow> (edit1 ^^ n) a b"
proof (induction rule: align.induct)
  case (align_match n a b x)
  then show ?case by (simp add: edits_Cons)
next
  case (align_sub n a b x y)
  show ?case by (rule relpowp_Suc_I [OF edits_Cons [OF align_sub.IH] edit1_hd(3)])
next
  case (align_del n a b x)
  then show ?case using edit1_hd(2) relpowp_Suc_I2 by fast
next
  case (align_ins n a b y)
  show ?case by (rule relpowp_Suc_I [OF align_ins.IH edit1_hd(1)])
qed simp

text \<open>The least alignment cost, by the textbook recursion on the heads.\<close>

fun levd :: "'a list \<Rightarrow> 'a list \<Rightarrow> nat" where
  "levd [] b = length b"
| "levd (x # a) [] = Suc (length a)"
| "levd (x # a) (y # b) =
     min (Suc (levd a (y # b))) (min (Suc (levd (x # a) b)) (levd a b + (if x = y then 0 else 1)))"

lemma levd_Nil_right [simp]: "levd a [] = length a"
  by (cases a) auto

lemma align_Nil_left: "align (length b) [] b"
  by (induction b) (auto intro: align.intros)

lemma align_levd: "align (levd a b) a b"
proof (induction a b rule: levd.induct)
  case (1 b)
  then show ?case by (simp add: align_Nil_left)
next
  case (2 x a)
  then show ?case using align_sym [OF align_Nil_left [of "x # a"]] by simp
next
  case (3 x a y b)
  then show ?case
    by (auto simp: min_def intro: align.intros)
qed

lemma levd_Suc: "levd (x # a) b \<le> Suc (levd a b)" "levd a (y # b) \<le> Suc (levd a b)"
  by (cases b; simp) (cases a; simp)

lemma levd_le_align: "align n a b \<Longrightarrow> levd a b \<le> n"
proof (induction rule: align.induct)
  case (align_del n a b x)
  then show ?case using levd_Suc(1) [of x a b] by simp
next
  case (align_ins n a b y)
  then show ?case using levd_Suc(2) [of a y b] by simp
qed (auto simp: min_le_iff_disj)

lemma levd_eq_iff: "levd a b = n \<longleftrightarrow> align n a b \<and> (\<forall>k. align k a b \<longrightarrow> n \<le> k)"
  using align_levd levd_le_align le_antisym by blast

lemma levd_rev: "levd (rev a) (rev b) = levd a b"
  using align_levd levd_le_align align_rev le_antisym by (metis rev_rev_ident)

lemma levd_sym: "levd a b = levd b a"
  using align_levd levd_le_align align_sym le_antisym by metis

lemma levd_snoc:
  "levd (a @ [x]) (b @ [y]) =
     min (Suc (levd a (b @ [y]))) (min (Suc (levd (a @ [x]) b)) (levd a b + (if x = y then 0 else 1)))"
  using levd.simps(3) [of x "rev a" y "rev b"]
  by (metis levd_rev rev.simps(2) rev_rev_ident)

text \<open>After row \<open>i\<close> the previous-row vector holds the distances of the prefix of length \<open>i\<close>.\<close>

lemma levd_take_Suc:
  assumes "i < length s1" "j < length s2"
  shows "levd (take (Suc i) s1) (take (Suc j) s2) =
     min (Suc (levd (take i s1) (take (Suc j) s2)))
       (min (Suc (levd (take (Suc i) s1) (take j s2)))
         (levd (take i s1) (take j s2) + (if s1 ! i = s2 ! j then 0 else 1)))"
  using levd_snoc [of "take i s1" "s1 ! i" "take j s2" "s2 ! j"] assms
  by (simp add: take_Suc_conv_app_nth)

lemma edit_cells:
  assumes "i < length s1" "length cur = Suc (length s2)" "m \<le> length s2"
    and prev: "\<forall>j\<le>length s2. prev ! j = levd (take i s1) (take j s2)"
  defines "c \<equiv> foldl (edit_cell s1 s2 i prev) (cur[0 := i + 1]) [0..<m]"
  shows "length c = Suc (length s2) \<and> (\<forall>j\<le>m. c ! j = levd (take (Suc i) s1) (take j s2))"
  unfolding c_def using assms(3)
proof (induction m)
  case 0
  then show ?case using assms by simp
next
  case (Suc m)
  define c' where "c' = foldl (edit_cell s1 s2 i prev) (cur[0 := i + 1]) [0..<m]"
  from Suc have IH: "length c' = Suc (length s2)" "\<forall>j\<le>m. c' ! j = levd (take (Suc i) s1) (take j s2)"
    by (auto simp: c'_def)
  have "edit_cell s1 s2 i prev c' m ! Suc m = levd (take (Suc i) s1) (take (Suc m) s2)"
    using IH Suc.prems assms(1) prev by (simp add: edit_cell_def levd_take_Suc)
  moreover have "edit_cell s1 s2 i prev c' m ! j = c' ! j" if "j \<le> m" for j
    using that by (simp add: edit_cell_def)
  moreover have "length (edit_cell s1 s2 i prev c' m) = length c'" by (simp add: edit_cell_def)
  moreover have "foldl (edit_cell s1 s2 i prev) (cur[0 := i + 1]) [0..<Suc m] =
      edit_cell s1 s2 i prev c' m"
    by (simp add: c'_def)
  ultimately show ?case using IH by (metis le_Suc_eq)
qed

lemma edit_rows:
  fixes s2 :: "'a list"
  assumes "i \<le> length s1"
  defines "r \<equiv> foldl (edit_row s1 s2) (replicate (length s2 + 1) 0, [0..<length s2 + 1]) [0..<i]"
  shows "length (fst r) = Suc (length s2) \<and> length (snd r) = Suc (length s2) \<and>
    (\<forall>j\<le>length s2. snd r ! j = levd (take i s1) (take j s2))"
  unfolding r_def using assms(1)
proof (induction i)
  case 0
  then show ?case by (auto simp: nth_append)
next
  case (Suc i)
  then show ?case
    using edit_cells [of i s1 _ s2 "length s2"]
    by (auto simp: edit_row_def split: prod.split)
qed

lemma editDist_levd: "editDist s1 s2 = levd s1 s2"
  using edit_rows [of "length s1" s1 s2] by (simp add: editDist_def Let_def)

text \<open>
  C4: \<open>editDist\<close>, with its two swapped row vectors, computes the Levenshtein distance: the first string is
  turned into the second by that many single-character insertions, deletions and substitutions, and by
  no smaller number of them.
\<close>

theorem editDist_minimal:
  "(edit1 ^^ editDist a b) a b \<and> editDist a b = (LEAST n. (edit1 ^^ n) a b)"
proof -
  have "(edit1 ^^ levd a b) a b" by (rule align_edits [OF align_levd])
  moreover have "\<And>n. (edit1 ^^ n) a b \<Longrightarrow> levd a b \<le> n"
    using edits_align levd_le_align order_trans by blast
  ultimately show ?thesis unfolding editDist_levd by (metis Least_equality)
qed

section \<open>Escaping and decoding\<close>

text \<open>Percent-encoding of every byte.\<close>

definition url_encode :: "string \<Rightarrow> string" where
  "url_encode s =
     concat (map (\<lambda>c. [CHR ''%'', hex_char (of_char c div 16), hex_char (of_char c mod 16)]) s)"

lemma of_char_hex_char:
  "d < 16 \<Longrightarrow> (of_char (hex_char d) :: nat) = (if d < 10 then 48 + d else 87 + d)"
  by (simp add: hex_char_def)

lemma digit_val_hex_char [simp]: "d < 16 \<Longrightarrow> digit_val 16 (hex_char d) = Some d"
  by (simp add: digit_val_def isdigit_def Let_def of_char_hex_char)

lemma hex_char_not:
  assumes "d < 16"
  shows "\<not> isspace (hex_char d)" "hex_char d \<noteq> CHR ''+''" "hex_char d \<noteq> CHR ''-''" "hex_char d \<noteq> CHR 0x00"
proof -
  have "(of_char (hex_char d) :: nat) \<ge> 48" by (simp add: of_char_hex_char assms)
  then show "\<not> isspace (hex_char d)" "hex_char d \<noteq> CHR ''+''" "hex_char d \<noteq> CHR ''-''" "hex_char d \<noteq> CHR 0x00"
    by (auto simp: isspace_def)
qed

lemma url_hex_hex_char: "url_hex [hex_char (of_char c div 16), hex_char (of_char c mod 16)] = Some c"
proof -
  define a b where "a = (of_char c :: nat) div 16" and "b = (of_char c :: nat) mod 16"
  have "(of_char c :: nat) < 256" by (rule nat_of_char_less_256)
  then have ab: "a < 16" "b < 16" "16 * a + b = of_char c" unfolding a_def b_def by (simp_all add: less_mult_imp_div_less)
  have "strtol 16 [hex_char a, hex_char b] = (int (16 * a + b), [])"
    using ab(1,2) hex_char_not [OF ab(1)]
    by (simp add: strtol_def strip_sign_def strip_0x_def Let_def mult.commute)
  then show ?thesis using ab hex_char_not [of a] hex_char_not [of b]
    by (simp add: url_hex_def c_str_def a_def [symmetric] b_def [symmetric] nat_mod_distrib)
qed

text \<open>\<open>urlDecode\<close> inverts percent-encoding: a string in which every byte is written as a percent sign and two
  hexadecimal digits decodes to that string, whatever its bytes are.\<close>

theorem urlDecode_percent_encoded: "urlDecode (url_encode s) = s"
  by (induction s) (simp_all add: url_encode_def url_hex_hex_char)

text \<open>
  A reader of JSON string bodies: it refuses a bare quote, a bare control character and every escape
  JSON does not have.
\<close>

definition json_escapes :: "(char \<times> char) list" where
  "json_escapes = [(CHR 0x22, CHR 0x22), (CHR 0x5C, CHR 0x5C), (CHR ''b'', CHR 0x08),
     (CHR ''f'', CHR 0x0C), (CHR ''n'', CHR 0x0A), (CHR ''r'', CHR 0x0D), (CHR ''t'', CHR 0x09)]"

definition hex4 :: "string \<Rightarrow> nat option" where
  "hex4 s = (case map (digit_val 16) s of
     [Some a, Some b, Some c, Some d] \<Rightarrow> Some (((a * 16 + b) * 16 + c) * 16 + d) | _ \<Rightarrow> None)"

fun json_unescape :: "string \<Rightarrow> string option" where
  "json_unescape [] = Some []"
| "json_unescape (c # cs) =
     (if c = CHR 0x5C then
        (case cs of
           [] \<Rightarrow> None
         | e # r \<Rightarrow>
             if e = CHR ''u'' then
               (case hex4 (take 4 r) of
                  Some n \<Rightarrow> if n < 128 then map_option ((#) (char_of n)) (json_unescape (drop 4 r)) else None
                | None \<Rightarrow> None)
             else (case map_of json_escapes e of
                     Some d \<Rightarrow> map_option ((#) d) (json_unescape r)
                   | None \<Rightarrow> None))
      else if c = CHR 0x22 \<or> (of_char c :: nat) < 32 then None
      else map_option ((#) c) (json_unescape cs))"

lemma json_u_escape:
  "(of_char c :: nat) \<le> 31 \<Longrightarrow>
     hex4 [CHR ''0'', CHR ''0'', hex_char (of_char c div 16), hex_char (of_char c mod 16)] = Some (of_char c)"
proof -
  assume "(of_char c :: nat) \<le> 31"
  moreover have "digit_val 16 (CHR ''0'') = Some 0"
    using digit_val_hex_char [of 0] by (simp add: hex_char_def digit_char_numerals)
  ultimately show ?thesis by (simp add: hex4_def)
qed

lemma json_unescape_char:
  "json_unescape (json_escape_char c @ t) = map_option ((#) c) (json_unescape t)"
proof (cases "c \<in> {CHR 0x22, CHR 0x5C, CHR 0x08, CHR 0x0C, CHR 0x0A, CHR 0x0D, CHR 0x09}")
  case True
  then show ?thesis
    by (elim insertE emptyE; hypsubst) (simp_all add: json_escape_char_def json_escapes_def)
next
  case False
  note h = json_u_escape [of c]
  from False have "json_escape_char c = (if (of_char c :: nat) \<le> 31
      then [CHR 0x5C, CHR ''u'', CHR ''0'', CHR ''0'', hex_char (of_char c div 16),
              hex_char (of_char c mod 16)] else [c])"
    unfolding json_escape_char_def by (simp only: insert_iff de_Morgan_disj if_False)
  with False h show ?thesis by (cases "(of_char c :: nat) \<le> 31") simp_all
qed

text \<open>
  C38: what \<open>jsonStringEscape\<close> writes is a well-formed JSON string body that denotes the original bytes: a strict
  reader, which refuses bare quotes, bare control characters and unknown escapes, reads it back.
\<close>

theorem jsonStringEscape_roundtrip: "json_unescape (jsonStringEscape s) = Some s"
  by (induction s) (simp_all add: jsonStringEscape_def json_unescape_char)

section \<open>Replacing and splitting\<close>

text \<open>Leftmost, non-overlapping replacement of a non-empty pattern, character by character.\<close>

function replace_ref :: "'a list \<Rightarrow> 'a list \<Rightarrow> 'a list \<Rightarrow> 'a list" where
  "replace_ref frm to [] = []"
| "replace_ref frm to (c # cs) =
     (if starts_with frm (c # cs) then to @ replace_ref frm to (drop (length frm - 1) cs)
      else c # replace_ref frm to cs)"
  by pat_completeness auto
termination by (relation "measure (\<lambda>(frm, to, s). length s)") auto

lemma replace_ref_None: "frm \<noteq> [] \<Longrightarrow> find_str frm t = None \<Longrightarrow> replace_ref frm to t = t"
  by (induction t) (auto split: if_splits)

lemma replace_ref_Some:
  "frm \<noteq> [] \<Longrightarrow> find_str frm t = Some i \<Longrightarrow>
     replace_ref frm to t = take i t @ to @ replace_ref frm to (drop (i + length frm) t)"
proof (induction t arbitrary: i)
  case (Cons c t)
  then show ?case
    by (cases "starts_with frm (c # t)") (auto simp: neq_Nil_conv)
qed simp

lemma replace_loop_ref:
  "frm \<noteq> [] \<Longrightarrow> replace_loop frm to (length p) found (p @ t) =
     (found \<or> find_str frm t \<noteq> None, p @ replace_ref frm to t)"
proof (induction "length t" arbitrary: p t found rule: less_induct)
  case less
  have ff: "find_from frm (p @ t) (length p) = map_option ((+) (length p)) (find_str frm t)"
    by (simp add: find_from_def)
  show ?case
  proof (cases "find_str frm t")
    case None
    then show ?thesis using less.prems
      by (subst replace_loop.simps) (simp add: ff replace_ref_None)
  next
    case (Some i)
    define p' where "p' = p @ take i t @ to"
    define t' where "t' = drop (i + length frm) t"
    note b = find_str_Some [OF Some]
    have shorter: "length t' < length t" using b less.prems by (cases frm) (auto simp: t'_def)
    have len: "length p' = length p + i + length to" using b by (simp add: p'_def min_absorb2)
    have "replace_loop frm to (length p) found (p @ t) = replace_loop frm to (length p') True (p' @ t')"
      unfolding len using Some less.prems
      by (subst replace_loop.simps) (simp add: ff p'_def t'_def)
    also have "\<dots> = (True, p' @ replace_ref frm to t')"
      using less.hyps [OF shorter less.prems, of p' True] by simp
    also have "\<dots> = (True, p @ replace_ref frm to t)"
      using replace_ref_Some [OF less.prems Some, of to] by (simp add: p'_def t'_def)
    finally show ?thesis using Some by simp
  qed
qed

text \<open>
  C37: \<open>replaceAll\<close>, which searches from the end of the text it last inserted, terminates for every input (also
  when the replacement contains the pattern), performs the leftmost non-overlapping replacement, and
  reports whether the pattern occurred; an empty pattern changes nothing.
\<close>

theorem replaceAll_correct:
  "replaceAll subj frm to =
     (frm \<noteq> [] \<and> (\<exists>a b. subj = a @ frm @ b), if frm = [] then subj else replace_ref frm to subj)"
  using replace_loop_ref [of frm to "[]" False subj] find_str_None [of frm subj]
  by (cases "frm = []") (auto simp: replaceAll_def)

lemma split_str_Nil [simp]: "split_str sep [] = []"
  by (subst split_str.simps) (simp add: getline_sep_def)

lemma split_str_line: "sep \<notin> set l \<Longrightarrow> split_str sep (l @ sep # rest) = l # split_str sep rest"
  by (subst split_str.simps) (simp add: getline_sep_line)

lemma split_str_last: "sep \<notin> set l \<Longrightarrow> split_str sep l = (if l = [] then [] else [l])"
proof -
  assume "sep \<notin> set l"
  then have "takeWhile (\<lambda>c. c \<noteq> sep) l = l" "dropWhile (\<lambda>c. c \<noteq> sep) l = []" by auto
  then show ?thesis by (subst split_str.simps) (simp add: getline_sep_def del: dropWhile_eq_Nil_conv takeWhile_eq_all_conv)
qed

text \<open>
  \<open>split\<close> inverts \<open>implode\<close> with a one-character delimiter when no field contains it, except that an empty
  last field is lost (and the one-element list of the empty string splits to the empty list).
\<close>

theorem split_implode:
  "\<forall>l\<in>set ls. sep \<notin> set l \<Longrightarrow>
     split_str sep (implode ls [sep]) = (if ls \<noteq> [] \<and> last ls = [] then butlast ls else ls)"
proof (induction ls "[sep]" rule: implode.induct)
  case (2 x)
  then show ?case by (simp add: split_str_last)
next
  case (3 x y xs)
  then show ?case by (simp add: split_str_line)
qed simp

theorem split_implode_witness:
  "split_str (CHR '';'') (implode [''a'', [], ''bc''] '';'') = [''a'', [], ''bc''] \<and>
   split_str (CHR '';'') (implode [''a'', []] '';'') = [''a'']"
  using split_implode [of "[''a'', [], ''bc'']" "CHR '';''"]
    split_implode [of "[''a'', []]" "CHR '';''"] by simp

end
