(* ===== verification/Restrictor.thy ===== *)
theory Restrictor
  imports Prelude
begin

text \<open>
  \<^verbatim>\<open>trgraph/restrictor.{h,cpp}\<close>: the store of turn restrictions.  Nodes and edges are the pointers the
  code compares; a rule's target edge may be the null pointer, which is \<^const>\<open>None\<close>.  The endpoint
  accessors of edges are arguments (\<open>fr\<close> for \<^verbatim>\<open>getFrom()\<close>, \<open>to\<close> for \<^verbatim>\<open>getTo()\<close>).

  A vector access out of range and a failed \<^verbatim>\<open>assert\<close> are the result \<^const>\<open>None\<close> of an operation.
\<close>

section \<open>Definitions\<close>

type_synonym osmid = u64

type_synonym ('n, 'e) Rules = "'n \<rightharpoonup> ('e \<times> 'e option) list"

type_synonym 'n dangling = "('n \<times> osmid) \<rightharpoonup> ('n \<times> nat) list"

record ('n, 'e) restrictor =
  pos_rules :: "('n, 'e) Rules"
  neg_rules :: "('n, 'e) Rules"
  rlx :: "('n \<times> osmid) \<rightharpoonup> 'e"
  posDangling :: "'n dangling"
  negDangling :: "'n dangling"

definition restrictor_init :: "('n, 'e) restrictor" where
  "restrictor_init = \<lparr>pos_rules = Map.empty, neg_rules = Map.empty, rlx = Map.empty,
     posDangling = Map.empty, negDangling = Map.empty\<rparr>"

text \<open>\<^verbatim>\<open>m[k]\<close> of a map of vectors, read after the default entry has been made.\<close>

definition entry :: "('k \<rightharpoonup> 'a list) \<Rightarrow> 'k \<Rightarrow> 'a list" where
  "entry m k = (case m k of None \<Rightarrow> [] | Some xs \<Rightarrow> xs)"

definition node_hasEdge :: "('e \<Rightarrow> 'n) \<Rightarrow> ('e \<Rightarrow> 'n) \<Rightarrow> 'n \<Rightarrow> 'e \<Rightarrow> bool" where
  "node_hasEdge fr to n e \<longleftrightarrow> fr e = n \<or> to e = n"

text \<open>The loop of \<open>relax\<close> over the dangling paths.\<close>

fun resolve_paths ::
  "('e \<Rightarrow> 'n) \<Rightarrow> ('e \<Rightarrow> 'n) \<Rightarrow> 'e \<Rightarrow> ('n \<times> nat) list \<Rightarrow> ('n, 'e) Rules \<Rightarrow> ('n, 'e) Rules option" where
  "resolve_paths fr to e [] m = Some m"
| "resolve_paths fr to e ((n, i) # ps) m =
     (let xs = entry m n in
      if i < length xs \<and> node_hasEdge fr to n e
      then resolve_paths fr to e ps (m(n \<mapsto> xs[i := (fst (xs ! i), Some e)]))
      else None)"

definition relax ::
  "('e \<Rightarrow> 'n) \<Rightarrow> ('e \<Rightarrow> 'n) \<Rightarrow> osmid \<Rightarrow> 'n \<Rightarrow> 'e \<Rightarrow> ('n, 'e) restrictor \<Rightarrow> ('n, 'e) restrictor option" where
  "relax fr to wid n e r =
     (let r = r\<lparr>rlx := (rlx r)((n, wid) \<mapsto> e)\<rparr> in
      case (case posDangling r (n, wid) of
              None \<Rightarrow> Some (pos_rules r)
            | Some ps \<Rightarrow> resolve_paths fr to e ps (pos_rules r)) of
        None \<Rightarrow> None
      | Some p \<Rightarrow>
          (case (case negDangling r (n, wid) of
                   None \<Rightarrow> Some (neg_rules r)
                 | Some ps \<Rightarrow> resolve_paths fr to e ps (neg_rules r)) of
             None \<Rightarrow> None
           | Some q \<Rightarrow> Some (r\<lparr>pos_rules := p, neg_rules := q\<rparr>)))"

definition add_restr ::
  "'e \<Rightarrow> osmid \<Rightarrow> 'n \<Rightarrow> bool \<Rightarrow> ('n, 'e) restrictor \<Rightarrow> ('n, 'e) restrictor" where
  "add_restr frm wid via pos r =
     (let toE = rlx r (via, wid) in
      if pos then
        (let p = entry (pos_rules r) via @ [(frm, toE)];
             r = r\<lparr>pos_rules := (pos_rules r)(via \<mapsto> p)\<rparr>
         in if toE = None
            then r\<lparr>posDangling := (posDangling r)((via, wid) \<mapsto>
                      entry (posDangling r) (via, wid) @ [(via, length p - 1)])\<rparr>
            else r)
      else
        (let q = entry (neg_rules r) via @ [(frm, toE)];
             r = r\<lparr>neg_rules := (neg_rules r)(via \<mapsto> q)\<rparr>
         in if toE = None
            then r\<lparr>negDangling := (negDangling r)((via, wid) \<mapsto>
                      entry (negDangling r) (via, wid) @ [(via, length q - 1)])\<rparr>
            else r))"

text \<open>The loop over the positive rules: it returns at the first rule that decides.\<close>

fun may_pos :: "'e \<Rightarrow> 'e \<Rightarrow> ('e \<times> 'e option) list \<Rightarrow> bool option" where
  "may_pos frm to [] = None"
| "may_pos frm to (r # rs) =
     (if fst r = frm \<and> snd r \<noteq> None \<and> snd r \<noteq> Some to then Some False
      else if fst r = frm \<and> snd r = Some to then Some True
      else may_pos frm to rs)"

definition may :: "'e \<Rightarrow> 'e \<Rightarrow> 'n \<Rightarrow> ('n, 'e) restrictor \<Rightarrow> bool" where
  "may frm to via r =
     (case may_pos frm to (entry (pos_rules r) via) of
        Some b \<Rightarrow> b
      | None \<Rightarrow> \<not> list_ex (\<lambda>q. fst q = frm \<and> snd q = Some to) (entry (neg_rules r) via))"

text \<open>\<open>replace_edge\<close> at one node, on one rule and then on both maps.\<close>

definition replace_in_rule :: "'e \<Rightarrow> 'e \<Rightarrow> 'e \<times> 'e option \<Rightarrow> 'e \<times> 'e option" where
  "replace_in_rule old newE r =
     (if fst r = old then newE else fst r, if snd r = Some old then Some newE else snd r)"

definition replace_edge_at ::
  "'e \<Rightarrow> 'n \<Rightarrow> 'e \<Rightarrow> ('n, 'e) restrictor \<Rightarrow> ('n, 'e) restrictor" where
  "replace_edge_at old via newE r =
     r\<lparr>pos_rules := (pos_rules r)(via := map_option (map (replace_in_rule old newE)) (pos_rules r via)),
       neg_rules := (neg_rules r)(via := map_option (map (replace_in_rule old newE)) (neg_rules r via))\<rparr>"

definition replace_edge ::
  "('e \<Rightarrow> 'n) \<Rightarrow> ('e \<Rightarrow> 'n) \<Rightarrow> 'e \<Rightarrow> 'e \<Rightarrow> 'e \<Rightarrow> ('n, 'e) restrictor \<Rightarrow> ('n, 'e) restrictor" where
  "replace_edge fr to old newA newB r =
     (let (newFrom, newTo) =
            (if fr old = fr newA \<or> fr old = to newA then (newA, newB) else (newB, newA))
      in replace_edge_at old (to old) newTo (replace_edge_at old (fr old) newFrom r))"

definition duplicate_in_rule ::
  "('e \<Rightarrow> 'n) \<Rightarrow> ('e \<Rightarrow> 'n) \<Rightarrow> 'e \<Rightarrow> 'n \<Rightarrow> 'e \<Rightarrow> 'e \<times> 'e option \<Rightarrow> 'e \<times> 'e option" where
  "duplicate_in_rule fr to old via newE r =
     (if fst r = old \<and> to old \<noteq> via then newE else fst r,
      if snd r = Some old \<and> fr old \<noteq> via then Some newE else snd r)"

definition duplicate_edge_at ::
  "('e \<Rightarrow> 'n) \<Rightarrow> ('e \<Rightarrow> 'n) \<Rightarrow> 'e \<Rightarrow> 'n \<Rightarrow> 'e \<Rightarrow> ('n, 'e) restrictor \<Rightarrow> ('n, 'e) restrictor option" where
  "duplicate_edge_at fr to old via newE r =
     (if fr old = to newE \<and> to old = fr newE then
        Some (r\<lparr>pos_rules := (pos_rules r)(via :=
                  map_option (map (duplicate_in_rule fr to old via newE)) (pos_rules r via)),
                neg_rules := (neg_rules r)(via :=
                  map_option (map (duplicate_in_rule fr to old via newE)) (neg_rules r via))\<rparr>)
      else None)"

definition duplicate_edge ::
  "('e \<Rightarrow> 'n) \<Rightarrow> ('e \<Rightarrow> 'n) \<Rightarrow> 'e \<Rightarrow> 'e \<Rightarrow> ('n, 'e) restrictor \<Rightarrow> ('n, 'e) restrictor option" where
  "duplicate_edge fr to old newE r =
     (case duplicate_edge_at fr to old (fr old) newE r of
        None \<Rightarrow> None
      | Some r \<Rightarrow> duplicate_edge_at fr to old (to old) newE r)"

section \<open>Resolving rules in any order\<close>

text \<open>
  While ways are read, restrictions are added and way ids are resolved in the order of the input.  An
  operation history is a list of these calls.
\<close>

datatype ('n, 'e) rop = Relax osmid 'n 'e | Add 'e osmid 'n bool

primrec exec_rop ::
  "('e \<Rightarrow> 'n) \<Rightarrow> ('e \<Rightarrow> 'n) \<Rightarrow> ('n, 'e) rop \<Rightarrow> ('n, 'e) restrictor \<Rightarrow> ('n, 'e) restrictor option" where
  "exec_rop fr to (Relax wid n e) r = relax fr to wid n e r"
| "exec_rop fr to (Add frm wid via pos) r = Some (add_restr frm wid via pos r)"

fun exec_rops ::
  "('e \<Rightarrow> 'n) \<Rightarrow> ('e \<Rightarrow> 'n) \<Rightarrow> ('n, 'e) rop list \<Rightarrow> ('n, 'e) restrictor \<Rightarrow> ('n, 'e) restrictor option" where
  "exec_rops fr to [] r = Some r"
| "exec_rops fr to (op # ops) r = Option.bind (exec_rop fr to op r) (exec_rops fr to ops)"

text \<open>
  What a history says: the edge a way id stands for at a node in the end, and the restrictions of a node in their order, each with the
  edge its target way stood for when it was added, if any.
\<close>

definition relaxed :: "('n, 'e) rop list \<Rightarrow> ('n \<times> osmid) \<rightharpoonup> 'e" where
  "relaxed ops = map_of (rev (List.map_filter
     (\<lambda>op. case op of Relax w n e \<Rightarrow> Some ((n, w), e) | Add _ _ _ _ \<Rightarrow> None) ops))"

fun added_from :: "(('n \<times> osmid) \<rightharpoonup> 'e) \<Rightarrow> ('n, 'e) rop list \<Rightarrow> bool \<Rightarrow> 'n \<Rightarrow> ('e \<times> osmid \<times> 'e option) list" where
  "added_from rel [] pos via = []"
| "added_from rel (Relax w n e # ops) pos via = added_from (rel((n, w) \<mapsto> e)) ops pos via"
| "added_from rel (Add f w v p # ops) pos via =
     (if v = via \<and> p = pos then [(f, w, rel (v, w))] else []) @ added_from rel ops pos via"

abbreviation added :: "('n, 'e) rop list \<Rightarrow> bool \<Rightarrow> 'n \<Rightarrow> ('e \<times> osmid \<times> 'e option) list" where
  "added \<equiv> added_from Map.empty"

text \<open>The edge that a restriction names: the one it was added with, or else the one its way stands for in the end.\<close>

definition names :: "(('n \<times> osmid) \<rightharpoonup> 'e) \<Rightarrow> 'n \<Rightarrow> osmid \<times> 'e option \<Rightarrow> 'e option" where
  "names rel via = (\<lambda>(w, early). case early of None \<Rightarrow> rel (via, w) | Some e \<Rightarrow> Some e)"

text \<open>
  The meaning of a history, without the dangling bookkeeping: among the mandatory restrictions of the
  incoming edge that name an edge, the first decides; without one, the turn is allowed unless a prohibitory restriction names it.
\<close>

definition may_hist :: "('n, 'e) rop list \<Rightarrow> 'e \<Rightarrow> 'e \<Rightarrow> 'n \<Rightarrow> bool" where
  "may_hist ops frm to via =
     (case List.map_filter (\<lambda>(f, x). if f = frm then names (relaxed ops) via x else None) (added ops True via) of
        e # _ \<Rightarrow> e = to
      | [] \<Rightarrow> \<not> (\<exists>x. (frm, x) \<in> set (added ops False via) \<and> names (relaxed ops) via x = Some to))"

text \<open>The same when only the order among the restrictions counts: every restriction names the edge that its way stands for in the end.\<close>

definition restrs :: "('n, 'e) rop list \<Rightarrow> bool \<Rightarrow> 'n \<Rightarrow> ('e \<times> osmid) list" where
  "restrs ops pos via = List.map_filter
     (\<lambda>op. case op of Relax _ _ _ \<Rightarrow> None
       | Add f w v p \<Rightarrow> if v = via \<and> p = pos then Some (f, w) else None) ops"

definition may_spec :: "('n, 'e) rop list \<Rightarrow> 'e \<Rightarrow> 'e \<Rightarrow> 'n \<Rightarrow> bool" where
  "may_spec ops frm to via =
     (case List.map_filter (\<lambda>(f, w). if f = frm then relaxed ops (via, w) else None)
             (restrs ops True via) of
        e # _ \<Rightarrow> e = to
      | [] \<Rightarrow> \<not> (\<exists>w. (frm, w) \<in> set (restrs ops False via) \<and> relaxed ops (via, w) = Some to))"

text \<open>
  A way id that stands for an edge when a restriction to it is added stands for that edge in the end.  This is so when ways are read one
  after the other: a way that runs through a node comes to stand for both of its edges there in a row, and the restrictions of other
  ways are added before or after.
\<close>

definition settled :: "('n, 'e) rop list \<Rightarrow> bool" where
  "settled ops \<longleftrightarrow> (\<forall>before f w v p after e. ops = before @ Add f w v p # after \<longrightarrow> relaxed before (v, w) = Some e \<longrightarrow> relaxed ops (v, w) = Some e)"

text \<open>A way id comes to stand for an edge that does not touch the node where a restriction waits for it.\<close>

definition misfit_op :: "('e \<Rightarrow> 'n) \<Rightarrow> ('e \<Rightarrow> 'n) \<Rightarrow> ('n, 'e) rop list \<Rightarrow> ('n, 'e) rop \<Rightarrow> bool" where
  "misfit_op fr to before op =
     (case op of Relax w n e \<Rightarrow> \<not> node_hasEdge fr to n e \<and> (\<exists>p f. (f, w, None) \<in> set (added before p n)) | Add _ _ _ _ \<Rightarrow> False)"

definition misfit :: "('e \<Rightarrow> 'n) \<Rightarrow> ('e \<Rightarrow> 'n) \<Rightarrow> ('n, 'e) rop list \<Rightarrow> bool" where
  "misfit fr to ops \<longleftrightarrow> (\<exists>before op after. ops = before @ op # after \<and> misfit_op fr to before op)"

lemma map_filter_snoc:
  "List.map_filter f (xs @ [x]) = List.map_filter f xs @ (case f x of None \<Rightarrow> [] | Some y \<Rightarrow> [y])"
  by (induction xs) (auto simp: List.map_filter_simps split: option.split)

lemma relaxed_simps [simp]:
  "relaxed [] = Map.empty"
  "relaxed (ops @ [Relax w n e]) = (relaxed ops)((n, w) \<mapsto> e)"
  "relaxed (ops @ [Add f w v p]) = relaxed ops"
  by (simp_all add: relaxed_def map_filter_snoc List.map_filter_simps)

lemma relaxed_Cons:
  "relaxed (Relax w n e # ops) = [(n, w) \<mapsto> e] ++ relaxed ops" "relaxed (Add f w v p # ops) = relaxed ops"
  by (simp_all add: relaxed_def List.map_filter_simps)

lemma map_add_start: "rel ++ ([k \<mapsto> e] ++ m) = rel(k \<mapsto> e) ++ m"
  by (rule ext) (simp add: map_add_def split: option.split)

lemma added_snoc:
  "added_from rel (ops @ [Relax w n e]) pos via = added_from rel ops pos via"
  "added_from rel (ops @ [Add f w v p]) pos via =
     added_from rel ops pos via @ (if v = via \<and> p = pos then [(f, w, (rel ++ relaxed ops) (v, w))] else [])"
  by (induction rel ops pos via rule: added_from.induct) (simp_all add: relaxed_Cons map_add_start)

lemma exec_rops_snoc:
  "exec_rops fr to (ops @ [op]) r = Option.bind (exec_rops fr to ops r) (exec_rop fr to op)"
  by (induction ops arbitrary: r) (auto simp: bind_assoc split: Option.bind_splits)

lemma entry_upd [simp]: "entry (m(k \<mapsto> xs)) k' = (if k' = k then xs else entry m k')"
  by (simp add: entry_def)

lemma split_snoc: "(\<exists>ys z zs. xs @ [x] = ys @ z # zs \<and> P ys z) \<longleftrightarrow> (\<exists>ys z zs. xs = ys @ z # zs \<and> P ys z) \<or> P xs x"
proof -
  have "xs @ [x] = ys @ z # zs \<longleftrightarrow> (\<exists>ws. zs = ws @ [x] \<and> xs = ys @ z # ws) \<or> zs = [] \<and> ys = xs \<and> z = x" for ys z zs
    by (cases zs rule: rev_cases) auto
  then show ?thesis by (simp only:) blast
qed

lemma misfit_snoc: "misfit fr to (ops @ [op]) \<longleftrightarrow> misfit fr to ops \<or> misfit_op fr to ops op"
  unfolding misfit_def by (rule split_snoc)

section \<open>The bookkeeping\<close>

lemma resolve_paths_ok:
  assumes "\<forall>p\<in>set ps. fst p = n \<and> snd p < length (entry m n)" "node_hasEdge fr to n e"
  shows "\<exists>m'. resolve_paths fr to e ps m = Some m' \<and> (\<forall>v. v \<noteq> n \<longrightarrow> entry m' v = entry m v) \<and>
    length (entry m' n) = length (entry m n) \<and>
    (\<forall>i<length (entry m n). entry m' n ! i =
       (if (n, i) \<in> set ps then (fst (entry m n ! i), Some e) else entry m n ! i))"
  using assms
proof (induction ps arbitrary: m)
  case (Cons p ps)
  define m1 where "m1 = m(n \<mapsto> (entry m n)[snd p := (fst (entry m n ! snd p), Some e)])"
  have len: "length (entry m1 n) = length (entry m n)" by (simp add: m1_def)
  have "\<forall>q\<in>set ps. fst q = n \<and> snd q < length (entry m1 n)" using Cons.prems(1) len by simp
  from Cons.IH [OF this Cons.prems(2)] obtain m' where
    m': "resolve_paths fr to e ps m1 = Some m'" "\<forall>v. v \<noteq> n \<longrightarrow> entry m' v = entry m1 v"
    "length (entry m' n) = length (entry m1 n)"
    "\<forall>i<length (entry m1 n). entry m' n ! i =
       (if (n, i) \<in> set ps then (fst (entry m1 n ! i), Some e) else entry m1 n ! i)" by blast
  have p: "p = (n, snd p)" "snd p < length (entry m n)" using Cons.prems(1) by (cases p; simp)+
  have "resolve_paths fr to e (p # ps) m = Some m'"
    using m'(1) p(2) Cons.prems(2) by (subst p(1)) (simp add: m1_def Let_def)
  moreover have "entry m' n ! i =
      (if (n, i) \<in> set (p # ps) then (fst (entry m n ! i), Some e) else entry m n ! i)"
    if "i < length (entry m n)" for i
    using m'(4) that len p by (cases "i = snd p") (auto simp: m1_def nth_list_update)
  ultimately show ?case using m'(2,3) len by (auto simp: m1_def)
qed auto

lemma resolve_paths_misfit: "\<not> node_hasEdge fr to n e \<Longrightarrow> \<forall>p\<in>set ps. fst p = n \<Longrightarrow> ps \<noteq> [] \<Longrightarrow> resolve_paths fr to e ps m = None"
  by (cases ps) (auto simp: Let_def)

text \<open>
  One polarity of a restrictor agrees with the restrictions of a history: its rules are the restrictions with the edges they name,
  and the dangling paths lead exactly to the rules that were added without an edge.
\<close>

definition agrees ::
  "('n \<times> osmid \<rightharpoonup> 'e) \<Rightarrow> ('n \<Rightarrow> ('e \<times> osmid \<times> 'e option) list) \<Rightarrow> ('n, 'e) Rules \<Rightarrow> 'n dangling \<Rightarrow> bool" where
  "agrees rel rs m d \<longleftrightarrow>
     (\<forall>v. entry m v = map (\<lambda>(f, x). (f, names rel v x)) (rs v)) \<and>
     (\<forall>v w p. p \<in> set (entry d (v, w)) \<longleftrightarrow> fst p = v \<and> snd p < length (rs v) \<and> snd (rs v ! snd p) = (w, None))"

lemma agrees_relax:
  assumes ag: "agrees rel rs m d"
  shows "(if \<not> node_hasEdge fr to n e \<and> (\<exists>f. (f, w, None) \<in> set (rs n))
      then (case d (n, w) of None \<Rightarrow> Some m | Some ps \<Rightarrow> resolve_paths fr to e ps m) = None
      else \<exists>m'. (case d (n, w) of None \<Rightarrow> Some m | Some ps \<Rightarrow> resolve_paths fr to e ps m) = Some m' \<and>
        agrees (rel((n, w) \<mapsto> e)) rs m' d)"
proof -
  define ps where "ps = entry d (n, w)"
  have eq: "(case d (n, w) of None \<Rightarrow> Some m | Some ps \<Rightarrow> resolve_paths fr to e ps m) = resolve_paths fr to e ps m"
    by (simp add: ps_def entry_def split: option.split)
  have m: "entry m v = map (\<lambda>(f, x). (f, names rel v x)) (rs v)" for v using ag by (simp add: agrees_def)
  have d: "p \<in> set ps \<longleftrightarrow> fst p = n \<and> snd p < length (rs n) \<and> snd (rs n ! snd p) = (w, None)" for p
    using ag unfolding agrees_def ps_def by blast
  have waits: "ps \<noteq> [] \<longleftrightarrow> (\<exists>f. (f, w, None) \<in> set (rs n))"
  proof
    assume "ps \<noteq> []"
    then obtain p where "p \<in> set ps" by (cases ps) auto
    then have "snd p < length (rs n)" "rs n ! snd p = (fst (rs n ! snd p), w, None)" using d by (simp_all add: prod_eq_iff)
    then show "\<exists>f. (f, w, None) \<in> set (rs n)" by (metis nth_mem)
  next
    assume "\<exists>f. (f, w, None) \<in> set (rs n)"
    then obtain i where "i < length (rs n)" "snd (rs n ! i) = (w, None)" by (metis in_set_conv_nth snd_conv)
    then have "(n, i) \<in> set ps" using d by simp
    then show "ps \<noteq> []" by auto
  qed
  show ?thesis
  proof (cases "\<not> node_hasEdge fr to n e \<and> ps \<noteq> []")
    case True
    then show ?thesis using resolve_paths_misfit [of fr to n e ps m] d eq waits by auto
  next
    case False
    have "\<exists>m'. resolve_paths fr to e ps m = Some m' \<and> (\<forall>v. v \<noteq> n \<longrightarrow> entry m' v = entry m v) \<and>
      length (entry m' n) = length (entry m n) \<and>
      (\<forall>i<length (entry m n). entry m' n ! i = (if (n, i) \<in> set ps then (fst (entry m n ! i), Some e) else entry m n ! i))"
    proof (cases "ps = []")
      case h: False
      then have e: "node_hasEdge fr to n e" using False by blast
      show ?thesis by (rule resolve_paths_ok [OF _ e]) (use d m in auto)
    qed simp
    then obtain m' where m': "resolve_paths fr to e ps m = Some m'" "\<forall>v. v \<noteq> n \<longrightarrow> entry m' v = entry m v"
      "length (entry m' n) = length (entry m n)"
      "\<forall>i<length (entry m n). entry m' n ! i = (if (n, i) \<in> set ps then (fst (entry m n ! i), Some e) else entry m n ! i)"
      by blast
    have "entry m' n ! i = (fst (rs n ! i), names (rel((n, w) \<mapsto> e)) n (snd (rs n ! i)))" if i: "i < length (rs n)" for i
    proof -
      obtain f w' x where r: "rs n ! i = (f, w', x)" by (cases "rs n ! i") auto
      then show ?thesis using m'(4) m [of n] i d [of "(n, i)"] by (cases x) (auto simp: names_def)
    qed
    then have "entry m' n = map (\<lambda>(f, x). (f, names (rel((n, w) \<mapsto> e)) n x)) (rs n)"
      using m'(3) m [of n] by (intro nth_equalityI) (simp_all add: split_beta)
    moreover have "names (rel((n, w) \<mapsto> e)) v = names rel v" if "v \<noteq> n" for v
      using that by (auto simp: names_def fun_eq_iff split: option.split)
    ultimately have "entry m' v = map (\<lambda>(f, x). (f, names (rel((n, w) \<mapsto> e)) v x)) (rs v)" for v
      using m'(2) m [of v] by (cases "v = n") simp_all
    then have "agrees (rel((n, w) \<mapsto> e)) rs m' d" using ag unfolding agrees_def by blast
    then show ?thesis using m'(1) eq False waits by auto
  qed
qed

lemma agrees_add_same:
  assumes "agrees rel rs m d"
  shows "agrees rel (rs(v := rs v @ [(f, w, rel (v, w))])) (m(v \<mapsto> entry m v @ [(f, rel (v, w))]))
    (if rel (v, w) = None then d((v, w) \<mapsto> entry d (v, w) @ [(v, length (entry m v))]) else d)"
proof -
  let ?d = "if rel (v, w) = None then d((v, w) \<mapsto> entry d (v, w) @ [(v, length (entry m v))]) else d"
  let ?rs = "rs(v := rs v @ [(f, w, rel (v, w))])"
  have m: "entry m u = map (\<lambda>(f, x). (f, names rel u x)) (rs u)" for u using assms by (auto simp: agrees_def)
  have d: "p \<in> set (entry d (u, x)) \<longleftrightarrow> fst p = u \<and> snd p < length (rs u) \<and> snd (rs u ! snd p) = (x, None)" for u x p
    using assms unfolding agrees_def by blast
  have len: "length (entry m v) = length (rs v)" by (simp add: m)
  have "names rel v (w, rel (v, w)) = rel (v, w)" by (simp add: names_def split: option.split)
  then have "entry (m(v \<mapsto> entry m v @ [(f, rel (v, w))])) u = map (\<lambda>(f, x). (f, names rel u x)) (?rs u)" for u
    by (simp add: m)
  moreover have "p \<in> set (entry ?d (u, x)) \<longleftrightarrow> fst p = u \<and> snd p < length (?rs u) \<and> snd (?rs u ! snd p) = (x, None)" for u x p
    using d [of p u x] by (cases p) (auto simp: len nth_append less_Suc_eq)
  ultimately show ?thesis unfolding agrees_def by blast
qed

definition agrees_with :: "('n, 'e) rop list \<Rightarrow> ('n, 'e) restrictor \<Rightarrow> bool" where
  "agrees_with ops r \<longleftrightarrow> rlx r = relaxed ops \<and>
     agrees (relaxed ops) (added ops True) (pos_rules r) (posDangling r) \<and>
     agrees (relaxed ops) (added ops False) (neg_rules r) (negDangling r)"

lemma added_Relax: "added (ops @ [Relax w n e]) pos = added ops pos"
  by (rule ext) (simp add: added_snoc)

lemma added_Add:
  "added (ops @ [Add f w v p]) pos =
     (if p = pos then (added ops pos)(v := added ops pos v @ [(f, w, relaxed ops (v, w))]) else added ops pos)"
  by (rule ext) (simp add: added_snoc)

lemma relax_eq:
  "relax fr to w n e r =
    (case (case posDangling r (n, w) of None \<Rightarrow> Some (pos_rules r) | Some ps \<Rightarrow> resolve_paths fr to e ps (pos_rules r)) of
       None \<Rightarrow> None
     | Some p \<Rightarrow>
         (case (case negDangling r (n, w) of None \<Rightarrow> Some (neg_rules r) | Some ps \<Rightarrow> resolve_paths fr to e ps (neg_rules r)) of
            None \<Rightarrow> None
          | Some q \<Rightarrow> Some (r\<lparr>rlx := (rlx r)((n, w) \<mapsto> e), pos_rules := p, neg_rules := q\<rparr>)))"
  by (simp add: relax_def Let_def cong: option.case_cong)

lemma agrees_with_relax:
  assumes "agrees_with ops r"
  shows "if \<not> node_hasEdge fr to n e \<and> (\<exists>p f. (f, w, None) \<in> set (added ops p n)) then relax fr to w n e r = None
    else \<exists>r'. relax fr to w n e r = Some r' \<and> agrees_with (ops @ [Relax w n e]) r'"
proof -
  from assms have r: "rlx r = relaxed ops"
    "agrees (relaxed ops) (added ops True) (pos_rules r) (posDangling r)"
    "agrees (relaxed ops) (added ops False) (neg_rules r) (negDangling r)"
    by (auto simp: agrees_with_def)
  let ?waits = "\<lambda>p. \<exists>f. (f, w, None) \<in> set (added ops p n)"
  note p = agrees_relax [OF r(2), of fr to n e w] and q = agrees_relax [OF r(3), of fr to n e w]
  consider "\<not> node_hasEdge fr to n e" "?waits True" | "\<not> node_hasEdge fr to n e" "?waits False" "\<not> ?waits True"
    | "node_hasEdge fr to n e \<or> \<not> ?waits True" "node_hasEdge fr to n e \<or> \<not> ?waits False" by blast
  then show ?thesis
  proof cases
    case 1
    then have "relax fr to w n e r = None" using p by (simp add: relax_eq)
    then show ?thesis using 1 by auto
  next
    case 2
    then have "relax fr to w n e r = None" using p q by (auto simp: relax_eq)
    then show ?thesis using 2 by auto
  next
    case 3
    then obtain p' q' where
      "(case posDangling r (n, w) of None \<Rightarrow> Some (pos_rules r) | Some ps \<Rightarrow> resolve_paths fr to e ps (pos_rules r)) = Some p'"
      "agrees ((relaxed ops)((n, w) \<mapsto> e)) (added ops True) p' (posDangling r)"
      "(case negDangling r (n, w) of None \<Rightarrow> Some (neg_rules r) | Some ps \<Rightarrow> resolve_paths fr to e ps (neg_rules r)) = Some q'"
      "agrees ((relaxed ops)((n, w) \<mapsto> e)) (added ops False) q' (negDangling r)"
      using p q by (auto split: if_splits)
    then have "\<exists>r'. relax fr to w n e r = Some r' \<and> agrees_with (ops @ [Relax w n e]) r'"
      using r(1) by (simp add: relax_eq agrees_with_def added_Relax)
    moreover have "\<not> (\<not> node_hasEdge fr to n e \<and> (\<exists>p f. (f, w, None) \<in> set (added ops p n)))" using 3 by (metis (full_types))
    ultimately show ?thesis by argo
  qed
qed

lemma agrees_with_add:
  assumes "agrees_with ops r"
  shows "agrees_with (ops @ [Add f w v p]) (add_restr f w v p r)"
proof -
  from assms have r: "rlx r = relaxed ops"
    "agrees (relaxed ops) (added ops True) (pos_rules r) (posDangling r)"
    "agrees (relaxed ops) (added ops False) (neg_rules r) (negDangling r)"
    by (auto simp: agrees_with_def)
  show ?thesis
    using r agrees_add_same [OF r(2), of v f w] agrees_add_same [OF r(3), of v f w]
    by (cases p; cases "relaxed ops (v, w)")
      (simp_all add: add_restr_def agrees_with_def added_Add Let_def)
qed

lemma exec_rops_agrees:
  "if misfit fr to ops then exec_rops fr to ops restrictor_init = None
   else \<exists>r. exec_rops fr to ops restrictor_init = Some r \<and> agrees_with ops r"
proof (induction ops rule: rev_induct)
  case Nil
  then show ?case by (simp add: misfit_def agrees_with_def agrees_def restrictor_init_def entry_def)
next
  case (snoc op ops)
  show ?case
  proof (cases "misfit fr to ops")
    case True
    then have "misfit fr to (ops @ [op])" by (simp add: misfit_snoc)
    then show ?thesis using snoc True by (simp add: exec_rops_snoc)
  next
    case False
    then obtain r where r: "exec_rops fr to ops restrictor_init = Some r" "agrees_with ops r" using snoc by auto
    show ?thesis
    proof (cases op)
      case (Relax w n e)
      then show ?thesis using agrees_with_relax [OF r(2), of fr to n e w] r(1) False by (simp add: exec_rops_snoc misfit_snoc misfit_op_def)
    next
      case (Add f w v p)
      then show ?thesis using agrees_with_add [OF r(2)] r(1) False by (simp add: exec_rops_snoc misfit_snoc misfit_op_def)
    qed
  qed
qed

section \<open>What the restrictor forbids\<close>

lemma may_pos_resolved:
  "may_pos frm to (map (\<lambda>(f, x). (f, nm x)) rs) =
     (case List.map_filter (\<lambda>(f, x). if f = frm then nm x else None) rs of
        [] \<Rightarrow> None | e # _ \<Rightarrow> Some (e = to))"
  by (induction rs) (auto simp: List.map_filter_simps split: option.splits if_splits)

lemma may_agrees:
  assumes "agrees_with ops r"
  shows "may frm to via r = may_hist ops frm to via"
proof -
  have p: "entry (pos_rules r) via = map (\<lambda>(f, x). (f, names (relaxed ops) via x)) (added ops True via)"
    and q: "entry (neg_rules r) via = map (\<lambda>(f, x). (f, names (relaxed ops) via x)) (added ops False via)"
    using assms by (auto simp: agrees_with_def agrees_def)
  have "list_ex (\<lambda>q. fst q = frm \<and> snd q = Some to) (entry (neg_rules r) via) \<longleftrightarrow>
      (\<exists>x. (frm, x) \<in> set (added ops False via) \<and> names (relaxed ops) via x = Some to)"
    by (force simp: q list_ex_iff)
  then show ?thesis
    by (simp add: may_def may_hist_def p may_pos_resolved
        split: list.split)
qed

text \<open>When the edges are settled, it does not matter when a way comes to stand for its edge.\<close>

lemma restrs_snoc:
  "restrs (ops @ [Relax w n e]) pos via = restrs ops pos via"
  "restrs (ops @ [Add f w v p]) pos via = restrs ops pos via @ (if v = via \<and> p = pos then [(f, w)] else [])"
  by (simp_all add: restrs_def map_filter_snoc List.map_filter_simps)

lemma added_restrs: "restrs ops pos via = map (\<lambda>(f, w, x). (f, w)) (added ops pos via)"
proof (induction ops rule: rev_induct)
  case (snoc op ops)
  then show ?case by (cases op) (simp_all add: restrs_snoc added_snoc)
qed (simp add: restrs_def List.map_filter_simps)

lemma added_early: "(f, w, Some e) \<in> set (added ops p v) \<Longrightarrow> \<exists>before after. ops = before @ Add f w v p # after \<and> relaxed before (v, w) = Some e"
proof (induction ops rule: rev_induct)
  case (snoc op ops)
  then consider "(f, w, Some e) \<in> set (added ops p v)" | "op = Add f w v p" "relaxed ops (v, w) = Some e"
    by (cases op) (auto simp: added_snoc split: if_splits)
  then show ?case
  proof cases
    case 1
    then show ?thesis using snoc.IH by force
  qed auto
qed simp

lemma settled_names:
  assumes "settled ops" "(f, w, x) \<in> set (added ops pos via)"
  shows "names (relaxed ops) via (w, x) = relaxed ops (via, w)"
proof (cases x)
  case (Some e)
  then obtain before after where "ops = before @ Add f w via pos # after" "relaxed before (via, w) = Some e"
    using added_early [of f w e ops pos via] assms(2) by blast
  then have "relaxed ops (via, w) = Some e" using assms(1) unfolding settled_def by blast
  then show ?thesis using Some by (simp add: names_def)
qed (simp add: names_def)

lemma may_hist_spec:
  assumes "settled ops"
  shows "may_hist ops e1 e2 via = may_spec ops e1 e2 via"
proof -
  have "List.map_filter (\<lambda>(f, x). if f = e1 then names (relaxed ops) via x else None) xs =
      List.map_filter (\<lambda>(f, w). if f = e1 then relaxed ops (via, w) else None) (map (\<lambda>(f, w, x). (f, w)) xs)"
    if "set xs \<subseteq> set (added ops True via)" for xs
    using that
  proof (induction xs)
    case (Cons x xs)
    obtain f w y where x: "x = (f, w, y)" by (cases x) auto
    then have "names (relaxed ops) via (w, y) = relaxed ops (via, w)" using Cons.prems settled_names [OF assms, of f w y True via] by simp
    then show ?case using Cons x by (cases "relaxed ops (via, w)") (simp_all add: List.map_filter_simps)
  qed (simp add: List.map_filter_simps)
  moreover have "(\<exists>x. (e1, x) \<in> set (added ops False via) \<and> names (relaxed ops) via x = Some e2) \<longleftrightarrow>
      (\<exists>w. (e1, w) \<in> set (restrs ops False via) \<and> relaxed ops (via, w) = Some e2)"
    using settled_names [OF assms, of _ _ _ False via] by (force simp: added_restrs)
  ultimately show ?thesis unfolding may_hist_def may_spec_def added_restrs [of ops True] by (simp split: list.split)
qed

text \<open>
  C3: for every order in which restrictions are added and way ids are resolved, the restrictor answers what the history means: a restriction names the edge that its target way stood for last when it was added, or, if it stood for none yet,
  the one that it stands for in the end.  When no way id comes to stand for another edge after a restriction to it was added with its
  edge, only the order of the restrictions counts, not when the ids are resolved.
  The run fails exactly when a way id is resolved to an edge that does not touch the node where a restriction waits for it, as the
  assertion demands; otherwise no access is out of range and no assertion fails.
\<close>

theorem restrictor_order_independent:
  "(case exec_rops fr to ops restrictor_init of
      None \<Rightarrow> misfit fr to ops
    | Some r \<Rightarrow> \<not> misfit fr to ops \<and> (\<forall>e1 e2 via. may e1 e2 via r = may_hist ops e1 e2 via)) \<and>
   (settled ops \<longrightarrow> (\<forall>e1 e2 via. may_hist ops e1 e2 via = may_spec ops e1 e2 via))"
proof
  show "case exec_rops fr to ops restrictor_init of None \<Rightarrow> misfit fr to ops
    | Some r \<Rightarrow> \<not> misfit fr to ops \<and> (\<forall>e1 e2 via. may e1 e2 via r = may_hist ops e1 e2 via)"
    using exec_rops_agrees [of fr to ops] may_agrees by (fastforce split: if_splits)
qed (simp add: may_hist_spec)

theorem restrictor_order_independent_witness:
  defines "fr \<equiv> \<lambda>e::nat. if e = 1 then 10 else 11 :: nat"
    and "to \<equiv> \<lambda>e::nat. if e = 1 then 11 else e + 10 :: nat"
    and "ops \<equiv> [Add 1 7 11 True, Relax 7 11 2, Relax 8 11 3]"
  shows "\<exists>r. exec_rops fr to ops restrictor_init = Some r \<and> may 1 2 11 r \<and> \<not> may 1 3 11 r"
proof -
  have "settled ops" unfolding settled_def ops_def
    by (auto simp: Cons_eq_append_conv relaxed_def List.map_filter_simps)
  have "\<not> misfit_op fr to before op" if "op \<in> set ops" for before op
    using that by (auto simp: ops_def misfit_op_def node_hasEdge_def fr_def to_def)
  then have "\<not> misfit fr to ops" unfolding misfit_def by (metis in_set_conv_decomp)
  then obtain r where r: "exec_rops fr to ops restrictor_init = Some r"
    "\<forall>e1 e2 via. may e1 e2 via r = may_spec ops e1 e2 via"
    using restrictor_order_independent [of fr to ops] \<open>settled ops\<close> by (auto split: option.splits)
  have "restrs ops True 11 = [(1, 7)]" "relaxed ops (11, 7) = Some 2"
    by (simp_all add: ops_def restrs_def relaxed_def List.map_filter_simps)
  with r show ?thesis by (simp add: may_spec_def List.map_filter_simps)
qed

text \<open>When a restriction is added while a way id still changes its edge, it matters when.\<close>

lemma order_matters:
  "may_hist [Relax 7 n e, Add f 7 n True, Relax 7 n e'] f to n \<longleftrightarrow> to = e"
  "may_hist [Add f 7 n True, Relax 7 n e, Relax 7 n e'] f to n \<longleftrightarrow> to = e'"
  by (auto simp: may_hist_def names_def relaxed_def List.map_filter_simps)

section \<open>Splitting and doubling edges\<close>

text \<open>The edges the rules of a node mention.\<close>

definition mentioned :: "('n, 'e) restrictor \<Rightarrow> 'n \<Rightarrow> 'e set" where
  "mentioned r v = fst ` set (entry (pos_rules r) v @ entry (neg_rules r) v) \<union>
     {e. Some e \<in> snd ` set (entry (pos_rules r) v @ entry (neg_rules r) v)}"

lemma entry_map_upd [simp]:
  "entry (m(v := map_option (map f) (m v))) u = (if u = v then map f (entry m v) else entry m u)"
  by (simp add: entry_def split: option.split)

text \<open>Renaming edges in the rules by a function that is injective where it matters.\<close>

lemma may_pos_rename:
  assumes "\<forall>q\<in>set rs. (h (fst q) = h e1 \<longleftrightarrow> fst q = e1) \<and>
    (\<forall>x. snd q = Some x \<longrightarrow> (h x = h e2 \<longleftrightarrow> x = e2))"
  shows "may_pos (h e1) (h e2) (map (\<lambda>q. (h (fst q), map_option h (snd q))) rs) = may_pos e1 e2 rs"
  using assms by (induction rs) auto

lemma neg_rename:
  assumes "\<forall>q\<in>set rs. (h (fst q) = h e1 \<longleftrightarrow> fst q = e1) \<and>
    (\<forall>x. snd q = Some x \<longrightarrow> (h x = h e2 \<longleftrightarrow> x = e2))"
  shows "list_ex (\<lambda>q. fst q = h e1 \<and> snd q = Some (h e2))
      (map (\<lambda>q. (h (fst q), map_option h (snd q))) rs) = list_ex (\<lambda>q. fst q = e1 \<and> snd q = Some e2) rs"
  using assms by (induction rs) auto

lemma replace_in_rule_rename:
  "replace_in_rule old new = (\<lambda>q. ((id(old := new)) (fst q), map_option (id(old := new)) (snd q)))"
  by (rule ext) (auto simp: replace_in_rule_def map_option_case split: option.split)

lemma replace_at_entry [simp]:
  "entry (pos_rules (replace_edge_at old v new r)) u =
     (if u = v then map (replace_in_rule old new) (entry (pos_rules r) u) else entry (pos_rules r) u)"
  "entry (neg_rules (replace_edge_at old v new r)) u =
     (if u = v then map (replace_in_rule old new) (entry (neg_rules r) u) else entry (neg_rules r) u)"
  by (simp_all add: replace_edge_at_def)

lemma replace_edge_at_other [simp]:
  "u \<noteq> v \<Longrightarrow> may e1 e2 u (replace_edge_at old v new r) = may e1 e2 u r"
  by (simp add: may_def cong: option.case_cong)

lemma mentionedI:
  "q \<in> set (entry (pos_rules r) v) \<or> q \<in> set (entry (neg_rules r) v) \<Longrightarrow>
     fst q \<in> mentioned r v \<and> (\<forall>x. snd q = Some x \<longrightarrow> x \<in> mentioned r v)"
  unfolding mentioned_def by (metis (mono_tags, lifting) UnCI image_eqI mem_Collect_eq set_append)

lemma may_replace_edge_at:
  assumes "new \<notin> mentioned r v" "e1 \<noteq> new" "e2 \<noteq> new"
  shows "may ((id(old := new)) e1) ((id(old := new)) e2) v (replace_edge_at old v new r) = may e1 e2 v r"
proof -
  let ?h = "id(old := new)"
  have h: "(?h (fst q) = ?h e1 \<longleftrightarrow> fst q = e1) \<and> (\<forall>x. snd q = Some x \<longrightarrow> (?h x = ?h e2 \<longleftrightarrow> x = e2))"
    if "q \<in> set (entry (pos_rules r) v) \<or> q \<in> set (entry (neg_rules r) v)" for q
    using mentionedI [OF that] assms by auto
  have "may_pos (?h e1) (?h e2) (map (replace_in_rule old new) (entry (pos_rules r) v)) =
      may_pos e1 e2 (entry (pos_rules r) v)"
    unfolding replace_in_rule_rename by (rule may_pos_rename) (use h in blast)
  moreover have "list_ex (\<lambda>q. fst q = ?h e1 \<and> snd q = Some (?h e2))
      (map (replace_in_rule old new) (entry (neg_rules r) v)) =
      list_ex (\<lambda>q. fst q = e1 \<and> snd q = Some e2) (entry (neg_rules r) v)"
    unfolding replace_in_rule_rename by (rule neg_rename) (use h in blast)
  ultimately show ?thesis unfolding may_def replace_at_entry by (simp only: if_True simp_thms)
qed

text \<open>
  Splitting an edge keeps the restrictions.  When an edge between two different nodes is replaced by two
  edges no rule mentions yet, every turn at its start is allowed after the replacement exactly when it was
  allowed before with the old edge in place of the part that touches the start, the same holds at its
  end with the other part, and turns at every other node are as before.
\<close>

theorem replace_edge_may:
  assumes "fr old \<noteq> to old" "fr old = fr newA \<or> fr old = to newA"
    "newA \<notin> mentioned r (fr old)" "newB \<notin> mentioned r (to old)"
    "e1 \<notin> {newA, newB}" "e2 \<notin> {newA, newB}"
  shows "may ((id(old := newA)) e1) ((id(old := newA)) e2) (fr old) (replace_edge fr to old newA newB r) =
           may e1 e2 (fr old) r \<and>
         may ((id(old := newB)) e1) ((id(old := newB)) e2) (to old) (replace_edge fr to old newA newB r) =
           may e1 e2 (to old) r \<and>
         (\<forall>v. v \<notin> {fr old, to old} \<longrightarrow> may e1 e2 v (replace_edge fr to old newA newB r) = may e1 e2 v r)"
proof -
  define r1 where "r1 = replace_edge_at old (fr old) newA r"
  have eq: "replace_edge fr to old newA newB r = replace_edge_at old (to old) newB r1"
    using assms(2) by (auto simp: replace_edge_def r1_def)
  have m: "mentioned r1 (to old) = mentioned r (to old)"
    using assms(1) by (simp add: mentioned_def r1_def)
  have "may x y (fr old) (replace_edge_at old (to old) newB r1) = may x y (fr old) r1" for x y
    using assms(1) by simp
  moreover have "may ((id(old := newB)) e1) ((id(old := newB)) e2) (to old) (replace_edge_at old (to old) newB r1) =
      may e1 e2 (to old) r1"
    using assms(4-6) m by (intro may_replace_edge_at) auto
  moreover have "may e1 e2 (to old) r1 = may e1 e2 (to old) r" using assms(1) by (simp add: r1_def)
  moreover have "may ((id(old := newA)) e1) ((id(old := newA)) e2) (fr old) r1 = may e1 e2 (fr old) r"
    unfolding r1_def using assms(3,5,6) by (intro may_replace_edge_at) auto
  moreover have "\<forall>v. v \<notin> {fr old, to old} \<longrightarrow> may e1 e2 v (replace_edge_at old (to old) newB r1) = may e1 e2 v r"
    by (simp add: r1_def)
  ultimately show ?thesis unfolding eq by (simp del: fun_upd_apply)
qed

theorem replace_edge_may_witness:
  defines "fr \<equiv> \<lambda>e::nat. if e = 1 then 10 else if e = 2 then 10 else 12 :: nat"
    and "to \<equiv> \<lambda>e::nat. if e = 1 then 11 else if e = 2 then 12 else 11 :: nat"
    and "r \<equiv> add_restr (5::nat) 7 (10::nat) True (restrictor_init\<lparr>rlx := [(10, 7) \<mapsto> 1]\<rparr>)"
  shows "may 5 2 10 (replace_edge fr to 1 2 3 r) = may 5 1 10 r"
proof -
  have "2 \<notin> mentioned r (fr 1)" "3 \<notin> mentioned r (to 1)"
    by (simp_all add: mentioned_def r_def add_restr_def restrictor_init_def entry_def fr_def to_def Let_def)
  then have "may ((id(1 := 2)) 5) ((id(1 := 2)) 1) (fr 1) (replace_edge fr to 1 2 3 r) = may 5 1 (fr 1) r"
    using replace_edge_may [of fr 1 to 2 r 3 5 1] by (simp add: fr_def to_def)
  then show ?thesis by (simp add: fr_def)
qed

lemma duplicate_at_entry:
  assumes "duplicate_edge_at fr to old via newE r = Some r'"
  shows "entry (pos_rules r') v = (if v = via then map (duplicate_in_rule fr to old via newE)
      (entry (pos_rules r) v) else entry (pos_rules r) v)"
    "entry (neg_rules r') v = (if v = via then map (duplicate_in_rule fr to old via newE)
      (entry (neg_rules r) v) else entry (neg_rules r) v)"
  using assms by (auto simp: duplicate_edge_at_def split: if_splits)

text \<open>
  When the opposite edge of an edge between two different nodes is created, the rules at both ends come to
  name the edge of the matching direction: afterwards no rule at a node uses the old edge as the
  incoming edge of a turn unless it ends there, nor as the target of a turn unless it starts there.
\<close>

theorem duplicate_edge_directed:
  assumes "fr old \<noteq> to old" "fr old = to newE" "to old = fr newE" "v \<in> {fr old, to old}"
  shows "\<exists>r'. duplicate_edge fr to old newE r = Some r' \<and>
    (\<forall>q\<in>set (entry (pos_rules r') v) \<union> set (entry (neg_rules r') v).
       (fst q = old \<longrightarrow> to old = v) \<and> (snd q = Some old \<longrightarrow> fr old = v))"
proof -
  obtain r1 where r1: "duplicate_edge_at fr to old (fr old) newE r = Some r1"
    using assms by (simp add: duplicate_edge_at_def)
  obtain r2 where r2: "duplicate_edge_at fr to old (to old) newE r1 = Some r2"
    using assms by (simp add: duplicate_edge_at_def)
  have "newE \<noteq> old" using assms by auto
  then have "\<forall>q\<in>set (entry (pos_rules r2) v) \<union> set (entry (neg_rules r2) v).
       (fst q = old \<longrightarrow> to old = v) \<and> (snd q = Some old \<longrightarrow> fr old = v)"
    using assms(1,4) by (auto simp: duplicate_at_entry [OF r2] duplicate_at_entry [OF r1]
        duplicate_in_rule_def split: if_splits)
  then show ?thesis using r1 r2 by (simp add: duplicate_edge_def)
qed

theorem duplicate_edge_directed_witness:
  defines "fr \<equiv> \<lambda>e::nat. if e = 1 then 10 else 11 :: nat"
    and "to \<equiv> \<lambda>e::nat. if e = 1 then 11 else 10 :: nat"
    and "r \<equiv> add_restr (1::nat) 7 (10::nat) False restrictor_init"
  shows "\<exists>r'. duplicate_edge fr to 1 2 r = Some r' \<and> (\<forall>q\<in>set (entry (neg_rules r') 10). fst q \<noteq> 1)"
  using duplicate_edge_directed [of fr 1 to 2 10 r] by (auto simp: fr_def to_def)

end
