(* ===== verification/Osm_Id_Set.thy ===== *)
theory Osm_Id_Set
  imports Prelude "HOL-Library.Multiset"
begin

unbundle bit_operations_syntax

text \<open>
  \<^verbatim>\<open>osm/osm_id_set.{h,cpp}\<close>: a set of OSM ids kept in a temporary file, with a Bloom filter in memory, one
  cached block, a binary search in the block, and an external merge sort when the ids did not arrive in
  order.

  All offsets and buffer sizes of the code are multiples of eight bytes, the size of an id, so the file
  and the buffers are lists of ids and offsets count ids.  The temporary file is a regular file:
  a \<^verbatim>\<open>read\<close> returns everything up to the requested size or the end of the file, a \<^verbatim>\<open>write\<close> writes
  everything.
\<close>

section \<open>Definitions\<close>

type_synonym osm_id = u64

definition BUFFER_S :: nat where "BUFFER_S = 64 * 1024"
definition SORT_BUFFER_S :: nat where "SORT_BUFFER_S = 64 * 1024"
definition OBUFFER_S :: nat where "OBUFFER_S = 1024 * 1024"
definition BLOOMF_BITS :: u32 where "BLOOMF_BITS = 400000000"

text \<open>
  \<open>curBlock\<close> is \<^const>\<open>None\<close> for the initial \<^verbatim>\<open>-1\<close>; \<open>buffer\<close> is the first \<^verbatim>\<open>_curBlockSize\<close> bytes of the block
  buffer and \<open>outBuffer\<close> the first \<^verbatim>\<open>_obufpos\<close> bytes of the output buffer.
\<close>

record osm_id_set =
  closed :: bool
  tmp_file :: "osm_id list"
  buffer :: "osm_id list"
  outBuffer :: "osm_id list"
  is_sorted :: bool
  last_id :: osm_id
  smallest :: osm_id
  biggest :: osm_id
  curBlock :: "nat option"
  bitset :: "u32 \<Rightarrow> bool"
  blockEnds :: "osm_id list"
  fsize :: nat

definition osm_id_set_init :: osm_id_set where
  "osm_id_set_init = \<lparr>closed = False, tmp_file = [], buffer = [], outBuffer = [], is_sorted = True,
     last_id = 0, smallest = - 1, biggest = 0, curBlock = None, bitset = (\<lambda>_. False),
     blockEnds = [], fsize = 0\<rparr>"

definition knuth :: "u32 \<Rightarrow> u32" where
  "knuth x = drop_bit 2 (x * 2654435769)"

definition jenkins :: "u32 \<Rightarrow> u32" where
  "jenkins x =
     (let x = (x + 0x7ed55d16) + push_bit 12 x;
          x = (x XOR 0xc761c23c) XOR drop_bit 19 x;
          x = (x + 0x165667b1) + push_bit 5 x;
          x = (x + 0xd3a2646c) XOR push_bit 9 x;
          x = (x + 0xfd7046c5) + push_bit 3 x;
          x = (x XOR 0xb55a4f09) XOR drop_bit 16 x
      in drop_bit 2 x)"

definition hash_id :: "u32 \<Rightarrow> nat \<Rightarrow> u32" where
  "hash_id x i = (knuth x + jenkins x * of_nat i) mod BLOOMF_BITS"

definition diskAdd :: "osm_id \<Rightarrow> osm_id_set \<Rightarrow> osm_id_set" where
  "diskAdd oid s =
     (let ob = outBuffer s @ [oid];
          s = s\<lparr>outBuffer := ob\<rparr>;
          s = (if length ob mod BUFFER_S = 0 then s\<lparr>blockEnds := blockEnds s @ [oid]\<rparr> else s)
      in if OBUFFER_S \<le> length ob
         then s\<lparr>tmp_file := tmp_file s @ take OBUFFER_S ob, fsize := fsize s + OBUFFER_S, outBuffer := []\<rparr>
         else s)"

definition bloom_add :: "osm_id \<Rightarrow> (u32 \<Rightarrow> bool) \<Rightarrow> u32 \<Rightarrow> bool" where
  "bloom_add oid b = foldl (\<lambda>b i. b(hash_id (ucast oid) i := True)) b [0..<10]"

definition add_id :: "osm_id \<Rightarrow> osm_id_set \<Rightarrow> osm_id_set res" where
  "add_id oid s =
     (if closed s then Inl Std_exception
      else
        (let s = diskAdd oid s;
             s = (if oid < last_id s then s\<lparr>is_sorted := False\<rparr> else s);
             s = s\<lparr>last_id := oid\<rparr>;
             s = (if oid < smallest s then s\<lparr>smallest := oid\<rparr> else s);
             s = (if biggest s < oid then s\<lparr>biggest := oid\<rparr> else s)
         in Inr (s\<lparr>bitset := bloom_add oid (bitset s)\<rparr>)))"

text \<open>\<^verbatim>\<open>std::upper_bound\<close> on the sorted vector of block ends: the first entry above \<open>id\<close>.\<close>

definition getBlock :: "osm_id \<Rightarrow> osm_id_set \<Rightarrow> nat" where
  "getBlock oid s = length (takeWhile (\<lambda>e. e \<le> oid) (blockEnds s))"

text \<open>The binary search of \<open>diskHas\<close>, with \<open>l\<close> and \<open>r\<close> counting ids.\<close>

function bin_search :: "osm_id list \<Rightarrow> osm_id \<Rightarrow> int \<Rightarrow> int \<Rightarrow> bool" where
  "bin_search buf oid l r =
     (if l \<le> r then
        (let p = l + (r - l) div 2; cur = buf ! nat p in
         if cur = oid then True
         else if cur < oid then bin_search buf oid (p + 1) r
         else bin_search buf oid l (p - 1))
      else False)"
  by pat_completeness auto
termination by (relation "measure (\<lambda>(buf, oid, l, r). nat (r - l + 1))") auto

declare bin_search.simps [simp del]

definition diskHas :: "osm_id \<Rightarrow> osm_id_set \<Rightarrow> bool \<times> osm_id_set" where
  "diskHas oid s =
     (if oid \<in> set (blockEnds s) then (True, s)
      else
        (let block = getBlock oid s;
             s = (if Some block \<noteq> curBlock s
                  then s\<lparr>buffer := take BUFFER_S (drop (block * BUFFER_S) (tmp_file s)),
                         curBlock := Some block\<rparr>
                  else s)
         in if buffer s = [] then (False, s)
            else if oid < buffer s ! 0 then (False, s)
            else (bin_search (buffer s) oid 0 (int (length (buffer s)) - 1), s)))"

text \<open>
  The external merge sort.  Every part of the file is read, sorted and written back; the first
  \<open>pb\<close> ids of each sorted part stay in its part buffer.
\<close>

definition write_at :: "nat \<Rightarrow> 'a list \<Rightarrow> 'a list \<Rightarrow> 'a list" where
  "write_at off xs f = take off f @ xs @ drop (off + length xs) f"

definition sort_part ::
  "nat \<Rightarrow> osm_id list \<times> osm_id list list \<times> nat list \<Rightarrow> nat \<Rightarrow> osm_id list \<times> osm_id list list \<times> nat list" where
  "sort_part pb st i =
     (case st of (file, partbufs, partsize) \<Rightarrow>
        let buf = sort (take SORT_BUFFER_S (drop (SORT_BUFFER_S * i) file))
        in (write_at (SORT_BUFFER_S * i) buf file, partbufs @ [take pb buf], partsize @ [length buf]))"

text \<open>The search for the part with the smallest head.\<close>

definition pick_step ::
  "nat \<Rightarrow> nat list \<Rightarrow> nat list \<Rightarrow> osm_id list list \<Rightarrow> osm_id \<times> nat option \<Rightarrow> nat \<Rightarrow> osm_id \<times> nat option" where
  "pick_step pb partpos partsize partbufs best j =
     (if partpos ! j = partsize ! j then best
      else
        (let v = partbufs ! j ! (partpos ! j mod pb)
         in if v \<le> fst best then (v, Some j) else best))"

definition pick ::
  "nat \<Rightarrow> nat \<Rightarrow> nat list \<Rightarrow> nat list \<Rightarrow> osm_id list list \<Rightarrow> osm_id \<times> nat option" where
  "pick parts pb partpos partsize partbufs =
     foldl (pick_step pb partpos partsize partbufs) (- 1, None) [0..<parts]"

record merge_state =
  partpos :: "nat list"
  partbufs :: "osm_id list list"
  out_buf :: "osm_id list"
  newFile :: "osm_id list"
  newEnds :: "osm_id list"

text \<open>One iteration of the merge loop; \<^const>\<open>None\<close> when its assertion fails.\<close>

definition merge_step ::
  "nat \<Rightarrow> nat \<Rightarrow> nat \<Rightarrow> nat list \<Rightarrow> osm_id list \<Rightarrow> nat \<Rightarrow> merge_state \<Rightarrow> merge_state option" where
  "merge_step n parts pb partsize file i m =
     (case pick parts pb (partpos m) partsize (partbufs m) of
        (_, None) \<Rightarrow> None
      | (v, Some p) \<Rightarrow>
          let buf = (out_buf m)[i mod SORT_BUFFER_S := v];
              ends = (if (i + 1) mod BUFFER_S = 0 then newEnds m @ [v] else newEnds m);
              nf = (if i mod SORT_BUFFER_S = SORT_BUFFER_S - 1 \<or> i = n - 1
                    then newFile m @ take (i mod SORT_BUFFER_S + 1) buf else newFile m);
              pos = (partpos m)[p := partpos m ! p + 1];
              bufs = (if pos ! p mod pb = 0
                      then (let rd = take pb (drop (SORT_BUFFER_S * p + pos ! p) file)
                            in (partbufs m)[p := rd @ drop (length rd) (partbufs m ! p)])
                      else partbufs m)
          in Some \<lparr>partpos = pos, partbufs = bufs, out_buf = buf, newFile = nf, newEnds = ends\<rparr>)"

fun merge_loop ::
  "nat \<Rightarrow> nat \<Rightarrow> nat \<Rightarrow> nat list \<Rightarrow> osm_id list \<Rightarrow> nat list \<Rightarrow> merge_state \<Rightarrow> merge_state option" where
  "merge_loop n parts pb partsize file [] m = Some m"
| "merge_loop n parts pb partsize file (i # is) m =
     (case merge_step n parts pb partsize file i m of
        None \<Rightarrow> None
      | Some m \<Rightarrow> merge_loop n parts pb partsize file is m)"

definition sort_file :: "osm_id_set \<Rightarrow> osm_id_set option" where
  "sort_file s =
     (let parts = fsize s div SORT_BUFFER_S + 1;
          pb = SORT_BUFFER_S div parts + 1;
          (file, bufs, partsize) = foldl (sort_part pb) (tmp_file s, [], []) [0..<parts]
      in case merge_loop (fsize s) parts pb partsize file [0..<fsize s]
                \<lparr>partpos = replicate parts 0, partbufs = bufs, out_buf = replicate SORT_BUFFER_S 0,
                 newFile = [], newEnds = []\<rparr> of
           None \<Rightarrow> None
         | Some m \<Rightarrow> Some (s\<lparr>tmp_file := newFile m, blockEnds := newEnds m, is_sorted := True\<rparr>))"

definition close_set :: "osm_id_set \<Rightarrow> osm_id_set option" where
  "close_set s =
     (let s = s\<lparr>tmp_file := tmp_file s @ outBuffer s, fsize := fsize s + length (outBuffer s),
                blockEnds := blockEnds s @ [biggest s], closed := True\<rparr>
      in if \<not> is_sorted s then sort_file s else Some s)"

text \<open>\<open>has\<close>; \<^const>\<open>None\<close> when an assertion fails on the way.\<close>

definition has_id :: "osm_id \<Rightarrow> osm_id_set \<Rightarrow> (bool \<times> osm_id_set) option" where
  "has_id oid s =
     (case (if closed s then Some s else close_set s) of
        None \<Rightarrow> None
      | Some s \<Rightarrow>
          if oid < smallest s \<or> biggest s < oid then Some (False, s)
          else if list_ex (\<lambda>i. \<not> bitset s (hash_id (ucast oid) i)) [0..<10] then Some (False, s)
          else if \<not> is_sorted s then None
          else Some (diskHas oid s))"

section \<open>Sizes\<close>

text \<open>The constants stay folded; the proofs use these facts of them.\<close>

lemma buffer_sizes [simp]:
  "0 < BUFFER_S" "0 < SORT_BUFFER_S" "0 < OBUFFER_S" "BUFFER_S dvd OBUFFER_S"
  by (simp_all add: BUFFER_S_def SORT_BUFFER_S_def OBUFFER_S_def)

text \<open>The last ids of the full blocks of a file.\<close>

definition ends :: "osm_id list \<Rightarrow> osm_id list" where
  "ends xs = map (\<lambda>k. xs ! ((k + 1) * BUFFER_S - 1)) [0..<length xs div BUFFER_S]"

lemma ends_snoc:
  "ends (xs @ [x]) = (if (length xs + 1) mod BUFFER_S = 0 then ends xs @ [x] else ends xs)"
proof (cases "(length xs + 1) mod BUFFER_S = 0")
  case True
  define B where "B = BUFFER_S"
  have B: "0 < B" by (simp add: B_def)
  from True have "B dvd length xs + 1" by (simp only: B_def dvd_eq_mod_eq_0)
  then obtain k where k: "length xs + 1 = k * B" by (metis dvdE mult.commute)
  then obtain j where j: "k = Suc j" by (cases k) auto
  have len: "length xs = j * B + (B - 1)" using k j B by auto
  then have "length xs div B = j" using B by (intro div_nat_eqI) (auto simp: algebra_simps)
  moreover have "(xs @ [x]) ! ((i + 1) * B - 1) = xs ! ((i + 1) * B - 1)" if "i < j" for i
  proof -
    have "(i + 1) * B \<le> j * B" using that by (intro mult_le_mono) auto
    moreover have "0 < (i + 1) * B" using B by simp
    ultimately have "(i + 1) * B - 1 < length xs" using len by linarith
    then show ?thesis by (simp add: nth_append)
  qed
  moreover have "(xs @ [x]) ! ((j + 1) * B - 1) = x" using len B by (simp add: nth_append add.commute)
  ultimately show ?thesis using True k j B by (simp add: ends_def B_def [symmetric])
next
  case False
  define B where "B = BUFFER_S"
  have B: "0 < B" by (simp add: B_def)
  have "(length xs + 1) div B = length xs div B" using False by (simp add: B_def div_Suc)
  moreover have "(i + 1) * B - 1 < length xs" if "i < length xs div B" for i
  proof -
    have "(i + 1) * B \<le> (length xs div B) * B" using that by (intro mult_le_mono) auto
    also have "\<dots> \<le> length xs" by simp
    finally show ?thesis using B by (cases "(i + 1) * B") auto
  qed
  ultimately show ?thesis using False by (simp add: ends_def B_def [symmetric] nth_append)
qed

lemma ends_Nil [simp]: "ends [] = []"
  by (simp add: ends_def)

lemma set_ends: "set (ends xs) \<subseteq> set xs"
proof
  fix y assume "y \<in> set (ends xs)"
  then obtain k where k: "k < length xs div BUFFER_S" "y = xs ! ((k + 1) * BUFFER_S - 1)"
    by (auto simp: ends_def)
  have "(k + 1) * BUFFER_S \<le> (length xs div BUFFER_S) * BUFFER_S" using k by (intro mult_le_mono) auto
  also have "\<dots> \<le> length xs" by simp
  finally have "(k + 1) * BUFFER_S - 1 < length xs"
    using buffer_sizes(1) by (intro less_le_trans [OF diff_less]) (auto simp del: mult_Suc)
  then show "y \<in> set xs" using k by simp
qed

section \<open>Binary search and block lookup\<close>

lemma bin_search_correct:
  "sorted buf \<Longrightarrow> 0 \<le> l \<Longrightarrow> r < int (length buf) \<Longrightarrow>
     bin_search buf oid l r \<longleftrightarrow> (\<exists>i. l \<le> int i \<and> int i \<le> r \<and> buf ! i = oid)"
proof (induction buf oid l r rule: bin_search.induct)
  case (1 buf oid l r)
  define p where "p = l + (r - l) div 2"
  show ?case
  proof (cases "l \<le> r")
    case True
    then have p: "l \<le> p" "p \<le> r" by (auto simp: p_def)
    have le: "buf ! i \<le> buf ! j" if "i \<le> j" "int j \<le> r" for i j
      using sorted_nth_mono [OF \<open>sorted buf\<close>] that 1 by auto
    consider "buf ! nat p = oid" | "buf ! nat p < oid" | "oid < buf ! nat p" by (meson linorder_neqE)
    then show ?thesis
    proof cases
      case 1
      then show ?thesis using True p \<open>0 \<le> l\<close>
        by (subst bin_search.simps) (auto simp: Let_def p_def [symmetric] intro!: exI [of _ "nat p"])
    next
      case 2
      then have "l \<le> int i \<and> int i \<le> r \<and> buf ! i = oid \<longleftrightarrow> p + 1 \<le> int i \<and> int i \<le> r \<and> buf ! i = oid" for i
        using le [of i "nat p"] p \<open>0 \<le> l\<close> by (cases "i \<le> nat p") auto
      then show ?thesis using 1(1) [OF True refl refl] 2 1(3-5) True p
        by (subst bin_search.simps) (auto simp: Let_def p_def [symmetric])
    next
      case 3
      then have c: "buf ! nat p \<noteq> oid" "\<not> buf ! nat p < oid" by auto
      have "int i \<le> p - 1" if "int i \<le> r" "buf ! i = oid" for i
      proof (rule ccontr)
        assume "\<not> int i \<le> p - 1"
        then have "buf ! nat p \<le> buf ! i" using that(1) by (intro le) auto
        then show False using 3 that(2) by simp
      qed
      then have "l \<le> int i \<and> int i \<le> r \<and> buf ! i = oid \<longleftrightarrow> l \<le> int i \<and> int i \<le> p - 1 \<and> buf ! i = oid" for i
        using p by auto
      moreover have "bin_search buf oid l r = bin_search buf oid l (p - 1)"
        using c True by (subst bin_search.simps) (simp add: Let_def p_def [symmetric])
      moreover have "bin_search buf oid l (p - 1) \<longleftrightarrow> (\<exists>i. l \<le> int i \<and> int i \<le> p - 1 \<and> buf ! i = oid)"
        using 1(2) [OF True refl refl] c 1(3-5) p by (simp add: p_def [symmetric])
      ultimately show ?thesis by simp
    qed
  next
    case False
    then show ?thesis by (subst bin_search.simps) auto
  qed
qed

lemma bin_search_mem:
  "sorted buf \<Longrightarrow> bin_search buf oid 0 (int (length buf) - 1) \<longleftrightarrow> oid \<in> set buf"
  by (subst bin_search_correct) (auto simp: in_set_conv_nth)

text \<open>The block of an id that is no block end: block ends are those of the full blocks, perhaps followed by an
  upper bound of the whole file.\<close>

lemma block_lookup:
  assumes "sorted ys" "es = ends ys \<or> (es = ends ys @ [m] \<and> (\<forall>y\<in>set ys. y \<le> m))"
    "oid \<in> set ys" "oid \<notin> set es"
  shows "oid \<in> set (take BUFFER_S (drop (length (takeWhile (\<lambda>e. e \<le> oid) es) * BUFFER_S) ys))"
proof -
  from assms(3) obtain p where p: "p < length ys" "ys ! p = oid" by (auto simp: in_set_conv_nth)
  define B where "B = BUFFER_S"
  have B: "0 < B" by (simp add: B_def)
  define k where "k = p div B"
  have kp: "k * B \<le> p" "p < k * B + B" using B by (simp_all add: k_def dividend_less_div_times div_times_less_eq_dividend add.commute)
  have kn: "k \<le> length ys div B" using p(1) by (simp add: k_def div_le_mono)
  have mono: "ys ! i \<le> ys ! j" if "i \<le> j" "j < length ys" for i j
    using sorted_nth_mono [OF assms(1)] that by blast
  have len: "length ys div B \<le> length es" using assms(2) by (auto simp: ends_def B_def)
  have es: "es ! j = ys ! ((j + 1) * B - 1)" if "j < length ys div B" for j
    using assms(2) that by (auto simp: ends_def nth_append B_def)
  have lo: "es ! j \<le> oid" if "j < k" for j
  proof -
    have "(j + 1) * B \<le> k * B" using that by (intro mult_le_mono) auto
    then show ?thesis using es [of j] mono [of "(j + 1) * B - 1" p] p kp kn that by auto
  qed
  have hi: "\<not> es ! k \<le> oid" if k: "k < length es"
  proof -
    have "oid \<le> es ! k"
    proof (cases "k < length ys div B")
      case True
      then have "(k + 1) * B \<le> (length ys div B) * B" by (intro mult_le_mono) auto
      also have "\<dots> \<le> length ys" by simp
      finally show ?thesis using es [OF True] mono [of p "(k + 1) * B - 1"] p kp B
        by (simp add: algebra_simps)
    next
      case False
      with k assms(2) have "es ! k = m" "oid \<le> m"
        using assms(3) kn by (auto simp: ends_def nth_append B_def)
      then show ?thesis by simp
    qed
    moreover have "es ! k \<noteq> oid" using assms(4) k nth_mem by blast
    ultimately show ?thesis by simp
  qed
  have "takeWhile (\<lambda>e. e \<le> oid) es = take k es"
    using lo hi by (intro takeWhile_eq_take_P_nth) auto
  then have "length (takeWhile (\<lambda>e. e \<le> oid) es) = k" using kn len by simp
  moreover have "oid \<in> set (take B (drop (k * B) ys))"
    using p kp by (auto simp: in_set_conv_nth intro!: exI [of _ "p - k * B"])
  ultimately show ?thesis by (simp add: B_def)
qed

section \<open>Building the set\<close>

lemma bitset_hashes: "foldl (\<lambda>b i. b(h i := True)) b is x \<longleftrightarrow> b x \<or> x \<in> h ` set is"
  by (induction "is" arbitrary: b) auto

lemma bloom_add_iff: "bloom_add oid b x \<longleftrightarrow> b x \<or> x \<in> hash_id (ucast oid) ` {0..<10}"
  unfolding bloom_add_def bitset_hashes set_upt by (rule refl)

lemma sorted_snoc_last: "sorted (xs @ [x]) \<longleftrightarrow> sorted xs \<and> (xs = [] \<or> last xs \<le> (x :: osm_id))"
proof (cases xs rule: rev_cases)
  case (snoc ys y)
  then show ?thesis by (auto simp: sorted_append intro: order_trans)
qed simp

text \<open>What the open set holds after the ids \<open>xs\<close> were added in this order.\<close>

definition open_inv :: "osm_id list \<Rightarrow> osm_id_set \<Rightarrow> bool" where
  "open_inv xs s \<longleftrightarrow> \<not> closed s \<and> tmp_file s @ outBuffer s = xs \<and>
     fsize s = length (tmp_file s) \<and> OBUFFER_S dvd fsize s \<and> length (outBuffer s) < OBUFFER_S \<and>
     is_sorted s = sorted xs \<and> last_id s = (if xs = [] then 0 else last xs) \<and>
     (\<forall>x\<in>set xs. smallest s \<le> x \<and> x \<le> biggest s) \<and>
     (xs = [] \<and> smallest s = - 1 \<and> biggest s = 0 \<or> biggest s \<in> set xs) \<and>
     curBlock s = None \<and> blockEnds s = ends xs \<and>
     (\<forall>x\<in>set xs. \<forall>i<10. bitset s (hash_id (ucast x) i))"

lemma open_inv_init: "open_inv [] osm_id_set_init"
  by (simp add: open_inv_def osm_id_set_init_def)

lemma diskAdd_fields [simp]:
  "closed (diskAdd oid s) = closed s" "is_sorted (diskAdd oid s) = is_sorted s"
  "last_id (diskAdd oid s) = last_id s" "smallest (diskAdd oid s) = smallest s"
  "biggest (diskAdd oid s) = biggest s" "curBlock (diskAdd oid s) = curBlock s"
  "bitset (diskAdd oid s) = bitset s"
  by (simp_all add: diskAdd_def Let_def)

lemma diskAdd_disk:
  fixes oid :: osm_id
  assumes "tmp_file s @ outBuffer s = xs" "fsize s = length (tmp_file s)" "OBUFFER_S dvd fsize s"
    "length (outBuffer s) < OBUFFER_S" "blockEnds s = ends xs"
  defines "s' \<equiv> diskAdd oid s"
  shows "tmp_file s' @ outBuffer s' = xs @ [oid]" "fsize s' = length (tmp_file s')"
    "OBUFFER_S dvd fsize s'" "length (outBuffer s') < OBUFFER_S" "blockEnds s' = ends (xs @ [oid])"
proof -
  have len: "length (outBuffer s @ [oid]) \<le> OBUFFER_S" using assms(4) by simp
  have "BUFFER_S dvd fsize s" using assms(3) buffer_sizes(4) dvd_trans by blast
  then have "(length xs + 1) mod BUFFER_S = length (outBuffer s @ [oid]) mod BUFFER_S"
    using assms(1,2) by (auto simp: dvd_eq_mod_eq_0 simp flip: mod_add_left_eq [of "fsize s"])
  then show "blockEnds s' = ends (xs @ [oid])" using assms(5) by (simp add: s'_def diskAdd_def Let_def ends_snoc)
  show "tmp_file s' @ outBuffer s' = xs @ [oid]" "fsize s' = length (tmp_file s')"
    "OBUFFER_S dvd fsize s'" "length (outBuffer s') < OBUFFER_S"
    using assms(1-4) len by (auto simp: s'_def diskAdd_def Let_def)
qed

lemma add_id_open:
  assumes inv: "open_inv xs s"
  shows "\<exists>s'. add_id oid s = Inr s' \<and> open_inv (xs @ [oid]) s'"
proof -
  have d: "tmp_file s @ outBuffer s = xs" "fsize s = length (tmp_file s)" "OBUFFER_S dvd fsize s"
    "length (outBuffer s) < OBUFFER_S" "blockEnds s = ends xs"
    and m: "\<forall>x\<in>set xs. smallest s \<le> x \<and> x \<le> biggest s"
    "xs = [] \<and> smallest s = - 1 \<and> biggest s = 0 \<or> biggest s \<in> set xs"
    and o: "\<not> closed s" "is_sorted s = sorted xs" "last_id s = (if xs = [] then 0 else last xs)"
    "curBlock s = None" "\<forall>x\<in>set xs. \<forall>i<10. bitset s (hash_id (ucast x) i)"
    using inv by (auto simp: open_inv_def)
  define s' where "s' = projr (add_id oid s)"
  have s': "add_id oid s = Inr s'" using o(1) by (simp add: s'_def add_id_def Let_def)
  have fields: "tmp_file s' = tmp_file (diskAdd oid s)" "outBuffer s' = outBuffer (diskAdd oid s)"
    "fsize s' = fsize (diskAdd oid s)" "blockEnds s' = blockEnds (diskAdd oid s)" "\<not> closed s'"
    "curBlock s' = None" "last_id s' = oid" "is_sorted s' = (is_sorted s \<and> last_id s \<le> oid)"
    "smallest s' = min oid (smallest s)" "biggest s' = max oid (biggest s)"
    "bitset s' = bloom_add oid (bitset s)"
    unfolding s'_def using o(1,4)
    by (auto simp: add_id_def Let_def min_def max_def not_less)
  have "is_sorted s' = sorted (xs @ [oid])"
    unfolding fields(8) sorted_snoc_last using o(2,3) by auto
  moreover have "\<forall>x\<in>set (xs @ [oid]). smallest s' \<le> x \<and> x \<le> biggest s'"
    using m(1) by (auto simp: fields(9,10) min_le_iff_disj le_max_iff_disj)
  moreover have "biggest s' \<in> set (xs @ [oid])"
    using m(2) by (auto simp: fields(10) max_def)
  moreover have "\<forall>x\<in>set (xs @ [oid]). \<forall>i<10. bitset s' (hash_id (ucast x) i)"
    using o(5) unfolding fields(11) bloom_add_iff by auto
  ultimately have "open_inv (xs @ [oid]) s'"
    unfolding open_inv_def using diskAdd_disk [OF d, of oid] fields(1-7) by simp
  then show ?thesis using s' by blast
qed

section \<open>The external merge sort\<close>

text \<open>The sorted parts of a file.\<close>

definition part :: "osm_id list \<Rightarrow> nat \<Rightarrow> osm_id list" where
  "part file j = sort (take SORT_BUFFER_S (drop (SORT_BUFFER_S * j) file))"

lemma concat_parts_length:
  "SORT_BUFFER_S * i \<le> length file \<Longrightarrow> length (concat (map (part file) [0..<i])) = SORT_BUFFER_S * i"
proof (induction i)
  case (Suc i)
  then have "length (part file i) = SORT_BUFFER_S" by (simp add: part_def)
  with Suc show ?case by simp
qed simp

lemma sort_parts:
  assumes "SORT_BUFFER_S * (i - 1) \<le> length file"
  shows "foldl (sort_part pb) (file, [], []) [0..<i] =
    (concat (map (part file) [0..<i]) @ drop (SORT_BUFFER_S * i) file,
     map (\<lambda>j. take pb (part file j)) [0..<i], map (\<lambda>j. length (part file j)) [0..<i])"
  using assms
proof (induction i)
  case (Suc i)
  let ?S = SORT_BUFFER_S and ?c = "concat (map (part file) [0..<i])"
  have le: "?S * i \<le> length file" using Suc.prems by simp
  have len: "length ?c = ?S * i" by (rule concat_parts_length [OF le])
  have "?S * (i - 1) \<le> length file"
    using le by (meson diff_le_self le_trans mult_le_mono2)
  note IH = Suc.IH [OF this]
  have p: "sort (take ?S (drop (?S * i) (?c @ drop (?S * i) file))) = part file i"
    using len by (simp add: part_def)
  have "write_at (?S * i) (part file i) (?c @ drop (?S * i) file) =
      ?c @ part file i @ drop (?S * Suc i) file"
    using len by (simp add: write_at_def part_def min_def algebra_simps)
  moreover have "length (part file i) = length (sort (take ?S (drop (?S * i) (?c @ drop (?S * i) file))))"
    using p by simp
  ultimately have "sort_part pb (?c @ drop (?S * i) file, bs, ns) i =
      (?c @ part file i @ drop (?S * Suc i) file, bs @ [take pb (part file i)], ns @ [length (part file i)])" for bs ns
    unfolding sort_part_def Let_def prod.case p by simp
  with IH show ?case by simp
qed simp

lemma concat_parts_split:
  assumes "p < parts" "SORT_BUFFER_S * (parts - 1) \<le> length file"
  obtains pre post where "concat (map (part file) [0..<parts]) = pre @ part file p @ post"
    "length pre = SORT_BUFFER_S * p"
proof -
  have "[0..<parts] = [0..<p] @ p # [Suc p..<parts]"
    using assms(1) upt_add_eq_append [of 0 p "parts - p"] upt_conv_Cons [of p parts] by simp
  then have "concat (map (part file) [0..<parts]) =
      concat (map (part file) [0..<p]) @ part file p @ concat (map (part file) [Suc p..<parts])" by simp
  moreover have "SORT_BUFFER_S * p \<le> length file"
    using assms(1,2) by (metis Suc_diff_1 less_Suc_eq_le less_zeroE mult_le_mono2 not_gr_zero order_trans)
  ultimately show ?thesis using that concat_parts_length [of p] by blast
qed

lemma part_in_file:
  assumes "p < parts" "SORT_BUFFER_S * (parts - 1) \<le> length file"
  shows "\<forall>k<length (part file p).
      concat (map (part file) [0..<parts]) ! (SORT_BUFFER_S * p + k) = part file p ! k"
    and "SORT_BUFFER_S * p + length (part file p) \<le> length (concat (map (part file) [0..<parts]))"
proof -
  obtain pre post where e: "concat (map (part file) [0..<parts]) = pre @ part file p @ post"
    "length pre = SORT_BUFFER_S * p"
    using concat_parts_split [OF assms] by blast
  show "\<forall>k<length (part file p).
      concat (map (part file) [0..<parts]) ! (SORT_BUFFER_S * p + k) = part file p ! k"
    unfolding e(1) e(2) [symmetric] by (simp add: nth_append)
  show "SORT_BUFFER_S * p + length (part file p) \<le> length (concat (map (part file) [0..<parts]))"
    unfolding e(1) e(2) [symmetric] by simp
qed

lemma mset_parts:
  "mset (concat (map (part file) [0..<i])) = mset (take (SORT_BUFFER_S * i) file)"
proof (induction i)
  case (Suc i)
  have "take (SORT_BUFFER_S * Suc i) file =
      take (SORT_BUFFER_S * i) file @ take SORT_BUFFER_S (drop (SORT_BUFFER_S * i) file)"
    by (simp add: take_add [symmetric] add.commute)
  with Suc show ?case by (auto simp: part_def)
qed simp

text \<open>
  The search for the smallest head: when some part is not exhausted, it finds one whose head is
  least.
\<close>

lemma pick_steps:
  fixes pos size :: "nat list" and bufs :: "osm_id list list" and pb :: nat
  defines "hd_of \<equiv> \<lambda>j. bufs ! j ! (pos ! j mod pb)"
  shows "(case foldl (pick_step pb pos size bufs) (- 1, None) [0..<m] of
      (v, None) \<Rightarrow> v = - 1 \<and> (\<forall>j<m. pos ! j = size ! j)
    | (v, Some p) \<Rightarrow> p < m \<and> pos ! p \<noteq> size ! p \<and> v = hd_of p \<and>
        (\<forall>j<m. pos ! j \<noteq> size ! j \<longrightarrow> v \<le> hd_of j))"
proof (induction m)
  case (Suc m)
  obtain v o' where e: "foldl (pick_step pb pos size bufs) (- 1, None) [0..<m] = (v, o')" by fastforce
  have step: "foldl (pick_step pb pos size bufs) (- 1, None) [0..<Suc m] = pick_step pb pos size bufs (v, o') m"
    by (simp add: e)
  note IH = Suc [unfolded e prod.case]
  consider "pos ! m = size ! m" | "pos ! m \<noteq> size ! m" "hd_of m \<le> v" | "pos ! m \<noteq> size ! m" "\<not> hd_of m \<le> v"
    by blast
  then show ?case
  proof cases
    case 1
    then have "pick_step pb pos size bufs (v, o') m = (v, o')" by (simp add: pick_step_def)
    then show ?thesis unfolding step using IH 1 by (auto simp: less_Suc_eq split: option.splits)
  next
    case 2
    then have "pick_step pb pos size bufs (v, o') m = (hd_of m, Some m)"
      by (simp add: pick_step_def hd_of_def)
    then show ?thesis unfolding step using IH 2 by (cases o') (auto simp: less_Suc_eq intro: order_trans)
  next
    case 3
    then have "pick_step pb pos size bufs (v, o') m = (v, o')" by (simp add: pick_step_def hd_of_def)
    then show ?thesis unfolding step using IH 3 by (cases o') (auto simp: less_Suc_eq)
  qed
qed simp

lemma flush_step:
  fixes v :: 'a
  assumes "length buf = SORT_BUFFER_S" "length out < n"
    "nf @ take (length out mod SORT_BUFFER_S) buf = out"
  defines "r \<equiv> length out mod SORT_BUFFER_S"
  defines "nf' \<equiv> if r = SORT_BUFFER_S - 1 \<or> length out = n - 1 then nf @ take (r + 1) (buf[r := v]) else nf"
  shows "length out + 1 < n \<Longrightarrow> nf' @ take ((length out + 1) mod SORT_BUFFER_S) (buf[r := v]) = out @ [v]"
    and "length out + 1 = n \<Longrightarrow> nf' = out @ [v]"
proof -
  have r: "r < SORT_BUFFER_S" by (simp add: r_def)
  have out: "nf @ take (r + 1) (buf[r := v]) = out @ [v]"
    using assms(3) r assms(1) by (simp add: r_def [symmetric] take_Suc_conv_app_nth)
  show "length out + 1 = n \<Longrightarrow> nf' = out @ [v]" using out by (auto simp: nf'_def)
  assume n: "length out + 1 < n"
  show "nf' @ take ((length out + 1) mod SORT_BUFFER_S) (buf[r := v]) = out @ [v]"
  proof (cases "r = SORT_BUFFER_S - 1")
    case True
    then have "(length out + 1) mod SORT_BUFFER_S = 0" by (simp add: r_def mod_Suc)
    then show ?thesis using True out by (simp add: nf'_def)
  next
    case False
    then have "(length out + 1) mod SORT_BUFFER_S = r + 1" using r by (simp add: r_def mod_Suc)
    moreover have "nf' = nf" using False n by (auto simp: nf'_def)
    ultimately show ?thesis using out by simp
  qed
qed

text \<open>A part buffer holds the stretch of its part that the current position lies in.\<close>

definition buffered :: "nat \<Rightarrow> osm_id list \<Rightarrow> nat \<Rightarrow> osm_id list \<Rightarrow> bool" where
  "buffered pb xs pos buf \<longleftrightarrow>
     (\<forall>k. pos \<le> k \<and> k < length xs \<and> k < (pos div pb + 1) * pb \<longrightarrow> buf ! (k mod pb) = xs ! k)"

lemma buffered_start: "buffered pb xs 0 (take pb xs)"
  by (simp add: buffered_def)

lemma buffered_head: "0 < pb \<Longrightarrow> buffered pb xs pos buf \<Longrightarrow> pos < length xs \<Longrightarrow> buf ! (pos mod pb) = xs ! pos"
  unfolding buffered_def by (metis dividend_less_div_times le_refl mult.commute distrib_right mult_1 add.commute)

lemma buffered_next:
  assumes "0 < pb" "buffered pb xs pos buf" "(pos + 1) mod pb \<noteq> 0"
  shows "buffered pb xs (pos + 1) buf"
proof -
  have "(pos + 1) div pb = pos div pb" using assms(3) by (simp add: div_Suc)
  then show ?thesis using assms(2) by (simp add: buffered_def)
qed

lemma buffered_refill:
  assumes "0 < pb" "pos mod pb = 0" "\<forall>k<length xs. file ! (off + k) = xs ! k" "off + length xs \<le> length file"
  shows "buffered pb xs pos (take pb (drop (off + pos) file) @ tl')"
  unfolding buffered_def
proof (intro allI impI)
  fix k assume k: "pos \<le> k \<and> k < length xs \<and> k < (pos div pb + 1) * pb"
  have pos: "pos div pb * pb = pos" using assms(2) by auto
  then have d: "k - pos < pb" using k by (auto simp: algebra_simps)
  have "k mod pb = (pos + (k - pos)) mod pb" using k by simp
  also have "\<dots> = k - pos" using assms(2) d by (simp add: mod_add_left_eq [symmetric])
  finally show "(take pb (drop (off + pos) file) @ tl') ! (k mod pb) = xs ! k"
    using k d assms(3,4) by (auto simp: nth_append)
qed

definition merge_inv ::
  "osm_id list \<Rightarrow> nat \<Rightarrow> nat \<Rightarrow> osm_id list \<Rightarrow> merge_state \<Rightarrow> bool" where
  "merge_inv file parts pb out m \<longleftrightarrow>
     length (partpos m) = parts \<and> length (partbufs m) = parts \<and> length (out_buf m) = SORT_BUFFER_S \<and>
     (length out < length file \<longrightarrow> newFile m @ take (length out mod SORT_BUFFER_S) (out_buf m) = out) \<and>
     (length out = length file \<longrightarrow> newFile m = out) \<and>
     newEnds m = ends out \<and> sorted out \<and>
     (\<forall>j<parts. partpos m ! j \<le> length (part file j) \<and>
        buffered pb (part file j) (partpos m ! j) (partbufs m ! j) \<and>
        (\<forall>x\<in>set out. \<forall>y\<in>set (drop (partpos m ! j) (part file j)). x \<le> y)) \<and>
     mset out + (\<Sum>j<parts. mset (drop (partpos m ! j) (part file j))) = mset file"

lemma pick_least:
  assumes inv: "merge_inv file parts pb out m" and pb: "0 < pb" and more: "length out < length file"
    and size: "partsize = map (\<lambda>j. length (part file j)) [0..<parts]"
  obtains v p where "pick parts pb (partpos m) partsize (partbufs m) = (v, Some p)" "p < parts"
    "partpos m ! p < length (part file p)" "v = part file p ! (partpos m ! p)"
    "\<forall>j<parts. \<forall>y\<in>set (drop (partpos m ! j) (part file j)). v \<le> y"
proof -
  let ?pos = "partpos m" and ?rest = "\<lambda>j. drop (partpos m ! j) (part file j)"
  have le: "?pos ! j \<le> length (part file j)" and b: "buffered pb (part file j) (?pos ! j) (partbufs m ! j)"
    if "j < parts" for j using inv that by (auto simp: merge_inv_def)
  have "\<exists>j<parts. ?pos ! j \<noteq> length (part file j)"
  proof (rule ccontr)
    assume "\<not> ?thesis"
    then have "(\<Sum>j<parts. mset (?rest j)) = {#}" by (intro sum.neutral) auto
    then have "mset out = mset file" using inv by (simp add: merge_inv_def)
    then show False using more by (metis size_mset nat_neq_iff)
  qed
  then obtain v p where p: "pick parts pb ?pos partsize (partbufs m) = (v, Some p)" "p < parts"
    "?pos ! p \<noteq> length (part file p)" "v = partbufs m ! p ! (?pos ! p mod pb)"
    "\<forall>j<parts. ?pos ! j \<noteq> length (part file j) \<longrightarrow> v \<le> partbufs m ! j ! (?pos ! j mod pb)"
    using pick_steps [where pos = ?pos and size = partsize and bufs = "partbufs m" and pb = pb and m = parts]
    by (auto simp: pick_def size split: prod.splits option.splits)
  have "v \<le> y" if j: "j < parts" and y: "y \<in> set (?rest j)" for j y
  proof -
    have lt: "?pos ! j < length (part file j)" using y by (cases "?pos ! j < length (part file j)") auto
    then have "v \<le> part file j ! (?pos ! j)"
      using p(5) j buffered_head [OF pb b [OF j]] by auto
    also have "\<dots> \<le> y"
    proof -
      have "sorted (drop (?pos ! j) (part file j))" by (simp add: part_def sorted_wrt_drop)
      then show ?thesis using y lt by (auto simp: Cons_nth_drop_Suc [symmetric])
    qed
    finally show ?thesis .
  qed
  moreover have "?pos ! p < length (part file p)" using p(2,3) le [of p] by simp
  moreover from this have "v = part file p ! (?pos ! p)" using p(4) buffered_head [OF pb b [OF p(2)]] by simp
  ultimately show ?thesis using that p(1,2) by blast
qed

lemma sum_drop_next:
  fixes parts :: nat
  assumes "p < parts" "pos ! p < length (f p)" "length pos = parts"
  shows "add_mset (f p ! (pos ! p)) (\<Sum>j<parts. mset (drop (pos[p := pos ! p + 1] ! j) (f j))) =
    (\<Sum>j<parts. mset (drop (pos ! j) (f j)))"
proof -
  have "(\<Sum>j<parts. mset (drop (pos ! j) (f j))) =
      mset (drop (pos ! p) (f p)) + (\<Sum>j\<in>{..<parts} - {p}. mset (drop (pos ! j) (f j)))"
    using assms(1) by (simp add: sum.remove)
  moreover have "(\<Sum>j<parts. mset (drop (pos[p := pos ! p + 1] ! j) (f j))) =
      mset (drop (pos ! p + 1) (f p)) + (\<Sum>j\<in>{..<parts} - {p}. mset (drop (pos ! j) (f j)))"
    using assms(1,3) by (simp add: sum.remove)
  moreover have "drop (pos ! p) (f p) = f p ! (pos ! p) # drop (pos ! p + 1) (f p)"
    using assms(2) by (simp add: Cons_nth_drop_Suc)
  ultimately show ?thesis by simp
qed

lemma merge_step_inv:
  assumes inv: "merge_inv file parts pb out m" and pb: "0 < pb" and more: "length out < length file"
    and size: "partsize = map (\<lambda>j. length (part file j)) [0..<parts]"
    and parts: "SORT_BUFFER_S * (parts - 1) \<le> length file"
  shows "\<exists>v m'. merge_step (length file) parts pb partsize (concat (map (part file) [0..<parts])) (length out) m =
    Some m' \<and> merge_inv file parts pb (out @ [v]) m'"
proof -
  obtain v p where p: "pick parts pb (partpos m) partsize (partbufs m) = (v, Some p)" "p < parts"
    "partpos m ! p < length (part file p)" "v = part file p ! (partpos m ! p)"
    "\<forall>j<parts. \<forall>y\<in>set (drop (partpos m ! j) (part file j)). v \<le> y"
    using pick_least [OF inv pb more size] by blast
  have lens: "length (partpos m) = parts" "length (partbufs m) = parts" "length (out_buf m) = SORT_BUFFER_S"
    and nf: "newFile m @ take (length out mod SORT_BUFFER_S) (out_buf m) = out" and srt: "sorted out"
    and ne: "newEnds m = ends out"
    and ms: "mset out + (\<Sum>j<parts. mset (drop (partpos m ! j) (part file j))) = mset file"
    and each: "j < parts \<Longrightarrow> partpos m ! j \<le> length (part file j) \<and>
        buffered pb (part file j) (partpos m ! j) (partbufs m ! j) \<and>
        (\<forall>x\<in>set out. \<forall>y\<in>set (drop (partpos m ! j) (part file j)). x \<le> y)" for j
    using inv more by (auto simp: merge_inv_def)
  let ?file = "concat (map (part file) [0..<parts])" and ?pos = "(partpos m)[p := partpos m ! p + 1]"
  obtain m' where m': "merge_step (length file) parts pb partsize ?file (length out) m = Some m'"
    using p(1) by (simp add: merge_step_def Let_def)
  then have fields: "partpos m' = ?pos"
    "partbufs m' = (if (partpos m ! p + 1) mod pb = 0
       then (let rd = take pb (drop (SORT_BUFFER_S * p + (partpos m ! p + 1)) ?file)
             in (partbufs m)[p := rd @ drop (length rd) (partbufs m ! p)]) else partbufs m)"
    "out_buf m' = (out_buf m)[length out mod SORT_BUFFER_S := v]"
    "newFile m' = (if length out mod SORT_BUFFER_S = SORT_BUFFER_S - 1 \<or> length out = length file - 1
       then newFile m @ take (length out mod SORT_BUFFER_S + 1) ((out_buf m)[length out mod SORT_BUFFER_S := v])
       else newFile m)"
    "newEnds m' = ends (out @ [v])"
    using p(1-3) lens ne by (auto simp: merge_step_def Let_def ends_snoc)
  have in_file: "\<forall>k<length (part file p). ?file ! (SORT_BUFFER_S * p + k) = part file p ! k"
    by (rule part_in_file(1) [OF p(2) parts])
  have "buffered pb (part file p) (partpos m ! p + 1) (partbufs m' ! p)"
  proof (cases "(partpos m ! p + 1) mod pb = 0")
    case True
    then show ?thesis using buffered_refill [OF pb True in_file part_in_file(2) [OF p(2) parts]] lens p(2)
      by (simp add: fields(2) Let_def)
  next
    case False
    then show ?thesis using buffered_next [OF pb] each [OF p(2)] by (simp add: fields(2))
  qed
  moreover have "partbufs m' ! j = partbufs m ! j" if "j \<noteq> p" for j
    using that by (simp add: fields(2) Let_def)
  moreover have "set (drop (Suc (partpos m ! p)) (part file p)) \<subseteq> set (drop (partpos m ! p) (part file p))"
    by (simp add: set_drop_subset_set_drop)
  ultimately have "\<forall>j<parts. partpos m' ! j \<le> length (part file j) \<and>
        buffered pb (part file j) (partpos m' ! j) (partbufs m' ! j) \<and>
        (\<forall>x\<in>set (out @ [v]). \<forall>y\<in>set (drop (partpos m' ! j) (part file j)). x \<le> y)"
    using each p(2,3,5) lens(1) unfolding fields(1) by (auto simp: nth_list_update)
  moreover have "sorted (out @ [v])"
    using srt each [OF p(2)] p(3,4) by (simp add: sorted_append Cons_nth_drop_Suc [symmetric])
  moreover have "mset (out @ [v]) + (\<Sum>j<parts. mset (drop (?pos ! j) (part file j))) = mset file"
    unfolding ms [symmetric] sum_drop_next [where f = "part file", OF p(2,3) lens(1), symmetric] p(4) by simp
  ultimately have "merge_inv file parts pb (out @ [v]) m'"
    unfolding merge_inv_def using lens flush_step [OF lens(3) more nf, of v]
    by (simp add: fields Let_def)
  then show ?thesis using m' by blast
qed

lemma merge_loop_inv:
  assumes "merge_inv file parts pb out m" "0 < pb" "partsize = map (\<lambda>j. length (part file j)) [0..<parts]"
    "SORT_BUFFER_S * (parts - 1) \<le> length file" "length out \<le> length file"
  shows "\<exists>m' out'. merge_loop (length file) parts pb partsize (concat (map (part file) [0..<parts]))
      [length out..<length file] m = Some m' \<and> length out' = length file \<and> merge_inv file parts pb out' m'"
  using assms(1,5)
proof (induction "length file - length out" arbitrary: out m)
  case 0
  then show ?case by (intro exI [of _ m] exI [of _ out]) simp
next
  case (Suc d)
  then have more: "length out < length file" by simp
  obtain v m1 where s: "merge_step (length file) parts pb partsize (concat (map (part file) [0..<parts]))
      (length out) m = Some m1" "merge_inv file parts pb (out @ [v]) m1"
    using merge_step_inv [OF Suc.prems(1) assms(2) more assms(3,4)] by blast
  have "d = length file - length (out @ [v])" "length (out @ [v]) \<le> length file"
    using Suc.hyps(2) more by auto
  from Suc.hyps(1) [OF this(1) s(2) this(2)] s(1) more show ?case by (simp add: upt_conv_Cons)
qed

lemma merge_inv_done:
  assumes inv: "merge_inv file parts pb out m" and len: "length out = length file"
  shows "newFile m = sort file" "newEnds m = ends (sort file)"
proof -
  define R where "R = (\<Sum>j<parts. mset (drop (partpos m ! j) (part file j)))"
  have R: "mset out + R = mset file" using inv by (simp add: merge_inv_def R_def)
  then have "size (mset out) + size R = size (mset file)" by (metis size_union)
  then have "size R = 0" using len by simp
  then have "mset out = mset file" using R by simp
  moreover have "sorted out" using inv by (simp add: merge_inv_def)
  ultimately have "out = sort file" using properties_for_sort by metis
  then show "newFile m = sort file" "newEnds m = ends (sort file)"
    using inv len by (auto simp: merge_inv_def)
qed

lemma sort_file_eq:
  assumes "fsize s = length (tmp_file s)"
  shows "sort_file s = Some (s\<lparr>tmp_file := sort (tmp_file s), blockEnds := ends (sort (tmp_file s)),
    is_sorted := True\<rparr>)"
proof -
  let ?f = "tmp_file s" and ?S = SORT_BUFFER_S
  define parts where "parts = length ?f div ?S + 1"
  define pb where "pb = ?S div parts + 1"
  define m0 where "m0 = \<lparr>partpos = replicate parts 0, partbufs = map (\<lambda>j. take pb (part ?f j)) [0..<parts],
    out_buf = replicate ?S 0, newFile = [], newEnds = []\<rparr>"
  have le: "?S * (parts - 1) \<le> length ?f" by (simp add: parts_def)
  have gt: "length ?f \<le> ?S * parts" using dividend_less_div_times [of ?S "length ?f"]
    by (simp add: parts_def algebra_simps)
  have "(\<Sum>j<parts. mset (part ?f j)) = mset (concat (map (part ?f) [0..<parts]))"
    by (simp add: mset_concat sum_list_sum_nth atLeast0LessThan)
  also have "\<dots> = mset ?f" unfolding mset_parts using gt by simp
  finally have "merge_inv ?f parts pb [] m0"
    by (simp add: merge_inv_def m0_def buffered_start)
  then obtain m out where m: "merge_loop (length ?f) parts pb (map (\<lambda>j. length (part ?f j)) [0..<parts])
      (concat (map (part ?f) [0..<parts])) [0..<length ?f] m0 = Some m"
    "length out = length ?f" "merge_inv ?f parts pb out m"
    using merge_loop_inv [of ?f parts pb "[]" m0, OF _ _ refl le] by (auto simp: pb_def)
  show ?thesis
    using m(1) merge_inv_done [OF m(3,2)] sort_parts [OF le, of pb] gt
    unfolding sort_file_def Let_def assms parts_def [symmetric] pb_def [symmetric] m0_def by simp
qed

section \<open>Looking ids up\<close>

text \<open>What the closed set holds when the ids \<open>X\<close> were added.\<close>

definition closed_inv :: "osm_id set \<Rightarrow> osm_id_set \<Rightarrow> bool" where
  "closed_inv X s \<longleftrightarrow> closed s \<and> is_sorted s \<and> sorted (tmp_file s) \<and> set (tmp_file s) = X \<and>
     (\<forall>x\<in>X. smallest s \<le> x \<and> x \<le> biggest s) \<and>
     (X = {} \<and> smallest s = - 1 \<and> biggest s = 0 \<or> biggest s \<in> X) \<and>
     (blockEnds s = ends (tmp_file s) \<or> blockEnds s = ends (tmp_file s) @ [biggest s]) \<and>
     (\<forall>b. curBlock s = Some b \<longrightarrow> buffer s = take BUFFER_S (drop (b * BUFFER_S) (tmp_file s))) \<and>
     (\<forall>x\<in>X. \<forall>i<10. bitset s (hash_id (ucast x) i))"

lemma close_set_inv:
  assumes "open_inv xs s"
  shows "\<exists>s'. close_set s = Some s' \<and> closed_inv (set xs) s'"
proof -
  define s1 where "s1 = s\<lparr>tmp_file := tmp_file s @ outBuffer s, fsize := fsize s + length (outBuffer s),
      blockEnds := blockEnds s @ [biggest s], closed := True\<rparr>"
  have s1: "fsize s1 = length (tmp_file s1)" "tmp_file s1 = xs" "blockEnds s1 = ends xs @ [biggest s1]"
    "is_sorted s1 = sorted xs" "closed s1" "curBlock s1 = None"
    "\<forall>x\<in>set xs. smallest s1 \<le> x \<and> x \<le> biggest s1"
    "xs = [] \<and> smallest s1 = - 1 \<and> biggest s1 = 0 \<or> biggest s1 \<in> set xs"
    "\<forall>x\<in>set xs. \<forall>i<10. bitset s1 (hash_id (ucast x) i)"
    using assms by (auto simp: open_inv_def s1_def)
  have eq: "close_set s = (if \<not> is_sorted s1 then sort_file s1 else Some s1)"
    by (simp add: close_set_def s1_def Let_def)
  show ?thesis
  proof (cases "sorted xs")
    case True
    then have "closed_inv (set xs) s1" using s1 by (auto simp: closed_inv_def)
    then show ?thesis using eq True s1(4) by simp
  next
    case False
    define s2 where "s2 = s1\<lparr>tmp_file := sort xs, blockEnds := ends (sort xs), is_sorted := True\<rparr>"
    have "sort_file s1 = Some s2" using sort_file_eq [OF s1(1)] s1(2) by (simp add: s2_def)
    moreover have "closed_inv (set xs) s2" using s1 by (auto simp: closed_inv_def s2_def)
    ultimately show ?thesis using eq False s1(4) by simp
  qed
qed

lemma diskHas_correct:
  assumes inv: "closed_inv X s" and "X \<noteq> {}"
  shows "\<exists>s'. diskHas oid s = (oid \<in> X, s') \<and> closed_inv X s'"
proof -
  have X: "set (tmp_file s) = X" "sorted (tmp_file s)" "\<forall>x\<in>X. x \<le> biggest s" "biggest s \<in> X"
    and es: "blockEnds s = ends (tmp_file s) \<or> blockEnds s = ends (tmp_file s) @ [biggest s]"
    and cur: "\<forall>b. curBlock s = Some b \<longrightarrow> buffer s = take BUFFER_S (drop (b * BUFFER_S) (tmp_file s))"
    using assms by (auto simp: closed_inv_def)
  show ?thesis
  proof (cases "oid \<in> set (blockEnds s)")
    case True
    then have "oid \<in> X" using es X(1,4) set_ends [of "tmp_file s"] by auto
    then show ?thesis using True inv by (simp add: diskHas_def)
  next
    case False
    define block where "block = getBlock oid s"
    define buf where "buf = take BUFFER_S (drop (block * BUFFER_S) (tmp_file s))"
    define s1 where "s1 = (if Some block \<noteq> curBlock s then s\<lparr>buffer := buf, curBlock := Some block\<rparr> else s)"
    have buf: "buffer s1 = buf" using cur by (auto simp: s1_def buf_def)
    have inv1: "closed_inv X s1" using inv by (auto simp: closed_inv_def s1_def buf_def)
    have srt: "sorted buf" using X(2) by (simp add: buf_def sorted_wrt_drop sorted_wrt_take)
    have mem: "oid \<in> set buf \<longleftrightarrow> oid \<in> X"
    proof
      assume "oid \<in> set buf"
      then show "oid \<in> X" using X(1) set_take_subset set_drop_subset unfolding buf_def by fast
    next
      assume "oid \<in> X"
      then show "oid \<in> set buf" using block_lookup [OF X(2), of "blockEnds s" "biggest s" oid] X(1,3) es False
        by (auto simp: buf_def block_def getBlock_def)
    qed
    have "diskHas oid s = (if buf = [] then (False, s1) else if oid < buf ! 0 then (False, s1)
        else (bin_search buf oid 0 (int (length buf) - 1), s1))"
      unfolding diskHas_def Let_def block_def [symmetric] buf_def [symmetric] s1_def [symmetric] buf
      using False by simp
    moreover have "oid \<notin> set buf" if "buf \<noteq> []" "oid < buf ! 0"
      using that srt by (cases buf) auto
    ultimately have "diskHas oid s = (oid \<in> X, s1)"
      using bin_search_mem [OF srt] mem by auto
    then show ?thesis using inv1 by blast
  qed
qed

text \<open>In the empty set the initial bounds exclude every id.\<close>

lemma no_id_in_between: "oid < - 1 \<or> 0 < (oid :: osm_id)"
  by (cases "oid = - 1") (auto simp: word_order.not_eq_extremum word_gt_0)

lemma has_id_closed:
  assumes inv: "closed_inv X s"
  shows "\<exists>s'. has_id oid s = Some (oid \<in> X, s') \<and> closed_inv X s'"
proof -
  have cl: "closed s" "is_sorted s" and b: "\<forall>x\<in>X. smallest s \<le> x \<and> x \<le> biggest s"
    and e: "X = {} \<longrightarrow> smallest s = - 1 \<and> biggest s = 0"
    and h: "\<forall>x\<in>X. \<forall>i<10. bitset s (hash_id (ucast x) i)"
    using inv by (auto simp: closed_inv_def)
  let ?miss = "list_ex (\<lambda>i. \<not> bitset s (hash_id (ucast oid) i)) [0..<10]"
  have miss: "oid \<notin> X" if ?miss
    using that h unfolding list_ex_iff set_upt by auto
  show ?thesis
  proof (cases "oid < smallest s \<or> biggest s < oid \<or> ?miss")
    case True
    then have "oid \<notin> X" using b miss by force
    then show ?thesis using True cl inv unfolding has_id_def by auto
  next
    case False
    then have "X \<noteq> {}" using e no_id_in_between [of oid] by auto
    from diskHas_correct [OF inv this, of oid] show ?thesis using False cl by (simp add: has_id_def)
  qed
qed

lemma has_id_open:
  assumes "open_inv xs s"
  shows "\<exists>s'. has_id oid s = Some (oid \<in> set xs, s') \<and> closed_inv (set xs) s'"
proof -
  obtain s1 where s1: "close_set s = Some s1" "closed_inv (set xs) s1"
    using close_set_inv [OF assms] by blast
  then have "has_id oid s = has_id oid s1"
    using assms by (simp add: has_id_def open_inv_def closed_inv_def)
  then show ?thesis using has_id_closed [OF s1(2)] by simp
qed

section \<open>The set as its users see it\<close>

fun run_adds :: "('k \<Rightarrow> 's \<Rightarrow> 'e + 's) \<Rightarrow> 'k list \<Rightarrow> 's \<Rightarrow> 'e + 's" where
  "run_adds add [] s = Inr s"
| "run_adds add (x # xs) s = exn_bind (add x s) (run_adds add xs)"

fun run_asks :: "('k \<Rightarrow> 's \<Rightarrow> (bool \<times> 's) option) \<Rightarrow> 'k list \<Rightarrow> 's \<Rightarrow> (bool list \<times> 's) option" where
  "run_asks has [] s = Some ([], s)"
| "run_asks has (q # qs) s =
     (case has q s of
        None \<Rightarrow> None
      | Some (b, s) \<Rightarrow> (case run_asks has qs s of None \<Rightarrow> None | Some (bs, s) \<Rightarrow> Some (b # bs, s)))"

text \<open>
  The contract of a set that is first filled and then asked: filling keeps the list of what was added,
  the first question seals the set, and a sealed set answers membership and refuses additions.
\<close>

locale id_store =
  fixes empty :: 's
    and refusal :: 'e
    and add :: "'k \<Rightarrow> 's \<Rightarrow> 'e + 's"
    and has :: "'k \<Rightarrow> 's \<Rightarrow> (bool \<times> 's) option"
    and filling :: "'k list \<Rightarrow> 's \<Rightarrow> bool"
    and sealed :: "'k set \<Rightarrow> 's \<Rightarrow> bool"
  assumes filling_empty: "filling [] empty"
    and filling_add: "filling xs s \<Longrightarrow> \<exists>s'. add x s = Inr s' \<and> filling (xs @ [x]) s'"
    and filling_has: "filling xs s \<Longrightarrow> \<exists>s'. has q s = Some (q \<in> set xs, s') \<and> sealed (set xs) s'"
    and sealed_has: "sealed X s \<Longrightarrow> \<exists>s'. has q s = Some (q \<in> X, s') \<and> sealed X s'"
    and sealed_add: "sealed X s \<Longrightarrow> add x s = Inl refusal"
begin

lemma filled: "filling ys s \<Longrightarrow> \<exists>s'. run_adds add xs s = Inr s' \<and> filling (ys @ xs) s'"
proof (induction xs arbitrary: ys s)
  case (Cons x xs)
  obtain s1 where s1: "add x s = Inr s1" "filling (ys @ [x]) s1" using filling_add [OF Cons.prems] by blast
  from Cons.IH [OF s1(2)] show ?case by (simp add: s1(1))
qed simp

lemma sealed_answers: "sealed X s \<Longrightarrow> \<exists>s'. run_asks has qs s = Some (map (\<lambda>q. q \<in> X) qs, s')"
proof (induction qs arbitrary: s)
  case (Cons q qs)
  obtain s1 where s1: "has q s = Some (q \<in> X, s1)" "sealed X s1" using sealed_has [OF Cons.prems] by blast
  from Cons.IH [OF s1(2)] show ?case by (auto simp: s1(1))
qed simp

lemma answers:
  "\<exists>s s'. run_adds add xs empty = Inr s \<and> run_asks has qs s = Some (map (\<lambda>q. q \<in> set xs) qs, s')"
proof -
  obtain s where s: "run_adds add xs empty = Inr s" "filling xs s"
    using filled [OF filling_empty, of xs] by auto
  have "\<exists>s'. run_asks has qs s = Some (map (\<lambda>q. q \<in> set xs) qs, s')"
  proof (cases qs)
    case (Cons q qs')
    obtain s1 where s1: "has q s = Some (q \<in> set xs, s1)" "sealed (set xs) s1"
      using filling_has [OF s(2)] by blast
    from sealed_answers [OF s1(2), of qs'] show ?thesis by (auto simp: Cons s1(1))
  qed simp
  then show ?thesis using s(1) by blast
qed

lemma refuses_after_question:
  "\<exists>s b s'. run_adds add xs empty = Inr s \<and> has q s = Some (b, s') \<and> add x s' = Inl refusal"
  using filled [OF filling_empty, of xs] filling_has sealed_add by (metis append_Nil)

end

interpretation ids: id_store osm_id_set_init Std_exception add_id has_id open_inv closed_inv
proof
  fix x and s :: osm_id_set and X
  assume "closed_inv X s"
  then show "add_id x s = Inl Std_exception" by (simp add: add_id_def closed_inv_def)
qed (simp_all add: open_inv_init add_id_open has_id_open has_id_closed)

text \<open>
  C2: after any sequence of additions, any sequence of questions is answered by membership among the added ids:
  the Bloom filter and the bounds never hide an id, the block search and the binary search find exactly
  the ids of the file, whether it arrived sorted or went through the external sort, no assertion
  fails, and the block cached by one question never falsifies the next.
\<close>

theorem osm_id_set_membership:
  "\<exists>s s'. run_adds add_id xs osm_id_set_init = Inr s \<and>
     run_asks has_id qs s = Some (map (\<lambda>q. q \<in> set xs) qs, s')"
  by (rule ids.answers)

text \<open>
  The first question closes the set: afterwards \<open>add\<close> throws.
\<close>

theorem osm_id_set_closed_after_question:
  "\<exists>s b s'. run_adds add_id xs osm_id_set_init = Inr s \<and> has_id q s = Some (b, s') \<and>
     add_id x s' = Inl Std_exception"
  by (rule ids.refuses_after_question)

text \<open>
  C36: the external merge sort, with its part buffers that are refilled from the file, never meets an exhausted set
  of parts, sorts the file, and records the last ids of the full blocks of the sorted file.
\<close>

theorem sort_file_sorts:
  assumes "fsize s = length (tmp_file s)"
  shows "sort_file s = Some (s\<lparr>tmp_file := sort (tmp_file s), blockEnds := ends (sort (tmp_file s)),
    is_sorted := True\<rparr>)"
  by (rule sort_file_eq [OF assms])

theorem sort_file_sorts_witness:
  "map_option tmp_file (sort_file (osm_id_set_init\<lparr>tmp_file := [3, 1, 2], fsize := 3\<rparr>)) = Some [1, 2, 3]"
  by (subst sort_file_sorts) (simp_all add: word_le_nat_alt)

text \<open>every position the Bloom filter is read or written at lies in the bit set.\<close>

lemma hash_id_in_bitset: "unat (hash_id x i) < unat BLOOMF_BITS"
  by (simp add: hash_id_def unat_mod_distrib BLOOMF_BITS_def)

end
