(* ===== verification/Osm_Filter.thy ===== *)
theory Osm_Filter
  imports Util_String
begin

unbundle bit_operations_syntax

text \<open>
  \<^verbatim>\<open>osm/osm_filter.{h,cpp}\<close> with the attribute and flag types of \<^verbatim>\<open>osm.h\<close> and \<^verbatim>\<open>osm_read_options.h\<close>.

  A \<^verbatim>\<open>std::unordered_map\<close> is an association list in iteration order, which the standard leaves open;
  the theorems below therefore quantify over it.  The inner \<^verbatim>\<open>std::map\<close> of a rule is an association list in key
  order.
\<close>

section \<open>Definitions\<close>

type_synonym attribute_map = "(string \<times> string) list"
type_synonym multi_attribute_map = "(string \<times> (string \<times> u64) list) list"

definition NO_RELATIONS :: u64 where "NO_RELATIONS = 4"
definition NO_WAYS :: u64 where "NO_WAYS = 8"
definition NO_NODES :: u64 where "NO_NODES = 16"
definition MULT_VAL_MATCH :: u64 where "MULT_VAL_MATCH = 32"

text \<open>\<open>osm_filter::Type\<close>.\<close>

definition NODE_T :: u64 where "NODE_T = 16"
definition WAY_T :: u64 where "WAY_T = 8"
definition REL_T :: u64 where "REL_T = 4"
definition ALL_T :: u64 where "ALL_T = 0"

text \<open>The options a filter is built from; \<open>levelFilters\<close> has eight entries.\<close>

record osm_read_options =
  noHupFilter :: multi_attribute_map
  keepFilter :: multi_attribute_map
  levelFilters :: "multi_attribute_map list"
  dropFilter :: multi_attribute_map
  oneWayFilter :: multi_attribute_map
  oneWayFilterRev :: multi_attribute_map
  twoWayFilter :: multi_attribute_map
  stationFilter :: multi_attribute_map
  stationBlockerFilter :: multi_attribute_map
  restrPosRestr :: multi_attribute_map
  restrNegRestr :: multi_attribute_map
  noRestrFilter :: multi_attribute_map

text \<open>\<open>f_levels\<close> is \<^const>\<open>None\<close> while the pointer \<^verbatim>\<open>_levels\<close> has not been initialised.\<close>

record osm_filter =
  f_keep :: multi_attribute_map
  f_drop :: multi_attribute_map
  f_nohup :: multi_attribute_map
  f_oneway :: multi_attribute_map
  f_onewayrev :: multi_attribute_map
  f_twoway :: multi_attribute_map
  f_station :: multi_attribute_map
  f_blocker :: multi_attribute_map
  f_posRestr :: multi_attribute_map
  f_negRestr :: multi_attribute_map
  f_noRestr :: multi_attribute_map
  f_levels :: "multi_attribute_map list option"

definition osm_filter_of_rules :: "multi_attribute_map \<Rightarrow> multi_attribute_map \<Rightarrow> osm_filter" where
  "osm_filter_of_rules keep drp = \<lparr>f_keep = keep, f_drop = drp, f_nohup = [], f_oneway = [],
     f_onewayrev = [], f_twoway = [], f_station = [], f_blocker = [], f_posRestr = [],
     f_negRestr = [], f_noRestr = [], f_levels = None\<rparr>"

definition osm_filter_of_options :: "'a osm_read_options_scheme \<Rightarrow> osm_filter" where
  "osm_filter_of_options opt = \<lparr>f_keep = keepFilter opt, f_drop = dropFilter opt,
     f_nohup = noHupFilter opt, f_oneway = oneWayFilter opt, f_onewayrev = oneWayFilterRev opt,
     f_twoway = twoWayFilter opt, f_station = stationFilter opt, f_blocker = stationBlockerFilter opt,
     f_posRestr = restrPosRestr opt, f_negRestr = restrNegRestr opt, f_noRestr = noRestrFilter opt,
     f_levels = Some (levelFilters opt)\<rparr>"

definition valMatches_mult :: "string \<Rightarrow> string \<Rightarrow> bool \<Rightarrow> bool" where
  "valMatches_mult a b m \<longleftrightarrow>
     (if b = ''*'' then True
      else if m \<and> (find_str ('';'' @ b) a \<noteq> None \<or> find_str (b @ '';'') a \<noteq> None \<or>
                   find_str (''; '' @ b) a \<noteq> None \<or> find_str (b @ '' ;'') a \<noteq> None) then True
      else a = b)"

definition valMatches :: "string \<Rightarrow> string \<Rightarrow> bool" where
  "valMatches a b = valMatches_mult a b False"

text \<open>The loop over the values of one rule, then the loop over the attributes.\<close>

fun contained_vals :: "string \<Rightarrow> u64 \<Rightarrow> (string \<times> u64) list \<Rightarrow> u64 option" where
  "contained_vals v t [] = None"
| "contained_vals v t ((b, flags) # vals) =
     (let multValMatch = (flags AND MULT_VAL_MATCH \<noteq> 0) in
      if flags AND t \<noteq> 0 then contained_vals v t vals
      else if valMatches_mult v b multValMatch then Some flags
      else contained_vals v t vals)"

fun contained :: "attribute_map \<Rightarrow> multi_attribute_map \<Rightarrow> u64 \<Rightarrow> u64" where
  "contained [] rules t = 0"
| "contained ((k, v) # attrs) rules t =
     (case map_of rules k of
        None \<Rightarrow> contained attrs rules t
      | Some vals \<Rightarrow>
          (case contained_vals v t vals of
             Some flags \<Rightarrow> flags
           | None \<Rightarrow> contained attrs rules t))"

fun contained_attr :: "attribute_map \<Rightarrow> string \<times> string \<Rightarrow> u64" where
  "contained_attr [] attr = 0"
| "contained_attr ((k, v) # attrs) attr =
     (if k = fst attr then (if valMatches v (snd attr) then 1 else 0) else contained_attr attrs attr)"

definition keep :: "attribute_map \<Rightarrow> u64 \<Rightarrow> osm_filter \<Rightarrow> u64" where
  "keep attrs t f = contained attrs (f_keep f) t"

definition drop_flags :: "attribute_map \<Rightarrow> u64 \<Rightarrow> osm_filter \<Rightarrow> u64" where
  "drop_flags attrs t f = contained attrs (f_drop f) t"

definition nohup :: "string \<Rightarrow> string \<Rightarrow> osm_filter \<Rightarrow> u64" where
  "nohup key v f =
     (case map_of (f_nohup f) key of
        None \<Rightarrow> 0
      | Some vals \<Rightarrow> if list_ex (\<lambda>val. valMatches v (fst val)) vals then 1 else 0)"

definition oneway :: "attribute_map \<Rightarrow> osm_filter \<Rightarrow> u64" where
  "oneway attrs f =
     (if contained attrs (f_twoway f) WAY_T \<noteq> 0 then 0 else contained attrs (f_oneway f) WAY_T)"

definition onewayrev :: "attribute_map \<Rightarrow> osm_filter \<Rightarrow> u64" where
  "onewayrev attrs f =
     (if contained attrs (f_twoway f) WAY_T \<noteq> 0 then 0 else contained attrs (f_onewayrev f) WAY_T)"

definition station :: "attribute_map \<Rightarrow> osm_filter \<Rightarrow> u64" where
  "station attrs f = contained attrs (f_station f) NODE_T"

definition blocker :: "attribute_map \<Rightarrow> osm_filter \<Rightarrow> u64" where
  "blocker attrs f = contained attrs (f_blocker f) NODE_T"

definition negRestr :: "attribute_map \<Rightarrow> osm_filter \<Rightarrow> u64" where
  "negRestr attrs f =
     (if contained attrs (f_noRestr f) ALL_T \<noteq> 0 then 0 else contained attrs (f_negRestr f) ALL_T)"

definition posRestr :: "attribute_map \<Rightarrow> osm_filter \<Rightarrow> u64" where
  "posRestr attrs f =
     (if contained attrs (f_noRestr f) ALL_T \<noteq> 0 then 0 else contained attrs (f_posRestr f) ALL_T)"

definition level_matches :: "attribute_map \<Rightarrow> multi_attribute_map \<Rightarrow> bool" where
  "level_matches attrs rules =
     list_ex (\<lambda>(k, v). case map_of rules k of
                None \<Rightarrow> False | Some vals \<Rightarrow> list_ex (\<lambda>val. valMatches v (fst val)) vals) attrs"

text \<open>\<^const>\<open>None\<close> when the level table is not initialised.\<close>

definition level :: "attribute_map \<Rightarrow> osm_filter \<Rightarrow> nat option" where
  "level attrs f =
     (case f_levels f of
        None \<Rightarrow> None
      | Some ls \<Rightarrow> (case List.find (\<lambda>i. level_matches attrs (ls ! i)) [0..<8] of
                     None \<Rightarrow> Some 0 | Some i \<Rightarrow> Some i))"

definition getAttrKeys :: "osm_filter \<Rightarrow> string list option" where
  "getAttrKeys f =
     (case f_levels f of
        None \<Rightarrow> None
      | Some ls \<Rightarrow> Some (map fst (f_keep f) @ map fst (f_drop f) @ map fst (f_nohup f) @
          map fst (f_oneway f) @ map fst (f_twoway f) @ map fst (f_station f) @ map fst (f_blocker f) @
          map fst (f_posRestr f) @ map fst (f_negRestr f) @ map fst (f_noRestr f) @
          concat (map (\<lambda>i. map fst (ls ! i)) [0..<8])))"

text \<open>\<^verbatim>\<open>m[k].insert(first, last)\<close> on the outer map makes a missing entry first.\<close>

fun rule_insert ::
  "string \<times> (string \<times> u64) list \<Rightarrow> multi_attribute_map \<Rightarrow> multi_attribute_map" where
  "rule_insert kv [] = [(fst kv, fold (map_insert str_less) (snd kv) [])]"
| "rule_insert kv ((k, vals) # m) =
     (if fst kv = k then (k, fold (map_insert str_less) (snd kv) vals) # m else (k, vals) # rule_insert kv m)"

definition merge_filter :: "osm_filter \<Rightarrow> osm_filter \<Rightarrow> osm_filter" where
  "merge_filter f other =
     osm_filter_of_rules (fold rule_insert (f_keep other) (fold rule_insert (f_keep f) [])) []"

fun rules_string :: "multi_attribute_map \<Rightarrow> string" where
  "rules_string [] = []"
| "rules_string ((k, vals) # m) =
     '' '' @ k @ ''='' @ implode (map fst vals) '','' @ [CHR 0x0A] @ rules_string m"

definition filter_toString :: "osm_filter \<Rightarrow> string" where
  "filter_toString f = ''[KEEP]'' @ [CHR 0x0A, CHR 0x0A] @ rules_string (f_keep f) @
     [CHR 0x0A] @ ''[DROP]'' @ [CHR 0x0A, CHR 0x0A] @ rules_string (f_drop f)"

section \<open>Matching\<close>

text \<open>A rule value that takes part for the element type and matches an attribute value.\<close>

definition hit :: "u64 \<Rightarrow> string \<Rightarrow> string \<times> u64 \<Rightarrow> bool" where
  "hit t v val \<longleftrightarrow> snd val AND t = 0 \<and> valMatches_mult v (fst val) (snd val AND MULT_VAL_MATCH \<noteq> 0)"

lemma contained_vals_find: "contained_vals v t vals = map_option snd (List.find (hit t v) vals)"
  by (induction vals) (auto simp: hit_def Let_def)

lemma contained_nonzero:
  assumes "\<And>k vals b. map_of rules k = Some vals \<Longrightarrow> (b, 0) \<notin> set vals"
  shows "contained attrs rules t \<noteq> 0 \<longleftrightarrow>
    (\<exists>(k, v)\<in>set attrs. \<exists>vals. map_of rules k = Some vals \<and> (\<exists>val\<in>set vals. hit t v val))"
proof (induction attrs)
  case (Cons kv attrs)
  obtain k v where kv: "kv = (k, v)" by fastforce
  show ?case
  proof (cases "map_of rules k")
    case None
    then show ?thesis using Cons by (simp add: kv)
  next
    case (Some vals)
    show ?thesis
    proof (cases "List.find (hit t v) vals")
      case None
      then have "\<not> (\<exists>val\<in>set vals. hit t v val)" unfolding find_None_iff by blast
      moreover have "contained (kv # attrs) rules t = contained attrs rules t"
        using None Some by (simp add: kv contained_vals_find)
      ultimately show ?thesis using Cons Some by (simp add: kv)
    next
      case (Some val)
      then have "val \<in> set vals" "hit t v val" by (auto simp: find_Some_iff)
      moreover have "snd val \<noteq> 0" using assms \<open>map_of rules k = Some vals\<close> \<open>val \<in> set vals\<close>
        by (cases val) auto
      ultimately show ?thesis using Some \<open>map_of rules k = Some vals\<close>
        by (auto simp: kv contained_vals_find)
    qed
  qed
qed simp

text \<open>
  Whether an element passes a rule set does not depend on the unspecified iteration order of its attributes,
  and it passes exactly when one of its attributes has a rule under its key, with a value that takes part
  for the element's type and matches; this needs every stored rule value to carry a flag, as the
  configuration reader ensures with the dummy flag \<^verbatim>\<open>USE\<close>.
\<close>

theorem contained_order_independent:
  assumes "\<forall>(k, vals)\<in>set rules. \<forall>(b, flags)\<in>set vals. flags \<noteq> 0" "set attrs' = set attrs"
  shows "(contained attrs' rules t \<noteq> 0) = (contained attrs rules t \<noteq> 0) \<and>
    (contained attrs rules t \<noteq> 0 \<longleftrightarrow>
      (\<exists>(k, v)\<in>set attrs. \<exists>vals. map_of rules k = Some vals \<and> (\<exists>val\<in>set vals. hit t v val)))"
proof -
  have nz: "\<And>k vals b. map_of rules k = Some vals \<Longrightarrow> (b, 0) \<notin> set vals"
    using assms(1) by (auto dest!: map_of_SomeD)
  show ?thesis using contained_nonzero [OF nz, where attrs = attrs] contained_nonzero [OF nz, where attrs = attrs'] assms(2)
    by simp
qed

theorem contained_order_independent_witness:
  defines "rules \<equiv> [(''highway'', [(''bus'', 1), (''tram'', 33)])]"
    and "attrs \<equiv> [(''name'', ''x''), (''highway'', ''rail;tram'')]"
  shows "contained (rev attrs) rules WAY_T \<noteq> 0"
proof -
  have "(contained (rev attrs) rules WAY_T \<noteq> 0) = (contained attrs rules WAY_T \<noteq> 0)"
    using contained_order_independent [of rules "rev attrs" attrs WAY_T] by (simp add: rules_def)
  moreover have "contained attrs rules WAY_T \<noteq> 0"
    by (simp add: attrs_def rules_def WAY_T_def MULT_VAL_MATCH_def valMatches_mult_def)
  ultimately show ?thesis by simp
qed

text \<open>
  Multi-value matching finds every element of a semicolon-separated list, with or without a space around the
  separator on the element's side.
\<close>

theorem valMatches_mult_complete:
  assumes "b \<in> set ls"
  shows "valMatches_mult (implode ls '';'') b True \<and> valMatches_mult (implode ls ''; '') b True \<and>
    valMatches_mult (implode ls '' ;'') b True"
proof -
  have ex: "implode ls sep = b \<or> (\<exists>u v. implode ls sep = u @ sep @ b @ v) \<or> (\<exists>u v. implode ls sep = u @ b @ sep @ v)" for sep
    using assms
  proof (induction ls sep rule: implode.induct)
    case (3 x y xs del)
    show ?case
    proof (cases "b = x")
      case True
      then show ?thesis by (metis append_Nil implode.simps(3))
    next
      case False
      then have "b \<in> set (y # xs)" using 3 by simp
      from 3(1) [OF this] show ?thesis
        by (metis append.assoc append_Nil2 implode.simps(3))
    qed
  qed auto
  have found: "\<exists>i. find_str p (u @ p @ v) = Some i" for p u v :: string
    using find_str_None [of p "u @ p @ v"] by blast
  have "valMatches_mult (u @ sep @ b @ v) b True \<and> valMatches_mult (u @ b @ sep @ v) b True"
    if "sep = '';'' \<or> sep = ''; '' \<or> sep = '' ;''" for sep u v
    using that found [of "'';'' @ b" u v] found [of "''; '' @ b" u v] found [of "'';'' @ b" "u @ '' ''" v]
      found [of "b @ '';''" u v] found [of "b @ '';''" u "'' '' @ v"] found [of "b @ '' ;''" u v]
    by (auto simp: valMatches_mult_def)
  moreover have "valMatches_mult b b True" by (simp add: valMatches_mult_def)
  ultimately show ?thesis using ex [of "'';''"] ex [of "''; ''"] ex [of "'' ;''"] by metis
qed

theorem valMatches_mult_complete_witness:
  "valMatches_mult ''bus; tram'' ''tram'' True"
  using valMatches_mult_complete [of "''tram''" "[''bus'', ''tram'']"] by simp

text \<open>
  Multi-value matching also accepts a value that is no element of the list but begins or ends one, because it
  only searches for the value next to a separator.
\<close>

lemma valMatches_mult_substring:
  "valMatches_mult ''bus;tramway'' ''tram'' True \<and>
   ''tram'' \<notin> set (map trim (split_str (CHR '';'') ''bus;tramway''))"
proof -
  have "split_str (CHR '';'') ''bus;tramway'' = [''bus'', ''tramway'']"
    by (simp add: split_str.simps getline_sep_def)
  then show ?thesis
    by (simp add: valMatches_mult_def trim_def ltrim_def rtrim_def is_ws_def)
qed

section \<open>Levels\<close>

lemma find_upt: "List.find P [0..<n] = (if \<exists>i<n. P i then Some (LEAST i. P i) else None)"
proof (cases "\<exists>i<n. P i")
  case True
  then obtain i where i: "i < n" "P i" by blast
  have l: "P (LEAST i. P i)" "(LEAST i. P i) < n"
    using i by (auto intro: LeastI le_less_trans [OF Least_le])
  then have "List.find P [0..<n] = Some (LEAST i. P i)"
    unfolding find_Some_iff by (intro exI [of _ "LEAST i. P i"]) (auto dest: not_less_Least)
  then show ?thesis using True by simp
next
  case False
  then show ?thesis by (auto simp: find_None_iff)
qed

text \<open>
  The level of a way is the least of the eight levels one of whose rules matches one of its attributes,
  and level 0 when none does; like the other decisions it does not depend on the order of the attributes.
\<close>

theorem level_least:
  "level attrs (osm_filter_of_options opt) =
     Some (if \<exists>i<8. level_matches attrs (levelFilters opt ! i)
           then (LEAST i. level_matches attrs (levelFilters opt ! i)) else 0) \<and>
   (\<forall>rules. level_matches attrs rules = (\<exists>(k, v)\<in>set attrs. \<exists>vals. map_of rules k = Some vals \<and>
      (\<exists>(b, flags)\<in>set vals. b = ''*'' \<or> v = b)))"
proof -
  have per: "(case map_of rules k of None \<Rightarrow> False | Some vals \<Rightarrow> list_ex (\<lambda>val. valMatches v (fst val)) vals) =
      (\<exists>vals. map_of rules k = Some vals \<and> (\<exists>(b, flags)\<in>set vals. b = ''*'' \<or> v = b))"
    for k v and rules :: multi_attribute_map
    by (cases "map_of rules k") (force simp: list_ex_iff valMatches_def valMatches_mult_def)+
  have "level_matches attrs rules = (\<exists>(k, v)\<in>set attrs. \<exists>vals. map_of rules k = Some vals \<and>
      (\<exists>(b, flags)\<in>set vals. b = ''*'' \<or> v = b))" for rules
    unfolding level_matches_def per list_ex_iff by (rule refl)
  moreover have "level attrs (osm_filter_of_options opt) =
     Some (if \<exists>i<8. level_matches attrs (levelFilters opt ! i)
           then (LEAST i. level_matches attrs (levelFilters opt ! i)) else 0)"
    unfolding level_def find_upt by (auto simp: osm_filter_of_options_def)
  ultimately show ?thesis by blast
qed

section \<open>Merging filters\<close>

lemma fold_map_insert_of: "map_of (fold (map_insert str_less) kvs m) k =
    (case map_of m k of None \<Rightarrow> map_of kvs k | Some w \<Rightarrow> Some w)"
  by (induction kvs arbitrary: m) (auto simp: map_insert_of split: option.splits)

lemma rule_insert_of: "map_of (rule_insert (k, vals) m) k' =
    (if k' = k then Some (fold (map_insert str_less) vals (case map_of m k of None \<Rightarrow> [] | Some w \<Rightarrow> w))
     else map_of m k')"
  by (induction "(k, vals)" m rule: rule_insert.induct) auto

text \<open>The flag a rule set gives to a key and a value.\<close>

definition flag_of :: "multi_attribute_map \<Rightarrow> string \<Rightarrow> string \<rightharpoonup> u64" where
  "flag_of rules k b = (case map_of rules k of None \<Rightarrow> None | Some vals \<Rightarrow> map_of vals b)"

lemma flag_of_insert:
  "flag_of (rule_insert (k, vals) m) k' b =
     (case flag_of m k' b of None \<Rightarrow> if k' = k then map_of vals b else None | Some w \<Rightarrow> Some w)"
  by (auto simp: flag_of_def rule_insert_of fold_map_insert_of split: option.splits)

lemma flag_of_fold:
  "distinct (map fst rs) \<Longrightarrow> flag_of (fold rule_insert rs m) k b =
     (case flag_of m k b of None \<Rightarrow> flag_of rs k b | Some w \<Rightarrow> Some w)"
proof (induction rs arbitrary: m)
  case (Cons r rs)
  obtain k' vals where r: "r = (k', vals)" by fastforce
  have tail: "flag_of rs k' b = None"
    using Cons.prems map_of_eq_None_iff [of rs k'] by (simp add: r flag_of_def)
  have "flag_of (r # rs) k b = (if k = k' then map_of vals b else flag_of rs k b)"
    by (simp add: r flag_of_def)
  moreover have "flag_of (fold rule_insert rs (rule_insert r m)) k b =
      (case flag_of (rule_insert r m) k b of None \<Rightarrow> flag_of rs k b | Some w \<Rightarrow> Some w)"
    using Cons by simp
  ultimately show ?case using tail
    by (cases "k = k'"; cases "flag_of m k b"; cases "map_of vals b") (simp_all add: r flag_of_insert)
qed (auto simp: flag_of_def split: option.split)

text \<open>
  A merged filter keeps under every key and value the flags of the first filter and, where that has no such
  rule, those of the second; it has no drop rules and no level table.
\<close>

theorem merge_filter_keep:
  assumes "distinct (map fst (f_keep f))" "distinct (map fst (f_keep other))"
  shows "flag_of (f_keep (merge_filter f other)) k b =
      (case flag_of (f_keep f) k b of None \<Rightarrow> flag_of (f_keep other) k b | Some w \<Rightarrow> Some w) \<and>
    f_drop (merge_filter f other) = [] \<and> level attrs (merge_filter f other) = None"
  using flag_of_fold [OF assms(1), of "[]"] flag_of_fold [OF assms(2)]
  by (auto simp: merge_filter_def osm_filter_of_rules_def level_def flag_of_def split: option.split)

theorem merge_filter_keep_witness:
  "flag_of (f_keep (merge_filter (osm_filter_of_rules [(''a'', [(''x'', 1)])] [])
     (osm_filter_of_rules [(''a'', [(''x'', 8), (''y'', 4)])] []))) ''a'' ''x'' = Some 1"
  using merge_filter_keep [of "osm_filter_of_rules [(''a'', [(''x'', 1)])] []"
      "osm_filter_of_rules [(''a'', [(''x'', 8), (''y'', 4)])] []" "''a''" "''x''"]
  by (simp add: osm_filter_of_rules_def flag_of_def)

end
