(* ===== verification/EDijkstra.thy ===== *)
theory EDijkstra
  imports Prelude
begin

text \<open>
  \<^verbatim>\<open>util/graph/EDijkstra.h\<close>: the edge-based shortest-path search that the router runs.  It settles edges; the
  cost of a path is the cost of its first edge plus the costs of the transitions between consecutive
  edges.

  The template parameters are the record \<open>search\<close>: the accessors of nodes and edges, and the cost function
  with its infinity.  Costs are any ordered type with an addition; null pointers are \<^const>\<open>None\<close>.
  \<^verbatim>\<open>std::priority_queue\<close> is the list of its elements with a selection \<open>tp\<close>, which may return any of the
  elements no other is ordered above; its law is the locale \<open>route_queue\<close>.
\<close>

section \<open>Definitions\<close>

record ('n, 'e, 'c) search =
  getFrom :: "'e \<Rightarrow> 'n"
  getTo :: "'e \<Rightarrow> 'n"
  getAdjListOut :: "'n \<Rightarrow> 'e list"
  getAdjListIn :: "'n \<Rightarrow> 'e list"
  hasEdgeIn :: "'n \<Rightarrow> 'e \<Rightarrow> bool"
  costFunc :: "'e option \<Rightarrow> 'n option \<Rightarrow> 'e \<Rightarrow> 'c"
  infC :: 'c

record ('n, 'e, 'c) RouteEdge =
  re_e :: 'e
  re_parent :: "'e option"
  re_n :: "'n option"
  re_d :: 'c
  re_h :: 'c

text \<open>\<^verbatim>\<open>operator<\<close>: the queue orders the edge with the larger cost below.\<close>

definition re_less :: "('n, 'e, 'c::linorder) RouteEdge \<Rightarrow> ('n, 'e, 'c) RouteEdge \<Rightarrow> bool" where
  "re_less r p \<longleftrightarrow> re_h p < re_h r \<or> re_h r = re_h p \<and> re_d p < re_d r"

definition getOtherNd :: "('n, 'e, 'c) search \<Rightarrow> 'e \<Rightarrow> 'n option \<Rightarrow> 'n" where
  "getOtherNd G e notNode = (if Some (getTo G e) = notNode then getFrom G e else getTo G e)"

text \<open>The body of the two loops of \<open>relax\<close>, at the node \<open>n\<close>.\<close>

definition relax_at ::
  "('n, 'e, 'c::{linorder,plus}) search \<Rightarrow> ('e \<Rightarrow> 'c) \<Rightarrow> ('n, 'e, 'c) RouteEdge \<Rightarrow> 'n \<Rightarrow>
     ('n, 'e, 'c) RouteEdge list \<Rightarrow> ('n, 'e, 'c) RouteEdge list" where
  "relax_at G heur cur n pq = foldl (\<lambda>pq edge.
     if edge = re_e cur then pq
     else
       (let newC = re_d cur + costFunc G (Some (re_e cur)) (Some n) edge in
        if infC G \<le> newC then pq
        else pq @ [\<lparr>re_e = edge, re_parent = Some (re_e cur), re_n = Some n, re_d = newC,
                    re_h = newC + heur edge\<rparr>])) pq (getAdjListOut G n)"

definition relax_edge ::
  "('n, 'e, 'c::{linorder,plus}) search \<Rightarrow> ('e \<Rightarrow> 'c) \<Rightarrow> ('n, 'e, 'c) RouteEdge \<Rightarrow>
     ('n, 'e, 'c) RouteEdge list \<Rightarrow> ('n, 'e, 'c) RouteEdge list" where
  "relax_edge G heur cur pq =
     relax_at G heur cur (getTo G (re_e cur))
       (if hasEdgeIn G (getFrom G (re_e cur)) (re_e cur)
        then relax_at G heur cur (getFrom G (re_e cur)) pq else pq)"

definition relaxInv ::
  "('n, 'e, 'c::{linorder,plus,zero}) search \<Rightarrow> ('n, 'e, 'c) RouteEdge \<Rightarrow>
     ('n, 'e, 'c) RouteEdge list \<Rightarrow> ('n, 'e, 'c) RouteEdge list" where
  "relaxInv G cur pq = foldl (\<lambda>pq edge.
     if edge = re_e cur then pq
     else
       (let newC = re_d cur + costFunc G (Some edge) (Some (getFrom G (re_e cur))) (re_e cur) in
        if infC G \<le> newC then pq
        else pq @ [\<lparr>re_e = edge, re_parent = Some (re_e cur), re_n = Some (getFrom G (re_e cur)),
                    re_d = newC, re_h = 0\<rparr>])) pq (getAdjListIn G (getFrom G (re_e cur)))"

type_synonym ('n, 'e, 'c) settled = "'e \<rightharpoonup> ('n, 'e, 'c) RouteEdge"

text \<open>
  The loop of \<open>buildPath\<close>; the result is \<^const>\<open>None\<close> when it does not end or a parent was not
  settled.
\<close>

partial_function (option) build_loop ::
  "('n, 'e, 'c) settled \<Rightarrow> ('n, 'e, 'c) RouteEdge \<Rightarrow> 'n list \<Rightarrow> 'e list \<Rightarrow> ('n list \<times> 'e list) option" where
  "build_loop settled cur nodes edges =
     (let nodes = nodes @ (case re_n cur of None \<Rightarrow> [] | Some n \<Rightarrow> [n]);
          edges = edges @ [re_e cur]
      in case re_parent cur of
           None \<Rightarrow> Some (nodes, edges)
         | Some p \<Rightarrow>
             (case settled p of
                None \<Rightarrow> None
              | Some r \<Rightarrow> build_loop settled r nodes edges))"

definition buildPath ::
  "('n, 'e, 'c) search \<Rightarrow> 'e \<Rightarrow> ('n, 'e, 'c) settled \<Rightarrow> ('n list \<times> 'e list) option" where
  "buildPath G curE settled =
     (case settled curE of
        None \<Rightarrow> None
      | Some r \<Rightarrow> build_loop settled r [getOtherNd G (re_e r) (re_n r)] [])"

text \<open>The main loop: the settled target edge, if there is one, and the settled edges.\<close>

partial_function (option) search_loop ::
  "(('n, 'e, 'c) RouteEdge list \<Rightarrow> ('n, 'e, 'c) RouteEdge) \<Rightarrow> ('n, 'e, 'c::{linorder,plus}) search \<Rightarrow>
     ('e \<Rightarrow> 'c) \<Rightarrow> 'e set \<Rightarrow> ('n, 'e, 'c) RouteEdge list \<Rightarrow> ('n, 'e, 'c) settled \<Rightarrow>
     (('n, 'e, 'c) RouteEdge option \<times> ('n, 'e, 'c) settled) option" where
  "search_loop tp G heur to pq settled =
     (if pq = [] then Some (None, settled)
      else
        (let cur = tp pq; pq = remove1 cur pq in
         if settled (re_e cur) \<noteq> None then search_loop tp G heur to pq settled
         else
           (let settled = settled(re_e cur \<mapsto> cur) in
            if re_e cur \<in> to then Some (Some cur, settled)
            else search_loop tp G heur to (relax_edge G heur cur pq) settled)))"

definition init_queue ::
  "('n, 'e, 'c::plus) search \<Rightarrow> ('e \<Rightarrow> 'c) \<Rightarrow> 'e list \<Rightarrow> ('n, 'e, 'c) RouteEdge list" where
  "init_queue G heur frm = map (\<lambda>e.
     let c = costFunc G None None e
     in \<lparr>re_e = e, re_parent = None, re_n = None, re_d = c, re_h = c + heur e\<rparr>) frm"

text \<open>
  \<open>shortestPathImpl\<close> between two sets of edges: the cost, the path's nodes and the path's edges, both from the
  target backwards.  The source set is given in its iteration order.
\<close>

definition shortestPath ::
  "(('n, 'e, 'c) RouteEdge list \<Rightarrow> ('n, 'e, 'c) RouteEdge) \<Rightarrow> ('n, 'e, 'c::{linorder,plus}) search \<Rightarrow>
     ('e \<Rightarrow> 'c) \<Rightarrow> 'e list \<Rightarrow> 'e set \<Rightarrow> ('c \<times> 'n list \<times> 'e list) option" where
  "shortestPath tp G heur frm to =
     (if frm = [] \<or> to = {} then Some (infC G, [], [])
      else
        (case search_loop tp G heur to (init_queue G heur frm) Map.empty of
           None \<Rightarrow> None
         | Some (None, settled) \<Rightarrow> Some (infC G, [], [])
         | Some (Some cur, settled) \<Rightarrow>
             (case buildPath G (re_e cur) settled of
                None \<Rightarrow> None
              | Some (nodes, edges) \<Rightarrow> Some (re_d cur, nodes, edges))))"

text \<open>\<open>shortestPathImpl\<close> from an edge, and from a node, to a set of nodes.\<close>

definition shortestPath_edge_nodes ::
  "(('n, 'e, 'c) RouteEdge list \<Rightarrow> ('n, 'e, 'c) RouteEdge) \<Rightarrow> ('n, 'e, 'c::{linorder,plus}) search \<Rightarrow>
     ('e \<Rightarrow> 'c) \<Rightarrow> 'e \<Rightarrow> 'n set \<Rightarrow> ('c \<times> 'n list \<times> 'e list) option" where
  "shortestPath_edge_nodes tp G heur frm to =
     shortestPath tp G heur [frm] (\<Union>n\<in>to. set (getAdjListIn G n))"

definition shortestPath_node_nodes ::
  "(('n, 'e, 'c) RouteEdge list \<Rightarrow> ('n, 'e, 'c) RouteEdge) \<Rightarrow> ('n, 'e, 'c::{linorder,plus}) search \<Rightarrow>
     ('e \<Rightarrow> 'c) \<Rightarrow> 'n \<Rightarrow> 'n set \<Rightarrow> ('c \<times> 'n list \<times> 'e list) option" where
  "shortestPath_node_nodes tp G heur frm to =
     map_option (\<lambda>(c, nodes, edges). (c, nodes @ [frm], edges))
       (shortestPath tp G heur (remdups (getAdjListOut G frm)) (\<Union>n\<in>to. set (getAdjListIn G n)))"

text \<open>
  One source set, all edges: the costs of all settled edges, forwards or backwards.  The call of
  \<open>buildPath\<close> with null lists in this loop has no effect.
\<close>

partial_function (option) all_loop ::
  "(('n, 'e, 'c) RouteEdge list \<Rightarrow> ('n, 'e, 'c) RouteEdge) \<Rightarrow> ('n, 'e, 'c::{linorder,plus,zero}) search \<Rightarrow>
     bool \<Rightarrow> ('n, 'e, 'c) RouteEdge list \<Rightarrow> ('n, 'e, 'c) settled \<Rightarrow> ('e \<rightharpoonup> 'c) \<Rightarrow> ('e \<rightharpoonup> 'c) option" where
  "all_loop tp G rv pq settled costs =
     (if pq = [] then Some costs
      else
        (let cur = tp pq; pq = remove1 cur pq in
         if settled (re_e cur) \<noteq> None then all_loop tp G rv pq settled costs
         else
           (let settled = settled(re_e cur \<mapsto> cur); costs = costs(re_e cur \<mapsto> re_d cur) in
            all_loop tp G rv (if rv then relaxInv G cur pq else relax_edge G (\<lambda>_. 0) cur pq) settled costs)))"

definition shortestPath_all ::
  "(('n, 'e, 'c) RouteEdge list \<Rightarrow> ('n, 'e, 'c) RouteEdge) \<Rightarrow> ('n, 'e, 'c::{linorder,plus,zero}) search \<Rightarrow>
     'e list \<Rightarrow> bool \<Rightarrow> ('e \<rightharpoonup> 'c) option" where
  "shortestPath_all tp G frm rv =
     all_loop tp G rv
       (map (\<lambda>e. \<lparr>re_e = e, re_parent = None, re_n = None, re_d = costFunc G None None e, re_h = 0\<rparr>) frm)
       Map.empty Map.empty"

text \<open>
  One source edge, several targets: the loop ends when all targets are settled.  \<open>costs\<close> and \<open>paths\<close> are filled
  for the settled targets.
\<close>

partial_function (option) many_loop ::
  "(('n, 'e, 'c) RouteEdge list \<Rightarrow> ('n, 'e, 'c) RouteEdge) \<Rightarrow> ('n, 'e, 'c::{linorder,plus}) search \<Rightarrow>
     ('e \<Rightarrow> 'c) \<Rightarrow> 'e set \<Rightarrow> ('n, 'e, 'c) RouteEdge list \<Rightarrow> ('n, 'e, 'c) settled \<Rightarrow> nat \<Rightarrow> ('e \<rightharpoonup> 'c) \<Rightarrow>
     ('e \<rightharpoonup> 'n list \<times> 'e list) \<Rightarrow> (('e \<rightharpoonup> 'c) \<times> ('e \<rightharpoonup> 'n list \<times> 'e list)) option" where
  "many_loop tp G heur to pq settled found costs paths =
     (if pq = [] then Some (costs, paths)
      else
        (let cur = tp pq; pq = remove1 cur pq in
         if settled (re_e cur) \<noteq> None then many_loop tp G heur to pq settled found costs paths
         else
           (let settled = settled(re_e cur \<mapsto> cur) in
            case (if re_e cur \<in> to
                  then map_option (\<lambda>p. (found + 1, costs(re_e cur \<mapsto> re_d cur), paths(re_e cur \<mapsto> p)))
                         (buildPath G (re_e cur) settled)
                  else Some (found, costs, paths)) of
              None \<Rightarrow> None
            | Some (found, costs, paths) \<Rightarrow>
                if found = card to then Some (costs, paths)
                else many_loop tp G heur to (relax_edge G heur cur pq) settled found costs paths)))"

definition shortestPath_many ::
  "(('n, 'e, 'c) RouteEdge list \<Rightarrow> ('n, 'e, 'c) RouteEdge) \<Rightarrow> ('n, 'e, 'c::{linorder,plus}) search \<Rightarrow>
     ('e \<Rightarrow> 'c) \<Rightarrow> 'e \<Rightarrow> 'e set \<Rightarrow> (('e \<rightharpoonup> 'c) \<times> ('e \<rightharpoonup> 'n list \<times> 'e list)) option" where
  "shortestPath_many tp G heur frm to =
     (if to = {} then Some (Map.empty, Map.empty)
      else many_loop tp G heur to (init_queue G heur [frm]) Map.empty 0
             (\<lambda>e. if e \<in> to then Some (infC G) else None) Map.empty)"

text \<open>A queue that returns the earliest of its best elements.\<close>

fun first_top :: "('n, 'e, 'c::linorder) RouteEdge list \<Rightarrow> ('n, 'e, 'c) RouteEdge" where
  "first_top [] = undefined"
| "first_top [r] = r"
| "first_top (r # p # rs) = (let t = first_top (p # rs) in if re_less r t then t else r)"

declare build_loop.simps [code] search_loop.simps [code] all_loop.simps [code] many_loop.simps [code]

section \<open>Paths\<close>

text \<open>A transition the search can take: from an edge over one of its end nodes to another edge.\<close>

definition turn :: "('n, 'e, 'c) search \<Rightarrow> 'e \<Rightarrow> 'n \<Rightarrow> 'e \<Rightarrow> bool" where
  "turn G e n e' \<longleftrightarrow> e' \<noteq> e \<and> e' \<in> set (getAdjListOut G n) \<and>
     (n = getTo G e \<or> n = getFrom G e \<and> hasEdgeIn G (getFrom G e) e)"

text \<open>The paths from the source edges with their costs, listed from the last edge backwards.\<close>

inductive path :: "('n, 'e, 'c::{linorder,plus}) search \<Rightarrow> 'e set \<Rightarrow> 'e list \<Rightarrow> 'c \<Rightarrow> bool" for G frm where
  path_start: "e \<in> frm \<Longrightarrow> path G frm [e] (costFunc G None None e)"
| path_step: "path G frm (e # es) d \<Longrightarrow> turn G e n e' \<Longrightarrow>
    \<not> infC G \<le> d + costFunc G (Some e) (Some n) e' \<Longrightarrow>
    path G frm (e' # e # es) (d + costFunc G (Some e) (Some n) e')"

text \<open>Along every transition that a path can take, the estimate decreases by at most the cost of the transition.\<close>

definition consistent_heur ::
  "('n, 'e, 'c::{linorder,plus}) search \<Rightarrow> 'e set \<Rightarrow> ('e \<Rightarrow> 'c) \<Rightarrow> bool" where
  "consistent_heur G frm heur \<longleftrightarrow>
     (\<forall>e es d n e'. path G frm (e # es) d \<longrightarrow> turn G e n e' \<longrightarrow> heur e \<le> costFunc G (Some e) (Some n) e' + heur e')"

section \<open>The queue\<close>

locale route_queue =
  fixes tp :: "('n, 'e, 'c::{linordered_cancel_ab_semigroup_add,comm_monoid_add}) RouteEdge list \<Rightarrow> ('n, 'e, 'c) RouteEdge"
  assumes tp_in: "pq \<noteq> [] \<Longrightarrow> tp pq \<in> set pq"
    and tp_best: "r \<in> set pq \<Longrightarrow> \<not> re_less (tp pq) r"
begin

lemma tp_least_h: "r \<in> set pq \<Longrightarrow> re_h (tp pq) \<le> re_h r"
  using tp_best [of r pq] by (simp add: re_less_def not_less)

lemma tp_least_d: "r \<in> set pq \<Longrightarrow> re_h r = re_h (tp pq) \<Longrightarrow> re_d (tp pq) \<le> re_d r"
  using tp_best [of r pq] by (auto simp: re_less_def not_less)

end

lemma first_top_in: "pq \<noteq> [] \<Longrightarrow> first_top pq \<in> set pq"
  by (induction pq rule: first_top.induct) (auto simp: Let_def)

lemma re_less_trans_not: "\<not> re_less a b \<Longrightarrow> \<not> re_less b c \<Longrightarrow> \<not> re_less a c"
  by (auto simp: re_less_def)

lemma first_top_best: "r \<in> set pq \<Longrightarrow> \<not> re_less (first_top pq) r"
proof (induction pq rule: first_top.induct)
  case (3 a p rs)
  have t: "\<not> re_less t t" for t :: "('a, 'b, 'c) RouteEdge" by (simp add: re_less_def)
  show ?case
  proof (cases "re_less a (first_top (p # rs))")
    case True
    then have "\<not> re_less (first_top (p # rs)) a" by (auto simp: re_less_def)
    then show ?thesis using 3 True by (auto simp: Let_def)
  next
    case False
    then show ?thesis using 3 t re_less_trans_not [OF False] by (auto simp: Let_def)
  qed
qed (auto simp: re_less_def)

interpretation ft: route_queue first_top
  by unfold_locales (simp_all add: first_top_in first_top_best)

section \<open>What one round keeps\<close>

text \<open>
  An entry of the queue or of the settled edges, seen from the edges settled so far: it starts at a source edge or
  continues a settled edge by one transition.
\<close>

definition entry_ok ::
  "('n, 'e, 'c::{linorder,plus}) search \<Rightarrow> 'e set \<Rightarrow> ('n, 'e, 'c) settled \<Rightarrow> ('n, 'e, 'c) RouteEdge \<Rightarrow> bool" where
  "entry_ok G frm S r \<longleftrightarrow>
     (case re_parent r of
        None \<Rightarrow> re_n r = None \<and> re_e r \<in> frm \<and> re_d r = costFunc G None None (re_e r)
      | Some p \<Rightarrow> \<exists>rp n. S p = Some rp \<and> re_n r = Some n \<and> turn G p n (re_e r) \<and>
          re_d r = re_d rp + costFunc G (Some p) (Some n) (re_e r) \<and> \<not> infC G \<le> re_d r)"

text \<open>
  The invariant: queue entries are well-formed, settled edges have the cost of a path, which is the least one when the
  heuristic is consistent (\<open>x\<close>), and a chain of settled parents, and whatever continues a settled edge is settled or queued.
\<close>

inductive chain :: "('n, 'e, 'c) settled \<Rightarrow> ('n, 'e, 'c) RouteEdge \<Rightarrow> 'e list \<Rightarrow> bool" for S where
  chain_start: "re_parent r = None \<Longrightarrow> chain S r [re_e r]"
| chain_step: "re_parent r = Some p \<Longrightarrow> S p = Some rp \<Longrightarrow> chain S rp es \<Longrightarrow> chain S r (re_e r # es)"

definition search_inv ::
  "bool \<Rightarrow> ('n, 'e, 'c::{linorder,plus}) search \<Rightarrow> 'e set \<Rightarrow> ('n, 'e, 'c) RouteEdge list \<Rightarrow>
     ('n, 'e, 'c) settled \<Rightarrow> bool" where
  "search_inv x G frm pq S \<longleftrightarrow>
     (\<forall>r\<in>set pq. entry_ok G frm S r) \<and>
     (\<forall>e r. S e = Some r \<longrightarrow> re_e r = e \<and> (\<exists>es. chain S r es \<and> path G frm es (re_d r)) \<and>
        (x \<longrightarrow> (\<forall>es d. path G frm (e # es) d \<longrightarrow> re_d r \<le> d))) \<and>
     (\<forall>e\<in>frm. S e \<noteq> None \<or> (\<exists>r\<in>set pq. re_e r = e \<and> re_d r = costFunc G None None e)) \<and>
     (\<forall>e r n e'. S e = Some r \<longrightarrow> turn G e n e' \<longrightarrow>
        \<not> infC G \<le> re_d r + costFunc G (Some e) (Some n) e' \<longrightarrow>
        S e' \<noteq> None \<or> (\<exists>r'\<in>set pq. re_e r' = e' \<and> re_d r' = re_d r + costFunc G (Some e) (Some n) e'))"

lemma search_invD:
  assumes "search_inv x G frm pq S"
  shows "r \<in> set pq \<Longrightarrow> entry_ok G frm S r"
    "S e = Some r \<Longrightarrow> re_e r = e"
    "S e = Some r \<Longrightarrow> \<exists>es. chain S r es \<and> path G frm es (re_d r)"
    "S e = Some r \<Longrightarrow> x \<Longrightarrow> path G frm (e # es) d \<Longrightarrow> re_d r \<le> d"
    "e \<in> frm \<Longrightarrow> S e = None \<Longrightarrow> \<exists>r\<in>set pq. re_e r = e \<and> re_d r = costFunc G None None e"
    "S e = Some r \<Longrightarrow> turn G e n e' \<Longrightarrow> \<not> infC G \<le> re_d r + costFunc G (Some e) (Some n) e' \<Longrightarrow> S e' = None \<Longrightarrow>
      \<exists>r'\<in>set pq. re_e r' = e' \<and> re_d r' = re_d r + costFunc G (Some e) (Some n) e'"
  using assms unfolding search_inv_def by blast+

lemma chain_mono: "chain S r es \<Longrightarrow> S \<subseteq>\<^sub>m S' \<Longrightarrow> chain S' r es"
  by (induction rule: chain.induct) (auto intro: chain.intros simp: map_le_def dom_def)

lemma chain_hd: "chain S r es \<Longrightarrow> \<exists>es'. es = re_e r # es'"
  by (induction rule: chain.induct) auto

lemma path_hd: "path G frm es d \<Longrightarrow> es \<noteq> []"
  by (induction rule: path.induct) auto

text \<open>The bound that makes the search optimal: some queued estimate is below every open path's.\<close>

lemma queue_bound:
  fixes heur :: "'e \<Rightarrow> 'c::{linordered_cancel_ab_semigroup_add,comm_monoid_add}"
  assumes inv: "search_inv x G frm pq S" and x: x and cons: "consistent_heur G frm heur"
  shows "path G frm (e # es) d \<Longrightarrow> S e = None \<Longrightarrow> \<exists>r\<in>set pq. re_d r + heur (re_e r) \<le> d + heur e"
proof (induction "e # es" d arbitrary: e es rule: path.induct)
  case (path_start e)
  then obtain r where "r \<in> set pq" "re_e r = e" "re_d r = costFunc G None None e"
    using search_invD(5) [OF inv] by blast
  then show ?case by (intro bexI [of _ r]) auto
next
  case (path_step e es d n e')
  show ?case
  proof (cases "S e")
    case None
    with path_step.hyps(2) obtain r where r: "r \<in> set pq" "re_d r + heur (re_e r) \<le> d + heur e" by blast
    moreover have "heur e \<le> costFunc G (Some e) (Some n) e' + heur e'"
      using cons path_step.hyps(1,3) unfolding consistent_heur_def by blast
    ultimately have "re_d r + heur (re_e r) \<le> d + costFunc G (Some e) (Some n) e' + heur e'"
      by (metis add.assoc add_left_mono order_trans)
    with r(1) show ?thesis by blast
  next
    case (Some re)
    then have le: "re_d re \<le> d" using search_invD(4) [OF inv _ x] path_step.hyps(1) by blast
    then have le': "re_d re + costFunc G (Some e) (Some n) e' \<le> d + costFunc G (Some e) (Some n) e'"
      by (rule add_right_mono)
    then have "\<not> infC G \<le> re_d re + costFunc G (Some e) (Some n) e'"
      using path_step.hyps(4) by (meson order_trans)
    then obtain r where r: "r \<in> set pq" "re_e r = e'"
      "re_d r = re_d re + costFunc G (Some e) (Some n) e'"
      using search_invD(6) [OF inv Some path_step.hyps(3)] path_step.prems by blast
    then show ?thesis using le' by (metis add_right_mono)
  qed
qed

text \<open>The entries that relaxing an edge adds.\<close>

definition successor ::
  "('n, 'e, 'c::{linorder,plus}) search \<Rightarrow> ('e \<Rightarrow> 'c) \<Rightarrow> ('n, 'e, 'c) RouteEdge \<Rightarrow> 'n \<Rightarrow> 'e \<Rightarrow> ('n, 'e, 'c) RouteEdge" where
  "successor G heur cur n e' =
     (let newC = re_d cur + costFunc G (Some (re_e cur)) (Some n) e'
      in \<lparr>re_e = e', re_parent = Some (re_e cur), re_n = Some n, re_d = newC, re_h = newC + heur e'\<rparr>)"

lemma set_foldl_append:
  "set (foldl (\<lambda>pq x. if P x then pq else pq @ [f x]) pq xs) = set pq \<union> f ` {x \<in> set xs. \<not> P x}"
  by (induction xs arbitrary: pq) auto

lemma set_relax_at:
  "set (relax_at G heur cur n pq) = set pq \<union> successor G heur cur n `
     {e' \<in> set (getAdjListOut G n). e' \<noteq> re_e cur \<and> \<not> infC G \<le> re_d cur + costFunc G (Some (re_e cur)) (Some n) e'}"
proof -
  have "relax_at G heur cur n pq = foldl (\<lambda>pq e'.
      if e' = re_e cur \<or> infC G \<le> re_d cur + costFunc G (Some (re_e cur)) (Some n) e' then pq
      else pq @ [successor G heur cur n e']) pq (getAdjListOut G n)"
    unfolding relax_at_def
    by (intro arg_cong [where f = "\<lambda>g. foldl g pq (getAdjListOut G n)"] ext) (simp add: successor_def Let_def)
  then show ?thesis by (simp add: set_foldl_append)
qed

lemma set_relax_edge:
  "set (relax_edge G heur cur pq) = set pq \<union>
     {successor G heur cur n e' | n e'. turn G (re_e cur) n e' \<and>
        \<not> infC G \<le> re_d cur + costFunc G (Some (re_e cur)) (Some n) e'}"
  unfolding relax_edge_def by (auto simp: set_relax_at turn_def)

lemma entry_ok_mono: "entry_ok G frm S r \<Longrightarrow> S \<subseteq>\<^sub>m S' \<Longrightarrow> entry_ok G frm S' r"
  by (auto simp: entry_ok_def map_le_def dom_def split: option.splits)

lemma entry_path:
  assumes inv: "search_inv x G frm pq S" and ok: "entry_ok G frm S r"
  shows "\<exists>es. chain S r es \<and> path G frm es (re_d r)"
proof (cases "re_parent r")
  case None
  with ok have "path G frm [re_e r] (re_d r)" by (auto simp: entry_ok_def intro: path_start)
  with None show ?thesis by (auto intro: chain_start)
next
  case (Some p)
  with ok obtain rp n where p: "S p = Some rp" "turn G p n (re_e r)"
    "re_d r = re_d rp + costFunc G (Some p) (Some n) (re_e r)" "\<not> infC G \<le> re_d r"
    by (auto simp: entry_ok_def)
  obtain es where es: "chain S rp es" "path G frm es (re_d rp)" using search_invD(3) [OF inv p(1)] by blast
  moreover obtain es' where es': "es = p # es'"
    using chain_hd [OF es(1)] search_invD(2) [OF inv p(1)] by auto
  ultimately have "path G frm (re_e r # es) (re_d r)"
    using path_step [of G frm p es' "re_d rp" n "re_e r"] p by simp
  then show ?thesis using chain_step [OF Some p(1) es(1)] by blast
qed

text \<open>Dropping an entry whose edge is settled, and settling the best entry, keep the invariant.\<close>

lemma search_inv_drop:
  assumes inv: "search_inv x G frm pq S" and set: "S (re_e cur) \<noteq> None"
  shows "search_inv x G frm (remove1 cur pq) S"
proof -
  have keep: "r \<in> set pq \<Longrightarrow> S (re_e r) = None \<Longrightarrow> r \<in> set (remove1 cur pq)" for r
    using set by (metis in_set_remove1)
  have "\<forall>r\<in>set (remove1 cur pq). entry_ok G frm S r"
    using search_invD(1) [OF inv] set_remove1_subset by fastforce
  moreover have "S e \<noteq> None \<or> (\<exists>r\<in>set (remove1 cur pq). re_e r = e \<and> re_d r = costFunc G None None e)"
    if "e \<in> frm" for e
    using search_invD(5) [OF inv that] keep by (cases "S e") blast+
  moreover have "S e' \<noteq> None \<or>
      (\<exists>r'\<in>set (remove1 cur pq). re_e r' = e' \<and> re_d r' = re_d r + costFunc G (Some e) (Some n) e')"
    if "S e = Some r" "turn G e n e'" "\<not> infC G \<le> re_d r + costFunc G (Some e) (Some n) e'" for e r n e'
    using search_invD(6) [OF inv that] keep by (cases "S e'") blast+
  ultimately show ?thesis
    using search_invD(2-4) [OF inv] unfolding search_inv_def by blast
qed

text \<open>A queue after \<open>cur\<close> was taken out and relaxed; the estimates of the new entries are left open.\<close>

definition new_entry ::
  "('n, 'e, 'c::{linorder,plus}) search \<Rightarrow> ('n, 'e, 'c) RouteEdge \<Rightarrow> 'n \<Rightarrow> 'e \<Rightarrow> ('n, 'e, 'c) RouteEdge \<Rightarrow> bool" where
  "new_entry G cur n e' r \<longleftrightarrow> turn G (re_e cur) n e' \<and> re_e r = e' \<and> re_parent r = Some (re_e cur) \<and>
     re_n r = Some n \<and> re_d r = re_d cur + costFunc G (Some (re_e cur)) (Some n) e' \<and> \<not> infC G \<le> re_d r"

definition relaxed_queue ::
  "('n, 'e, 'c::{linorder,plus}) search \<Rightarrow> ('n, 'e, 'c) RouteEdge \<Rightarrow> ('n, 'e, 'c) RouteEdge list \<Rightarrow>
     ('n, 'e, 'c) RouteEdge list \<Rightarrow> bool" where
  "relaxed_queue G cur pq pq' \<longleftrightarrow>
     (\<forall>r\<in>set pq'. r \<in> set pq \<or> (\<exists>n e'. new_entry G cur n e' r)) \<and>
     (\<forall>r\<in>set pq. re_e r \<noteq> re_e cur \<longrightarrow> r \<in> set pq') \<and>
     (\<forall>n e'. turn G (re_e cur) n e' \<longrightarrow> \<not> infC G \<le> re_d cur + costFunc G (Some (re_e cur)) (Some n) e' \<longrightarrow>
        (\<exists>r\<in>set pq'. new_entry G cur n e' r))"

lemma relax_edge_queue: "relaxed_queue G cur pq (relax_edge G heur cur (remove1 cur pq))"
proof -
  have keep: "r \<in> set pq \<Longrightarrow> re_e r \<noteq> re_e cur \<Longrightarrow> r \<in> set (remove1 cur pq)" for r
    by (metis in_set_remove1)
  have sub: "set (remove1 cur pq) \<subseteq> set pq" by (rule set_remove1_subset)
  have new: "new_entry G cur n e' (successor G heur cur n e')"
    if "turn G (re_e cur) n e'" "\<not> infC G \<le> re_d cur + costFunc G (Some (re_e cur)) (Some n) e'" for n e'
    using that by (simp add: new_entry_def successor_def Let_def)
  show ?thesis unfolding relaxed_queue_def set_relax_edge using keep sub new by blast
qed

lemma search_inv_settle:
  fixes heur :: "'e \<Rightarrow> 'c::{linordered_cancel_ab_semigroup_add,comm_monoid_add}"
  assumes inv: "search_inv x G frm pq S" and cons: "x \<longrightarrow> consistent_heur G frm heur"
    and cur: "cur \<in> set pq" "\<forall>r\<in>set pq. re_d cur + heur (re_e cur) \<le> re_d r + heur (re_e r)" "S (re_e cur) = None"
    and rq: "relaxed_queue G cur pq pq'"
  defines "S' \<equiv> S(re_e cur \<mapsto> cur)"
  shows "search_inv x G frm pq' S'"
    and "\<exists>es. chain S' cur es \<and> path G frm es (re_d cur)"
    and "x \<Longrightarrow> path G frm (t # es) d \<Longrightarrow> S t = None \<Longrightarrow> re_d cur + heur (re_e cur) \<le> d + heur t"
proof -
  have le: "S \<subseteq>\<^sub>m S'" using cur(3) by (auto simp: S'_def map_le_def)
  have ok: "entry_ok G frm S cur" using search_invD(1) [OF inv cur(1)] .
  have bound: "re_d cur + heur (re_e cur) \<le> d + heur t" if "x" "path G frm (t # es) d" "S t = None" for t es d
    using queue_bound [OF inv that(1) _ that(2,3)] cons that(1) cur(2) order_trans by metis
  then show "x \<Longrightarrow> path G frm (t # es) d \<Longrightarrow> S t = None \<Longrightarrow> re_d cur + heur (re_e cur) \<le> d + heur t" .
  have best: "re_d cur \<le> d" if "x" "path G frm (re_e cur # es) d" for es d
    using bound [OF that cur(3)] by simp
  show tr: "\<exists>es. chain S' cur es \<and> path G frm es (re_d cur)"
    using entry_path [OF inv ok] chain_mono [OF _ le] by blast
  have kept: "r \<in> set pq \<Longrightarrow> re_e r \<noteq> re_e cur \<Longrightarrow> r \<in> set pq'" for r
    using rq by (auto simp: relaxed_queue_def)
  have "entry_ok G frm S' r" if "r \<in> set pq'" for r
  proof -
    from that rq consider "r \<in> set pq" | n e' where "new_entry G cur n e' r"
      by (auto simp: relaxed_queue_def)
    then show ?thesis
    proof cases
      case 1
      then show ?thesis using search_invD(1) [OF inv] entry_ok_mono [OF _ le] by blast
    next
      case 2
      then show ?thesis by (auto simp: entry_ok_def new_entry_def S'_def)
    qed
  qed
  moreover have "re_e r = e \<and> (\<exists>es. chain S' r es \<and> path G frm es (re_d r)) \<and>
      (x \<longrightarrow> (\<forall>es d. path G frm (e # es) d \<longrightarrow> re_d r \<le> d))" if "S' e = Some r" for e r
  proof (cases "e = re_e cur")
    case True
    then show ?thesis using that tr best by (auto simp: S'_def)
  next
    case False
    then have "S e = Some r" using that by (simp add: S'_def)
    then show ?thesis using search_invD(2-4) [OF inv] chain_mono [OF _ le] by blast
  qed
  moreover have "S' e \<noteq> None \<or> (\<exists>r\<in>set pq'. re_e r = e \<and> re_d r = costFunc G None None e)"
    if "e \<in> frm" for e
    using search_invD(5) [OF inv that] kept by (cases "e = re_e cur"; cases "S e") (auto simp: S'_def)
  moreover have "S' e' \<noteq> None \<or>
      (\<exists>r'\<in>set pq'. re_e r' = e' \<and> re_d r' = re_d r + costFunc G (Some e) (Some n) e')"
    if "S' e = Some r" "turn G e n e'" "\<not> infC G \<le> re_d r + costFunc G (Some e) (Some n) e'" for e r n e'
  proof (cases "e = re_e cur")
    case True
    with that have "r = cur" by (simp add: S'_def)
    with True that(2,3) have "turn G (re_e cur) n e'"
      "\<not> infC G \<le> re_d cur + costFunc G (Some (re_e cur)) (Some n) e'" by auto
    with rq obtain r' where "r' \<in> set pq'" "new_entry G cur n e' r'"
      unfolding relaxed_queue_def by blast
    then show ?thesis using True \<open>r = cur\<close> by (auto simp: new_entry_def)
  next
    case False
    then have e: "S e = Some r" using that by (simp add: S'_def)
    show ?thesis using search_invD(6) [OF inv e that(2,3)] kept
      by (cases "e' = re_e cur"; cases "S e'") (auto simp: S'_def)
  qed
  ultimately show "search_inv x G frm pq' S'" unfolding search_inv_def by blast
qed

section \<open>The search ends and is optimal\<close>

text \<open>The edges the search can meet, a finite set closed under transitions.\<close>

definition closed_edges :: "('n, 'e, 'c) search \<Rightarrow> 'e set \<Rightarrow> bool" where
  "closed_edges G U \<longleftrightarrow> finite U \<and> (\<forall>e\<in>U. \<forall>n e'. turn G e n e' \<longrightarrow> e' \<in> U)"

lemma relaxed_edges:
  assumes "relaxed_queue G cur pq pq'" "closed_edges G U" "\<forall>r\<in>set pq. re_e r \<in> U" "re_e cur \<in> U"
  shows "\<forall>r\<in>set pq'. re_e r \<in> U"
  using assms unfolding relaxed_queue_def closed_edges_def new_entry_def by metis

lemma card_settle:
  "closed_edges G U \<Longrightarrow> e \<in> U \<Longrightarrow> S e = None \<Longrightarrow> card (U - dom (S(e \<mapsto> r))) < card (U - dom S)"
  by (rule psubset_card_mono) (auto simp: closed_edges_def)

lemma build_loop_chain:
  "chain S r es \<Longrightarrow> \<exists>nodes'. build_loop S r nodes edges = Some (nodes', edges @ es)"
proof (induction arbitrary: nodes edges rule: chain.induct)
  case (chain_start r)
  then show ?case by (subst build_loop.simps) (simp add: Let_def)
next
  case (chain_step r p rp es)
  have "build_loop S r nodes edges = build_loop S rp
      (nodes @ (case re_n r of None \<Rightarrow> [] | Some n \<Rightarrow> [n])) (edges @ [re_e r])"
    using chain_step.hyps by (subst build_loop.simps) (simp add: Let_def)
  then show ?case
    using chain_step.IH [of "nodes @ (case re_n r of None \<Rightarrow> [] | Some n \<Rightarrow> [n])" "edges @ [re_e r]"] by simp
qed

lemma buildPath_chain:
  assumes "S (re_e r) = Some r" "chain S r es"
  shows "\<exists>nodes. buildPath G (re_e r) S = Some (nodes, es)"
  using build_loop_chain [OF assms(2), of _ "[]"] assms(1) by (simp add: buildPath_def)

definition estimates :: "('e \<Rightarrow> 'c::plus) \<Rightarrow> ('n, 'e, 'c) RouteEdge list \<Rightarrow> bool" where
  "estimates heur pq \<longleftrightarrow> (\<forall>r\<in>set pq. re_h r = re_d r + heur (re_e r))"

lemma estimates_relax: "estimates heur pq \<Longrightarrow> estimates heur (relax_edge G heur cur (remove1 cur pq))"
  using set_remove1_subset [of cur pq]
  by (auto simp: estimates_def set_relax_edge successor_def Let_def)

lemma estimates_drop: "estimates heur pq \<Longrightarrow> estimates heur (remove1 cur pq)"
  using set_remove1_subset [of cur pq] by (auto simp: estimates_def)

lemma init_queue_inv:
  "search_inv x G (set frm) (init_queue G heur frm) Map.empty" "estimates heur (init_queue G heur frm)"
  by (auto simp: search_inv_def init_queue_def entry_ok_def estimates_def Let_def)

context route_queue
begin

lemma tp_estimate:
  "estimates heur pq \<Longrightarrow> pq \<noteq> [] \<Longrightarrow>
     \<forall>r\<in>set pq. re_d (tp pq) + heur (re_e (tp pq)) \<le> re_d r + heur (re_e r)"
  using tp_least_h [of _ pq] tp_in [of pq] by (metis estimates_def)

lemma search_loop_correct:
  fixes heur :: "'e \<Rightarrow> 'c" and G :: "('n, 'e, 'c) search"
  assumes cl: "closed_edges G U" and cons: "x \<longrightarrow> consistent_heur G frm heur"
    and "search_inv x G frm pq S" "estimates heur pq" "\<forall>r\<in>set pq. re_e r \<in> U" "dom S \<inter> to = {}"
  shows "\<exists>res S'. search_loop tp G heur to pq S = Some (res, S') \<and>
    (case res of
       None \<Rightarrow> x \<longrightarrow> (\<forall>t\<in>to. \<forall>es d. \<not> path G frm (t # es) d)
     | Some cur \<Rightarrow> re_e cur \<in> to \<and> S' (re_e cur) = Some cur \<and> (\<exists>es. chain S' cur es \<and> path G frm es (re_d cur)) \<and>
         (x \<longrightarrow> (\<forall>t\<in>to. \<forall>es d. path G frm (t # es) d \<longrightarrow> re_d cur + heur (re_e cur) \<le> d + heur t)))"
  using assms(3-6)
proof (induction "(card (U - dom S), length pq)" arbitrary: pq S rule: wf_induct_rule [OF wf_lex_prod [OF wf_less_than wf_less_than]])
  case 1
  note inv = 1(2) and est = 1(3) and inU = 1(4) and dis = 1(5)
  show ?case
  proof (cases "pq = []")
    case True
    have "\<not> path G frm (t # es) d" if "x" "t \<in> to" for t es d
    proof
      assume p: "path G frm (t # es) d"
      have "S t = None" using that dis by (auto simp: dom_def)
      from queue_bound [OF inv that(1) _ p this] cons that(1) True show False by simp
    qed
    then show ?thesis using True by (subst search_loop.simps) simp
  next
    case False
    define cur where "cur = tp pq"
    have cur: "cur \<in> set pq" using tp_in [OF False] by (simp add: cur_def)
    note least = tp_estimate [OF est False, folded cur_def]
    have len: "length (remove1 cur pq) < length pq"
      using cur False by (simp add: length_remove1)
    show ?thesis
    proof (cases "S (re_e cur)")
      case (Some r)
      then have "search_loop tp G heur to pq S = search_loop tp G heur to (remove1 cur pq) S"
        using False by (subst search_loop.simps) (simp add: cur_def Let_def)
      moreover have "\<forall>r\<in>set (remove1 cur pq). re_e r \<in> U" using inU set_remove1_subset by fastforce
      ultimately show ?thesis
        using 1(1) [OF _ search_inv_drop [OF inv] estimates_drop [OF est] _ dis, of cur] Some len by simp
    next
      case None
      define S' where "S' = S(re_e cur \<mapsto> cur)"
      define pq' where "pq' = relax_edge G heur cur (remove1 cur pq)"
      have rq: "relaxed_queue G cur pq pq'" unfolding pq'_def by (rule relax_edge_queue)
      note settle = search_inv_settle [OF inv cons cur least None rq, folded S'_def]
      show ?thesis
      proof (cases "re_e cur \<in> to")
        case True
        then have "search_loop tp G heur to pq S = Some (Some cur, S')"
          using False None by (subst search_loop.simps) (simp add: cur_def S'_def Let_def)
        moreover have "x \<longrightarrow> (\<forall>t\<in>to. \<forall>es d. path G frm (t # es) d \<longrightarrow> re_d cur + heur (re_e cur) \<le> d + heur t)"
        proof (intro ballI allI impI)
          fix t es d assume x "t \<in> to" "path G frm (t # es) d"
          moreover from this have "S t = None" using dis by auto
          ultimately show "re_d cur + heur (re_e cur) \<le> d + heur t" using settle(3) by blast
        qed
        ultimately show ?thesis using True settle(2) by (simp add: S'_def)
      next
        case notin: False
        then have "search_loop tp G heur to pq S = search_loop tp G heur to pq' S'"
          using False None by (subst search_loop.simps) (simp add: cur_def S'_def pq'_def Let_def)
        moreover have "card (U - dom S') < card (U - dom S)"
          unfolding S'_def using card_settle [of G U _ S, OF cl _ None] inU cur by blast
        moreover have "\<forall>r\<in>set pq'. re_e r \<in> U" by (rule relaxed_edges [OF rq cl inU]) (use inU cur in blast)
        moreover have "estimates heur pq'" unfolding pq'_def by (rule estimates_relax [OF est])
        moreover have "dom S' \<inter> to = {}" using dis notin by (auto simp: S'_def)
        ultimately show ?thesis using 1(1) [OF _ settle(1)] by simp
      qed
    qed
  qed
qed

end

text \<open>The search ends and returns a path for every heuristic; with a consistent one (\<open>x\<close>) the path is a cheapest one.\<close>

lemma shortestPath_found:
  fixes heur :: "'e \<Rightarrow> 'c::{linordered_cancel_ab_semigroup_add,comm_monoid_add}"
  assumes "route_queue tp" "closed_edges G U" "set frm \<subseteq> U" "x \<longrightarrow> consistent_heur G (set frm) heur"
  shows "\<exists>c nodes edges. shortestPath tp G heur frm to = Some (c, nodes, edges) \<and>
    (edges = [] \<and> c = infC G \<and> (x \<longrightarrow> (\<forall>t\<in>to. \<forall>es d. \<not> path G (set frm) (t # es) d)) \<or>
     (\<exists>t es. edges = t # es \<and> t \<in> to \<and> path G (set frm) edges c \<and>
        (x \<longrightarrow> (\<forall>t'\<in>to. \<forall>es' d. path G (set frm) (t' # es') d \<longrightarrow> c + heur t \<le> d + heur t'))))"
proof (cases "frm = [] \<or> to = {}")
  case True
  have "\<not> path G {} es d" for es d
  proof
    assume "path G {} es d"
    then show False by (induction rule: path.induct) auto
  qed
  then show ?thesis using True by (auto simp: shortestPath_def)
next
  case False
  have "\<forall>r\<in>set (init_queue G heur frm). re_e r \<in> U"
    using assms(3) by (auto simp: init_queue_def Let_def)
  from route_queue.search_loop_correct [OF assms(1,2,4) init_queue_inv this, of to]
  obtain res S where r: "search_loop tp G heur to (init_queue G heur frm) Map.empty = Some (res, S)"
    "case res of
       None \<Rightarrow> x \<longrightarrow> (\<forall>t\<in>to. \<forall>es d. \<not> path G (set frm) (t # es) d)
     | Some cur \<Rightarrow> re_e cur \<in> to \<and> S (re_e cur) = Some cur \<and>
         (\<exists>es. chain S cur es \<and> path G (set frm) es (re_d cur)) \<and>
         (x \<longrightarrow> (\<forall>t\<in>to. \<forall>es d. path G (set frm) (t # es) d \<longrightarrow> re_d cur + heur (re_e cur) \<le> d + heur t))" by auto
  show ?thesis
  proof (cases res)
    case None
    then show ?thesis using r False by (simp add: shortestPath_def)
  next
    case (Some cur)
    with r obtain es where es: "chain S cur es" "path G (set frm) es (re_d cur)" by auto
    obtain nodes where b: "buildPath G (re_e cur) S = Some (nodes, es)"
      using buildPath_chain [where G = G, OF _ es(1)] r Some by auto
    obtain es' where "es = re_e cur # es'" using chain_hd [OF es(1)] by blast
    then show ?thesis using r es(2) b False Some by (auto simp: shortestPath_def)
  qed
qed

lemma shortestPath_correct:
  fixes heur :: "'e \<Rightarrow> 'c::{linordered_cancel_ab_semigroup_add,comm_monoid_add}"
  assumes "route_queue tp" "closed_edges G U" "set frm \<subseteq> U" "consistent_heur G (set frm) heur"
  shows "\<exists>c nodes edges. shortestPath tp G heur frm to = Some (c, nodes, edges) \<and>
    (edges = [] \<and> c = infC G \<and> (\<forall>t\<in>to. \<forall>es d. \<not> path G (set frm) (t # es) d) \<or>
     (\<exists>t es. edges = t # es \<and> t \<in> to \<and> path G (set frm) edges c \<and>
        (\<forall>t'\<in>to. \<forall>es' d. path G (set frm) (t' # es') d \<longrightarrow> c + heur t \<le> d + heur t')))"
  using shortestPath_found [OF assms(1-3), of True heur to] assms(4) by simp

section \<open>All edges, forwards and backwards\<close>

text \<open>The search backwards is the search forwards in the reversed graph.\<close>

definition reverse :: "('n, 'e, 'c) search \<Rightarrow> ('n, 'e, 'c) search" where
  "reverse G = G\<lparr>getTo := getFrom G, getAdjListOut := getAdjListIn G, hasEdgeIn := \<lambda>_ _. False,
     costFunc := \<lambda>f n t. case f of None \<Rightarrow> costFunc G None n t | Some e \<Rightarrow> costFunc G (Some t) n e\<rparr>"

lemma reverse_sel [simp]:
  "infC (reverse G) = infC G" "costFunc (reverse G) None m t = costFunc G None m t"
  "costFunc (reverse G) (Some e) m t = costFunc G (Some t) m e"
  "turn (reverse G) e n e' \<longleftrightarrow> e' \<noteq> e \<and> e' \<in> set (getAdjListIn G n) \<and> n = getFrom G e"
  by (auto simp: reverse_def turn_def)

definition direction :: "('n, 'e, 'c) search \<Rightarrow> bool \<Rightarrow> ('n, 'e, 'c) search" where
  "direction G rv = (if rv then reverse G else G)"

lemma set_relaxInv:
  "set (relaxInv G cur pq) = set pq \<union> (\<lambda>e. (successor (reverse G) (\<lambda>_. 0) cur (getFrom G (re_e cur)) e)\<lparr>re_h := 0\<rparr>) `
     {e \<in> set (getAdjListIn G (getFrom G (re_e cur))).
        \<not> (e = re_e cur \<or> infC G \<le> re_d cur + costFunc G (Some e) (Some (getFrom G (re_e cur))) (re_e cur))}"
proof -
  have "relaxInv G cur pq = foldl (\<lambda>pq e.
      if e = re_e cur \<or> infC G \<le> re_d cur + costFunc G (Some e) (Some (getFrom G (re_e cur))) (re_e cur) then pq
      else pq @ [(successor (reverse G) (\<lambda>_. 0) cur (getFrom G (re_e cur)) e)\<lparr>re_h := 0\<rparr>]) pq
      (getAdjListIn G (getFrom G (re_e cur)))"
    unfolding relaxInv_def
    by (intro arg_cong [where f = "\<lambda>g. foldl g pq (getAdjListIn G (getFrom G (re_e cur)))"] ext)
      (simp add: successor_def Let_def)
  then show ?thesis by (simp only: set_foldl_append)
qed

lemma relaxInv_queue: "relaxed_queue (reverse G) cur pq (relaxInv G cur (remove1 cur pq))"
proof -
  let ?s = "\<lambda>e. (successor (reverse G) (\<lambda>_. 0) cur (getFrom G (re_e cur)) e)\<lparr>re_h := 0\<rparr>"
  have new: "new_entry (reverse G) cur (getFrom G (re_e cur)) e (?s e)"
    if "e \<in> set (getAdjListIn G (getFrom G (re_e cur)))"
      "\<not> (e = re_e cur \<or> infC G \<le> re_d cur + costFunc G (Some e) (Some (getFrom G (re_e cur))) (re_e cur))" for e
    using that by (simp add: new_entry_def successor_def Let_def)
  have keep: "r \<in> set pq \<Longrightarrow> re_e r \<noteq> re_e cur \<Longrightarrow> r \<in> set (remove1 cur pq)" for r
    by (metis in_set_remove1)
  have sub: "set (remove1 cur pq) \<subseteq> set pq" by (rule set_remove1_subset)
  show ?thesis unfolding relaxed_queue_def set_relaxInv
  proof (intro conjI)
    show "\<forall>n e'. turn (reverse G) (re_e cur) n e' \<longrightarrow>
       \<not> infC (reverse G) \<le> re_d cur + costFunc (reverse G) (Some (re_e cur)) (Some n) e' \<longrightarrow>
       (\<exists>r\<in>set (remove1 cur pq) \<union> ?s ` {e \<in> set (getAdjListIn G (getFrom G (re_e cur))).
          \<not> (e = re_e cur \<or> infC G \<le> re_d cur + costFunc G (Some e) (Some (getFrom G (re_e cur))) (re_e cur))}.
          new_entry (reverse G) cur n e' r)"
      using new by auto
  qed (use new keep sub in blast)+
qed

text \<open>In both directions the queue is ordered by the path cost.\<close>

definition by_cost :: "bool \<Rightarrow> ('n, 'e, 'c::{plus,zero}) RouteEdge list \<Rightarrow> bool" where
  "by_cost rv pq \<longleftrightarrow> (if rv then (\<forall>r\<in>set pq. re_h r = 0) else estimates (\<lambda>_. 0) pq)"

definition next_queue ::
  "('n, 'e, 'c::{linorder,plus,zero}) search \<Rightarrow> bool \<Rightarrow> ('n, 'e, 'c) RouteEdge \<Rightarrow>
     ('n, 'e, 'c) RouteEdge list \<Rightarrow> ('n, 'e, 'c) RouteEdge list" where
  "next_queue G rv cur pq = (if rv then relaxInv G cur pq else relax_edge G (\<lambda>_. 0) cur pq)"

lemma next_queue_props:
  "relaxed_queue (direction G rv) cur pq (next_queue G rv cur (remove1 cur pq))"
  "by_cost rv pq \<Longrightarrow> by_cost rv (next_queue G rv cur (remove1 cur pq))"
  using set_remove1_subset [of cur pq] estimates_relax [of "\<lambda>_. 0" pq G cur]
  by (auto simp: direction_def next_queue_def relaxInv_queue relax_edge_queue by_cost_def set_relaxInv)

text \<open>What the costs mean: the least path cost of every edge that can be reached.\<close>

definition least_costs :: "('n, 'e, 'c::{linorder,plus}) search \<Rightarrow> 'e set \<Rightarrow> ('e \<rightharpoonup> 'c) \<Rightarrow> bool" where
  "least_costs G frm costs \<longleftrightarrow>
     (\<forall>e. case costs e of
        None \<Rightarrow> \<forall>es d. \<not> path G frm (e # es) d
      | Some c \<Rightarrow> (\<exists>es. path G frm (e # es) c) \<and> (\<forall>es d. path G frm (e # es) d \<longrightarrow> c \<le> d))"

context route_queue
begin

lemma tp_by_cost: "by_cost rv pq \<Longrightarrow> pq \<noteq> [] \<Longrightarrow> \<forall>r\<in>set pq. re_d (tp pq) + 0 \<le> re_d r + 0"
  using tp_estimate [of "\<lambda>_. 0" pq] tp_least_d [of _ pq] tp_in [of pq]
  by (auto simp: by_cost_def split: if_splits)

lemma all_loop_correct:
  fixes G :: "('n, 'e, 'c) search"
  assumes cl: "closed_edges (direction G rv) U" and cons: "consistent_heur (direction G rv) frm (\<lambda>_. 0)"
    and "search_inv True (direction G rv) frm pq S" "by_cost rv pq" "\<forall>r\<in>set pq. re_e r \<in> U"
  shows "\<exists>costs. all_loop tp G rv pq S (\<lambda>e. map_option re_d (S e)) = Some costs \<and>
    least_costs (direction G rv) frm costs"
  using assms(3-5)
proof (induction "(card (U - dom S), length pq)" arbitrary: pq S rule: wf_induct_rule [OF wf_lex_prod [OF wf_less_than wf_less_than]])
  case 1
  note inv = 1(2) and est = 1(3) and inU = 1(4)
  show ?case
  proof (cases "pq = []")
    case True
    have "case map_option re_d (S e) of None \<Rightarrow> \<forall>es d. \<not> path (direction G rv) frm (e # es) d
        | Some c \<Rightarrow> (\<exists>es. path (direction G rv) frm (e # es) c) \<and> (\<forall>es d. path (direction G rv) frm (e # es) d \<longrightarrow> c \<le> d)" for e
    proof (cases "S e")
      case None
      then show ?thesis using queue_bound [OF inv TrueI cons] True by auto
    next
      case (Some r)
      then obtain es where es: "chain S r es" "path (direction G rv) frm es (re_d r)"
        using search_invD(3) [OF inv] by blast
      then show ?thesis using chain_hd [OF es(1)] search_invD(2) [OF inv Some] search_invD(4) [OF inv Some TrueI] Some by auto
    qed
    then show ?thesis using True by (subst all_loop.simps) (simp add: least_costs_def)
  next
    case False
    define cur where "cur = tp pq"
    have cur: "cur \<in> set pq" using tp_in [OF False] by (simp add: cur_def)
    note least = tp_by_cost [OF est False, folded cur_def]
    have len: "length (remove1 cur pq) < length pq" using cur False by (simp add: length_remove1)
    have sub: "set (remove1 cur pq) \<subseteq> set pq" by (rule set_remove1_subset)
    show ?thesis
    proof (cases "S (re_e cur)")
      case (Some r)
      then have "all_loop tp G rv pq S (\<lambda>e. map_option re_d (S e)) =
          all_loop tp G rv (remove1 cur pq) S (\<lambda>e. map_option re_d (S e))"
        using False by (subst all_loop.simps) (simp add: cur_def Let_def)
      moreover have "by_cost rv (remove1 cur pq)" using est sub estimates_drop by (auto simp: by_cost_def)
      moreover have "\<forall>r\<in>set (remove1 cur pq). re_e r \<in> U" using inU sub by blast
      ultimately show ?thesis
        using 1(1) [OF _ search_inv_drop [OF inv], of cur] Some len by simp
    next
      case None
      define S' where "S' = S(re_e cur \<mapsto> cur)"
      define pq' where "pq' = next_queue G rv cur (remove1 cur pq)"
      have rq: "relaxed_queue (direction G rv) cur pq pq'" unfolding pq'_def by (rule next_queue_props(1))
      have "(\<lambda>e. map_option re_d (S e))(re_e cur \<mapsto> re_d cur) = (\<lambda>e. map_option re_d (S' e))"
        by (auto simp: S'_def)
      then have "all_loop tp G rv pq S (\<lambda>e. map_option re_d (S e)) =
          all_loop tp G rv pq' S' (\<lambda>e. map_option re_d (S' e))"
        using False None by (subst all_loop.simps) (simp add: cur_def S'_def pq'_def next_queue_def Let_def)
      moreover have "card (U - dom S') < card (U - dom S)"
        unfolding S'_def using card_settle [of _ U _ S, OF cl _ None] inU cur by blast
      moreover have "\<forall>r\<in>set pq'. re_e r \<in> U" by (rule relaxed_edges [OF rq cl inU]) (use inU cur in blast)
      moreover have "by_cost rv pq'" unfolding pq'_def by (rule next_queue_props(2) [OF est])
      ultimately show ?thesis
        using 1(1) [OF _ search_inv_settle(1) [OF inv impI [OF cons] cur least None rq, folded S'_def]] by simp
    qed
  qed
qed

end

section \<open>Several targets\<close>

text \<open>The result of the search for several targets, from the edges settled so far.\<close>

definition many_inv ::
  "('n, 'e, 'c::{linorder,plus}) search \<Rightarrow> 'e set \<Rightarrow> 'e set \<Rightarrow> ('n, 'e, 'c) settled \<Rightarrow> nat \<Rightarrow> ('e \<rightharpoonup> 'c) \<Rightarrow>
     ('e \<rightharpoonup> 'n list \<times> 'e list) \<Rightarrow> bool" where
  "many_inv G frm to S found costs paths \<longleftrightarrow>
     found = card (dom S \<inter> to) \<and>
     costs = (\<lambda>e. if e \<in> to then Some (case S e of None \<Rightarrow> infC G | Some r \<Rightarrow> re_d r) else None) \<and>
     dom paths = dom S \<inter> to \<and>
     (\<forall>e nodes es. paths e = Some (nodes, es) \<longrightarrow> (\<exists>r es'. S e = Some r \<and> es = e # es' \<and> path G frm es (re_d r)))"

definition many_spec ::
  "('n, 'e, 'c::{linorder,plus}) search \<Rightarrow> 'e set \<Rightarrow> 'e set \<Rightarrow> ('e \<rightharpoonup> 'c) \<Rightarrow> ('e \<rightharpoonup> 'n list \<times> 'e list) \<Rightarrow> bool" where
  "many_spec G frm to costs paths \<longleftrightarrow> dom costs = to \<and> dom paths \<subseteq> to \<and>
     (\<forall>t\<in>to.
        (\<forall>es d. \<not> path G frm (t # es) d) \<and> costs t = Some (infC G) \<and> paths t = None \<or>
        (\<exists>c nodes es. costs t = Some c \<and> paths t = Some (nodes, t # es) \<and> path G frm (t # es) c \<and>
           (\<forall>es' d. path G frm (t # es') d \<longrightarrow> c \<le> d)))"

text \<open>The same for a heuristic that need not be consistent unless \<open>x\<close>.\<close>

definition many_found ::
  "bool \<Rightarrow> ('n, 'e, 'c::{linorder,plus}) search \<Rightarrow> 'e set \<Rightarrow> 'e set \<Rightarrow> ('e \<rightharpoonup> 'c) \<Rightarrow> ('e \<rightharpoonup> 'n list \<times> 'e list) \<Rightarrow> bool" where
  "many_found x G frm to costs paths \<longleftrightarrow> dom costs = to \<and> dom paths \<subseteq> to \<and>
     (\<forall>t\<in>to.
        (x \<longrightarrow> (\<forall>es d. \<not> path G frm (t # es) d)) \<and> costs t = Some (infC G) \<and> paths t = None \<or>
        (\<exists>c nodes es. costs t = Some c \<and> paths t = Some (nodes, t # es) \<and> path G frm (t # es) c \<and>
           (x \<longrightarrow> (\<forall>es' d. path G frm (t # es') d \<longrightarrow> c \<le> d))))"

lemma many_found_spec: "many_found True = many_spec"
  by (simp add: many_found_def many_spec_def fun_eq_iff)

lemma many_inv_settle:
  assumes mi: "many_inv G frm to S found costs paths" and "finite to" "S e = None" "re_e r = e"
    and p: "chain (S(e \<mapsto> r)) r es" "path G frm es (re_d r)"
  shows "e \<notin> to \<Longrightarrow> many_inv G frm to (S(e \<mapsto> r)) found costs paths"
    and "e \<in> to \<Longrightarrow> many_inv G frm to (S(e \<mapsto> r)) (found + 1) (costs(e \<mapsto> re_d r)) (paths(e \<mapsto> (nodes, es)))"
proof -
  have m: "found = card (dom S \<inter> to)" "dom paths = dom S \<inter> to"
    "costs = (\<lambda>e. if e \<in> to then Some (case S e of None \<Rightarrow> infC G | Some r \<Rightarrow> re_d r) else None)"
    "\<And>e nodes es. paths e = Some (nodes, es) \<Longrightarrow> \<exists>r es'. S e = Some r \<and> es = e # es' \<and> path G frm es (re_d r)"
    using mi by (auto simp: many_inv_def)
  have pn: "paths e = None" using m(2) assms(3) by (metis domIff IntD1)
  have other: "\<exists>r' es''. (S(e \<mapsto> r)) e' = Some r' \<and> es' = e' # es'' \<and> path G frm es' (re_d r')"
    if "paths e' = Some (nodes', es')" for e' nodes' es'
    using m(4) [OF that] that pn by (cases "e' = e") auto
  show "e \<notin> to \<Longrightarrow> many_inv G frm to (S(e \<mapsto> r)) found costs paths"
    using m(1-3) other unfolding many_inv_def by auto
  assume e: "e \<in> to"
  have "dom (S(e \<mapsto> r)) \<inter> to = insert e (dom S \<inter> to)" using e by auto
  then have "found + 1 = card (dom (S(e \<mapsto> r)) \<inter> to)" using m(1) assms(2,3) by (auto simp: dom_def)
  moreover have "dom (paths(e \<mapsto> (nodes, es))) = dom (S(e \<mapsto> r)) \<inter> to" using m(2) e by auto
  moreover have "costs(e \<mapsto> re_d r) =
      (\<lambda>e'. if e' \<in> to then Some (case (S(e \<mapsto> r)) e' of None \<Rightarrow> infC G | Some r \<Rightarrow> re_d r) else None)"
    using e unfolding m(3) by auto
  moreover have "\<exists>r' es''. (S(e \<mapsto> r)) e' = Some r' \<and> es' = e' # es'' \<and> path G frm es' (re_d r')"
    if "(paths(e \<mapsto> (nodes, es))) e' = Some (nodes', es')" for e' nodes' es'
    using that other [of e'] chain_hd [OF p(1)] p(2) assms(4) by (cases "e' = e") auto
  ultimately show "many_inv G frm to (S(e \<mapsto> r)) (found + 1) (costs(e \<mapsto> re_d r)) (paths(e \<mapsto> (nodes, es)))"
    unfolding many_inv_def by blast
qed

lemma many_inv_spec:
  assumes inv: "search_inv x G frm pq S" and mi: "many_inv G frm to S found costs paths"
    and open_none: "\<And>t es d. x \<Longrightarrow> t \<in> to \<Longrightarrow> S t = None \<Longrightarrow> \<not> path G frm (t # es) d"
  shows "many_found x G frm to costs paths"
proof -
  have m: "dom paths = dom S \<inter> to"
    "costs = (\<lambda>e. if e \<in> to then Some (case S e of None \<Rightarrow> infC G | Some r \<Rightarrow> re_d r) else None)"
    "\<And>e nodes es. paths e = Some (nodes, es) \<Longrightarrow> \<exists>r es'. S e = Some r \<and> es = e # es' \<and> path G frm es (re_d r)"
    using mi by (auto simp: many_inv_def)
  have "(x \<longrightarrow> (\<forall>es d. \<not> path G frm (t # es) d)) \<and> costs t = Some (infC G) \<and> paths t = None \<or>
        (\<exists>c nodes es. costs t = Some c \<and> paths t = Some (nodes, t # es) \<and> path G frm (t # es) c \<and>
           (x \<longrightarrow> (\<forall>es' d. path G frm (t # es') d \<longrightarrow> c \<le> d)))" if t: "t \<in> to" for t
  proof (cases "S t")
    case None
    moreover from this have "paths t = None" using m(1) by (metis domIff IntD1)
    ultimately show ?thesis using open_none [OF _ t] t by (simp add: m(2))
  next
    case (Some r)
    then have "t \<in> dom paths" unfolding m(1) using t by auto
    then obtain nodes es where p: "paths t = Some (nodes, es)" by auto
    with m(3) Some obtain es' where "es = t # es'" "path G frm es (re_d r)" by fastforce
    moreover have "costs t = Some (re_d r)" using t Some by (simp add: m(2))
    ultimately show ?thesis using p search_invD(4) [OF inv Some] by blast
  qed
  moreover have "dom costs = to" by (auto simp: m(2) dom_def)
  moreover have "dom paths \<subseteq> to" by (simp add: m(1))
  ultimately show ?thesis unfolding many_found_def by blast
qed

context route_queue
begin

lemma many_loop_correct:
  fixes heur :: "'e \<Rightarrow> 'c" and G :: "('n, 'e, 'c) search"
  assumes cl: "closed_edges G U" and cons: "x \<longrightarrow> consistent_heur G frm heur" and fin: "finite to"
    and "search_inv x G frm pq S" "estimates heur pq" "\<forall>r\<in>set pq. re_e r \<in> U"
    "many_inv G frm to S found costs paths"
  shows "\<exists>costs' paths'. many_loop tp G heur to pq S found costs paths = Some (costs', paths') \<and>
    many_found x G frm to costs' paths'"
  using assms(4-7)
proof (induction "(card (U - dom S), length pq)" arbitrary: pq S found costs paths
    rule: wf_induct_rule [OF wf_lex_prod [OF wf_less_than wf_less_than]])
  case 1
  note inv = 1(2) and est = 1(3) and inU = 1(4) and mi = 1(5)
  show ?case
  proof (cases "pq = []")
    case True
    have "many_found x G frm to costs paths"
      by (rule many_inv_spec [OF inv mi]) (use queue_bound [OF inv] cons True in auto)
    then show ?thesis using True by (subst many_loop.simps) simp
  next
    case False
    define cur where "cur = tp pq"
    have cur: "cur \<in> set pq" using tp_in [OF False] by (simp add: cur_def)
    note least = tp_estimate [OF est False, folded cur_def]
    have len: "length (remove1 cur pq) < length pq" using cur False by (simp add: length_remove1)
    show ?thesis
    proof (cases "S (re_e cur)")
      case (Some r)
      then have "many_loop tp G heur to pq S found costs paths =
          many_loop tp G heur to (remove1 cur pq) S found costs paths"
        using False by (subst many_loop.simps) (simp add: cur_def Let_def)
      moreover have "\<forall>r\<in>set (remove1 cur pq). re_e r \<in> U" using inU set_remove1_subset by fastforce
      ultimately show ?thesis
        using 1(1) [OF _ search_inv_drop [OF inv] estimates_drop [OF est] _ mi, of cur] Some len by simp
    next
      case None
      define S' where "S' = S(re_e cur \<mapsto> cur)"
      define pq' where "pq' = relax_edge G heur cur (remove1 cur pq)"
      have rq: "relaxed_queue G cur pq pq'" unfolding pq'_def by (rule relax_edge_queue)
      note settle = search_inv_settle [OF inv cons cur least None rq, folded S'_def]
      obtain es where es: "chain S' cur es" "path G frm es (re_d cur)" using settle(2) by blast
      obtain nodes where b: "buildPath G (re_e cur) S' = Some (nodes, es)"
        using buildPath_chain [where G = G, OF _ es(1)] by (auto simp: S'_def)
      define found' costs' paths' where "found' = (if re_e cur \<in> to then found + 1 else found)"
        and "costs' = (if re_e cur \<in> to then costs(re_e cur \<mapsto> re_d cur) else costs)"
        and "paths' = (if re_e cur \<in> to then paths(re_e cur \<mapsto> (nodes, es)) else paths)"
      have mi': "many_inv G frm to S' found' costs' paths'"
        using many_inv_settle [OF mi fin None refl es [unfolded S'_def]]
        by (auto simp: found'_def costs'_def paths'_def S'_def)
      have step: "many_loop tp G heur to pq S found costs paths =
          (if found' = card to then Some (costs', paths') else many_loop tp G heur to pq' S' found' costs' paths')"
        using False None b
        by (subst many_loop.simps)
          (simp add: cur_def [symmetric] S'_def pq'_def found'_def costs'_def paths'_def Let_def)
      show ?thesis
      proof (cases "found' = card to")
        case True
        then have "dom S' \<inter> to = to" using mi' fin by (intro card_subset_eq) (auto simp: many_inv_def)
        then have "many_found x G frm to costs' paths'"
          by (intro many_inv_spec [OF settle(1) mi']) (metis IntE domIff)
        then show ?thesis using step True by simp
      next
        case notall: False
        have "card (U - dom S') < card (U - dom S)"
          unfolding S'_def using card_settle [of G U _ S, OF cl _ None] inU cur by blast
        moreover have "\<forall>r\<in>set pq'. re_e r \<in> U" by (rule relaxed_edges [OF rq cl inU]) (use inU cur in blast)
        moreover have "estimates heur pq'" unfolding pq'_def by (rule estimates_relax [OF est])
        ultimately show ?thesis using 1(1) [OF _ settle(1) _ _ mi'] step notall by simp
      qed
    qed
  qed
qed

end

lemma shortestPath_many_found:
  fixes heur :: "'e \<Rightarrow> 'c::{linordered_cancel_ab_semigroup_add,comm_monoid_add}"
  assumes "route_queue tp" "closed_edges G U" "frm \<in> U" "x \<longrightarrow> consistent_heur G {frm} heur" "finite to"
  shows "\<exists>costs paths. shortestPath_many tp G heur frm to = Some (costs, paths) \<and>
    many_found x G {frm} to costs paths"
proof (cases "to = {}")
  case True
  then show ?thesis by (simp add: shortestPath_many_def many_found_def)
next
  case False
  have "\<forall>r\<in>set (init_queue G heur [frm]). re_e r \<in> U" using assms(3) by (simp add: init_queue_def Let_def)
  moreover have "many_inv G {frm} to Map.empty 0 (\<lambda>e. if e \<in> to then Some (infC G) else None) Map.empty"
    by (simp add: many_inv_def cong: if_cong)
  ultimately show ?thesis
    using route_queue.many_loop_correct [OF assms(1,2,4,5) _ init_queue_inv(2) [where frm = "[frm]"]]
      init_queue_inv(1) [of x G "[frm]" heur] False
    by (simp add: shortestPath_many_def)
qed

lemma shortestPath_many_correct:
  fixes heur :: "'e \<Rightarrow> 'c::{linordered_cancel_ab_semigroup_add,comm_monoid_add}"
  assumes "route_queue tp" "closed_edges G U" "frm \<in> U" "consistent_heur G {frm} heur" "finite to"
  shows "\<exists>costs paths. shortestPath_many tp G heur frm to = Some (costs, paths) \<and>
    many_spec G {frm} to costs paths"
  using shortestPath_many_found [OF assms(1-3) impI [OF assms(4)] assms(5), of True] unfolding many_found_spec .

section \<open>Correctness of the searches\<close>

text \<open>
  C1: the search between two sets of edges always ends, for every tie-breaking of the queue.  If it reports the
  infinite cost, no target edge can be reached with a finite cost; otherwise its edges are a path from a source to a
  target whose cost is the one reported, and, for a consistent heuristic, no path to any target is cheaper
  once the estimates of the two targets are added, so in particular the cost is the least one when
  the heuristic is zero on the targets.
\<close>

theorem shortestPath_optimal:
  fixes heur :: "'e \<Rightarrow> 'c::{linordered_cancel_ab_semigroup_add,comm_monoid_add}"
  assumes "route_queue tp" "closed_edges G U" "set frm \<subseteq> U" "consistent_heur G (set frm) heur"
  shows "\<exists>c nodes edges. shortestPath tp G heur frm to = Some (c, nodes, edges) \<and>
    (edges = [] \<and> c = infC G \<and> (\<forall>t\<in>to. \<forall>es d. \<not> path G (set frm) (t # es) d) \<or>
     (\<exists>t es. edges = t # es \<and> t \<in> to \<and> path G (set frm) edges c \<and>
        (\<forall>t'\<in>to. \<forall>es' d. path G (set frm) (t' # es') d \<longrightarrow> c + heur t \<le> d + heur t')))"
  by (rule shortestPath_correct [OF assms])

text \<open>
  The search backwards over all edges ends and returns, for every edge, the least cost of a path in the
  reversed graph from the source edges, and nothing for edges without a finite path, provided that
  transitions do not have negative costs.
\<close>

theorem shortestPath_all_backwards:
  fixes G :: "('n, 'e, 'c::{linordered_cancel_ab_semigroup_add,comm_monoid_add}) search"
  assumes "route_queue tp" "closed_edges (reverse G) U" "set frm \<subseteq> U"
    "\<forall>e n e'. turn (reverse G) e n e' \<longrightarrow> 0 \<le> costFunc G (Some e') (Some n) e"
  shows "\<exists>costs. shortestPath_all tp G frm True = Some costs \<and> least_costs (reverse G) (set frm) costs"
proof -
  let ?pq = "map (\<lambda>e. \<lparr>re_e = e, re_parent = None, re_n = None, re_d = costFunc G None None e, re_h = 0\<rparr>) frm"
  have dir: "direction G True = reverse G" by (simp add: direction_def)
  have "search_inv True (reverse G) (set frm) ?pq Map.empty" by (auto simp: search_inv_def entry_ok_def)
  moreover have "consistent_heur (reverse G) (set frm) (\<lambda>_. 0)" using assms(4) by (simp add: consistent_heur_def)
  moreover have "by_cost True ?pq" "\<forall>r\<in>set ?pq. re_e r \<in> U" using assms(3) by (auto simp: by_cost_def)
  ultimately show ?thesis
    using route_queue.all_loop_correct [OF assms(1), of G True U "set frm" ?pq Map.empty] assms(2)
    by (simp add: dir shortestPath_all_def)
qed


text \<open>
  The search forwards over all edges is exact when the source edges cost nothing, as with the router's cost
  function: it ends and returns every edge's least path cost.
\<close>

theorem shortestPath_all_forwards:
  fixes G :: "('n, 'e, 'c::{linordered_cancel_ab_semigroup_add,comm_monoid_add}) search"
  assumes "route_queue tp" "closed_edges G U" "set frm \<subseteq> U"
    "\<forall>e n e'. turn G e n e' \<longrightarrow> 0 \<le> costFunc G (Some e) (Some n) e'"
    "\<forall>e\<in>set frm. costFunc G None None e = 0"
  shows "\<exists>costs. shortestPath_all tp G frm False = Some costs \<and> least_costs G (set frm) costs"
proof -
  let ?pq = "map (\<lambda>e. \<lparr>re_e = e, re_parent = None, re_n = None, re_d = costFunc G None None e, re_h = 0\<rparr>) frm"
  have dir: "direction G False = G" by (simp add: direction_def)
  have "search_inv True G (set frm) ?pq Map.empty" by (auto simp: search_inv_def entry_ok_def)
  moreover have "consistent_heur G (set frm) (\<lambda>_. 0)" using assms(4) by (simp add: consistent_heur_def)
  moreover have "by_cost False ?pq" "\<forall>r\<in>set ?pq. re_e r \<in> U"
    using assms(3,5) by (auto simp: by_cost_def estimates_def)
  ultimately show ?thesis
    using route_queue.all_loop_correct [OF assms(1), of G False U "set frm" ?pq Map.empty] assms(2)
    by (simp add: dir shortestPath_all_def)
qed

text \<open>
  C39: the search from one edge to several targets ends; for every target it returns the least path cost with a
  path of that cost, or the infinite cost and no path when there is none, for every consistent heuristic.
\<close>

theorem shortestPath_many_optimal:
  fixes heur :: "'e \<Rightarrow> 'c::{linordered_cancel_ab_semigroup_add,comm_monoid_add}"
  assumes "route_queue tp" "closed_edges G U" "frm \<in> U" "consistent_heur G {frm} heur" "finite to"
  shows "\<exists>costs paths. shortestPath_many tp G heur frm to = Some (costs, paths) \<and>
    many_spec G {frm} to costs paths"
  by (rule shortestPath_many_correct [OF assms])

section \<open>Examples\<close>

text \<open>
  Edge 0 leads from node 0 to node 1, edge 1 on to node 2, edge 2 on to node 3; entering edge \<open>e\<close> costs \<open>w e\<close>, and
  starting on it costs \<open>w0 e\<close>.
\<close>

definition fork :: "(nat \<Rightarrow> int) \<Rightarrow> (nat \<Rightarrow> int) \<Rightarrow> (nat, nat, int) search" where
  "fork w0 w = \<lparr>getFrom = (\<lambda>e. if e = 0 then 0 else 1), getTo = (\<lambda>e. e + 1),
     getAdjListOut = (\<lambda>n. if n = 0 then [0] else if n = 1 then [1, 2] else []),
     getAdjListIn = (\<lambda>n. if n = 1 then [0] else if n = 2 then [1] else if n = 3 then [2] else []),
     hasEdgeIn = (\<lambda>n e. n = e + 1),
     costFunc = (\<lambda>f n e. case f of None \<Rightarrow> w0 e | Some _ \<Rightarrow> w e), infC = 1000\<rparr>"

lemma fork_turn: "turn (fork w0 w) e n e' \<longleftrightarrow> e = 0 \<and> n = 1 \<and> (e' = 1 \<or> e' = 2)"
  by (auto simp: turn_def fork_def split: if_splits)

lemma fork_turn_reverse: "turn (reverse (fork w0 w)) e n e' \<longleftrightarrow> e \<noteq> 0 \<and> n = 1 \<and> e' = 0"
  by (auto simp: fork_def split: if_splits)

lemma fork_closed: "closed_edges (fork w0 w) {0, 1, 2}" "closed_edges (reverse (fork w0 w)) {0, 1, 2}"
  by (auto simp: closed_edges_def fork_turn fork_turn_reverse simp del: reverse_sel(4))

lemma fork_cost [simp]: "costFunc (fork w0 w) (Some e) n e' = w e'" "costFunc (fork w0 w) None n e = w0 e"
    "infC (fork w0 w) = 1000"
  by (simp_all add: fork_def)

theorem shortestPath_optimal_witness:
  "\<exists>c nodes edges. shortestPath first_top (fork (\<lambda>_. 0) (\<lambda>_. 5)) (\<lambda>_. 0) [0] {2} = Some (c, nodes, edges) \<and>
     (edges = [] \<and> c = 1000 \<or> (\<exists>es. edges = 2 # es \<and> path (fork (\<lambda>_. 0) (\<lambda>_. 5)) {0} edges c))"
proof -
  have c: "consistent_heur (fork (\<lambda>_. 0) (\<lambda>_. 5)) frm (\<lambda>_. 0)" for frm by (simp add: consistent_heur_def)
  show ?thesis
    using shortestPath_optimal [OF ft.route_queue_axioms fork_closed(1) _ c, of "[0]" "{2}"] by auto
qed

theorem shortestPath_all_backwards_witness:
  "\<exists>costs. shortestPath_all first_top (fork (\<lambda>_. 0) (\<lambda>_. 5)) [2] True = Some costs \<and>
     least_costs (reverse (fork (\<lambda>_. 0) (\<lambda>_. 5))) {2} costs"
  using shortestPath_all_backwards [OF ft.route_queue_axioms fork_closed(2), of "[2]" "\<lambda>_. 0" "\<lambda>_. 5"] by simp

theorem shortestPath_all_forwards_witness:
  "\<exists>costs. shortestPath_all first_top (fork (\<lambda>_. 0) (\<lambda>_. 5)) [0, 1] False = Some costs \<and>
     least_costs (fork (\<lambda>_. 0) (\<lambda>_. 5)) {0, 1} costs"
  using shortestPath_all_forwards [OF ft.route_queue_axioms fork_closed(1), of "[0, 1]" "\<lambda>_. 0" "\<lambda>_. 5"] by simp

theorem shortestPath_many_optimal_witness:
  "\<exists>costs paths. shortestPath_many first_top (fork (\<lambda>_. 0) (\<lambda>_. 5)) (\<lambda>_. 0) 0 {1, 2} = Some (costs, paths) \<and>
     many_spec (fork (\<lambda>_. 0) (\<lambda>_. 5)) {0} {1, 2} costs paths"
proof -
  have c: "consistent_heur (fork (\<lambda>_. 0) (\<lambda>_. 5)) frm (\<lambda>_. 0)" for frm by (simp add: consistent_heur_def)
  show ?thesis
    using shortestPath_many_optimal [OF ft.route_queue_axioms fork_closed(1) _ c, of 0 "{1, 2}"] by simp
qed

text \<open>
  With a heuristic that is consistent but negative on a target, as the router's distance heuristic is on targets off
  their centroid, the search may return a target that is not the cheapest: here it reports the cost 10 although
  another target is reached with cost 6.
\<close>

lemma shortestPath_negative_estimate:
  "consistent_heur (fork (\<lambda>_. 0) (\<lambda>e. if e = 1 then 10 else 6)) {0} (\<lambda>e. if e = 1 then - 5 else 0) \<and>
   shortestPath first_top (fork (\<lambda>_. 0) (\<lambda>e. if e = 1 then 10 else 6)) (\<lambda>e. if e = 1 then - 5 else 0) [0] {1, 2} =
     Some (10, [2, 1], [1, 0]) \<and>
   path (fork (\<lambda>_. 0) (\<lambda>e. if e = 1 then 10 else 6)) {0} [2, 0] 6"
proof -
  let ?G = "fork (\<lambda>_. 0) (\<lambda>e. if e = 1 then 10 else 6)"
  have "path ?G {0} [2, 0] (0 + 6)"
    using path_step [OF path_start [of 0 "{0}" ?G], of 1 2] by (simp add: fork_turn)
  moreover have "shortestPath first_top ?G (\<lambda>e. if e = 1 then - 5 else 0) [0] {1, 2} = Some (10, [2, 1], [1, 0])"
    by code_simp
  ultimately show ?thesis by (auto simp: consistent_heur_def fork_turn)
qed

text \<open>
  The search forwards over all edges is not exact when several source edges have costs of their own: they enter the
  queue with the estimate zero, so that edge 1 keeps its own cost 10 although edge 0 leads to it for 3.
\<close>

lemma shortestPath_all_own_costs:
  "\<exists>costs. shortestPath_all first_top (fork (\<lambda>e. if e = 0 then 1 else 10) (\<lambda>_. 2)) [0, 1] False = Some costs \<and>
     costs 1 = Some 10 \<and> path (fork (\<lambda>e. if e = 0 then 1 else 10) (\<lambda>_. 2)) {0, 1} [1, 0] 3"
proof -
  let ?G = "fork (\<lambda>e. if e = 0 then 1 else 10) (\<lambda>_. 2)"
  have "path ?G {0, 1} [1, 0] (1 + 2)"
    using path_step [OF path_start [of 0 "{0, 1}" ?G], of 1 1] by (simp add: fork_turn)
  moreover have "map_option (\<lambda>c. c 1) (shortestPath_all first_top ?G [0, 1] False) = Some (Some 10)"
    by code_simp
  ultimately show ?thesis by (cases "shortestPath_all first_top ?G [0, 1] False") auto
qed

end
