(* ===== verification/Gtfs_Feed.thy ===== *)
theory Gtfs_Feed
  imports Gtfs_Date Gtfs_Misc
begin

text \<open>
  The GTFS records (\<^verbatim>\<open>gtfs/agency.h\<close>, \<^verbatim>\<open>stop.h\<close>, \<^verbatim>\<open>route.h\<close>, \<^verbatim>\<open>trip.h\<close>, \<^verbatim>\<open>stop_time.h\<close>, \<^verbatim>\<open>calendar_item.h\<close>, ...), the feed that
  holds them, and the providers that index them (\<^verbatim>\<open>gtfs/feed.{h,cpp}\<close>).

  An enumerator is its integer code, because the reader casts arbitrary integers to the enumerations.  A
  \<^verbatim>\<open>std::map\<close> is an association list in key order.  The references that the providers hold are positions
  in the vector of stop times, or keys of the maps of routes and trips.  Every record has a reference to its
  feed, which is an argument here.
\<close>

section \<open>Records\<close>

type_synonym Id = string

record agency =
  ag_agency_id :: string
  ag_agency_name :: string
  ag_agency_url :: string
  ag_agency_timezone :: string
  ag_agency_lang :: string
  ag_agency_phone :: string
  ag_agency_fare_url :: string
  ag_agency_email :: string

record stop =
  sp_stop_id :: string
  sp_stop_name :: string
  sp_coordinates_present :: bool
  sp_stop_lat :: double
  sp_stop_lon :: double
  sp_zone_id :: string
  sp_parent_station :: string
  sp_stop_code :: string
  sp_stop_desc :: string
  sp_stop_url :: string
  sp_location_type :: int
  sp_stop_timezone :: string
  sp_wheelchair_boarding :: string
  sp_level_id :: string
  sp_platform_code :: string

definition stop_init :: stop where
  "stop_init = \<lparr>sp_stop_id = [], sp_stop_name = [], sp_coordinates_present = True, sp_stop_lat = Finite 0,
     sp_stop_lon = Finite 0, sp_zone_id = [], sp_parent_station = [], sp_stop_code = [], sp_stop_desc = [],
     sp_stop_url = [], sp_location_type = 3, sp_stop_timezone = [], sp_wheelchair_boarding = [],
     sp_level_id = [], sp_platform_code = []\<rparr>"

record route =
  rt_route_id :: string
  rt_route_type :: int
  rt_agency_id :: string
  rt_route_short_name :: string
  rt_route_long_name :: string
  rt_route_desc :: string
  rt_route_url :: string
  rt_route_color :: string
  rt_route_text_color :: string
  rt_route_sort_order :: u64

definition route_init :: route where
  "route_init = \<lparr>rt_route_id = [], rt_route_type = rt_code Tram, rt_agency_id = [],
     rt_route_short_name = [], rt_route_long_name = [], rt_route_desc = [], rt_route_url = [],
     rt_route_color = [], rt_route_text_color = [], rt_route_sort_order = 0\<rparr>"

record trip =
  tr_route_id :: string
  tr_service_id :: string
  tr_trip_id :: string
  tr_trip_headsign :: string
  tr_trip_short_name :: string
  tr_direction_id :: int
  tr_block_id :: string
  tr_shape_id :: string
  tr_wheelchair_accessible :: int
  tr_bikes_allowed :: int

definition trip_init :: trip where
  "trip_init = \<lparr>tr_route_id = [], tr_service_id = [], tr_trip_id = [], tr_trip_headsign = [],
     tr_trip_short_name = [], tr_direction_id = 0, tr_block_id = [], tr_shape_id = [],
     tr_wheelchair_accessible = 0, tr_bikes_allowed = 0\<rparr>"

record stop_time =
  st_trip_id :: string
  st_stop_id :: string
  st_stop_sequence :: u64
  st_arrival_time :: time
  st_departure_time :: time
  st_stop_headsign :: string
  st_pickup_type :: int
  st_drop_off_type :: int
  st_shape_dist_traveled :: double
  st_timepoint :: int

definition stop_time_init :: stop_time where
  "stop_time_init = \<lparr>st_trip_id = [], st_stop_id = [], st_stop_sequence = 0,
     st_arrival_time = time_default, st_departure_time = time_default, st_stop_headsign = [],
     st_pickup_type = 0, st_drop_off_type = 0, st_shape_dist_traveled = Finite 0, st_timepoint = 1\<rparr>"

record calendar_item =
  ci_service_id :: string
  ci_monday :: int
  ci_tuesday :: int
  ci_wednesday :: int
  ci_thursday :: int
  ci_friday :: int
  ci_saturday :: int
  ci_sunday :: int
  ci_start_date :: date
  ci_end_date :: date

record calendar_date =
  cd_service_id :: string
  cd_date :: date
  cd_exception_type :: int

record fare_rule =
  fr_fare_id :: string
  fr_route_id :: string
  fr_origin_id :: string
  fr_destination_id :: string
  fr_contains_id :: string

record fare_attributes_item =
  fa_fare_id :: string
  fa_price :: double
  fa_currency_type :: string
  fa_payment_method :: int
  fa_transfers :: int
  fa_agency_id :: string
  fa_transfer_duration :: u64

record shape_point =
  pt_shape_id :: string
  pt_shape_pt_lat :: double
  pt_shape_pt_lon :: double
  pt_shape_pt_sequence :: u64
  pt_shape_dist_traveled :: double

record shape =
  sh_shape_id :: string
  sh_points :: "shape_point list"

record frequency =
  fq_trip_id :: string
  fq_start_time :: time
  fq_end_time :: time
  fq_headway_secs :: u64
  fq_exact_times :: int

record transfer =
  tf_from_stop_id :: string
  tf_to_stop_id :: string
  tf_transfer_type :: int
  tf_min_transfer_time :: u64

definition agency_init :: agency where
  "agency_init = \<lparr>ag_agency_id = [], ag_agency_name = [], ag_agency_url = [], ag_agency_timezone = [],
     ag_agency_lang = [], ag_agency_phone = [], ag_agency_fare_url = [], ag_agency_email = []\<rparr>"

definition calendar_item_init :: calendar_item where
  "calendar_item_init = \<lparr>ci_service_id = [], ci_monday = 0, ci_tuesday = 0, ci_wednesday = 0, ci_thursday = 0,
     ci_friday = 0, ci_saturday = 0, ci_sunday = 0, ci_start_date = date_default, ci_end_date = date_default\<rparr>"

definition calendar_date_init :: calendar_date where
  "calendar_date_init = \<lparr>cd_service_id = [], cd_date = date_default, cd_exception_type = 1\<rparr>"

definition fare_rule_init :: fare_rule where
  "fare_rule_init = \<lparr>fr_fare_id = [], fr_route_id = [], fr_origin_id = [], fr_destination_id = [], fr_contains_id = []\<rparr>"

definition fare_attributes_item_init :: fare_attributes_item where
  "fare_attributes_item_init = \<lparr>fa_fare_id = [], fa_price = Finite 0, fa_currency_type = [], fa_payment_method = 1,
     fa_transfers = 3, fa_agency_id = [], fa_transfer_duration = 0\<rparr>"

definition shape_point_init :: shape_point where
  "shape_point_init = \<lparr>pt_shape_id = [], pt_shape_pt_lat = Finite 0, pt_shape_pt_lon = Finite 0,
     pt_shape_pt_sequence = 0, pt_shape_dist_traveled = Finite 0\<rparr>"

definition shape_init :: shape where
  "shape_init = \<lparr>sh_shape_id = [], sh_points = []\<rparr>"

definition frequency_init :: frequency where
  "frequency_init = \<lparr>fq_trip_id = [], fq_start_time = time_default, fq_end_time = time_default,
     fq_headway_secs = 0, fq_exact_times = 0\<rparr>"

definition transfer_init :: transfer where
  "transfer_init = \<lparr>tf_from_stop_id = [], tf_to_stop_id = [], tf_transfer_type = 0, tf_min_transfer_time = 0\<rparr>"

record feed_info =
  fi_feed_publisher_name :: string
  fi_feed_publisher_url :: string
  fi_feed_lang :: string
  fi_feed_start_date :: date
  fi_feed_end_date :: date
  fi_feed_version :: string
  fi_feed_contact_email :: string
  fi_feed_contact_url :: string

definition feed_info_init :: feed_info where
  "feed_info_init = \<lparr>fi_feed_publisher_name = [], fi_feed_publisher_url = [], fi_feed_lang = [],
     fi_feed_start_date = date_default, fi_feed_end_date = date_default, fi_feed_version = [],
     fi_feed_contact_email = [], fi_feed_contact_url = []\<rparr>"

section \<open>The feed\<close>

text \<open>\<open>std::map<Id, std::vector<std::reference_wrapper<T>>>\<close>.\<close>

type_synonym 'r index_map = "Id \<rightharpoonup> 'r list"

record feed =
  agencies :: "(Id \<times> agency) list"
  stops :: "(Id \<times> stop) list"
  routes :: "(Id \<times> route) list"
  trips :: "(Id \<times> trip) list"
  stop_times :: "stop_time list"
  calendar :: "(Id \<times> calendar_item) list"
  calendar_dates :: "(Id \<times> calendar_date) list"
  fare_rules :: "(Id \<times> fare_rule) list"
  fare_attributes :: "(Id \<times> fare_attributes_item) list"
  shapes :: "(Id \<times> shape) list"
  frequencies :: "frequency list"
  transfers :: "((Id \<times> Id) \<times> transfer) list"
  the_feed_info :: feed_info
  stop_based_map :: "nat index_map"
  trip_based_map :: "nat index_map"
  agency_based_map :: "Id index_map"
  route_based_map :: "Id index_map"

definition feed_init :: feed where
  "feed_init = \<lparr>agencies = [], stops = [], routes = [], trips = [], stop_times = [], calendar = [],
     calendar_dates = [], fare_rules = [], fare_attributes = [], shapes = [], frequencies = [],
     transfers = [], the_feed_info = feed_info_init, stop_based_map = Map.empty,
     trip_based_map = Map.empty, agency_based_map = Map.empty, route_based_map = Map.empty\<rparr>"

text \<open>\<^verbatim>\<open>m[k].push_back(r)\<close> and \<^verbatim>\<open>m.at(k)\<close>.\<close>

definition push_index :: "Id \<Rightarrow> 'r \<Rightarrow> 'r index_map \<Rightarrow> 'r index_map" where
  "push_index k r m = m(k \<mapsto> (case m k of None \<Rightarrow> [] | Some rs \<Rightarrow> rs) @ [r])"

definition map_at :: "('k \<rightharpoonup> 'v) \<Rightarrow> 'k \<Rightarrow> 'v res" where
  "map_at m k = (case m k of None \<Rightarrow> Inl (Out_of_range ''map::at'') | Some v \<Rightarrow> Inr v)"

definition stop_time_prepare :: "feed \<Rightarrow> feed" where
  "stop_time_prepare f =
     fold (\<lambda>i f. f\<lparr>trip_based_map := push_index (st_trip_id (stop_times f ! i)) i (trip_based_map f),
                  stop_based_map := push_index (st_stop_id (stop_times f ! i)) i (stop_based_map f)\<rparr>)
       [0..<length (stop_times f)] f"

definition routes_prepare :: "feed \<Rightarrow> feed" where
  "routes_prepare f =
     fold (\<lambda>(k, r) f. f\<lparr>agency_based_map := push_index (rt_agency_id r) k (agency_based_map f)\<rparr>) (routes f) f"

definition trips_prepare :: "feed \<Rightarrow> feed" where
  "trips_prepare f =
     fold (\<lambda>(k, t) f. f\<lparr>route_based_map := push_index (tr_route_id t) k (route_based_map f)\<rparr>) (trips f) f"

definition build :: "feed \<Rightarrow> feed" where
  "build f = trips_prepare (routes_prepare (stop_time_prepare f))"

definition get_for_stop :: "Id \<Rightarrow> feed \<Rightarrow> nat list res" where
  "get_for_stop i f = map_at (stop_based_map f) i"

definition get_for_trip :: "Id \<Rightarrow> feed \<Rightarrow> nat list res" where
  "get_for_trip i f = map_at (trip_based_map f) i"

definition get_for_agency :: "Id \<Rightarrow> feed \<Rightarrow> Id list res" where
  "get_for_agency i f = map_at (agency_based_map f) i"

definition get_for_route :: "Id \<Rightarrow> feed \<Rightarrow> Id list res" where
  "get_for_route i f = map_at (route_based_map f) i"

subsection \<open>Accessors of the records\<close>

definition agency_routes :: "agency \<Rightarrow> feed \<Rightarrow> Id list res" where
  "agency_routes a f = get_for_agency (ag_agency_id a) f"

definition route_agency :: "route \<Rightarrow> feed \<Rightarrow> agency option res" where
  "route_agency r f =
     (if rt_agency_id r = [] \<or> map_of (agencies f) (rt_agency_id r) \<noteq> None then Inr None
      else exn_bind (map_at (map_of (agencies f)) (rt_agency_id r)) (\<lambda>a. Inr (Some a)))"

definition route_trips :: "route \<Rightarrow> feed \<Rightarrow> Id list res" where
  "route_trips r f = get_for_route (rt_route_id r) f"

definition get_stop_times :: "stop \<Rightarrow> feed \<Rightarrow> nat list res" where
  "get_stop_times s f = get_for_stop (sp_stop_id s) f"

definition get_parent_station :: "stop \<Rightarrow> feed \<Rightarrow> stop option res" where
  "get_parent_station s f =
     (if map_of (stops f) (sp_parent_station s) \<noteq> None
      then exn_bind (map_at (map_of (stops f)) (sp_parent_station s)) (\<lambda>p. Inr (Some p))
      else Inr None)"

definition stop_time_stop :: "stop_time \<Rightarrow> feed \<Rightarrow> stop option res" where
  "stop_time_stop st f =
     (if map_of (stops f) (st_stop_id st) = None then Inr None
      else exn_bind (map_at (map_of (stops f)) (st_stop_id st)) (\<lambda>s. Inr (Some s)))"

definition stop_time_trip :: "stop_time \<Rightarrow> feed \<Rightarrow> trip option res" where
  "stop_time_trip st f =
     (if map_of (trips f) (st_trip_id st) = None then Inr None
      else exn_bind (map_at (map_of (trips f)) (st_trip_id st)) (\<lambda>t. Inr (Some t)))"

definition transfer_from_stop :: "transfer \<Rightarrow> feed \<Rightarrow> stop res" where
  "transfer_from_stop t f = map_at (map_of (stops f)) (tf_from_stop_id t)"

definition transfer_to_stop :: "transfer \<Rightarrow> feed \<Rightarrow> stop res" where
  "transfer_to_stop t f = map_at (map_of (stops f)) (tf_to_stop_id t)"

definition frequency_trip :: "frequency \<Rightarrow> feed \<Rightarrow> trip res" where
  "frequency_trip q f = map_at (map_of (trips f)) (fq_trip_id q)"

definition trip_route :: "trip \<Rightarrow> feed \<Rightarrow> route option res" where
  "trip_route t f =
     (if map_of (routes f) (tr_route_id t) = None then Inr None
      else exn_bind (map_at (map_of (routes f)) (tr_route_id t)) (\<lambda>r. Inr (Some r)))"

definition trip_shape :: "trip \<Rightarrow> feed \<Rightarrow> shape option res" where
  "trip_shape t f =
     (if map_of (shapes f) (tr_shape_id t) = None then Inr None
      else exn_bind (map_at (map_of (shapes f)) (tr_shape_id t)) (\<lambda>s. Inr (Some s)))"

definition trip_stop_times :: "trip \<Rightarrow> feed \<Rightarrow> nat list res" where
  "trip_stop_times t f = get_for_trip (tr_trip_id t) f"

section \<open>Lookups\<close>

lemma push_index_nth:
  "push_index k r m k' = (if k' = k then Some ((case m k of None \<Rightarrow> [] | Some rs \<Rightarrow> rs) @ [r]) else m k')"
  by (simp add: push_index_def)

text \<open>The index that pushing a list of keyed references builds.\<close>

lemma fold_push_index:
  "fold (\<lambda>x m. push_index (key x) (ref x) m) xs Map.empty k =
     (let rs = map ref (filter (\<lambda>x. key x = k) xs) in if rs = [] then None else Some rs)"
proof (induction xs rule: rev_induct)
  case (snoc x xs)
  define M where "M = fold (\<lambda>x m. push_index (key x) (ref x) m) xs Map.empty"
  have "fold (\<lambda>x m. push_index (key x) (ref x) m) (xs @ [x]) Map.empty = push_index (key x) (ref x) M"
    by (simp add: M_def)
  with snoc show ?case
    by (cases "k = key x") (auto simp: M_def [symmetric] push_index_nth Let_def)
qed simp

lemma stop_time_prepare_maps:
  "trip_based_map (stop_time_prepare f) =
     fold (\<lambda>i m. push_index (st_trip_id (stop_times f ! i)) i m) [0..<length (stop_times f)] (trip_based_map f)"
  "stop_based_map (stop_time_prepare f) =
     fold (\<lambda>i m. push_index (st_stop_id (stop_times f ! i)) i m) [0..<length (stop_times f)] (stop_based_map f)"
proof -
  define step where "step = (\<lambda>i f. f\<lparr>trip_based_map := push_index (st_trip_id (stop_times f ! i)) i (trip_based_map f),
      stop_based_map := push_index (st_stop_id (stop_times f ! i)) i (stop_based_map f)\<rparr> :: feed)"
  have "stop_times (fold step is g) = stop_times g \<and>
      trip_based_map (fold step is g) = fold (\<lambda>i m. push_index (st_trip_id (stop_times g ! i)) i m) is (trip_based_map g) \<and>
      stop_based_map (fold step is g) = fold (\<lambda>i m. push_index (st_stop_id (stop_times g ! i)) i m) is (stop_based_map g)"
    for "is" and g :: feed
    by (induction "is" arbitrary: g) (simp_all add: step_def)
  then show "trip_based_map (stop_time_prepare f) =
     fold (\<lambda>i m. push_index (st_trip_id (stop_times f ! i)) i m) [0..<length (stop_times f)] (trip_based_map f)"
    "stop_based_map (stop_time_prepare f) =
     fold (\<lambda>i m. push_index (st_stop_id (stop_times f ! i)) i m) [0..<length (stop_times f)] (stop_based_map f)"
    by (simp_all add: stop_time_prepare_def step_def)
qed

lemma stop_time_prepare_rest:
  "routes (stop_time_prepare f) = routes f \<and> agency_based_map (stop_time_prepare f) = agency_based_map f \<and>
   trips (stop_time_prepare f) = trips f \<and> route_based_map (stop_time_prepare f) = route_based_map f"
proof -
  have "routes (fold (\<lambda>i f. f\<lparr>trip_based_map := a i f, stop_based_map := b i f\<rparr>) is g) = routes g \<and>
      agency_based_map (fold (\<lambda>i f. f\<lparr>trip_based_map := a i f, stop_based_map := b i f\<rparr>) is g) = agency_based_map g \<and>
      trips (fold (\<lambda>i f. f\<lparr>trip_based_map := a i f, stop_based_map := b i f\<rparr>) is g) = trips g \<and>
      route_based_map (fold (\<lambda>i f. f\<lparr>trip_based_map := a i f, stop_based_map := b i f\<rparr>) is g) = route_based_map g"
    for a b and "is" :: "nat list" and g :: feed
    by (induction "is" arbitrary: g) auto
  then show ?thesis unfolding stop_time_prepare_def by simp
qed

lemma trips_prepare_maps:
  "trip_based_map (trips_prepare f) = trip_based_map f" "stop_based_map (trips_prepare f) = stop_based_map f"
  "agency_based_map (trips_prepare f) = agency_based_map f"
  "route_based_map (trips_prepare f) = fold (\<lambda>x m. push_index (tr_route_id (snd x)) (fst x) m) (trips f) (route_based_map f)"
proof -
  let ?step = "\<lambda>(k, t) f. f\<lparr>route_based_map := push_index (tr_route_id t) k (route_based_map f)\<rparr> :: feed"
  have "trip_based_map (fold ?step ts g) = trip_based_map g \<and>
      stop_based_map (fold ?step ts g) = stop_based_map g \<and>
      agency_based_map (fold ?step ts g) = agency_based_map g \<and>
      route_based_map (fold ?step ts g) =
        fold (\<lambda>x m. push_index (tr_route_id (snd x)) (fst x) m) ts (route_based_map g)" for ts and g :: feed
    by (induction ts arbitrary: g) auto
  then show "trip_based_map (trips_prepare f) = trip_based_map f" "stop_based_map (trips_prepare f) = stop_based_map f"
    "agency_based_map (trips_prepare f) = agency_based_map f"
    "route_based_map (trips_prepare f) = fold (\<lambda>x m. push_index (tr_route_id (snd x)) (fst x) m) (trips f) (route_based_map f)"
    unfolding trips_prepare_def by blast+
qed

lemma routes_prepare_maps:
  "trip_based_map (routes_prepare f) = trip_based_map f" "stop_based_map (routes_prepare f) = stop_based_map f"
  "trips (routes_prepare f) = trips f" "route_based_map (routes_prepare f) = route_based_map f"
  "agency_based_map (routes_prepare f) = fold (\<lambda>x m. push_index (rt_agency_id (snd x)) (fst x) m) (routes f) (agency_based_map f)"
proof -
  have "trip_based_map (fold (\<lambda>(k, r) f. f\<lparr>agency_based_map := push_index (rt_agency_id r) k (agency_based_map f)\<rparr>) rs g) = trip_based_map g \<and>
    stop_based_map (fold (\<lambda>(k, r) f. f\<lparr>agency_based_map := push_index (rt_agency_id r) k (agency_based_map f)\<rparr>) rs g) = stop_based_map g \<and>
    trips (fold (\<lambda>(k, r) f. f\<lparr>agency_based_map := push_index (rt_agency_id r) k (agency_based_map f)\<rparr>) rs g) = trips g \<and>
    route_based_map (fold (\<lambda>(k, r) f. f\<lparr>agency_based_map := push_index (rt_agency_id r) k (agency_based_map f)\<rparr>) rs g) = route_based_map g \<and>
    agency_based_map (fold (\<lambda>(k, r) f. f\<lparr>agency_based_map := push_index (rt_agency_id r) k (agency_based_map f)\<rparr>) rs g) =
      fold (\<lambda>x m. push_index (rt_agency_id (snd x)) (fst x) m) rs (agency_based_map g)" for rs and g :: feed
    by (induction rs arbitrary: g) auto
  then show "trip_based_map (routes_prepare f) = trip_based_map f" "stop_based_map (routes_prepare f) = stop_based_map f"
  "trips (routes_prepare f) = trips f" "route_based_map (routes_prepare f) = route_based_map f"
  "agency_based_map (routes_prepare f) = fold (\<lambda>x m. push_index (rt_agency_id (snd x)) (fst x) m) (routes f) (agency_based_map f)"
    unfolding routes_prepare_def by blast+
qed

text \<open>The index of the references of \<open>xs\<close> by key, as \<open>at\<close> sees it.\<close>

definition index_of :: "('x \<Rightarrow> Id) \<Rightarrow> ('x \<Rightarrow> 'r) \<Rightarrow> 'x list \<Rightarrow> Id \<Rightarrow> 'r list res" where
  "index_of key ref xs i =
     (let rs = map ref (filter (\<lambda>x. key x = i) xs) in if rs = [] then Inl (Out_of_range ''map::at'') else Inr rs)"

lemma map_at_fold_push_index:
  "map_at (fold (\<lambda>x m. push_index (key x) (ref x) m) xs Map.empty) i = index_of key ref xs i"
  by (simp add: map_at_def fold_push_index index_of_def Let_def)

text \<open>
  Building a fresh feed makes the providers exact: the stop times of a trip, and of a stop, are those that name
  it, in the order of the file; the routes of an agency and the trips of a route are those that name it, in key
  order; and asking for one that nothing names throws.
\<close>

lemma build_indexes:
  assumes "trip_based_map f = Map.empty" "stop_based_map f = Map.empty" "agency_based_map f = Map.empty"
    "route_based_map f = Map.empty"
  shows "get_for_trip i (build f) = index_of (\<lambda>j. st_trip_id (stop_times f ! j)) (\<lambda>j. j) [0..<length (stop_times f)] i"
    "get_for_stop i (build f) = index_of (\<lambda>j. st_stop_id (stop_times f ! j)) (\<lambda>j. j) [0..<length (stop_times f)] i"
    "get_for_agency i (build f) = index_of (\<lambda>x. rt_agency_id (snd x)) fst (routes f) i"
    "get_for_route i (build f) = index_of (\<lambda>x. tr_route_id (snd x)) fst (trips f) i"
  using stop_time_prepare_rest [of f]
  by (simp_all add: get_for_trip_def get_for_stop_def get_for_agency_def get_for_route_def build_def
      trips_prepare_maps routes_prepare_maps stop_time_prepare_maps assms map_at_fold_push_index)

text \<open>Building changes nothing but the indexes.\<close>

definition feed_data :: "feed \<Rightarrow> feed" where
  "feed_data f = f\<lparr>stop_based_map := Map.empty, trip_based_map := Map.empty,
     agency_based_map := Map.empty, route_based_map := Map.empty\<rparr>"

lemma fold_unchanged: "(\<And>x h. P (step x h) = P h) \<Longrightarrow> P (fold step xs g) = P g"
  by (induction xs arbitrary: g) simp_all

lemma feed_data_build: "feed_data (build f) = feed_data f"
proof -
  have "feed_data (stop_time_prepare f) = feed_data f" for f
    unfolding stop_time_prepare_def by (rule fold_unchanged) (simp add: feed_data_def)
  moreover have "feed_data (routes_prepare f) = feed_data f" for f
    unfolding routes_prepare_def by (rule fold_unchanged) (simp add: feed_data_def split: prod.split)
  moreover have "feed_data (trips_prepare f) = feed_data f" for f
    unfolding trips_prepare_def by (rule fold_unchanged) (simp add: feed_data_def split: prod.split)
  ultimately show ?thesis by (simp add: build_def)
qed

lemma feed_data_select:
  assumes "feed_data f = feed_data g"
  shows "agencies f = agencies g" "stops f = stops g" "routes f = routes g" "trips f = trips g"
    "stop_times f = stop_times g" "calendar f = calendar g" "calendar_dates f = calendar_dates g"
    "fare_rules f = fare_rules g" "fare_attributes f = fare_attributes g" "shapes f = shapes g"
    "frequencies f = frequencies g" "transfers f = transfers g" "the_feed_info f = the_feed_info g"
proof -
  note sels = arg_cong [OF assms, of agencies] arg_cong [OF assms, of stops] arg_cong [OF assms, of routes]
    arg_cong [OF assms, of trips] arg_cong [OF assms, of stop_times] arg_cong [OF assms, of calendar]
    arg_cong [OF assms, of calendar_dates] arg_cong [OF assms, of fare_rules] arg_cong [OF assms, of fare_attributes]
    arg_cong [OF assms, of shapes] arg_cong [OF assms, of frequencies] arg_cong [OF assms, of transfers]
    arg_cong [OF assms, of the_feed_info]
  show "agencies f = agencies g" "stops f = stops g" "routes f = routes g" "trips f = trips g"
    "stop_times f = stop_times g" "calendar f = calendar g" "calendar_dates f = calendar_dates g"
    "fare_rules f = fare_rules g" "fare_attributes f = fare_attributes g" "shapes f = shapes g"
    "frequencies f = frequencies g" "transfers f = transfers g" "the_feed_info f = the_feed_info g"
    using sels by (simp_all add: feed_data_def)
qed

lemmas build_data = feed_data_select [OF feed_data_build]

text \<open>
  Asking a route for its agency never yields the agency: if the feed has it, the answer is empty, and if the
  feed does not have it, the lookup throws, because the test of its presence is inverted.
\<close>

theorem route_agency_never_found:
  "route_agency r f =
     (if rt_agency_id r = [] \<or> rt_agency_id r \<in> fst ` set (agencies f) then Inr None
      else Inl (Out_of_range ''map::at''))"
proof (cases "map_of (agencies f) (rt_agency_id r)")
  case None
  then show ?thesis by (auto simp: route_agency_def map_at_def map_of_eq_None_iff [symmetric])
next
  case (Some a)
  then have "rt_agency_id r \<in> fst ` set (agencies f)" by (metis domI dom_map_of_conv_image_fst)
  with Some show ?thesis by (simp add: route_agency_def)
qed

text \<open>
  The other accessors follow the references: a trip's route and shape, a stop time's stop and trip and a stop's
  parent station are the entries of the feed under the record's key, absent when the feed has none, and
  never throw.
\<close>

lemma record_references_resolve:
  "trip_route t f = Inr (map_of (routes f) (tr_route_id t)) \<and>
   trip_shape t f = Inr (map_of (shapes f) (tr_shape_id t)) \<and>
   stop_time_stop st f = Inr (map_of (stops f) (st_stop_id st)) \<and>
   stop_time_trip st f = Inr (map_of (trips f) (st_trip_id st)) \<and>
   get_parent_station s f = Inr (map_of (stops f) (sp_parent_station s))"
  by (auto simp: trip_route_def trip_shape_def stop_time_stop_def stop_time_trip_def
      get_parent_station_def map_at_def split: option.split)

end
