(* ===== verification/Feed_Reader.thy ===== *)
theory Feed_Reader
  imports Csv_Parser Gtfs_Feed
begin

text \<open>
  \<^verbatim>\<open>gtfs/access/feed_reader.cpp\<close>: the handlers that turn a row of each GTFS file into a record of the feed, the loop
  that runs a handler over a file, and the reader that goes through the files.

  A handler is a function of the row and the feed.  It returns its \<^typ>\<open>result\<close> and the feed, or the exception that leaves
  it.  \<^verbatim>\<open>parse_csv\<close> and \<^verbatim>\<open>read\<close> are \<^verbatim>\<open>noexcept\<close>: an exception that reaches them ends the process, which is the value
  \<^const>\<open>None\<close>.
\<close>

section \<open>Fields of a row\<close>

definition row_at :: "parsed_csv_row \<Rightarrow> string \<Rightarrow> string res" where
  "row_at row key = map_at (map_of row) key"

definition get_value_or_default :: "parsed_csv_row \<Rightarrow> string \<Rightarrow> string \<Rightarrow> string" where
  "get_value_or_default container key default_value =
     (case map_of container key of None \<Rightarrow> default_value | Some v \<Rightarrow> v)"

abbreviation get_value :: "parsed_csv_row \<Rightarrow> string \<Rightarrow> string" where
  "get_value container key \<equiv> get_value_or_default container key []"

text \<open>
  \<open>set_field\<close> returns the new value of the field; \<open>cast\<close> is the \<^verbatim>\<open>static_cast\<close> of the \<^verbatim>\<open>int\<close> to the field's type: the
  integer itself for an enumeration, and its value modulo \<open>2\<^sup>6\<^sup>4\<close> for \<^verbatim>\<open>size_t\<close>.
\<close>

definition set_field :: "(int \<Rightarrow> 'a) \<Rightarrow> 'a \<Rightarrow> parsed_csv_row \<Rightarrow> string \<Rightarrow> bool \<Rightarrow> 'a res" where
  "set_field cast field container key is_optional =
     (let key_str = get_value container key
      in if key_str \<noteq> [] \<or> \<not> is_optional then exn_bind (stoi key_str) (\<lambda>i. Inr (cast i)) else Inr field)"

definition to_enum :: "int \<Rightarrow> int" where
  "to_enum i = i"

definition to_size :: "int \<Rightarrow> u64" where
  "to_size i = word_of_int i"

definition set_fractional :: "double \<Rightarrow> parsed_csv_row \<Rightarrow> string \<Rightarrow> bool \<Rightarrow> (double \<times> bool) res" where
  "set_fractional field container key is_optional =
     (let key_str = get_value container key
      in if key_str \<noteq> [] \<or> \<not> is_optional then exn_bind (stod key_str) (\<lambda>d. Inr (d, True)) else Inr (field, False))"

definition check_coordinates :: "double \<Rightarrow> double \<Rightarrow> unit res" where
  "check_coordinates latitude longitude =
     (if double_less latitude (Finite (- 90)) \<or> double_less (Finite 90) latitude
      then Inl (Out_of_range ''Latitude'')
      else if double_less longitude (Finite (- 180)) \<or> double_less (Finite 180) longitude
      then Inl (Out_of_range ''Longitude'')
      else Inr ())"

section \<open>Handlers\<close>

type_synonym handler = "parsed_csv_row \<Rightarrow> feed \<Rightarrow> (result \<times> feed) res"

text \<open>
  The three lists of \<^verbatim>\<open>catch\<close> clauses that the handlers have.  Each clause returns from the handler with an error
  whose message is \<^verbatim>\<open>what()\<close> of the exception.
\<close>

definition catch_range :: "cpp_exn \<Rightarrow> result option" where
  "catch_range e = (case e of
       Out_of_range m \<Rightarrow> Some (mk_result ERROR_REQUIRED_FIELD_ABSENT m)
     | _ \<Rightarrow> None)"

definition catch_std :: "cpp_exn \<Rightarrow> result option" where
  "catch_std e = (case e of
       Out_of_range m \<Rightarrow> Some (mk_result ERROR_REQUIRED_FIELD_ABSENT m)
     | Invalid_argument m \<Rightarrow> Some (mk_result ERROR_INVALID_FIELD_FORMAT m)
     | _ \<Rightarrow> None)"

definition catch_all :: "cpp_exn \<Rightarrow> result option" where
  "catch_all e = (case e of
       Out_of_range m \<Rightarrow> Some (mk_result ERROR_REQUIRED_FIELD_ABSENT m)
     | Invalid_argument m \<Rightarrow> Some (mk_result ERROR_INVALID_FIELD_FORMAT m)
     | Invalid_field_format m \<Rightarrow> Some (mk_result ERROR_INVALID_FIELD_FORMAT (''Invalid GTFS field format. '' @ m))
     | Std_exception \<Rightarrow> None)"

text \<open>A \<^verbatim>\<open>try\<close> block with its clauses, and the code that follows it.\<close>

definition try_catch :: "(cpp_exn \<Rightarrow> result option) \<Rightarrow> 'a res \<Rightarrow> feed \<Rightarrow> ('a \<Rightarrow> (result \<times> feed) res) \<Rightarrow> (result \<times> feed) res" where
  "try_catch clauses block f continue =
     (case block of
        Inr x \<Rightarrow> continue x
      | Inl e \<Rightarrow> (case clauses e of Some r \<Rightarrow> Inr (r, f) | None \<Rightarrow> Inl e))"

text \<open>The counter of \<open>read_agencies\<close> stays zero: nothing increments it.\<close>

definition add_agency :: handler where
  "add_agency row f =
     (let a = agency_init\<lparr>ag_agency_id := get_value_or_default row ''agency_id'' (int_to_string 0)\<rparr> in
      try_catch catch_range
        (exn_bind (row_at row ''agency_name'') (\<lambda>nm.
         exn_bind (row_at row ''agency_url'') (\<lambda>url.
         exn_bind (row_at row ''agency_timezone'') (\<lambda>tz.
         Inr (a\<lparr>ag_agency_name := nm, ag_agency_url := url, ag_agency_timezone := tz\<rparr>)))))
        f
        (\<lambda>a. let a = a\<lparr>ag_agency_lang := get_value row ''agency_lang'',
                       ag_agency_phone := get_value row ''agency_phone'',
                       ag_agency_fare_url := get_value row ''agency_fare_url'',
                       ag_agency_email := get_value row ''agency_email''\<rparr>
             in Inr (mk_result OK [], f\<lparr>agencies := map_insert str_less (ag_agency_id a, a) (agencies f)\<rparr>)))"

definition add_stop :: handler where
  "add_stop row f =
     try_catch catch_std
       (exn_bind (row_at row ''stop_id'') (\<lambda>i.
        exn_bind (set_fractional (sp_stop_lon stop_init) row ''stop_lon'' True) (\<lambda>(lon, set_lon).
        exn_bind (set_fractional (sp_stop_lat stop_init) row ''stop_lat'' True) (\<lambda>(lat, set_lat).
        Inr (stop_init\<lparr>sp_stop_id := i, sp_stop_lon := lon, sp_stop_lat := lat,
               sp_coordinates_present := set_lon \<and> set_lat\<rparr>)))))
       f
       (\<lambda>s. exn_bind (set_field to_enum (sp_location_type s) row ''location_type'' True) (\<lambda>lt.
        let s = s\<lparr>sp_stop_name := get_value row ''stop_name'',
                  sp_parent_station := get_value row ''parent_station'',
                  sp_zone_id := get_value row ''zone_id'',
                  sp_stop_code := get_value row ''stop_code'',
                  sp_stop_desc := get_value row ''stop_desc'',
                  sp_stop_url := get_value row ''stop_url'',
                  sp_location_type := lt,
                  sp_stop_timezone := get_value row ''stop_timezone'',
                  sp_wheelchair_boarding := get_value row ''wheelchair_boarding'',
                  sp_level_id := get_value row ''level_id'',
                  sp_platform_code := get_value row ''platform_code''\<rparr>
        in Inr (mk_result OK [], f\<lparr>stops := map_insert str_less (sp_stop_id s, s) (stops f)\<rparr>)))"

definition add_route :: handler where
  "add_route row f =
     try_catch catch_std
       (exn_bind (row_at row ''route_id'') (\<lambda>i.
        exn_bind (set_field to_enum (rt_route_type route_init) row ''route_type'' False) (\<lambda>ty.
        exn_bind (set_field to_size (rt_route_sort_order route_init) row ''route_sort_order'' True) (\<lambda>so.
        Inr (route_init\<lparr>rt_route_id := i, rt_route_type := ty, rt_route_sort_order := so\<rparr>)))))
       f
       (\<lambda>r. let r = r\<lparr>rt_agency_id := get_value row ''agency_id'',
                      rt_route_short_name := get_value row ''route_short_name'',
                      rt_route_long_name := get_value row ''route_long_name''\<rparr>
        in if rt_route_short_name r = [] \<and> rt_route_long_name r = []
           then Inr (mk_result ERROR_REQUIRED_FIELD_ABSENT
                      ([CHR 0x27] @ ''route_short_name'' @ [CHR 0x27] @ '' or '' @ [CHR 0x27] @
                       ''route_long_name'' @ [CHR 0x27] @ '' must be specified''), f)
           else (let r = r\<lparr>rt_route_color := get_value row ''route_color'',
                           rt_route_text_color := get_value row ''route_text_color'',
                           rt_route_desc := get_value row ''route_desc'',
                           rt_route_url := get_value row ''route_url''\<rparr>
                 in Inr (mk_result OK [], f\<lparr>routes := map_insert str_less (rt_route_id r, r) (routes f)\<rparr>)))"

definition add_trip :: handler where
  "add_trip row f =
     try_catch catch_std
       (exn_bind (row_at row ''route_id'') (\<lambda>rid.
        exn_bind (row_at row ''service_id'') (\<lambda>sid.
        exn_bind (row_at row ''trip_id'') (\<lambda>tid.
        exn_bind (set_field to_enum (tr_direction_id trip_init) row ''direction_id'' True) (\<lambda>dir.
        exn_bind (set_field to_enum (tr_wheelchair_accessible trip_init) row ''wheelchair_accessible'' True) (\<lambda>wa.
        exn_bind (set_field to_enum (tr_bikes_allowed trip_init) row ''bikes_allowed'' True) (\<lambda>ba.
        Inr (trip_init\<lparr>tr_route_id := rid, tr_service_id := sid, tr_trip_id := tid, tr_direction_id := dir,
               tr_wheelchair_accessible := wa, tr_bikes_allowed := ba\<rparr>))))))))
       f
       (\<lambda>t. let t = t\<lparr>tr_shape_id := get_value row ''shape_id'',
                      tr_trip_headsign := get_value row ''trip_headsign'',
                      tr_trip_short_name := get_value row ''trip_short_name'',
                      tr_block_id := get_value row ''block_id''\<rparr>
        in Inr (mk_result OK [], f\<lparr>trips := map_insert str_less (tr_trip_id t, t) (trips f)\<rparr>))"

definition add_stop_time :: handler where
  "add_stop_time row f =
     try_catch catch_all
       (exn_bind (row_at row ''trip_id'') (\<lambda>tid.
        exn_bind (row_at row ''stop_id'') (\<lambda>sid.
        exn_bind (exn_bind (row_at row ''stop_sequence'') stoi) (\<lambda>sq.
        exn_bind (exn_bind (row_at row ''departure_time'') time_of_string) (\<lambda>dep.
        exn_bind (exn_bind (row_at row ''arrival_time'') time_of_string) (\<lambda>arr.
        exn_bind (set_field to_enum (st_pickup_type stop_time_init) row ''pickup_type'' True) (\<lambda>pu.
        exn_bind (set_field to_enum (st_drop_off_type stop_time_init) row ''drop_off_type'' True) (\<lambda>dr.
        exn_bind (set_fractional (st_shape_dist_traveled stop_time_init) row ''shape_dist_traveled'' True) (\<lambda>(dist, _).
        if double_less dist (Finite 0) then Inl (Invalid_argument ''Invalid shape_dist_traveled'')
        else exn_bind (set_field to_enum (st_timepoint stop_time_init) row ''timepoint'' True) (\<lambda>tp.
        Inr (stop_time_init\<lparr>st_trip_id := tid, st_stop_id := sid, st_stop_sequence := to_size sq,
               st_departure_time := dep, st_arrival_time := arr, st_pickup_type := pu, st_drop_off_type := dr,
               st_shape_dist_traveled := dist, st_timepoint := tp\<rparr>)))))))))))
       f
       (\<lambda>st. let st = st\<lparr>st_stop_headsign := get_value row ''stop_headsign''\<rparr>
        in Inr (mk_result OK [], f\<lparr>stop_times := stop_times f @ [st]\<rparr>))"

definition add_calendar_item :: handler where
  "add_calendar_item row f =
     try_catch catch_all
       (exn_bind (row_at row ''service_id'') (\<lambda>sid.
        exn_bind (set_field to_enum 0 row ''monday'' False) (\<lambda>mo.
        exn_bind (set_field to_enum 0 row ''tuesday'' False) (\<lambda>tu.
        exn_bind (set_field to_enum 0 row ''wednesday'' False) (\<lambda>we.
        exn_bind (set_field to_enum 0 row ''thursday'' False) (\<lambda>th.
        exn_bind (set_field to_enum 0 row ''friday'' False) (\<lambda>fr.
        exn_bind (set_field to_enum 0 row ''saturday'' False) (\<lambda>sa.
        exn_bind (set_field to_enum 0 row ''sunday'' False) (\<lambda>su.
        exn_bind (exn_bind (row_at row ''start_date'') date_of_string) (\<lambda>sd.
        exn_bind (exn_bind (row_at row ''end_date'') date_of_string) (\<lambda>ed.
        Inr (calendar_item_init\<lparr>ci_service_id := sid, ci_monday := mo, ci_tuesday := tu, ci_wednesday := we,
               ci_thursday := th, ci_friday := fr, ci_saturday := sa, ci_sunday := su, ci_start_date := sd,
               ci_end_date := ed\<rparr>))))))))))))
       f
       (\<lambda>c. Inr (mk_result OK [], f\<lparr>calendar := map_insert str_less (ci_service_id c, c) (calendar f)\<rparr>))"

definition add_calendar_date :: handler where
  "add_calendar_date row f =
     try_catch catch_all
       (exn_bind (row_at row ''service_id'') (\<lambda>sid.
        exn_bind (set_field to_enum (cd_exception_type calendar_date_init) row ''exception_type'' False) (\<lambda>et.
        exn_bind (exn_bind (row_at row ''date'') date_of_string) (\<lambda>d.
        Inr (calendar_date_init\<lparr>cd_service_id := sid, cd_exception_type := et, cd_date := d\<rparr>)))))
       f
       (\<lambda>c. Inr (mk_result OK [], f\<lparr>calendar_dates := map_insert str_less (cd_service_id c, c) (calendar_dates f)\<rparr>))"

definition add_fare_rule :: handler where
  "add_fare_rule row f =
     try_catch catch_all
       (exn_bind (row_at row ''fare_id'') (\<lambda>i. Inr (fare_rule_init\<lparr>fr_fare_id := i\<rparr>)))
       f
       (\<lambda>r. let r = r\<lparr>fr_route_id := get_value row ''route_id'',
                      fr_origin_id := get_value row ''origin_id'',
                      fr_destination_id := get_value row ''destination_id'',
                      fr_contains_id := get_value row ''contains_id''\<rparr>
        in Inr (mk_result OK [], f\<lparr>fare_rules := map_insert str_less (fr_fare_id r, r) (fare_rules f)\<rparr>))"

definition add_fare_attributes :: handler where
  "add_fare_attributes row f =
     try_catch catch_all
       (exn_bind (row_at row ''fare_id'') (\<lambda>i.
        exn_bind (set_fractional (fa_price fare_attributes_item_init) row ''price'' False) (\<lambda>(pr, _).
        exn_bind (row_at row ''currency_type'') (\<lambda>cur.
        exn_bind (set_field to_enum (fa_payment_method fare_attributes_item_init) row ''payment_method'' False) (\<lambda>pm.
        exn_bind (set_field to_enum (fa_transfers fare_attributes_item_init) row ''transfers'' False) (\<lambda>tr.
        let item = fare_attributes_item_init\<lparr>fa_fare_id := i, fa_price := pr, fa_currency_type := cur,
               fa_payment_method := pm, fa_transfers := tr, fa_agency_id := get_value row ''agency_id''\<rparr> in
        exn_bind (set_field to_size (fa_transfer_duration item) row ''transfer_duration'' True) (\<lambda>td.
        Inr (item\<lparr>fa_transfer_duration := td\<rparr>))))))))
       f
       (\<lambda>a. Inr (mk_result OK [], f\<lparr>fare_attributes := map_insert str_less (fa_fare_id a, a) (fare_attributes f)\<rparr>))"

text \<open>\<^verbatim>\<open>m[k]\<close> makes the entry if there is none; \<open>map_put\<close> writes the entry that it refers to.\<close>

definition map_put :: "('k \<Rightarrow> 'k \<Rightarrow> bool) \<Rightarrow> 'k \<Rightarrow> 'a \<Rightarrow> ('k \<times> 'a) list \<Rightarrow> ('k \<times> 'a) list" where
  "map_put lt k v m = (if map_of m k = None then place_key lt (k, v) m else AList.update k v m)"

definition push_shape_point :: "shape_point \<Rightarrow> feed \<Rightarrow> feed" where
  "push_shape_point pt f =
     (let sh = (case map_of (shapes f) (pt_shape_id pt) of None \<Rightarrow> shape_init | Some sh \<Rightarrow> sh);
          sh = (if sh_points sh = [] then sh\<lparr>sh_shape_id := pt_shape_id pt\<rparr> else sh);
          sh = sh\<lparr>sh_points := sh_points sh @ [pt]\<rparr>
      in f\<lparr>shapes := map_put str_less (pt_shape_id pt) sh (shapes f)\<rparr>)"

definition add_shape_point :: handler where
  "add_shape_point row f =
     try_catch catch_std
       (exn_bind (row_at row ''shape_id'') (\<lambda>i.
        exn_bind (exn_bind (row_at row ''shape_pt_sequence'') stoi) (\<lambda>sq.
        exn_bind (exn_bind (row_at row ''shape_pt_lon'') stod) (\<lambda>lon.
        exn_bind (exn_bind (row_at row ''shape_pt_lat'') stod) (\<lambda>lat.
        exn_bind (check_coordinates lat lon) (\<lambda>_.
        exn_bind (set_fractional (pt_shape_dist_traveled shape_point_init) row ''shape_dist_traveled'' True) (\<lambda>(dist, _).
        if double_less dist (Finite 0) then Inl (Invalid_argument ''Invalid shape_dist_traveled'')
        else Inr (shape_point_init\<lparr>pt_shape_id := i, pt_shape_pt_sequence := to_size sq, pt_shape_pt_lon := lon,
               pt_shape_pt_lat := lat, pt_shape_dist_traveled := dist\<rparr>))))))))
       f
       (\<lambda>pt. Inr (mk_result OK [], push_shape_point pt f))"

definition add_frequency :: handler where
  "add_frequency row f =
     try_catch catch_all
       (exn_bind (row_at row ''trip_id'') (\<lambda>tid.
        exn_bind (exn_bind (row_at row ''start_time'') time_of_string) (\<lambda>st.
        exn_bind (exn_bind (row_at row ''end_time'') time_of_string) (\<lambda>et.
        exn_bind (set_field to_size (fq_headway_secs frequency_init) row ''headway_secs'' False) (\<lambda>hw.
        exn_bind (set_field to_enum (fq_exact_times frequency_init) row ''exact_times'' True) (\<lambda>ex.
        Inr (frequency_init\<lparr>fq_trip_id := tid, fq_start_time := st, fq_end_time := et, fq_headway_secs := hw,
               fq_exact_times := ex\<rparr>)))))))
       f
       (\<lambda>q. Inr (mk_result OK [], f\<lparr>frequencies := frequencies f @ [q]\<rparr>))"

text \<open>\<^verbatim>\<open>std::tuple\<close> is ordered lexicographically.\<close>

definition id_pair_less :: "Id \<times> Id \<Rightarrow> Id \<times> Id \<Rightarrow> bool" where
  "id_pair_less a b \<longleftrightarrow> str_less (fst a) (fst b) \<or> \<not> str_less (fst b) (fst a) \<and> str_less (snd a) (snd b)"

definition add_transfer :: handler where
  "add_transfer row f =
     try_catch catch_all
       (exn_bind (row_at row ''from_stop_id'') (\<lambda>fs.
        exn_bind (row_at row ''to_stop_id'') (\<lambda>ts.
        exn_bind (set_field to_enum (tf_transfer_type transfer_init) row ''transfer_type'' False) (\<lambda>ty.
        exn_bind (set_field to_size (tf_min_transfer_time transfer_init) row ''min_transfer_time'' True) (\<lambda>mt.
        Inr (transfer_init\<lparr>tf_from_stop_id := fs, tf_to_stop_id := ts, tf_transfer_type := ty,
               tf_min_transfer_time := mt\<rparr>))))))
       f
       (\<lambda>t. Inr (mk_result OK [],
          f\<lparr>transfers := map_insert id_pair_less ((tf_from_stop_id t, tf_to_stop_id t), t) (transfers f)\<rparr>))"

text \<open>
  The feed information is written in place, so the assignments before a failing one stay.  \<open>assign\<close> is one
  assignment of the block: it stops the block with the exception and the state reached.
\<close>

definition assign :: "'v res \<Rightarrow> ('v \<Rightarrow> feed_info \<Rightarrow> feed_info) \<Rightarrow>
    (cpp_exn \<times> feed_info) + feed_info \<Rightarrow> (cpp_exn \<times> feed_info) + feed_info" where
  "assign v upd st = exn_bind st (\<lambda>i. case v of Inl e \<Rightarrow> Inl (e, i) | Inr x \<Rightarrow> Inr (upd x i))"

definition add_feed_info :: handler where
  "add_feed_info row f =
     (let block =
        assign (date_of_string (get_value row ''feed_end_date'')) (\<lambda>d i. i\<lparr>fi_feed_end_date := d\<rparr>)
       (assign (date_of_string (get_value row ''feed_start_date'')) (\<lambda>d i. i\<lparr>fi_feed_start_date := d\<rparr>)
       (assign (row_at row ''feed_lang'') (\<lambda>s i. i\<lparr>fi_feed_lang := s\<rparr>)
       (assign (row_at row ''feed_publisher_url'') (\<lambda>s i. i\<lparr>fi_feed_publisher_url := s\<rparr>)
       (assign (row_at row ''feed_publisher_name'') (\<lambda>s i. i\<lparr>fi_feed_publisher_name := s\<rparr>)
       (Inr (the_feed_info f))))))
      in case block of
        Inl (e, i) \<Rightarrow> (case catch_all e of Some r \<Rightarrow> Inr (r, f\<lparr>the_feed_info := i\<rparr>) | None \<Rightarrow> Inl e)
      | Inr i \<Rightarrow>
          Inr (mk_result OK [], f\<lparr>the_feed_info :=
            i\<lparr>fi_feed_version := get_value row ''feed_version'',
              fi_feed_contact_email := get_value row ''feed_contact_email'',
              fi_feed_contact_url := get_value row ''feed_contact_url''\<rparr>\<rparr>))"

section \<open>Files\<close>

definition file_agency :: string where "file_agency = ''agency.txt''"
definition file_stops :: string where "file_stops = ''stops.txt''"
definition file_routes :: string where "file_routes = ''routes.txt''"
definition file_trips :: string where "file_trips = ''trips.txt''"
definition file_stop_times :: string where "file_stop_times = ''stop_times.txt''"
definition file_calendar :: string where "file_calendar = ''calendar.txt''"
definition file_calendar_dates :: string where "file_calendar_dates = ''calendar_dates.txt''"
definition file_fare_attributes :: string where "file_fare_attributes = ''fare_attributes.txt''"
definition file_fare_rules :: string where "file_fare_rules = ''fare_rules.txt''"
definition file_shapes :: string where "file_shapes = ''shapes.txt''"
definition file_frequencies :: string where "file_frequencies = ''frequencies.txt''"
definition file_transfers :: string where "file_transfers = ''transfers.txt''"
definition file_feed_info :: string where "file_feed_info = ''feed_info.txt''"

lemmas file_defs = file_agency_def file_stops_def file_routes_def file_trips_def file_stop_times_def
  file_calendar_def file_calendar_dates_def file_fare_attributes_def file_fare_rules_def file_shapes_def
  file_frequencies_def file_transfers_def file_feed_info_def

lemma read_row_shorter:
  assumes "read_row p = (r, obj, p')" "code r \<noteq> END_OF_FILE"
  shows "length (the (csv_stream p')) < length (the (csv_stream p))"
  using assms by (auto simp: read_row_def mk_result_def Let_def bind_eq_Some_conv
      split: option.splits if_splits dest!: getline_sep_shorter)

text \<open>The loop over the rows; every row consumes part of the stream.\<close>

function parse_rows :: "handler \<Rightarrow> string \<Rightarrow> csv_parser \<Rightarrow> feed \<Rightarrow> (result \<times> feed) res" where
  "parse_rows add_entity filename p f =
     (case read_row p of (res_row, row, p') \<Rightarrow>
        if code res_row = END_OF_FILE then Inr (mk_result OK (''Parsed '' @ filename), f)
        else if code res_row \<noteq> OK then Inr (res_row, f)
        else if row = [] then parse_rows add_entity filename p' f
        else (case add_entity row f of
                Inl e \<Rightarrow> Inl e
              | Inr (res, f') \<Rightarrow>
                  if code res \<noteq> OK
                  then Inr (res\<lparr>message := message res @ '' while adding item from '' @ filename\<rparr>, f')
                  else parse_rows add_entity filename p' f'))"
  by pat_completeness auto
termination
  by (relation "measure (\<lambda>(_, _, p, _). length (the (csv_stream p)))") (auto dest!: read_row_shorter [OF sym])

declare parse_rows.simps [simp del]

type_synonym file_system = "string \<Rightarrow> string option"

definition parse_csv :: "file_system \<Rightarrow> string \<Rightarrow> string \<Rightarrow> handler \<Rightarrow> feed \<Rightarrow> (result \<times> feed) option" where
  "parse_csv fs gtfs_directory filename add_entity f =
     (case read_header fs filename (csv_parser_init gtfs_directory) of (res_header, p) \<Rightarrow>
        if code res_header \<noteq> OK then Some (res_header, f)
        else (case parse_rows add_entity filename p f of Inl _ \<Rightarrow> None | Inr x \<Rightarrow> Some x))"

definition read_agencies :: "file_system \<Rightarrow> string \<Rightarrow> feed \<Rightarrow> (result \<times> feed) option" where
  "read_agencies fs dir = parse_csv fs dir file_agency add_agency"

definition read_stops :: "file_system \<Rightarrow> string \<Rightarrow> feed \<Rightarrow> (result \<times> feed) option" where
  "read_stops fs dir = parse_csv fs dir file_stops add_stop"

definition read_routes :: "file_system \<Rightarrow> string \<Rightarrow> feed \<Rightarrow> (result \<times> feed) option" where
  "read_routes fs dir = parse_csv fs dir file_routes add_route"

definition read_trips :: "file_system \<Rightarrow> string \<Rightarrow> feed \<Rightarrow> (result \<times> feed) option" where
  "read_trips fs dir = parse_csv fs dir file_trips add_trip"

definition read_stop_times :: "file_system \<Rightarrow> string \<Rightarrow> feed \<Rightarrow> (result \<times> feed) option" where
  "read_stop_times fs dir = parse_csv fs dir file_stop_times add_stop_time"

definition read_calendar :: "file_system \<Rightarrow> string \<Rightarrow> feed \<Rightarrow> (result \<times> feed) option" where
  "read_calendar fs dir = parse_csv fs dir file_calendar add_calendar_item"

definition read_calendar_dates :: "file_system \<Rightarrow> string \<Rightarrow> feed \<Rightarrow> (result \<times> feed) option" where
  "read_calendar_dates fs dir = parse_csv fs dir file_calendar_dates add_calendar_date"

definition read_fare_rules :: "file_system \<Rightarrow> string \<Rightarrow> feed \<Rightarrow> (result \<times> feed) option" where
  "read_fare_rules fs dir = parse_csv fs dir file_fare_rules add_fare_rule"

definition read_fare_attributes :: "file_system \<Rightarrow> string \<Rightarrow> feed \<Rightarrow> (result \<times> feed) option" where
  "read_fare_attributes fs dir = parse_csv fs dir file_fare_attributes add_fare_attributes"

definition read_shapes :: "file_system \<Rightarrow> string \<Rightarrow> feed \<Rightarrow> (result \<times> feed) option" where
  "read_shapes fs dir = parse_csv fs dir file_shapes add_shape_point"

definition read_frequencies :: "file_system \<Rightarrow> string \<Rightarrow> feed \<Rightarrow> (result \<times> feed) option" where
  "read_frequencies fs dir = parse_csv fs dir file_frequencies add_frequency"

definition read_transfers :: "file_system \<Rightarrow> string \<Rightarrow> feed \<Rightarrow> (result \<times> feed) option" where
  "read_transfers fs dir = parse_csv fs dir file_transfers add_transfer"

definition read_feed_info :: "file_system \<Rightarrow> string \<Rightarrow> feed \<Rightarrow> (result \<times> feed) option" where
  "read_feed_info fs dir = parse_csv fs dir file_feed_info add_feed_info"

section \<open>The reader\<close>

record read_config =
  rc_agencies :: bool
  rc_stops :: bool
  rc_routes :: bool
  rc_trips :: bool
  rc_stop_times :: bool
  rc_calendar :: bool
  rc_calendar_dates :: bool
  rc_shapes :: bool
  rc_transfers :: bool
  rc_frequencies :: bool
  rc_fare_attributes :: bool
  rc_fare_rules :: bool
  rc_pathways :: bool
  rc_levels :: bool
  rc_attributions :: bool
  rc_feed_info :: bool
  rc_translations :: bool

definition read_config_init :: read_config where
  "read_config_init = \<lparr>rc_agencies = True, rc_stops = True, rc_routes = True, rc_trips = True,
     rc_stop_times = True, rc_calendar = True, rc_calendar_dates = True, rc_shapes = True,
     rc_transfers = True, rc_frequencies = True, rc_fare_attributes = True, rc_fare_rules = True,
     rc_pathways = True, rc_levels = True, rc_attributions = True, rc_feed_info = True,
     rc_translations = True\<rparr>"

definition error_parsing_optional_file :: "result \<Rightarrow> bool" where
  "error_parsing_optional_file res \<longleftrightarrow> code res \<noteq> OK \<and> code res \<noteq> ERROR_FILE_ABSENT"

definition error_parsing_required_file :: "result \<Rightarrow> bool" where
  "error_parsing_required_file res \<longleftrightarrow> code res \<noteq> OK"

text \<open>
  One step of \<open>read\<close>: whether the file is asked for, what reads it, and which results end the reading.  The steps are
  run in order until one fails; the destructor of the preparation handler builds the feed in either case.
\<close>

type_synonym read_step = "bool \<times> (feed \<Rightarrow> (result \<times> feed) option) \<times> (result \<Rightarrow> bool)"

fun run_steps :: "read_step list \<Rightarrow> feed \<Rightarrow> (result \<times> feed) option" where
  "run_steps [] f = Some (mk_result OK [], f)"
| "run_steps ((wanted, reader, failed) # steps) f =
     (if wanted
      then (case reader f of
              None \<Rightarrow> None
            | Some (res, f') \<Rightarrow> if failed res then Some (res, f') else run_steps steps f')
      else run_steps steps f)"

definition read_steps :: "file_system \<Rightarrow> string \<Rightarrow> read_config \<Rightarrow> read_step list" where
  "read_steps fs dir config =
     [(rc_agencies config, read_agencies fs dir, error_parsing_required_file),
      (rc_stops config, read_stops fs dir, error_parsing_required_file),
      (rc_routes config, read_routes fs dir, error_parsing_required_file),
      (rc_trips config, read_trips fs dir, error_parsing_required_file),
      (rc_stop_times config, read_stop_times fs dir, error_parsing_required_file),
      (rc_calendar config, read_calendar fs dir, error_parsing_optional_file),
      (rc_calendar_dates config, read_calendar_dates fs dir, error_parsing_optional_file),
      (rc_shapes config, read_shapes fs dir, error_parsing_optional_file),
      (rc_transfers config, read_transfers fs dir, error_parsing_optional_file),
      (rc_frequencies config, read_frequencies fs dir, error_parsing_optional_file),
      (rc_fare_attributes config, read_fare_attributes fs dir, error_parsing_optional_file),
      (rc_fare_rules config, read_fare_rules fs dir, error_parsing_optional_file),
      (rc_feed_info config, read_feed_info fs dir, error_parsing_optional_file)]"

definition read :: "file_system \<Rightarrow> string \<Rightarrow> read_config \<Rightarrow> feed \<Rightarrow> (result \<times> feed) option" where
  "read fs directory config f =
     (case run_steps (read_steps fs (add_trailing_slash directory) config) f of
        None \<Rightarrow> None
      | Some (res, f') \<Rightarrow> Some (res, build f'))"

section \<open>What leaves a handler\<close>

text \<open>\<open>caught c r\<close>: every exception of \<open>r\<close> has a clause in \<open>c\<close>.\<close>

definition caught :: "(cpp_exn \<Rightarrow> result option) \<Rightarrow> 'a res \<Rightarrow> bool" where
  "caught c r \<longleftrightarrow> (\<forall>e. r = Inl e \<longrightarrow> c e \<noteq> None)"

named_theorems caught_intros

lemma caught_Inr [caught_intros]: "caught c (Inr x)"
  by (simp add: caught_def)

lemma caught_bind [caught_intros]:
  assumes "caught c r" "\<And>x. caught c (k x)"
  shows "caught c (exn_bind r k)"
  using assms by (auto simp: caught_def exn_bind_iffs)

lemma caught_row_at [caught_intros]:
  "caught catch_range (row_at row key)" "caught catch_std (row_at row key)" "caught catch_all (row_at row key)"
  by (auto simp: caught_def row_at_def map_at_def catch_range_def catch_std_def catch_all_def split: option.splits)

lemma caught_stoi [caught_intros]: "caught catch_std (stoi s)" "caught catch_all (stoi s)"
  by (auto simp: caught_def catch_std_def catch_all_def dest: stoi_exn)

lemma caught_stod [caught_intros]: "caught catch_std (stod s)" "caught catch_all (stod s)"
  by (auto simp: caught_def catch_std_def catch_all_def dest: stod_exn)

lemma caught_Inl [caught_intros]:
  "caught catch_std (Inl (Invalid_argument m))" "caught catch_all (Inl (Invalid_argument m))"
  "caught catch_std (Inl (Out_of_range m))" "caught catch_all (Inl (Invalid_field_format m))"
  by (simp_all add: caught_def catch_std_def catch_all_def)

lemma caught_if [caught_intros]: "\<lbrakk>caught c r; caught c r'\<rbrakk> \<Longrightarrow> caught c (if b then r else r')"
  by simp

lemma caught_set_field [caught_intros]:
  "caught catch_std (set_field cast d row key opt)" "caught catch_all (set_field cast d row key opt)"
  unfolding set_field_def Let_def by (intro caught_intros)+

lemma caught_set_fractional [caught_intros]:
  "caught catch_std (set_fractional d row key opt)" "caught catch_all (set_fractional d row key opt)"
  unfolding set_fractional_def Let_def by (intro caught_intros)+

lemma caught_check_coordinates [caught_intros]: "caught catch_std (check_coordinates lat lon)"
  unfolding check_coordinates_def by (intro caught_intros)

lemma caught_time_of_string [caught_intros]: "caught catch_all (time_of_string s)"
  unfolding time_of_string_def Let_def by (intro caught_intros)

lemma caught_check_valid [caught_intros]: "caught catch_all (check_valid d)"
  unfolding check_valid_def Let_def by (intro caught_intros)

lemma caught_date_of_string [caught_intros]: "caught catch_all (date_of_string s)"
  unfolding date_of_string_def Let_def by (intro caught_intros)

lemma try_catch_returns:
  assumes "caught c b" "\<And>x. \<exists>y. k x = Inr y"
  shows "\<exists>y. try_catch c b f k = Inr y"
  using assms by (auto simp: try_catch_def caught_def split: sum.split option.split)

text \<open>The contract of a handler that no exception leaves, and what it gives for a whole file.\<close>

locale safe_handler =
  fixes add_entity :: handler
  assumes returns: "\<exists>y. add_entity row f = Inr y"
begin

lemma parse_rows_returns: "\<exists>y. parse_rows add_entity filename p f = Inr y"
proof -
  have "\<exists>y. parse_rows h filename p f = Inr y" if "h = add_entity" for h
    using that
  proof (induction h filename p f rule: parse_rows.induct)
    case (1 h filename p f)
    obtain r row p' where rr: "read_row p = (r, row, p')" using prod_cases3 by blast
    obtain res f' where "h row f = Inr (res, f')" using returns [of row f] 1(3) by auto
    with 1(1,2) [OF rr [symmetric] refl] 1(3) rr show ?case
      by (subst parse_rows.simps) simp
  qed
  then show ?thesis by simp
qed

lemma parse_csv_returns: "parse_csv fs dir filename add_entity f \<noteq> None"
proof -
  obtain r p where "read_header fs filename (csv_parser_init dir) = (r, p)" by fastforce
  moreover obtain y where "parse_rows add_entity filename p f = Inr y" using parse_rows_returns by blast
  ultimately show ?thesis by (simp add: parse_csv_def)
qed

end

lemma safe_handlers:
  "\<exists>y. add_agency row f = Inr y" "\<exists>y. add_route row f = Inr y" "\<exists>y. add_trip row f = Inr y"
  "\<exists>y. add_stop_time row f = Inr y" "\<exists>y. add_calendar_item row f = Inr y" "\<exists>y. add_calendar_date row f = Inr y"
  "\<exists>y. add_fare_rule row f = Inr y" "\<exists>y. add_fare_attributes row f = Inr y" "\<exists>y. add_shape_point row f = Inr y"
  "\<exists>y. add_frequency row f = Inr y" "\<exists>y. add_transfer row f = Inr y"
  unfolding add_agency_def add_route_def add_trip_def add_stop_time_def add_calendar_item_def add_calendar_date_def
    add_fare_rule_def add_fare_attributes_def add_shape_point_def add_frequency_def add_transfer_def Let_def split_def
  by (rule try_catch_returns, intro caught_intros, simp)+

lemma caught_assign:
  assumes "caught catch_all v" "\<And>e i. st = Inl (e, i) \<Longrightarrow> catch_all e \<noteq> None"
  shows "assign v upd st = Inl (e, i) \<Longrightarrow> catch_all e \<noteq> None"
  using assms by (cases st; cases v) (auto simp: assign_def caught_def)

lemma safe_feed_info: "\<exists>y. add_feed_info row f = Inr y"
proof -
  define block where "block = assign (date_of_string (get_value row ''feed_end_date'')) (\<lambda>d i. i\<lparr>fi_feed_end_date := d\<rparr>)
       (assign (date_of_string (get_value row ''feed_start_date'')) (\<lambda>d i. i\<lparr>fi_feed_start_date := d\<rparr>)
       (assign (row_at row ''feed_lang'') (\<lambda>s i. i\<lparr>fi_feed_lang := s\<rparr>)
       (assign (row_at row ''feed_publisher_url'') (\<lambda>s i. i\<lparr>fi_feed_publisher_url := s\<rparr>)
       (assign (row_at row ''feed_publisher_name'') (\<lambda>s i. i\<lparr>fi_feed_publisher_name := s\<rparr>)
       (Inr (the_feed_info f))))))"
  have "catch_all e \<noteq> None" if "block = Inl (e, i)" for e i
    using that unfolding block_def by (elim caught_assign [rotated 2]; (intro caught_intros)?) simp_all
  then show ?thesis
    unfolding add_feed_info_def Let_def block_def [symmetric]
    by (cases block) (auto split: option.split)
qed

interpretation safe_agency: safe_handler add_agency by unfold_locales (rule safe_handlers)
interpretation safe_route: safe_handler add_route by unfold_locales (rule safe_handlers)
interpretation safe_trip: safe_handler add_trip by unfold_locales (rule safe_handlers)
interpretation safe_stop_time: safe_handler add_stop_time by unfold_locales (rule safe_handlers)
interpretation safe_calendar: safe_handler add_calendar_item by unfold_locales (rule safe_handlers)
interpretation safe_calendar_date: safe_handler add_calendar_date by unfold_locales (rule safe_handlers)
interpretation safe_fare_rule: safe_handler add_fare_rule by unfold_locales (rule safe_handlers)
interpretation safe_fare_attributes: safe_handler add_fare_attributes by unfold_locales (rule safe_handlers)
interpretation safe_shape: safe_handler add_shape_point by unfold_locales (rule safe_handlers)
interpretation safe_frequency: safe_handler add_frequency by unfold_locales (rule safe_handlers)
interpretation safe_transfer: safe_handler add_transfer by unfold_locales (rule safe_handlers)
interpretation safe_info: safe_handler add_feed_info by unfold_locales (rule safe_feed_info)

lemmas readers_return = safe_agency.parse_csv_returns safe_route.parse_csv_returns safe_trip.parse_csv_returns
  safe_stop_time.parse_csv_returns safe_calendar.parse_csv_returns safe_calendar_date.parse_csv_returns
  safe_fare_rule.parse_csv_returns safe_fare_attributes.parse_csv_returns safe_shape.parse_csv_returns
  safe_frequency.parse_csv_returns safe_transfer.parse_csv_returns safe_info.parse_csv_returns

lemmas reader_defs = read_agencies_def read_stops_def read_routes_def read_trips_def read_stop_times_def
  read_calendar_def read_calendar_dates_def read_fare_rules_def read_fare_attributes_def read_shapes_def
  read_frequencies_def read_transfers_def read_feed_info_def

lemma run_steps_returns:
  "(\<And>w rd fl f. (w, rd, fl) \<in> set steps \<Longrightarrow> w \<Longrightarrow> rd f \<noteq> None) \<Longrightarrow> run_steps steps f \<noteq> None"
proof (induction steps f rule: run_steps.induct)
  case (2 wanted reader failed steps f)
  have "reader f \<noteq> None" if wanted using that 2(3) [of wanted reader failed f] by simp
  moreover have "run_steps steps f' \<noteq> None" if "wanted" "reader f = Some (res, f')" "\<not> failed res" for res f'
    using 2(1) that 2(3) by (metis list.set_intros(2))
  moreover have "run_steps steps f \<noteq> None" if "\<not> wanted"
    using 2(2) that 2(3) by (metis list.set_intros(2))
  ultimately show ?case by (auto split: option.split)
qed simp

text \<open>
  C28: no input makes the reader end the process unless it reads \<^verbatim>\<open>stops.txt\<close>: whatever the files hold, every exception
  of the other handlers is caught and \<open>read\<close> returns a result.
\<close>

theorem read_returns_without_stops:
  assumes "\<not> rc_stops config"
  shows "read fs directory config f \<noteq> None"
proof -
  have "run_steps (read_steps fs (add_trailing_slash directory) config) f \<noteq> None"
    by (rule run_steps_returns) (use assms readers_return in \<open>auto simp: read_steps_def reader_defs\<close>)
  then show ?thesis by (auto simp: read_def split: option.split)
qed

theorem read_returns_without_stops_witness:
  "read (\<lambda>_. Some ''agency_id'') ''gtfs'' (read_config_init\<lparr>rc_stops := False\<rparr>) feed_init \<noteq> None"
  by (rule read_returns_without_stops) simp

text \<open>
  \<^verbatim>\<open>stops.txt\<close> does: a stop with a location type that is not a number ends the process, because the field is
  converted after the \<^verbatim>\<open>try\<close> block.
\<close>

lemma bad_location_type_terminates:
  "read (\<lambda>path. if path = ''gtfs/stops.txt'' then Some (''stop_id,location_type'' @ [CHR 0x0A] @ ''S1,platform'') else None)
     ''gtfs'' (read_config_init\<lparr>rc_agencies := False\<rparr>) feed_init = None"
  by code_simp

section \<open>Well-formed feeds\<close>

lemma id_pair_less_iff: "id_pair_less a b \<longleftrightarrow> str_less (fst a) (fst b) \<or> fst a = fst b \<and> str_less (snd a) (snd b)"
  unfolding id_pair_less_def using strs.lt_total strs.lt_asym strs.lt_irrefl by metis

lemma id_pair_less_strict: "\<not> id_pair_less a a"
  by (simp add: id_pair_less_iff)

lemma id_pair_less_trans: "id_pair_less a b \<Longrightarrow> id_pair_less b c \<Longrightarrow> id_pair_less a c"
  by (auto simp: id_pair_less_iff dest: str_less_trans)

lemma id_pair_less_total: "a \<noteq> b \<Longrightarrow> \<not> id_pair_less a b \<Longrightarrow> id_pair_less b a"
  using strs.lt_total by (auto simp: id_pair_less_iff prod_eq_iff)

interpretation pairs: key_order id_pair_less
  by unfold_locales (auto intro: id_pair_less_trans id_pair_less_total simp: id_pair_less_strict)

text \<open>A map whose entries are in key order and stand under the key that their record carries.\<close>

definition keyed :: "('k \<Rightarrow> 'k \<Rightarrow> bool) \<Rightarrow> ('v \<Rightarrow> 'k) \<Rightarrow> ('k \<times> 'v) list \<Rightarrow> bool" where
  "keyed lt key m \<longleftrightarrow> sorted_wrt lt (map fst m) \<and> (\<forall>(k, v)\<in>set m. k = key v)"

lemma keyed_Nil [simp]: "keyed lt key []"
  by (simp add: keyed_def)

lemma keyed_insert [simp]:
  "keyed str_less key m \<Longrightarrow> k = key v \<Longrightarrow> keyed str_less key (map_insert str_less (k, v) m)"
  "keyed id_pair_less key' m' \<Longrightarrow> k' = key' v' \<Longrightarrow> keyed id_pair_less key' (map_insert id_pair_less (k', v') m')"
  using strs.set_map_insert [of "(key v, v)" m] pairs.set_map_insert [of "(key' v', v')" m']
  by (auto simp: keyed_def strs.map_insert_sorted pairs.map_insert_sorted)

definition transfer_key :: "transfer \<Rightarrow> Id \<times> Id" where
  "transfer_key t = (tf_from_stop_id t, tf_to_stop_id t)"

definition maps_keyed :: "feed \<Rightarrow> bool" where
  "maps_keyed f \<longleftrightarrow> keyed str_less ag_agency_id (agencies f) \<and> keyed str_less sp_stop_id (stops f) \<and>
     keyed str_less rt_route_id (routes f) \<and> keyed str_less tr_trip_id (trips f) \<and>
     keyed str_less ci_service_id (calendar f) \<and> keyed str_less cd_service_id (calendar_dates f) \<and>
     keyed str_less fr_fare_id (fare_rules f) \<and> keyed str_less fa_fare_id (fare_attributes f) \<and>
     keyed str_less sh_shape_id (shapes f) \<and> keyed id_pair_less transfer_key (transfers f)"

text \<open>The records' own rules: a route has a name, a distance is not negative, a coordinate is on the globe (or not a number).\<close>

definition route_ok :: "route \<Rightarrow> bool" where
  "route_ok r \<longleftrightarrow> rt_route_short_name r \<noteq> [] \<or> rt_route_long_name r \<noteq> []"

definition in_degrees :: "rat \<Rightarrow> double \<Rightarrow> bool" where
  "in_degrees b d = (case d of Finite q \<Rightarrow> - b \<le> q \<and> q \<le> b | Infinity _ \<Rightarrow> False | NaN _ \<Rightarrow> True)"

definition shape_point_ok :: "shape_point \<Rightarrow> bool" where
  "shape_point_ok p \<longleftrightarrow> in_degrees 90 (pt_shape_pt_lat p) \<and> in_degrees 180 (pt_shape_pt_lon p) \<and>
     \<not> double_less (pt_shape_dist_traveled p) (Finite 0)"

definition shape_ok :: "shape \<Rightarrow> bool" where
  "shape_ok sh \<longleftrightarrow> sh_points sh \<noteq> [] \<and> (\<forall>p\<in>set (sh_points sh). pt_shape_id p = sh_shape_id sh \<and> shape_point_ok p)"

definition stop_time_ok :: "stop_time \<Rightarrow> bool" where
  "stop_time_ok st \<longleftrightarrow> time_wf (st_arrival_time st) \<and> time_wf (st_departure_time st) \<and>
     \<not> double_less (st_shape_dist_traveled st) (Finite 0)"

definition records_ok :: "feed \<Rightarrow> bool" where
  "records_ok f \<longleftrightarrow> (\<forall>(k, r)\<in>set (routes f). route_ok r) \<and> (\<forall>(k, sh)\<in>set (shapes f). shape_ok sh) \<and>
     (\<forall>st\<in>set (stop_times f). stop_time_ok st) \<and>
     (\<forall>q\<in>set (frequencies f). time_wf (fq_start_time q) \<and> time_wf (fq_end_time q))"

definition indexes_empty :: "feed \<Rightarrow> bool" where
  "indexes_empty f \<longleftrightarrow> stop_based_map f = Map.empty \<and> trip_based_map f = Map.empty \<and>
     agency_based_map f = Map.empty \<and> route_based_map f = Map.empty"

definition feed_wf :: "feed \<Rightarrow> bool" where
  "feed_wf f \<longleftrightarrow> maps_keyed f \<and> records_ok f \<and> indexes_empty f"

lemma feed_wf_init: "feed_wf feed_init"
  by (simp add: feed_wf_def maps_keyed_def records_ok_def indexes_empty_def feed_init_def)

text \<open>What a handler does to the feed, by cases: an error leaves it alone, success adds the record.\<close>

lemma try_catch_cases:
  assumes "try_catch c b f k = Inr (r, f')"
  obtains "f' = f" | x where "b = Inr x" "k x = Inr (r, f')"
  using assms by (auto simp: try_catch_def split: sum.splits option.splits)

lemma set_map_insert_str: "e \<in> set (map_insert str_less kv m) \<Longrightarrow> e = kv \<or> e \<in> set m"
  using strs.set_map_insert by blast

text \<open>The contract of a handler that keeps an invariant of the feed, and what it gives for a whole file.\<close>

locale invariant_handler =
  fixes add_entity :: handler and Inv :: "feed \<Rightarrow> bool"
  assumes keeps: "\<lbrakk>Inv f; add_entity row f = Inr (r, f')\<rbrakk> \<Longrightarrow> Inv f'"
begin

lemma parse_rows_keeps: "\<lbrakk>Inv f; parse_rows add_entity filename p f = Inr (r, f')\<rbrakk> \<Longrightarrow> Inv f'"
proof -
  have "Inv f'" if "h = add_entity" "Inv f" "parse_rows h filename p f = Inr (r, f')" for h p f
    using that
  proof (induction h filename p f rule: parse_rows.induct)
    case (1 h filename p f)
    obtain rr row p' where rr: "read_row p = (rr, row, p')" using prod_cases3 by blast
    from 1(5) rr consider "f' = f" | "parse_rows h filename p' f = Inr (r, f')" "code rr = OK" "row = []"
      | res g where "code rr = OK" "row \<noteq> []" "h row f = Inr (res, g)"
          "g = f' \<or> code res = OK \<and> parse_rows h filename p' g = Inr (r, f')"
      by (subst (asm) parse_rows.simps) (auto split: if_splits sum.splits)
    then show ?case
    proof cases
      case 2
      then show ?thesis using 1(1) [OF rr [symmetric] refl] 1(3,4) by simp
    next
      case 3
      then have "Inv g" using keeps 1(3,4) by blast
      then show ?thesis using 3 1(2) [OF rr [symmetric] refl] 1(3) by auto
    qed (use 1 in simp)
  qed
  then show "\<lbrakk>Inv f; parse_rows add_entity filename p f = Inr (r, f')\<rbrakk> \<Longrightarrow> Inv f'" by simp
qed

lemma parse_csv_keeps: "\<lbrakk>Inv f; parse_csv fs dir filename add_entity f = Some (r, f')\<rbrakk> \<Longrightarrow> Inv f'"
  by (auto simp: parse_csv_def parse_rows_keeps split: prod.splits if_splits sum.splits)

end

lemmas feed_wf_defs = feed_wf_def maps_keyed_def records_ok_def indexes_empty_def

lemma simple_handlers_keep:
  "\<lbrakk>feed_wf f; add_agency row f = Inr (r, f')\<rbrakk> \<Longrightarrow> feed_wf f'"
  "\<lbrakk>feed_wf f; add_trip row f = Inr (r, f')\<rbrakk> \<Longrightarrow> feed_wf f'"
  "\<lbrakk>feed_wf f; add_calendar_item row f = Inr (r, f')\<rbrakk> \<Longrightarrow> feed_wf f'"
  "\<lbrakk>feed_wf f; add_calendar_date row f = Inr (r, f')\<rbrakk> \<Longrightarrow> feed_wf f'"
  "\<lbrakk>feed_wf f; add_fare_rule row f = Inr (r, f')\<rbrakk> \<Longrightarrow> feed_wf f'"
  "\<lbrakk>feed_wf f; add_fare_attributes row f = Inr (r, f')\<rbrakk> \<Longrightarrow> feed_wf f'"
  "\<lbrakk>feed_wf f; add_transfer row f = Inr (r, f')\<rbrakk> \<Longrightarrow> feed_wf f'"
  unfolding add_agency_def add_trip_def add_calendar_item_def add_calendar_date_def add_fare_rule_def
    add_fare_attributes_def add_transfer_def Let_def
  by (erule try_catch_cases; auto simp: feed_wf_defs transfer_key_def)+

lemma add_stop_keeps: "\<lbrakk>feed_wf f; add_stop row f = Inr (r, f')\<rbrakk> \<Longrightarrow> feed_wf f'"
  unfolding add_stop_def Let_def by (erule try_catch_cases; auto simp: feed_wf_defs exn_bind_iffs)

lemma add_route_keeps: "\<lbrakk>feed_wf f; add_route row f = Inr (r, f')\<rbrakk> \<Longrightarrow> feed_wf f'"
  unfolding add_route_def Let_def
  by (erule try_catch_cases; auto simp: feed_wf_defs route_ok_def split: if_splits dest!: set_map_insert_str)

lemma add_stop_time_keeps: "\<lbrakk>feed_wf f; add_stop_time row f = Inr (r, f')\<rbrakk> \<Longrightarrow> feed_wf f'"
  unfolding add_stop_time_def Let_def
  by (erule try_catch_cases; auto simp: feed_wf_defs stop_time_ok_def exn_bind_iffs time_of_string_wf split: if_splits)

lemma add_frequency_keeps: "\<lbrakk>feed_wf f; add_frequency row f = Inr (r, f')\<rbrakk> \<Longrightarrow> feed_wf f'"
  unfolding add_frequency_def Let_def
  by (erule try_catch_cases; auto simp: feed_wf_defs exn_bind_iffs time_of_string_wf)

lemma add_feed_info_keeps: 
  assumes "feed_wf f" "add_feed_info row f = Inr (r, f')"
  shows "feed_wf f'"
proof -
  have "\<exists>i. f' = f\<lparr>the_feed_info := i\<rparr>"
    using assms(2) unfolding add_feed_info_def Let_def by (auto split: sum.splits option.splits)
  with assms(1) show ?thesis by (auto simp: feed_wf_defs)
qed

lemma check_coordinates_in_degrees:
  "check_coordinates lat lon = Inr u \<Longrightarrow> in_degrees 90 lat \<and> in_degrees 180 lon"
  by (cases lat; cases lon) (auto simp: check_coordinates_def double_less_def in_degrees_def split: if_splits)

lemma keyed_distinct: "keyed str_less key m \<Longrightarrow> distinct (map fst m)"
proof -
  have "sorted_wrt str_less ks \<Longrightarrow> distinct ks" for ks
    by (induction ks) auto
  then show "keyed str_less key m \<Longrightarrow> distinct (map fst m)" by (simp add: keyed_def)
qed

lemma set_map_put:
  assumes "distinct (map fst m)" "e \<in> set (map_put str_less k v m)"
  shows "e = (k, v) \<or> e \<in> set m"
proof (cases "map_of m k")
  case None
  then show ?thesis using assms(2) by (auto simp: map_put_def strs.set_place_key)
next
  case (Some w)
  have "distinct (map fst (AList.update k v m))" using assms(1) by (rule distinct_update)
  then have "map_of (AList.update k v m) (fst e) = Some (snd e)"
    using assms(2) Some by (simp add: map_put_def)
  then show ?thesis
    by (cases e) (auto simp: update_conv' split: if_splits dest: map_of_SomeD)
qed

lemma ball_map_put:
  assumes "distinct (map fst m)" "P (k, v)" "\<forall>e\<in>set m. P e"
  shows "\<forall>e\<in>set (map_put str_less k v m). P e"
  using assms set_map_put [OF assms(1)] by metis

lemma map_put_sorted:
  assumes "sorted_wrt str_less (map fst m)"
  shows "sorted_wrt str_less (map fst (map_put str_less k v m))"
proof (cases "map_of m k")
  case None
  then show ?thesis using assms by (auto simp: map_put_def map_of_eq_None_iff strs.place_key_sorted)
next
  case (Some w)
  then have "k \<in> set (map fst m)" by (metis domI dom_map_of_conv_image_fst list.set_map)
  then have "map fst (AList.update k v m) = map fst m" by (simp add: update_keys)
  with Some assms show ?thesis by (simp add: map_put_def)
qed

lemma push_shape_point_keeps:
  assumes "feed_wf f" "shape_point_ok pt"
  shows "feed_wf (push_shape_point pt f)"
proof -
  let ?old = "case map_of (shapes f) (pt_shape_id pt) of None \<Rightarrow> shape_init | Some sh \<Rightarrow> sh"
  let ?k = "pt_shape_id pt"
  define sh where "sh = (let sh = (if sh_points ?old = [] then ?old\<lparr>sh_shape_id := ?k\<rparr> else ?old)
     in sh\<lparr>sh_points := sh_points sh @ [pt]\<rparr>)"
  have f: "push_shape_point pt f = f\<lparr>shapes := map_put str_less ?k sh (shapes f)\<rparr>"
    by (simp add: push_shape_point_def sh_def Let_def)
  have k: "keyed str_less sh_shape_id (shapes f)" and ok: "\<forall>(k, sh)\<in>set (shapes f). shape_ok sh"
    using assms(1) by (auto simp: feed_wf_defs)
  have new: "sh_shape_id sh = ?k \<and> shape_ok sh"
  proof (cases "map_of (shapes f) ?k")
    case None
    then show ?thesis using assms(2) by (simp add: sh_def shape_init_def shape_ok_def)
  next
    case (Some s)
    then have "(?k, s) \<in> set (shapes f)" by (rule map_of_SomeD)
    then have "sh_shape_id s = ?k" "shape_ok s" using k ok by (auto simp: keyed_def)
    then show ?thesis using Some assms(2) by (auto simp: sh_def shape_ok_def)
  qed
  have d: "distinct (map fst (shapes f))" using k by (rule keyed_distinct)
  have "\<forall>(k, sh)\<in>set (map_put str_less ?k sh (shapes f)). k = sh_shape_id sh"
    by (rule ball_map_put [OF d]) (use k new in \<open>auto simp: keyed_def\<close>)
  then have "keyed str_less sh_shape_id (map_put str_less ?k sh (shapes f))"
    using k by (simp add: keyed_def map_put_sorted)
  moreover have "\<forall>(k, sh)\<in>set (map_put str_less ?k sh (shapes f)). shape_ok sh"
    by (rule ball_map_put [OF d]) (use ok new in auto)
  ultimately show ?thesis using assms(1) by (simp add: f feed_wf_defs)
qed

lemma add_shape_point_keeps: "\<lbrakk>feed_wf f; add_shape_point row f = Inr (r, f')\<rbrakk> \<Longrightarrow> feed_wf f'"
  unfolding add_shape_point_def Let_def
  by (erule try_catch_cases; auto simp: exn_bind_iffs shape_point_ok_def split: if_splits
      intro!: push_shape_point_keeps dest: check_coordinates_in_degrees)

interpretation wf_agency: invariant_handler add_agency feed_wf by unfold_locales (rule simple_handlers_keep)
interpretation wf_stop: invariant_handler add_stop feed_wf by unfold_locales (rule add_stop_keeps)
interpretation wf_route: invariant_handler add_route feed_wf by unfold_locales (rule add_route_keeps)
interpretation wf_trip: invariant_handler add_trip feed_wf by unfold_locales (rule simple_handlers_keep)
interpretation wf_stop_time: invariant_handler add_stop_time feed_wf by unfold_locales (rule add_stop_time_keeps)
interpretation wf_calendar: invariant_handler add_calendar_item feed_wf by unfold_locales (rule simple_handlers_keep)
interpretation wf_calendar_date: invariant_handler add_calendar_date feed_wf by unfold_locales (rule simple_handlers_keep)
interpretation wf_fare_rule: invariant_handler add_fare_rule feed_wf by unfold_locales (rule simple_handlers_keep)
interpretation wf_fare_attributes: invariant_handler add_fare_attributes feed_wf by unfold_locales (rule simple_handlers_keep)
interpretation wf_shape: invariant_handler add_shape_point feed_wf by unfold_locales (rule add_shape_point_keeps)
interpretation wf_frequency: invariant_handler add_frequency feed_wf by unfold_locales (rule add_frequency_keeps)
interpretation wf_transfer: invariant_handler add_transfer feed_wf by unfold_locales (rule simple_handlers_keep)
interpretation wf_info: invariant_handler add_feed_info feed_wf by unfold_locales (rule add_feed_info_keeps)

lemmas readers_keep = wf_agency.parse_csv_keeps wf_stop.parse_csv_keeps wf_route.parse_csv_keeps wf_trip.parse_csv_keeps
  wf_stop_time.parse_csv_keeps wf_calendar.parse_csv_keeps wf_calendar_date.parse_csv_keeps wf_fare_rule.parse_csv_keeps
  wf_fare_attributes.parse_csv_keeps wf_shape.parse_csv_keeps wf_frequency.parse_csv_keeps wf_transfer.parse_csv_keeps
  wf_info.parse_csv_keeps

lemma run_steps_keep:
  assumes "\<And>w rd fl f r f'. \<lbrakk>(w, rd, fl) \<in> set steps; Inv f; rd f = Some (r, f')\<rbrakk> \<Longrightarrow> Inv f'"
  shows "\<lbrakk>Inv f; run_steps steps f = Some (r, f')\<rbrakk> \<Longrightarrow> Inv f'"
  using assms
proof (induction steps f rule: run_steps.induct)
  case (2 wanted reader failed steps f)
  have step: "Inv f'" if "reader f = Some (r, f')" for r f'
    using that 2(5) [of wanted reader failed f] 2(3) by simp
  note rest = 2(5) [OF list.set_intros(2)]
  show ?case
  proof (cases wanted)
    case True
    then obtain res g where rd: "reader f = Some (res, g)" using 2(4) by (auto split: option.splits)
    show ?thesis
    proof (cases "failed res")
      case False
      show ?thesis using 2(1) [OF True rd refl False step [OF rd]] 2(4) rest True rd False by auto
    qed (use 2(4) True rd step in auto)
  next
    case False
    then show ?thesis using 2(2) [OF False 2(3)] 2(4) rest by auto
  qed
qed simp

lemma read_keeps:
  assumes "feed_wf f" "read fs directory config f = Some (res, f')"
  obtains g where "f' = build g" "feed_wf g"
proof -
  from assms(2) obtain g where g: "run_steps (read_steps fs (add_trailing_slash directory) config) f = Some (res, g)" "f' = build g"
    by (auto simp: read_def split: option.splits)
  have "feed_wf g"
    by (rule run_steps_keep [where Inv = feed_wf, OF _ assms(1) g(1)])
      (auto simp: read_steps_def reader_defs intro: readers_keep)
  with g(2) that show thesis by blast
qed

text \<open>
  C26: whatever the files hold and whatever the result is, the feed that reading into a well-formed feed leaves behind is
  well formed: each map is in key order with every record under its own key, routes have a name, shapes are
  non-empty with points of their own id inside the coordinate range, distances are not negative and times are
  consistent.
\<close>

theorem read_well_formed:
  assumes "feed_wf f" "read fs directory config f = Some (res, f')"
  shows "maps_keyed f' \<and> records_ok f'"
proof -
  obtain g where "f' = build g" "feed_wf g" using read_keeps [OF assms] .
  then show ?thesis by (simp add: feed_wf_def maps_keyed_def records_ok_def build_data)
qed

theorem read_well_formed_witness:
  "\<exists>res f'. read (\<lambda>_. Some ''agency_id'') ''gtfs'' (read_config_init\<lparr>rc_stops := False\<rparr>) feed_init = Some (res, f') \<and>
     maps_keyed f' \<and> records_ok f'"
proof -
  have "read (\<lambda>_. Some ''agency_id'') ''gtfs'' (read_config_init\<lparr>rc_stops := False\<rparr>) feed_init \<noteq> None"
    by code_simp
  then obtain res f' where
    r: "read (\<lambda>_. Some ''agency_id'') ''gtfs'' (read_config_init\<lparr>rc_stops := False\<rparr>) feed_init = Some (res, f')" by auto
  with read_well_formed [OF feed_wf_init r] show ?thesis by blast
qed

text \<open>
  C27: after reading, even when it ends with an error, the indexes of the providers agree with the data that was read.
\<close>

theorem read_builds_indexes:
  assumes "feed_wf f" "read fs directory config f = Some (res, f')"
  shows "get_for_trip i f' = index_of (\<lambda>j. st_trip_id (stop_times f' ! j)) (\<lambda>j. j) [0..<length (stop_times f')] i \<and>
    get_for_stop i f' = index_of (\<lambda>j. st_stop_id (stop_times f' ! j)) (\<lambda>j. j) [0..<length (stop_times f')] i \<and>
    get_for_agency i f' = index_of (\<lambda>x. rt_agency_id (snd x)) fst (routes f') i \<and>
    get_for_route i f' = index_of (\<lambda>x. tr_route_id (snd x)) fst (trips f') i"
proof -
  obtain g where g: "f' = build g" "feed_wf g" using read_keeps [OF assms] .
  then show ?thesis by (simp add: build_data build_indexes feed_wf_def indexes_empty_def del: upt_Suc)
qed

theorem read_builds_indexes_witness:
  "\<exists>res f'. read (\<lambda>p. if p = ''gtfs/trips.txt'' then Some (''route_id,service_id,trip_id'' @ [CHR 0x0A] @ ''r,s,t'') else None) ''gtfs''
       (read_config_init\<lparr>rc_agencies := False, rc_stops := False, rc_routes := False\<rparr>) feed_init = Some (res, f') \<and>
     code res = ERROR_FILE_ABSENT \<and> get_for_route ''r'' f' = index_of (\<lambda>x. tr_route_id (snd x)) fst (trips f') ''r''"
proof -
  let ?r = "read (\<lambda>p. if p = ''gtfs/trips.txt'' then Some (''route_id,service_id,trip_id'' @ [CHR 0x0A] @ ''r,s,t'') else None) ''gtfs''
       (read_config_init\<lparr>rc_agencies := False, rc_stops := False, rc_routes := False\<rparr>) feed_init"
  have c: "map_option (\<lambda>x. code (fst x)) ?r = Some ERROR_FILE_ABSENT" by code_simp
  then obtain res f' where r: "?r = Some (res, f')" by (cases ?r) auto
  with c have "code res = ERROR_FILE_ABSENT" by simp
  with r read_builds_indexes [OF feed_wf_init r, of "''r''"] show ?thesis by blast
qed

section \<open>Rows that are dropped\<close>

text \<open>
  C40: the calendar dates are a map from the service, so only the first exception of each service is kept: a row that is accepted, and
  adds its record when the service has no calendar date yet, is accepted as well when the service has one, with the same result, but
  it leaves the feed as it was.
\<close>

theorem later_calendar_dates_dropped:
  assumes "map_of row ''service_id'' = Some sid" "map_of (calendar_dates e) sid = None" "map_of (calendar_dates f) sid \<noteq> None"
    and "add_calendar_date row e = Inr (res, g)" "code res = OK"
  shows "(\<exists>c. cd_service_id c = sid \<and> map_of (calendar_dates g) = (map_of (calendar_dates e))(sid \<mapsto> c)) \<and>
    add_calendar_date row f = Inr (res, f)"
proof -
  have "catch_all x \<noteq> Some r" if "code r = OK" for x r
    using that by (auto simp: catch_all_def mk_result_def split: cpp_exn.split)
  then obtain c where c: "cd_service_id c = sid" "res = mk_result OK []"
    "g = e\<lparr>calendar_dates := map_insert str_less (sid, c) (calendar_dates e)\<rparr>"
    and run: "add_calendar_date row f = Inr (res, f\<lparr>calendar_dates := map_insert str_less (sid, c) (calendar_dates f)\<rparr>)"
    using assms(1,4,5) unfolding add_calendar_date_def try_catch_def
    by (force simp: exn_bind_iffs row_at_def map_at_def split: sum.splits option.splits)
  have "map_of (calendar_dates g) = (map_of (calendar_dates e))(sid \<mapsto> c)"
    using assms(2) unfolding c(3) by (auto simp: map_insert_of)
  moreover have "map_insert str_less (sid, c) (calendar_dates f) = calendar_dates f"
    using assms(3) by (auto simp: map_insert_def)
  ultimately show ?thesis using c(1) run by auto
qed

theorem later_calendar_dates_dropped_witness:
  "\<exists>res f. map_of (calendar_dates f) ''weekday'' \<noteq> None \<and> code res = OK \<and>
     add_calendar_date [(''service_id'', ''weekday''), (''date'', ''20241225''), (''exception_type'', ''2'')] f = Inr (res, f)"
proof -
  define row where "row = [(''service_id'', ''weekday''), (''date'', ''20241225''), (''exception_type'', ''2'')]"
  define f where "f = feed_init\<lparr>calendar_dates := [(''weekday'', calendar_date_init)]\<rparr>"
  have "map_sum id (\<lambda>x. code (fst x)) (add_calendar_date row feed_init) = Inr OK"
    unfolding row_def by code_simp
  then obtain res g where r: "add_calendar_date row feed_init = Inr (res, g)" "code res = OK"
    by (cases "add_calendar_date row feed_init") auto
  have "add_calendar_date row f = Inr (res, f)"
    using later_calendar_dates_dropped [OF _ _ _ r, of "''weekday''" f] by (simp add: row_def f_def feed_init_def)
  moreover have "map_of (calendar_dates f) ''weekday'' \<noteq> None" by (simp add: f_def)
  ultimately show ?thesis using r(2) unfolding row_def by auto
qed

text \<open>The agencies of a file without \<^verbatim>\<open>agency_id\<close> all get the id \<^verbatim>\<open>0\<close>, so one of them is kept.\<close>

lemma agencies_without_id_collide:
  "map_option (\<lambda>x. (code (fst x), map fst (agencies (snd x)), map (ag_agency_name \<circ> snd) (agencies (snd x))))
     (read_agencies (\<lambda>_. Some (''agency_name,agency_url,agency_timezone'' @ [CHR 0x0A] @ ''A,a,UTC'' @ [CHR 0x0A] @ ''B,b,UTC''))
       [] feed_init) = Some (OK, [''0''], [''A''])"
  by code_simp

end
