(* ===== verification/Feed_Writer.thy ===== *)
theory Feed_Writer
  imports Feed_Reader
begin

text \<open>
  \<^verbatim>\<open>gtfs/access/feed_writter.cpp\<close>: the writers of the GTFS files.  The file system is the state; \<open>writable\<close> says
  which paths can be opened for writing.  A function whose body is empty although it has a result type has
  undefined behaviour when it returns, which is the value \<^const>\<open>None\<close>.
\<close>

section \<open>Headers\<close>

definition write_agency_header :: string where
  "write_agency_header = write_joined [''agency_id'', ''agency_name'', ''agency_url'', ''agency_timezone'',
     ''agency_lang'', ''agency_phone'', ''agency_fare_url'', ''agency_email'']"

definition write_routes_header :: string where
  "write_routes_header = write_joined [''route_id'', ''agency_id'', ''route_short_name'', ''route_long_name'',
     ''route_desc'', ''route_type'', ''route_url'', ''route_color'', ''route_text_color'', ''route_sort_order'',
     ''continuous_pickup'', ''continuous_drop_off'']"

definition write_shapes_header :: string where
  "write_shapes_header = write_joined [''shape_id'', ''shape_pt_lat'', ''shape_pt_lon'', ''shape_pt_sequence'',
     ''shape_dist_traveled'']"

definition trips_columns :: "string list" where
  "trips_columns = [''route_id'', ''service_id'', ''trip_id'', ''trip_headsign'', ''trip_short_name'', ''direction_id'',
     ''block_id'', ''shape_id'', ''wheelchair_accessible'', ''bikes_allowed'']"

definition write_trips_header :: string where
  "write_trips_header = write_joined trips_columns"

definition write_stops_header :: string where
  "write_stops_header = write_joined [''stop_id'', ''stop_code'', ''stop_name'', ''stop_desc'', ''stop_lat'', ''stop_lon'',
     ''zone_id'', ''stop_url'', ''location_type'', ''parent_station'', ''stop_timezone'', ''wheelchair_boarding'',
     ''level_id'', ''platform_code'']"

definition write_stop_times_header :: string where
  "write_stop_times_header = write_joined [''trip_id'', ''arrival_time'', ''departure_time'', ''stop_id'', ''stop_sequence'',
     ''stop_headsign'', ''pickup_type'', ''drop_off_type'', ''continuous_pickup'', ''continuous_drop_off'',
     ''shape_dist_traveled'', ''timepoint'']"

definition write_calendar_header :: string where
  "write_calendar_header = write_joined [''service_id'', ''monday'', ''tuesday'', ''wednesday'', ''thursday'', ''friday'',
     ''saturday'', ''sunday'', ''start_date'', ''end_date'']"

definition write_calendar_dates_header :: string where
  "write_calendar_dates_header = write_joined [''service_id'', ''date'', ''exception_type'']"

definition write_transfers_header :: string where
  "write_transfers_header = write_joined [''from_stop_id'', ''to_stop_id'', ''transfer_type'', ''min_transfer_time'']"

definition write_frequencies_header :: string where
  "write_frequencies_header = write_joined [''trip_id'', ''start_time'', ''end_time'', ''headway_secs'', ''exact_times'']"

definition write_fare_attributes_header :: string where
  "write_fare_attributes_header = write_joined [''fare_id'', ''price'', ''currency_type'', ''payment_method'', ''transfers'',
     ''agency_id'', ''transfer_duration'']"

definition write_fare_rules_header :: string where
  "write_fare_rules_header = write_joined [''fare_id'', ''route_id'', ''origin_id'', ''destination_id'', ''contains_id'']"

definition write_pathways_header :: string where
  "write_pathways_header = write_joined [''pathway_id'', ''from_stop_id'', ''to_stop_id'', ''pathway_mode'',
     ''is_bidirectional'', ''length'', ''traversal_time'', ''stair_count'', ''max_slope'', ''min_width'',
     ''signposted_as'', ''reversed_signposted_as'']"

definition write_levels_header :: string where
  "write_levels_header = write_joined [''level_id'', ''level_index'', ''level_name'']"

definition write_feed_info_header :: string where
  "write_feed_info_header = write_joined [''feed_publisher_name'', ''feed_publisher_url'', ''feed_lang'', ''default_lang'',
     ''feed_start_date'', ''feed_end_date'', ''feed_version'', ''feed_contact_email'', ''feed_contact_url'']"

definition write_translations_header :: string where
  "write_translations_header = write_joined [''table_name'', ''field_name'', ''language'', ''translation'', ''record_id'',
     ''record_sub_id'', ''field_value'']"

definition write_attributions_header :: string where
  "write_attributions_header = write_joined [''attribution_id'', ''agency_id'', ''route_id'', ''trip_id'',
     ''organization_name'', ''is_producer'', ''is_operator'', ''is_authority'', ''attribution_url'',
     ''attribution_email'', ''attribution_phone'']"

section \<open>Files\<close>

text \<open>
  \<open>wrap\<close> of a \<^verbatim>\<open>size_t\<close> prints the value cast to \<^verbatim>\<open>int\<close>.  A call of a writer returns the result and the file
  system, or \<^const>\<open>None\<close> for undefined behaviour.
\<close>

definition wrap_size :: "u64 \<Rightarrow> string" where
  "wrap_size val = int_to_string (sint (ucast val :: 32 word))"

type_synonym writing = "(result \<times> file_system) option"

definition write_csv :: "(string \<Rightarrow> bool) \<Rightarrow> string \<Rightarrow> string \<Rightarrow> string \<Rightarrow> string \<Rightarrow> file_system \<Rightarrow> writing" where
  "write_csv writable path file header entities fs =
     (let filepath = add_trailing_slash path @ file in
      if \<not> writable filepath
      then Some (mk_result ERROR_INVALID_GTFS_PATH (''Could not open path for writing '' @ filepath), fs)
      else Some (mk_result OK [], fs(filepath \<mapsto> header @ entities)))"

definition agency_fields :: "agency \<Rightarrow> string list" where
  "agency_fields a = [wrap (ag_agency_id a), wrap (ag_agency_name a), wrap (ag_agency_url a), ag_agency_timezone a,
     ag_agency_lang a, wrap (ag_agency_phone a), ag_agency_fare_url a, ag_agency_email a]"

definition write_agencies :: "(string \<Rightarrow> bool) \<Rightarrow> string \<Rightarrow> feed \<Rightarrow> file_system \<Rightarrow> writing" where
  "write_agencies writable dir f =
     write_csv writable dir file_agency write_agency_header
       (concat (map (\<lambda>(_, a). write_joined (agency_fields a)) (agencies f)))"

definition route_fields :: "route \<Rightarrow> string list" where
  "route_fields r = [wrap (rt_route_id r), wrap (rt_agency_id r), wrap (rt_route_short_name r),
     wrap (rt_route_long_name r), wrap (rt_route_desc r), wrap_enum (rt_route_type r), rt_route_url r, rt_route_color r,
     rt_route_text_color r, wrap_size (rt_route_sort_order r), [], []]"

definition write_routes :: "(string \<Rightarrow> bool) \<Rightarrow> string \<Rightarrow> feed \<Rightarrow> file_system \<Rightarrow> writing" where
  "write_routes writable dir f =
     write_csv writable dir file_routes write_routes_header
       (concat (map (\<lambda>(_, r). write_joined (route_fields r)) (routes f)))"

definition shape_point_fields :: "shape_point \<Rightarrow> string list" where
  "shape_point_fields p = [wrap (pt_shape_id p), wrap_double (pt_shape_pt_lat p), wrap_double (pt_shape_pt_lon p),
     wrap_size (pt_shape_pt_sequence p), wrap_double (pt_shape_dist_traveled p)]"

definition write_shapes :: "(string \<Rightarrow> bool) \<Rightarrow> string \<Rightarrow> feed \<Rightarrow> file_system \<Rightarrow> writing" where
  "write_shapes writable dir f =
     write_csv writable dir file_shapes write_shapes_header
       (concat (map (\<lambda>(_, sh). concat (map (\<lambda>p. write_joined (shape_point_fields p)) (sh_points sh))) (shapes f)))"

definition trip_fields :: "trip \<Rightarrow> string list" where
  "trip_fields t = [wrap (tr_route_id t), wrap (tr_service_id t), wrap (tr_trip_id t), wrap (tr_trip_headsign t),
     wrap (tr_trip_short_name t), wrap_enum (tr_direction_id t), wrap (tr_block_id t), wrap (tr_shape_id t),
     wrap_enum (tr_wheelchair_accessible t), wrap_enum (tr_bikes_allowed t)]"

definition write_trips :: "(string \<Rightarrow> bool) \<Rightarrow> string \<Rightarrow> feed \<Rightarrow> file_system \<Rightarrow> writing" where
  "write_trips writable dir f =
     write_csv writable dir file_trips write_trips_header
       (concat (map (\<lambda>(_, t). write_joined (trip_fields t)) (trips f)))"

definition stop_fields :: "stop \<Rightarrow> string list" where
  "stop_fields s = [wrap (sp_stop_id s), wrap (sp_stop_code s), wrap (sp_stop_name s), wrap (sp_stop_desc s),
     wrap_double (sp_stop_lat s), wrap_double (sp_stop_lon s), wrap (sp_zone_id s), sp_stop_url s,
     wrap_enum (sp_location_type s), wrap (sp_parent_station s), sp_stop_timezone s, wrap (sp_wheelchair_boarding s),
     wrap (sp_level_id s), wrap (sp_platform_code s)]"

definition write_stops :: "(string \<Rightarrow> bool) \<Rightarrow> string \<Rightarrow> feed \<Rightarrow> file_system \<Rightarrow> writing" where
  "write_stops writable dir f =
     write_csv writable dir file_stops write_stops_header
       (concat (map (\<lambda>(_, s). write_joined (stop_fields s)) (stops f)))"

definition stop_time_fields :: "stop_time \<Rightarrow> string list" where
  "stop_time_fields st = [wrap (st_trip_id st), raw_time (st_arrival_time st), raw_time (st_departure_time st),
     wrap (st_stop_id st), wrap_size (st_stop_sequence st), wrap (st_stop_headsign st), wrap_enum (st_pickup_type st),
     wrap_enum (st_drop_off_type st), [], [], wrap_double (st_shape_dist_traveled st), wrap_enum (st_timepoint st)]"

definition write_stop_times :: "(string \<Rightarrow> bool) \<Rightarrow> string \<Rightarrow> feed \<Rightarrow> file_system \<Rightarrow> writing" where
  "write_stop_times writable dir f =
     write_csv writable dir file_stop_times write_stop_times_header
       (concat (map (\<lambda>st. write_joined (stop_time_fields st)) (stop_times f)))"

text \<open>The seven writers with an empty body.\<close>

definition write_calendar :: "file_system \<Rightarrow> writing" where "write_calendar fs = None"
definition write_calendar_dates :: "file_system \<Rightarrow> writing" where "write_calendar_dates fs = None"
definition write_transfers :: "file_system \<Rightarrow> writing" where "write_transfers fs = None"
definition write_frequencies :: "file_system \<Rightarrow> writing" where "write_frequencies fs = None"
definition write_fare_attributes :: "file_system \<Rightarrow> writing" where "write_fare_attributes fs = None"
definition write_fare_rules :: "file_system \<Rightarrow> writing" where "write_fare_rules fs = None"
definition write_feed_info :: "file_system \<Rightarrow> writing" where "write_feed_info fs = None"

lemmas empty_writers = write_calendar_def write_calendar_dates_def write_transfers_def write_frequencies_def
  write_fare_attributes_def write_fare_rules_def write_feed_info_def

section \<open>The writer\<close>

record write_config =
  wc_agencies :: bool
  wc_stops :: bool
  wc_routes :: bool
  wc_trips :: bool
  wc_stop_times :: bool
  wc_calendar :: bool
  wc_calendar_dates :: bool
  wc_shapes :: bool
  wc_transfers :: bool
  wc_frequencies :: bool
  wc_fare_attributes :: bool
  wc_fare_rules :: bool
  wc_pathways :: bool
  wc_levels :: bool
  wc_attributions :: bool
  wc_feed_info :: bool
  wc_translations :: bool

definition write_config_init :: write_config where
  "write_config_init = \<lparr>wc_agencies = True, wc_stops = True, wc_routes = True, wc_trips = True,
     wc_stop_times = True, wc_calendar = True, wc_calendar_dates = True, wc_shapes = True,
     wc_transfers = True, wc_frequencies = True, wc_fare_attributes = True, wc_fare_rules = True,
     wc_pathways = True, wc_levels = True, wc_attributions = True, wc_feed_info = True,
     wc_translations = True\<rparr>"

fun run_writers :: "(bool \<times> (file_system \<Rightarrow> writing)) list \<Rightarrow> file_system \<Rightarrow> writing" where
  "run_writers [] fs = Some (mk_result OK [], fs)"
| "run_writers ((wanted, writer) # rest) fs =
     (if wanted
      then (case writer fs of
              None \<Rightarrow> None
            | Some (res, fs') \<Rightarrow> if code res \<noteq> OK then Some (res, fs') else run_writers rest fs')
      else run_writers rest fs)"

definition write_feed :: "(string \<Rightarrow> bool) \<Rightarrow> string \<Rightarrow> write_config \<Rightarrow> feed \<Rightarrow> file_system \<Rightarrow> writing" where
  "write_feed writable directory config f =
     (let dir = add_trailing_slash directory in
      run_writers
       [(wc_agencies config, write_agencies writable dir f),
        (wc_stops config, write_stops writable dir f),
        (wc_routes config, write_routes writable dir f),
        (wc_trips config, write_trips writable dir f),
        (wc_stop_times config, write_stop_times writable dir f),
        (wc_calendar config, write_calendar),
        (wc_calendar_dates config, write_calendar_dates),
        (wc_shapes config, write_shapes writable dir f),
        (wc_transfers config, write_transfers),
        (wc_frequencies config, write_frequencies),
        (wc_fare_attributes config, write_fare_attributes),
        (wc_fare_rules config, write_fare_rules),
        (wc_feed_info config, write_feed_info)])"

section \<open>Writing\<close>

text \<open>
  With the default configuration, a writer whose six implemented files can all be opened reaches the first writer
  without a body: the call has no defined result.
\<close>

lemma write_default_undefined:
  assumes "\<forall>p. writable p"
  shows "write_feed writable directory write_config_init f fs = None"
  using assms
  by (simp add: write_feed_def write_config_init_def write_agencies_def write_stops_def write_routes_def
      write_trips_def write_stop_times_def write_csv_def mk_result_def empty_writers Let_def)

section \<open>Reading what was written\<close>

lemma add_trailing_slash_idem: "add_trailing_slash (add_trailing_slash d) = add_trailing_slash d"
  by (auto simp: add_trailing_slash_def)

text \<open>A handler that accepts each written row is folded over the rows.\<close>

lemma parse_rows_written:
  assumes "field_sequence p \<noteq> []" "\<forall>x\<in>set xs. vals x \<noteq> [] \<and> (\<forall>v\<in>set (vals x). csv_safe v)"
    and "\<And>x f. x \<in> set xs \<Longrightarrow>
      add_entity (assign_fields (field_sequence p) (vals x) []) f = Inr (mk_result OK [], step x f)"
    and "csv_stream p = Some (concat (map (\<lambda>x. write_joined (map wrap (vals x))) xs))"
  shows "parse_rows add_entity filename p f = Inr (mk_result OK (''Parsed '' @ filename), fold step xs f)"
  using assms
proof (induction xs arbitrary: p f)
  case Nil
  then have "read_row p = (mk_result END_OF_FILE [], [], p)" by (simp add: read_row_def getline_sep_def)
  then show ?case by (subst parse_rows.simps) (simp add: mk_result_def)
next
  case (Cons x xs)
  let ?rest = "concat (map (\<lambda>x. write_joined (map wrap (vals x))) xs)"
  let ?p = "p\<lparr>csv_stream := Some ?rest\<rparr>"
  let ?row = "assign_fields (field_sequence p) (vals x) []"
  have rr: "read_row p = (mk_result OK [], ?row, ?p)"
    using Cons.prems by (intro read_row_written) auto
  obtain c cs v ws where "field_sequence p = c # cs" "vals x = v # ws"
    using Cons.prems(1,2) by (auto simp: neq_Nil_conv)
  then have "?row \<noteq> []"
    by (metis assign_fields.simps(1) assign_fields_not_Nil update_nonempty)
  moreover have "add_entity ?row f = Inr (mk_result OK [], step x f)" using Cons.prems(3) by simp
  moreover have "parse_rows add_entity filename ?p (step x f) =
      Inr (mk_result OK (''Parsed '' @ filename), fold step xs (step x f))"
    by (rule Cons.IH) (use Cons.prems in auto)
  ultimately show ?case by (subst parse_rows.simps) (simp add: rr mk_result_def)
qed

text \<open>Integers are printed without a character that needs quoting.\<close>

lemma int_to_string_chars: "c \<in> set (int_to_string i) \<Longrightarrow> isdigit c \<or> c = CHR ''-''"
  by (auto simp: int_to_string_def to_string_digits split: if_splits)

lemma int_to_string_not_Nil [simp]: "int_to_string i \<noteq> []"
  by (simp add: int_to_string_def)

lemma int_to_string_plain: "\<not> needs_quotes (int_to_string i)" "csv_safe (int_to_string i)"
proof -
  have c: "isdigit c \<or> c = CHR ''-''" if "c \<in> set (int_to_string i)" for c
    using int_to_string_chars that .
  have not_special: "c \<noteq> quote \<and> c \<noteq> csv_separator \<and> c \<noteq> CHR 0x09 \<and> c \<noteq> CHR 0x0D \<and> c \<noteq> CHR 0x0A \<and> c \<noteq> CHR '' ''"
    if "isdigit c \<or> c = CHR ''-''" for c
    using that by (auto simp: isdigit_def quote_def csv_separator_def)
  then have all: "\<forall>c\<in>set (int_to_string i). c \<noteq> quote \<and> c \<noteq> csv_separator \<and> c \<noteq> CHR 0x09 \<and> c \<noteq> CHR 0x0D \<and> c \<noteq> CHR 0x0A \<and> c \<noteq> CHR '' ''"
    using c by blast
  then show "\<not> needs_quotes (int_to_string i)" unfolding needs_quotes_def by metis
  have "hd (int_to_string i) \<in> set (int_to_string i)" "last (int_to_string i) \<in> set (int_to_string i)" by simp_all
  with all show "csv_safe (int_to_string i)" unfolding csv_safe_def by metis
qed

lemma wrap_int_to_string: "wrap (int_to_string i) = int_to_string i"
  by (simp add: wrap_eq int_to_string_plain)

definition trip_values :: "trip \<Rightarrow> string list" where
  "trip_values t = [tr_route_id t, tr_service_id t, tr_trip_id t, tr_trip_headsign t, tr_trip_short_name t,
     int_to_string (tr_direction_id t), tr_block_id t, tr_shape_id t, int_to_string (tr_wheelchair_accessible t),
     int_to_string (tr_bikes_allowed t)]"

definition int_range :: "int \<Rightarrow> bool" where
  "int_range i \<longleftrightarrow> - (2 ^ 31) \<le> i \<and> i < 2 ^ 31"

definition trip_writable :: "trip \<Rightarrow> bool" where
  "trip_writable t \<longleftrightarrow> (\<forall>v\<in>set (trip_values t). csv_safe v) \<and> int_range (tr_direction_id t) \<and>
     int_range (tr_wheelchair_accessible t) \<and> int_range (tr_bikes_allowed t)"

lemma trip_fields_eq: "trip_fields t = map wrap (trip_values t)"
  by (simp add: trip_fields_def trip_values_def wrap_enum_def wrap_int_to_string)

lemma add_trip_written:
  assumes "trip_writable t"
  shows "add_trip (assign_fields trips_columns (trip_values t) []) f =
     Inr (mk_result OK [], f\<lparr>trips := map_insert str_less (tr_trip_id t, t) (trips f)\<rparr>)"
proof -
  have "assign_fields trips_columns (trip_values t) [] = zip trips_columns (trip_values t)"
    by (simp add: trips_columns_def trip_values_def)
  moreover have "stoi (int_to_string (tr_direction_id t)) = Inr (tr_direction_id t)"
    "stoi (int_to_string (tr_wheelchair_accessible t)) = Inr (tr_wheelchair_accessible t)"
    "stoi (int_to_string (tr_bikes_allowed t)) = Inr (tr_bikes_allowed t)"
    using assms by (simp_all add: trip_writable_def int_range_def stoi_int_to_string)
  ultimately show ?thesis
    by (cases t) (simp add: add_trip_def try_catch_def row_at_def map_at_def set_field_def get_value_or_default_def
        trips_columns_def trip_values_def to_enum_def trip_init_def Let_def)
qed

lemma split_trips_header: "split_record (join_fields trips_columns) True = trips_columns"
  unfolding trips_columns_def by code_simp

lemma read_trips_header:
  assumes "fs (dir @ file_trips) = Some (write_trips_header @ rows)"
  shows "read_header fs file_trips (csv_parser_init dir) =
     (mk_result OK [], \<lparr>field_sequence = trips_columns, gtfs_path = dir, csv_stream = Some rows\<rparr>)"
proof -
  have "CHR 0x0A \<notin> set (join_fields trips_columns)" "join_fields trips_columns \<noteq> []"
    by (simp_all add: trips_columns_def csv_separator_def)
  then show ?thesis
    using assms by (simp add: read_header_def csv_parser_init_def write_trips_header_def write_joined_def
        getline_sep_line split_trips_header)
qed

lemma fold_trips:
  "fold (\<lambda>t f. f\<lparr>trips := map_insert str_less (tr_trip_id t, t) (trips f)\<rparr>) ts f =
     f\<lparr>trips := fold (map_insert str_less) (map (\<lambda>t. (tr_trip_id t, t)) ts) (trips f)\<rparr>"
  by (induction ts arbitrary: f) simp_all

text \<open>
  C25: trips survive a write and a read.  When the trips of a feed stand in key order under their ids, their texts can be
  written to CSV and their enumerators fit an \<^verbatim>\<open>int\<close>, then reading the file that \<open>write_trips\<close> wrote into a feed without trips
  succeeds and gives exactly the same trips, and nothing else changes.
\<close>

theorem trips_write_read:
  assumes "keyed str_less tr_trip_id (trips f)" "\<forall>(k, t)\<in>set (trips f). trip_writable t"
    and "write_trips writable dir f fs = Some (res, fs')" "code res = OK" "trips g = []"
  shows "read_trips fs' (add_trailing_slash dir) g =
     Some (mk_result OK (''Parsed '' @ file_trips), g\<lparr>trips := trips f\<rparr>)"
proof -
  let ?ts = "map snd (trips f)"
  let ?p = "\<lparr>field_sequence = trips_columns, gtfs_path = add_trailing_slash dir,
      csv_stream = Some (concat (map (\<lambda>t. write_joined (map wrap (trip_values t))) ?ts))\<rparr>"
  let ?step = "\<lambda>t f. f\<lparr>trips := map_insert str_less (tr_trip_id t, t) (trips f)\<rparr> :: feed"
  have tw: "trip_writable t" if "t \<in> set ?ts" for t using assms(2) that by auto
  have "fs' (add_trailing_slash dir @ file_trips) =
      Some (write_trips_header @ concat (map (\<lambda>(_, t). write_joined (trip_fields t)) (trips f)))"
    using assms(3,4) by (auto simp: write_trips_def write_csv_def mk_result_def Let_def split: if_splits)
  also have "concat (map (\<lambda>(_, t). write_joined (trip_fields t)) (trips f)) =
      concat (map (\<lambda>t. write_joined (map wrap (trip_values t))) ?ts)"
    by (simp add: trip_fields_eq comp_def split_def)
  finally have hdr: "read_header fs' file_trips (csv_parser_init (add_trailing_slash dir)) = (mk_result OK [], ?p)"
    by (rule read_trips_header)
  have "parse_rows add_trip file_trips ?p g = Inr (mk_result OK (''Parsed '' @ file_trips), fold ?step ?ts g)"
  proof (rule parse_rows_written [where vals = trip_values])
    show "\<forall>x\<in>set ?ts. trip_values x \<noteq> [] \<and> (\<forall>v\<in>set (trip_values x). csv_safe v)"
      using tw by (auto simp: trip_writable_def trip_values_def)
  qed (use tw add_trip_written in \<open>auto simp: trips_columns_def\<close>)
  moreover have "map (\<lambda>t. (tr_trip_id t, t)) ?ts = trips f"
    using assms(1) by (auto simp: keyed_def intro!: map_idI)
  moreover have "fold (map_insert str_less) (trips f) [] = trips f"
    using fold_map_insert_sorted [of str_less "[]" "trips f"] assms(1) strs.lt_asym by (simp add: keyed_def)
  ultimately show ?thesis
    using assms(5) by (simp add: read_trips_def parse_csv_def hdr fold_trips mk_result_def)
qed

theorem trips_write_read_witness:
  "\<exists>res fs'. write_trips (\<lambda>_. True) ''out'' (feed_init\<lparr>trips := [(''T,1'', trip_init\<lparr>tr_trip_id := ''T,1'', tr_direction_id := 1\<rparr>)]\<rparr>)
       Map.empty = Some (res, fs') \<and>
     read_trips fs' (add_trailing_slash ''out'') feed_init =
       Some (mk_result OK (''Parsed '' @ file_trips),
         feed_init\<lparr>trips := [(''T,1'', trip_init\<lparr>tr_trip_id := ''T,1'', tr_direction_id := 1\<rparr>)]\<rparr>)"
proof -
  let ?t = "trip_init\<lparr>tr_trip_id := ''T,1'', tr_direction_id := 1\<rparr>"
  let ?f = "feed_init\<lparr>trips := [(''T,1'', ?t)]\<rparr>"
  obtain res fs' where w: "write_trips (\<lambda>_. True) ''out'' ?f Map.empty = Some (res, fs')" "code res = OK"
    by (simp add: write_trips_def write_csv_def mk_result_def Let_def)
  have "trip_writable ?t"
    by (simp add: trip_writable_def trip_values_def trip_init_def int_range_def int_to_string_plain)
      (simp add: csv_safe_def needs_quotes_def csv_separator_def)
  then have "read_trips fs' (add_trailing_slash ''out'') feed_init =
       Some (mk_result OK (''Parsed '' @ file_trips), feed_init\<lparr>trips := trips ?f\<rparr>)"
    by (intro trips_write_read [OF _ _ w]) (simp_all add: keyed_def feed_init_def trip_init_def)
  with w show ?thesis by auto
qed

text \<open>
  The fields of an agency are not all wrapped: a comma in the fare URL is read back as the end of the field, and
  the rest becomes the e-mail address.
\<close>

lemma agency_fare_url_comma_lost:
  "(case write_agencies (\<lambda>_. True) ''out'' (feed_init\<lparr>agencies :=
        [(''A'', agency_init\<lparr>ag_agency_id := ''A'', ag_agency_fare_url := ''u?a,b'', ag_agency_email := ''m''\<rparr>)]\<rparr>) Map.empty of
      Some (_, fs) \<Rightarrow> map_option (\<lambda>(_, f). map (\<lambda>(_, a). (ag_agency_fare_url a, ag_agency_email a)) (agencies f))
        (read_agencies fs ''out/'' feed_init)
    | None \<Rightarrow> None) = Some [(''u?a'', ''b'')]"
  by code_simp

end
