(* ===== verification/Dir_Graph.thy ===== *)
theory Dir_Graph
  imports Prelude
begin

text \<open>
  \<^verbatim>\<open>util/graph/{Graph,DirGraph,DirNode,Node,Edge}.h\<close>: the directed graph of heap objects.

  Nodes and edges are addresses in two heaps; a freed object has no entry.  The node set is ordered by address, so it
  is a strictly increasing list, which is the order of every iteration over it.  \<^verbatim>\<open>new\<close> returns the next unused
  address.  Following a pointer to a freed object is \<^term>\<open>the None\<close>, about which nothing can be proved; the
  invariant \<open>wf_graph\<close> rules it out.
\<close>

section \<open>Objects\<close>

type_synonym node_ref = nat
type_synonym edge_ref = nat

record 'e gedge =
  edge_from :: node_ref
  edge_to :: node_ref
  edge_pl :: 'e

record 'n dir_node =
  adjListIn :: "edge_ref list"
  adjListOut :: "edge_ref list"
  node_pl :: 'n

record ('n, 'e) dir_graph =
  graph_nodes :: "node_ref list"
  node_heap :: "node_ref \<rightharpoonup> 'n dir_node"
  edge_heap :: "edge_ref \<rightharpoonup> 'e gedge"
  next_node :: node_ref
  next_edge :: edge_ref

definition dir_graph_init :: "('n, 'e) dir_graph" where
  "dir_graph_init = \<lparr>graph_nodes = [], node_heap = Map.empty, edge_heap = Map.empty, next_node = 0, next_edge = 0\<rparr>"

definition node_at :: "('n, 'e) dir_graph \<Rightarrow> node_ref \<Rightarrow> 'n dir_node" where
  "node_at g n = the (node_heap g n)"

definition edge_at :: "('n, 'e) dir_graph \<Rightarrow> edge_ref \<Rightarrow> 'e gedge" where
  "edge_at g e = the (edge_heap g e)"

definition edge_getFrom :: "('n, 'e) dir_graph \<Rightarrow> edge_ref \<Rightarrow> node_ref" where
  "edge_getFrom g e = edge_from (edge_at g e)"

definition edge_getTo :: "('n, 'e) dir_graph \<Rightarrow> edge_ref \<Rightarrow> node_ref" where
  "edge_getTo g e = edge_to (edge_at g e)"

definition getOtherNd :: "('n, 'e) dir_graph \<Rightarrow> edge_ref \<Rightarrow> node_ref \<Rightarrow> node_ref" where
  "getOtherNd g e notNode = (if edge_getTo g e = notNode then edge_getFrom g e else edge_getTo g e)"

definition epl :: "('n, 'e) dir_graph \<Rightarrow> edge_ref \<Rightarrow> 'e" where
  "epl g e = edge_pl (edge_at g e)"

definition npl :: "('n, 'e) dir_graph \<Rightarrow> node_ref \<Rightarrow> 'n" where
  "npl g n = node_pl (node_at g n)"

definition node_getAdjListOut :: "('n, 'e) dir_graph \<Rightarrow> node_ref \<Rightarrow> edge_ref list" where
  "node_getAdjListOut g n = adjListOut (node_at g n)"

definition node_getAdjListIn :: "('n, 'e) dir_graph \<Rightarrow> node_ref \<Rightarrow> edge_ref list" where
  "node_getAdjListIn g n = adjListIn (node_at g n)"

definition node_getAdjList :: "('n, 'e) dir_graph \<Rightarrow> node_ref \<Rightarrow> edge_ref list" where
  "node_getAdjList g n = adjListOut (node_at g n)"

definition getOutDeg :: "('n, 'e) dir_graph \<Rightarrow> node_ref \<Rightarrow> nat" where
  "getOutDeg g n = length (adjListOut (node_at g n))"

definition getInDeg :: "('n, 'e) dir_graph \<Rightarrow> node_ref \<Rightarrow> nat" where
  "getInDeg g n = length (adjListIn (node_at g n))"

definition node_hasEdgeIn :: "('n, 'e) dir_graph \<Rightarrow> node_ref \<Rightarrow> edge_ref \<Rightarrow> bool" where
  "node_hasEdgeIn g n e \<longleftrightarrow> edge_getTo g e = n"

definition node_hasEdgeOut :: "('n, 'e) dir_graph \<Rightarrow> node_ref \<Rightarrow> edge_ref \<Rightarrow> bool" where
  "node_hasEdgeOut g n e \<longleftrightarrow> edge_getFrom g e = n"

definition node_hasEdge :: "('n, 'e) dir_graph \<Rightarrow> node_ref \<Rightarrow> edge_ref \<Rightarrow> bool" where
  "node_hasEdge g n e \<longleftrightarrow> node_hasEdgeOut g n e \<or> node_hasEdgeIn g n e"

definition adjInContains :: "'n dir_node \<Rightarrow> edge_ref \<Rightarrow> bool" where
  "adjInContains d e \<longleftrightarrow> e \<in> set (adjListIn d)"

definition adjOutContains :: "'n dir_node \<Rightarrow> edge_ref \<Rightarrow> bool" where
  "adjOutContains d e \<longleftrightarrow> e \<in> set (adjListOut d)"

definition put_node :: "node_ref \<Rightarrow> 'n dir_node \<Rightarrow> ('n, 'e) dir_graph \<Rightarrow> ('n, 'e) dir_graph" where
  "put_node n d g = g\<lparr>node_heap := (node_heap g)(n \<mapsto> d)\<rparr>"

text \<open>Writing through \<^verbatim>\<open>e->pl()\<close> and \<^verbatim>\<open>n->pl()\<close>.\<close>

definition set_epl :: "edge_ref \<Rightarrow> 'e \<Rightarrow> ('n, 'e) dir_graph \<Rightarrow> ('n, 'e) dir_graph" where
  "set_epl e p g = g\<lparr>edge_heap := (edge_heap g)(e \<mapsto> (edge_at g e)\<lparr>edge_pl := p\<rparr>)\<rparr>"

definition set_npl :: "node_ref \<Rightarrow> 'n \<Rightarrow> ('n, 'e) dir_graph \<Rightarrow> ('n, 'e) dir_graph" where
  "set_npl n p g = put_node n ((node_at g n)\<lparr>node_pl := p\<rparr>) g"

section \<open>Operations\<close>

definition addEdge :: "node_ref \<Rightarrow> edge_ref \<Rightarrow> ('n, 'e) dir_graph \<Rightarrow> ('n, 'e) dir_graph" where
  "addEdge n e g =
     (let d = node_at g n;
          d = (if edge_getFrom g e = n \<and> \<not> adjOutContains d e then d\<lparr>adjListOut := adjListOut d @ [e]\<rparr> else d);
          d = (if edge_getTo g e = n \<and> \<not> adjInContains d e then d\<lparr>adjListIn := adjListIn d @ [e]\<rparr> else d)
      in put_node n d g)"

definition removeEdge :: "node_ref \<Rightarrow> edge_ref \<Rightarrow> ('n, 'e) dir_graph \<Rightarrow> ('n, 'e) dir_graph" where
  "removeEdge n e g =
     (let d = node_at g n;
          d = (if edge_getFrom g e = n then d\<lparr>adjListOut := remove1 e (adjListOut d)\<rparr> else d);
          d = (if edge_getTo g e = n then d\<lparr>adjListIn := remove1 e (adjListIn d)\<rparr> else d)
      in put_node n d g)"

definition new_edge :: "node_ref \<Rightarrow> node_ref \<Rightarrow> 'e \<Rightarrow> ('n, 'e) dir_graph \<Rightarrow> edge_ref \<times> ('n, 'e) dir_graph" where
  "new_edge f t p g =
     (next_edge g, g\<lparr>edge_heap := (edge_heap g)(next_edge g \<mapsto> \<lparr>edge_from = f, edge_to = t, edge_pl = p\<rparr>),
                     next_edge := next_edge g + 1\<rparr>)"

definition delete_edge :: "edge_ref \<Rightarrow> ('n, 'e) dir_graph \<Rightarrow> ('n, 'e) dir_graph" where
  "delete_edge e g = g\<lparr>edge_heap := (edge_heap g)(e := None)\<rparr>"

definition addNd :: "'n \<Rightarrow> ('n, 'e) dir_graph \<Rightarrow> node_ref \<times> ('n, 'e) dir_graph" where
  "addNd p g =
     (next_node g, g\<lparr>graph_nodes := insort (next_node g) (graph_nodes g),
        node_heap := (node_heap g)(next_node g \<mapsto> \<lparr>adjListIn = [], adjListOut = [], node_pl = p\<rparr>),
        next_node := next_node g + 1\<rparr>)"

definition getEdg :: "('n, 'e) dir_graph \<Rightarrow> node_ref \<Rightarrow> node_ref \<Rightarrow> edge_ref option" where
  "getEdg g f t = List.find (\<lambda>e. getOtherNd g e f = t) (node_getAdjList g f)"

definition addEdg :: "node_ref \<Rightarrow> node_ref \<Rightarrow> 'e \<Rightarrow> ('n, 'e) dir_graph \<Rightarrow> edge_ref \<times> ('n, 'e) dir_graph" where
  "addEdg f t p g =
     (case getEdg g f t of
        Some e \<Rightarrow> (e, g)
      | None \<Rightarrow> (let (e, g) = new_edge f t p g in (e, addEdge t e (addEdge f e g))))"

definition delEdg :: "node_ref \<Rightarrow> node_ref \<Rightarrow> ('n, 'e) dir_graph \<Rightarrow> ('n, 'e) dir_graph" where
  "delEdg f t g =
     (case getEdg g f t of
        None \<Rightarrow> g
      | Some toDel \<Rightarrow> delete_edge toDel (removeEdge t toDel (removeEdge f toDel g)))"

text \<open>
  The destructor of a node: first its self edges, which leave its own two lists, then the other outgoing and the
  incoming edges, which leave the lists of the other end.
\<close>

definition drop_self_edge :: "node_ref \<Rightarrow> edge_ref \<Rightarrow> ('n, 'e) dir_graph \<Rightarrow> ('n, 'e) dir_graph" where
  "drop_self_edge n e g =
     (if edge_getTo g e = n
      then (let d = node_at g n
            in delete_edge e (put_node n (d\<lparr>adjListIn := remove1 e (adjListIn d),
                                           adjListOut := remove1 e (adjListOut d)\<rparr>) g))
      else g)"

definition drop_out_edge :: "node_ref \<Rightarrow> edge_ref \<Rightarrow> ('n, 'e) dir_graph \<Rightarrow> ('n, 'e) dir_graph" where
  "drop_out_edge n e g =
     (if edge_getTo g e \<noteq> n then delete_edge e (removeEdge (edge_getTo g e) e g) else g)"

definition drop_in_edge :: "node_ref \<Rightarrow> edge_ref \<Rightarrow> ('n, 'e) dir_graph \<Rightarrow> ('n, 'e) dir_graph" where
  "drop_in_edge n e g =
     (if edge_getFrom g e \<noteq> n then delete_edge e (removeEdge (edge_getFrom g e) e g) else g)"

definition delete_node :: "node_ref \<Rightarrow> ('n, 'e) dir_graph \<Rightarrow> ('n, 'e) dir_graph" where
  "delete_node n g =
     (let g = fold (drop_self_edge n) (node_getAdjListOut g n) g;
          g = fold (drop_out_edge n) (node_getAdjListOut g n) g;
          g = fold (drop_in_edge n) (node_getAdjListIn g n) g
      in g\<lparr>node_heap := (node_heap g)(n := None)\<rparr>)"

definition delNd :: "node_ref \<Rightarrow> ('n, 'e) dir_graph \<Rightarrow> ('n, 'e) dir_graph" where
  "delNd n g = (let g = delete_node n g in g\<lparr>graph_nodes := remove1 n (graph_nodes g)\<rparr>)"

definition mergeNds :: "node_ref \<Rightarrow> node_ref \<Rightarrow> ('n, 'e) dir_graph \<Rightarrow> node_ref \<times> ('n, 'e) dir_graph" where
  "mergeNds a b g =
     (let g = fold (\<lambda>e g. if edge_getTo g e \<noteq> b then snd (addEdg b (edge_getTo g e) (epl g e) g) else g)
                (node_getAdjListOut g a) g;
          g = fold (\<lambda>e g. if edge_getFrom g e \<noteq> b then snd (addEdg (edge_getFrom g e) b (epl g e) g) else g)
                (node_getAdjListIn g a) g
      in (b, delNd a g))"

section \<open>Well-formed graphs\<close>

text \<open>
  The nodes of the set are the live nodes; the adjacency lists of a node hold exactly the live edges that leave and
  enter it, each once; both ends of a live edge are live; there is at most one edge from a node to another; and the
  next addresses are unused.
\<close>

definition wf_graph :: "('n, 'e) dir_graph \<Rightarrow> bool" where
  "wf_graph g \<longleftrightarrow>
     sorted_wrt (<) (graph_nodes g) \<and> set (graph_nodes g) = dom (node_heap g) \<and>
     (\<forall>n d. node_heap g n = Some d \<longrightarrow> n < next_node g \<and> distinct (adjListOut d) \<and> distinct (adjListIn d) \<and>
        (\<forall>e. e \<in> set (adjListOut d) \<longleftrightarrow> (\<exists>x. edge_heap g e = Some x \<and> edge_from x = n)) \<and>
        (\<forall>e. e \<in> set (adjListIn d) \<longleftrightarrow> (\<exists>x. edge_heap g e = Some x \<and> edge_to x = n))) \<and>
     (\<forall>e x. edge_heap g e = Some x \<longrightarrow>
        e < next_edge g \<and> edge_from x \<in> dom (node_heap g) \<and> edge_to x \<in> dom (node_heap g)) \<and>
     (\<forall>e e' x x'. edge_heap g e = Some x \<longrightarrow> edge_heap g e' = Some x' \<longrightarrow>
        edge_from x = edge_from x' \<longrightarrow> edge_to x = edge_to x' \<longrightarrow> e = e')"

abbreviation live :: "('n, 'e) dir_graph \<Rightarrow> node_ref \<Rightarrow> bool" where
  "live g n \<equiv> n \<in> dom (node_heap g)"

lemma wf_graph_init: "wf_graph dir_graph_init"
  by (simp add: wf_graph_def dir_graph_init_def)

lemma wf_nodes: "wf_graph g \<Longrightarrow> sorted_wrt (<) (graph_nodes g) \<and> set (graph_nodes g) = dom (node_heap g)"
  by (simp add: wf_graph_def)

lemma wf_node:
  assumes "wf_graph g" "node_heap g n = Some d"
  shows "n < next_node g" "distinct (adjListOut d)" "distinct (adjListIn d)"
    "e \<in> set (adjListOut d) \<longleftrightarrow> (\<exists>x. edge_heap g e = Some x \<and> edge_from x = n)"
    "e \<in> set (adjListIn d) \<longleftrightarrow> (\<exists>x. edge_heap g e = Some x \<and> edge_to x = n)"
  using assms unfolding wf_graph_def by blast+

lemma wf_edge:
  assumes "wf_graph g" "edge_heap g e = Some x"
  shows "e < next_edge g" "live g (edge_from x)" "live g (edge_to x)"
  using assms unfolding wf_graph_def by blast+

lemma wf_edge_unique:
  "\<lbrakk>wf_graph g; edge_heap g e = Some x; edge_heap g e' = Some x'; edge_from x = edge_from x'; edge_to x = edge_to x'\<rbrakk>
     \<Longrightarrow> e = e'"
  unfolding wf_graph_def by blast

lemma edge_ends [simp]:
  assumes "edge_heap g e = Some x"
  shows "edge_getFrom g e = edge_from x" "edge_getTo g e = edge_to x" "epl g e = edge_pl x" "edge_at g e = x"
  using assms by (simp_all add: edge_getFrom_def edge_getTo_def epl_def edge_at_def)

lemma node_at_Some [simp]: "node_heap g n = Some d \<Longrightarrow> node_at g n = d"
  by (simp add: node_at_def)

lemma find_Some_unique:
  assumes "x \<in> set xs" "P x" "\<And>y. y \<in> set xs \<Longrightarrow> P y \<Longrightarrow> y = x"
  shows "List.find P xs = Some x"
proof (cases "List.find P xs")
  case None
  then show ?thesis using assms(1,2) by (auto simp: find_None_iff)
next
  case (Some y)
  then have "y \<in> set xs" "P y" by (auto simp: find_Some_iff)
  with Some assms(3) show ?thesis by simp
qed

lemma wf_out_edges:
  assumes "wf_graph g" "live g n"
  shows "e \<in> set (node_getAdjListOut g n) \<longleftrightarrow> (\<exists>x. edge_heap g e = Some x \<and> edge_from x = n)"
    "e \<in> set (node_getAdjListIn g n) \<longleftrightarrow> (\<exists>x. edge_heap g e = Some x \<and> edge_to x = n)"
    "distinct (node_getAdjListOut g n)" "distinct (node_getAdjListIn g n)"
proof -
  obtain d where d: "node_heap g n = Some d" using assms(2) by blast
  then show "e \<in> set (node_getAdjListOut g n) \<longleftrightarrow> (\<exists>x. edge_heap g e = Some x \<and> edge_from x = n)"
    "e \<in> set (node_getAdjListIn g n) \<longleftrightarrow> (\<exists>x. edge_heap g e = Some x \<and> edge_to x = n)"
    "distinct (node_getAdjListOut g n)" "distinct (node_getAdjListIn g n)"
    using wf_node [OF assms(1) d] by (simp_all add: node_getAdjListOut_def node_getAdjListIn_def)
qed

lemma getEdg_Some_iff:
  assumes wf: "wf_graph g" and f: "live g f"
  shows "getEdg g f t = Some e \<longleftrightarrow> (\<exists>x. edge_heap g e = Some x \<and> edge_from x = f \<and> edge_to x = t)"
proof -
  have out: "e' \<in> set (node_getAdjList g f) \<longleftrightarrow> (\<exists>x. edge_heap g e' = Some x \<and> edge_from x = f)" for e'
    using wf_out_edges(1) [OF wf f] by (simp add: node_getAdjList_def node_getAdjListOut_def)
  have other: "getOtherNd g e' f = edge_to x" if "edge_heap g e' = Some x" "edge_from x = f" for e' x
    using that by (simp add: getOtherNd_def)
  show ?thesis
  proof
    assume "getEdg g f t = Some e"
    then have "e \<in> set (node_getAdjList g f)" "getOtherNd g e f = t"
      by (auto simp: getEdg_def find_Some_iff)
    then show "\<exists>x. edge_heap g e = Some x \<and> edge_from x = f \<and> edge_to x = t"
      using out other by metis
  next
    assume "\<exists>x. edge_heap g e = Some x \<and> edge_from x = f \<and> edge_to x = t"
    then obtain x where x: "edge_heap g e = Some x" "edge_from x = f" "edge_to x = t" by blast
    have "y = e" if "y \<in> set (node_getAdjList g f)" "getOtherNd g y f = t" for y
      using that out other wf_edge_unique [OF wf] x by metis
    then show "getEdg g f t = Some e"
      unfolding getEdg_def using out other x by (intro find_Some_unique) auto
  qed
qed

lemma getEdg_None_iff:
  assumes "wf_graph g" "live g f"
  shows "getEdg g f t = None \<longleftrightarrow> \<not> (\<exists>e x. edge_heap g e = Some x \<and> edge_from x = f \<and> edge_to x = t)"
  using getEdg_Some_iff [OF assms] by (metis option.exhaust option.distinct(1))

section \<open>Removing edges and nodes\<close>

text \<open>The graph with the edges of \<open>K\<close> only, and the graph without the object of a node.\<close>

definition keep_edges :: "edge_ref set \<Rightarrow> ('n, 'e) dir_graph \<Rightarrow> ('n, 'e) dir_graph" where
  "keep_edges K g = g\<lparr>edge_heap := edge_heap g |` K,
     node_heap := (\<lambda>n. map_option (\<lambda>d. d\<lparr>adjListOut := filter (\<lambda>e. e \<in> K) (adjListOut d),
                                           adjListIn := filter (\<lambda>e. e \<in> K) (adjListIn d)\<rparr>) (node_heap g n))\<rparr>"

definition blank :: "node_ref \<Rightarrow> ('n, 'e) dir_graph \<Rightarrow> ('n, 'e) dir_graph" where
  "blank n g = g\<lparr>node_heap := (node_heap g)(n := None)\<rparr>"

text \<open>What the adjacency lists of the remaining nodes have to satisfy for that.\<close>

definition adj_ok :: "('n, 'e) dir_graph \<Rightarrow> bool" where
  "adj_ok g \<longleftrightarrow> (\<forall>n d. node_heap g n = Some d \<longrightarrow> distinct (adjListOut d) \<and> distinct (adjListIn d) \<and>
     (\<forall>e\<in>set (adjListOut d). \<exists>x. edge_heap g e = Some x \<and> edge_from x = n) \<and>
     (\<forall>e\<in>set (adjListIn d). \<exists>x. edge_heap g e = Some x \<and> edge_to x = n))"

lemma adj_okD:
  assumes "adj_ok g" "node_heap g n = Some d"
  shows "distinct (adjListOut d)" "distinct (adjListIn d)"
    "e \<in> set (adjListOut d) \<Longrightarrow> \<exists>x. edge_heap g e = Some x \<and> edge_from x = n"
    "e \<in> set (adjListIn d) \<Longrightarrow> \<exists>x. edge_heap g e = Some x \<and> edge_to x = n"
  using assms(1) [unfolded adj_ok_def, THEN spec, THEN spec, THEN mp, OF assms(2)] by fast+

lemma wf_adj_ok: "wf_graph g \<Longrightarrow> adj_ok g"
  unfolding adj_ok_def by (intro allI impI conjI ballI; use wf_node in fast)

lemma adj_ok_blank: "adj_ok g \<Longrightarrow> adj_ok (blank n g)"
  by (simp add: adj_ok_def blank_def)

lemma adj_ok_keep:
  assumes "adj_ok g"
  shows "adj_ok (keep_edges K g)"
  unfolding adj_ok_def
proof (intro allI impI)
  fix n d assume "node_heap (keep_edges K g) n = Some d"
  then obtain d' where d': "node_heap g n = Some d'" "adjListOut d = filter (\<lambda>e. e \<in> K) (adjListOut d')"
    "adjListIn d = filter (\<lambda>e. e \<in> K) (adjListIn d')" by (auto simp: keep_edges_def)
  show "distinct (adjListOut d) \<and> distinct (adjListIn d) \<and>
     (\<forall>e\<in>set (adjListOut d). \<exists>x. edge_heap (keep_edges K g) e = Some x \<and> edge_from x = n) \<and>
     (\<forall>e\<in>set (adjListIn d). \<exists>x. edge_heap (keep_edges K g) e = Some x \<and> edge_to x = n)"
    using adj_okD [OF assms d'(1)] d'(2,3) by (auto simp: keep_edges_def)
qed

lemma keep_keep: "keep_edges K (keep_edges L g) = keep_edges (L \<inter> K) g"
  by (simp add: keep_edges_def option.map_comp comp_def fun_eq_iff conj_commute)

lemma keep_blank: "keep_edges K (blank n g) = blank n (keep_edges K g)"
  by (simp add: keep_edges_def blank_def fun_eq_iff)

lemma keep_UNIV: "keep_edges UNIV g = g"
  by (simp add: keep_edges_def option.map_ident restrict_map_def)

lemma wf_keep_edges:
  assumes wf: "wf_graph g"
  shows "wf_graph (keep_edges K g)"
proof -
  let ?g = "keep_edges K g"
  have dom: "dom (node_heap ?g) = dom (node_heap g)" by (auto simp: keep_edges_def dom_def)
  have e: "edge_heap ?g e = Some x \<longleftrightarrow> e \<in> K \<and> edge_heap g e = Some x" for e x
    by (auto simp: keep_edges_def restrict_map_def)
  have n: "\<exists>d'. node_heap g n = Some d' \<and> d = d'\<lparr>adjListOut := filter (\<lambda>e. e \<in> K) (adjListOut d'),
       adjListIn := filter (\<lambda>e. e \<in> K) (adjListIn d')\<rparr>" if "node_heap ?g n = Some d" for n d
    using that by (auto simp: keep_edges_def)
  have rest: "graph_nodes ?g = graph_nodes g" "next_node ?g = next_node g" "next_edge ?g = next_edge g"
    by (simp_all add: keep_edges_def)
  show ?thesis
    unfolding wf_graph_def rest dom
  proof (intro conjI allI impI)
    show "sorted_wrt (<) (graph_nodes g)" "set (graph_nodes g) = dom (node_heap g)" using wf_nodes [OF wf] by simp_all
  next
    fix n d assume "node_heap ?g n = Some d"
    then obtain d' where d': "node_heap g n = Some d'" "d = d'\<lparr>adjListOut := filter (\<lambda>e. e \<in> K) (adjListOut d'),
       adjListIn := filter (\<lambda>e. e \<in> K) (adjListIn d')\<rparr>" using n by blast
    show "n < next_node g" "distinct (adjListOut d)" "distinct (adjListIn d)"
      using wf_node [OF wf d'(1)] d'(2) by simp_all
    fix e
    show "e \<in> set (adjListOut d) \<longleftrightarrow> (\<exists>x. edge_heap ?g e = Some x \<and> edge_from x = n)"
      using wf_node(4) [OF wf d'(1)] d'(2) by (auto simp: \<open>\<And>e x. edge_heap ?g e = Some x \<longleftrightarrow> e \<in> K \<and> edge_heap g e = Some x\<close>)
    show "e \<in> set (adjListIn d) \<longleftrightarrow> (\<exists>x. edge_heap ?g e = Some x \<and> edge_to x = n)"
      using wf_node(5) [OF wf d'(1)] d'(2) by (auto simp: \<open>\<And>e x. edge_heap ?g e = Some x \<longleftrightarrow> e \<in> K \<and> edge_heap g e = Some x\<close>)
  next
    fix e' x assume "edge_heap ?g e' = Some x"
    then show "e' < next_edge g" "live g (edge_from x)" "live g (edge_to x)" using e wf_edge [OF wf] by blast+
  next
    fix e1 e2 x1 x2 assume "edge_heap ?g e1 = Some x1" "edge_heap ?g e2 = Some x2" "edge_from x1 = edge_from x2" "edge_to x1 = edge_to x2"
    then show "e1 = e2" using e wf_edge_unique [OF wf] by blast
  qed
qed

lemma remove1_keep: "distinct xs \<Longrightarrow> remove1 e xs = filter (\<lambda>e'. e' \<in> - {e}) xs"
  by (simp add: distinct_remove1_removeAll removeAll_filter_not_eq eq_commute cong: filter_cong)

lemma filter_keep_id: "e \<notin> set xs \<Longrightarrow> filter (\<lambda>e'. e' \<in> - {e}) xs = xs"
  by (induction xs) auto

text \<open>Dropping \<open>e\<close> from the lists of a node that has it only where its ends say so.\<close>

lemma removeEdge_lists:
  assumes "adj_ok g" "edge_heap g e = Some x" "node_heap g m = Some d"
  shows "(if edge_from x = m then remove1 e (adjListOut d) else adjListOut d) = filter (\<lambda>e'. e' \<in> - {e}) (adjListOut d)"
    "(if edge_to x = m then remove1 e (adjListIn d) else adjListIn d) = filter (\<lambda>e'. e' \<in> - {e}) (adjListIn d)"
proof -
  have "e \<notin> set (adjListOut d)" if "edge_from x \<noteq> m" using adj_okD(3) [OF assms(1,3)] assms(2) that by fastforce
  then show "(if edge_from x = m then remove1 e (adjListOut d) else adjListOut d) = filter (\<lambda>e'. e' \<in> - {e}) (adjListOut d)"
    using remove1_keep [OF adj_okD(1) [OF assms(1,3)]] filter_keep_id by metis
  have "e \<notin> set (adjListIn d)" if "edge_to x \<noteq> m" using adj_okD(4) [OF assms(1,3)] assms(2) that by fastforce
  then show "(if edge_to x = m then remove1 e (adjListIn d) else adjListIn d) = filter (\<lambda>e'. e' \<in> - {e}) (adjListIn d)"
    using remove1_keep [OF adj_okD(2) [OF assms(1,3)]] filter_keep_id by metis
qed

lemma removeEdge_node:
  assumes "adj_ok g" "edge_heap g e = Some x" "node_heap g m = Some d"
  shows "removeEdge m e g = put_node m (d\<lparr>adjListOut := filter (\<lambda>e'. e' \<in> - {e}) (adjListOut d),
     adjListIn := filter (\<lambda>e'. e' \<in> - {e}) (adjListIn d)\<rparr>) g"
  using removeEdge_lists [OF assms] assms(2,3)
  by (auto simp: removeEdge_def Let_def split: if_splits)

lemma delete_edge_keep: "delete_edge e (g\<lparr>node_heap := h\<rparr>) = (keep_edges (- {e}) g)\<lparr>node_heap := h\<rparr>"
  by (simp add: delete_edge_def keep_edges_def fun_eq_iff restrict_map_def)

text \<open>Nodes that are not an end of \<open>e\<close> keep their lists.\<close>

lemma keep_one_node:
  assumes "adj_ok g" "edge_heap g e = Some x" "node_heap g m = Some d" "edge_from x \<noteq> m" "edge_to x \<noteq> m"
  shows "d\<lparr>adjListOut := filter (\<lambda>e'. e' \<in> - {e}) (adjListOut d), adjListIn := filter (\<lambda>e'. e' \<in> - {e}) (adjListIn d)\<rparr> = d"
  using removeEdge_lists [OF assms(1-3)] assms(4,5) by simp

lemma delEdg_eq:
  assumes wf: "wf_graph g" and e: "getEdg g f t = Some e" and f: "live g f"
  shows "delEdg f t g = keep_edges (- {e}) g"
proof -
  obtain x where x: "edge_heap g e = Some x" "edge_from x = f" "edge_to x = t"
    using getEdg_Some_iff [OF wf f] e by blast
  obtain df dt where df: "node_heap g f = Some df" and dt: "node_heap g t = Some dt"
    using wf_edge [OF wf x(1)] x by auto
  note ok = wf_adj_ok [OF wf]
  let ?cut = "\<lambda>d. d\<lparr>adjListOut := filter (\<lambda>e'. e' \<in> - {e}) (adjListOut d), adjListIn := filter (\<lambda>e'. e' \<in> - {e}) (adjListIn d)\<rparr>"
  have r1: "removeEdge f e g = put_node f (?cut df) g" by (rule removeEdge_node [OF ok x(1) df])
  have r2: "removeEdge t e (put_node f (?cut df) g) = g\<lparr>node_heap := (node_heap g)(f \<mapsto> ?cut df, t \<mapsto> ?cut dt)\<rparr>"
  proof (cases "t = f")
    case True
    have "edge_heap (put_node f (?cut df) g) e = Some x" by (simp add: put_node_def x)
    then show ?thesis using True df dt x
      by (simp add: removeEdge_def put_node_def Let_def remove1_idem filter_keep_id)
  next
    case False
    have "edge_heap (put_node f (?cut df) g) e = Some x" "node_heap (put_node f (?cut df) g) t = Some dt"
      using False dt by (simp_all add: put_node_def x)
    then show ?thesis using False x removeEdge_lists [OF ok x(1) dt]
      by (auto simp: removeEdge_def put_node_def Let_def)
  qed
  have "(node_heap g)(f \<mapsto> ?cut df, t \<mapsto> ?cut dt) = node_heap (keep_edges (- {e}) g)"
  proof
    fix m
    show "((node_heap g)(f \<mapsto> ?cut df, t \<mapsto> ?cut dt)) m = node_heap (keep_edges (- {e}) g) m"
      using keep_one_node [OF ok x(1)] x df dt by (cases "node_heap g m") (auto simp: keep_edges_def)
  qed
  then have "delete_edge e (removeEdge t e (removeEdge f e g)) = keep_edges (- {e}) g"
    unfolding r1 r2 delete_edge_keep by simp
  then show ?thesis by (simp add: delEdg_def e)
qed

text \<open>The three loops of the destructor.\<close>

lemma drop_self_edge_eq:
  assumes "adj_ok g" "edge_heap g e = Some x" "edge_from x = n" "node_heap g n = Some d"
  shows "drop_self_edge n e g = (if edge_to x = n then keep_edges (- {e}) g else g)"
proof (cases "edge_to x = n")
  case True
  let ?d = "d\<lparr>adjListIn := remove1 e (adjListIn d), adjListOut := remove1 e (adjListOut d)\<rparr>"
  have l: "remove1 e (adjListOut d) = filter (\<lambda>e'. e' \<in> - {e}) (adjListOut d)"
    "remove1 e (adjListIn d) = filter (\<lambda>e'. e' \<in> - {e}) (adjListIn d)"
    using removeEdge_lists [OF assms(1,2,4)] assms(3) True by simp_all
  have "(node_heap g)(n \<mapsto> ?d) = node_heap (keep_edges (- {e}) g)"
  proof
    fix m show "((node_heap g)(n \<mapsto> ?d)) m = node_heap (keep_edges (- {e}) g) m"
      using keep_one_node [OF assms(1,2)] assms(3,4) True l by (cases "node_heap g m") (auto simp: keep_edges_def)
  qed
  then have "delete_edge e (put_node n ?d g) = keep_edges (- {e}) g"
    unfolding put_node_def delete_edge_keep by simp
  then show ?thesis using True assms(2,4) by (simp add: drop_self_edge_def Let_def)
qed (simp add: drop_self_edge_def assms)

lemma fold_drop_self:
  assumes "adj_ok g" "distinct es" "\<forall>e\<in>set es. \<exists>x. edge_heap g e = Some x \<and> edge_from x = n" "live g n"
  shows "fold (drop_self_edge n) es g = keep_edges {e. \<not> (e \<in> set es \<and> edge_getTo g e = n)} g"
  using assms
proof (induction es arbitrary: g)
  case Nil
  then show ?case by (simp add: keep_UNIV)
next
  case (Cons e es)
  obtain x where x: "edge_heap g e = Some x" "edge_from x = n" using Cons.prems(3) by auto
  obtain d where "node_heap g n = Some d" using Cons.prems(4) by blast
  note step = drop_self_edge_eq [OF Cons.prems(1) x this]
  show ?case
  proof (cases "edge_to x = n")
    case True
    let ?g = "keep_edges (- {e}) g"
    have heap: "edge_heap ?g e' = edge_heap g e'" if "e' \<in> set es" for e'
      using that Cons.prems(2) by (auto simp: keep_edges_def restrict_map_def)
    then have to: "edge_getTo ?g e' = edge_getTo g e'" if "e' \<in> set es" for e'
      using that by (simp add: edge_getTo_def edge_at_def)
    have "fold (drop_self_edge n) es ?g = keep_edges {e. \<not> (e \<in> set es \<and> edge_getTo ?g e = n)} ?g"
    proof (rule Cons.IH)
      show "adj_ok ?g" using Cons.prems(1) by (rule adj_ok_keep)
      show "live ?g n" using Cons.prems(4) by (auto simp: keep_edges_def)
      show "\<forall>e\<in>set es. \<exists>x. edge_heap ?g e = Some x \<and> edge_from x = n" using Cons.prems(3) heap by simp
    qed (use Cons.prems in simp)
    also have "\<dots> = keep_edges {e'. \<not> (e' \<in> set (e # es) \<and> edge_getTo g e' = n)} g"
      unfolding keep_keep by (rule arg_cong [where f = "\<lambda>K. keep_edges K g"]) (use to x True in auto)
    finally show ?thesis using step True by simp
  next
    case False
    have "fold (drop_self_edge n) es g = keep_edges {e. \<not> (e \<in> set es \<and> edge_getTo g e = n)} g"
      by (rule Cons.IH) (use Cons.prems in auto)
    also have "\<dots> = keep_edges {e'. \<not> (e' \<in> set (e # es) \<and> edge_getTo g e' = n)} g"
      by (rule arg_cong [where f = "\<lambda>K. keep_edges K g"]) (use x False in auto)
    finally show ?thesis using step False by simp
  qed
qed

text \<open>
  While a node is taken down its own lists are out of date; \<open>blank\<close> hides them.  \<open>far\<close> is the other end of the edge.
\<close>

lemma blank_drop:
  assumes ok: "adj_ok (blank n g)" and x: "edge_heap g e = Some x" and m: "m \<noteq> n" "node_heap g m = Some d"
    and ends: "edge_from x = n \<and> edge_to x = m \<or> edge_from x = m \<and> edge_to x = n"
  shows "blank n (delete_edge e (removeEdge m e g)) = keep_edges (- {e}) (blank n g)"
    "node_heap (delete_edge e (removeEdge m e g)) n = node_heap g n"
proof -
  have bx: "edge_heap (blank n g) e = Some x" and bm: "node_heap (blank n g) m = Some d"
    using x m by (simp_all add: blank_def)
  let ?cut = "d\<lparr>adjListOut := filter (\<lambda>e'. e' \<in> - {e}) (adjListOut d), adjListIn := filter (\<lambda>e'. e' \<in> - {e}) (adjListIn d)\<rparr>"
  have r: "removeEdge m e g = put_node m ?cut g"
    using removeEdge_lists [OF ok bx bm] x m by (auto simp: removeEdge_def Let_def split: if_splits)
  show "node_heap (delete_edge e (removeEdge m e g)) n = node_heap g n"
    using m by (simp add: r put_node_def delete_edge_def)
  have "(node_heap g)(m \<mapsto> ?cut, n := None) = node_heap (keep_edges (- {e}) (blank n g))"
  proof
    fix k show "((node_heap g)(m \<mapsto> ?cut, n := None)) k = node_heap (keep_edges (- {e}) (blank n g)) k"
      using keep_one_node [OF ok bx] m ends by (cases "node_heap g k") (auto simp: keep_edges_def blank_def)
  qed
  moreover have "blank n (delete_edge e (removeEdge m e g)) =
      (keep_edges (- {e}) (blank n g))\<lparr>node_heap := (node_heap g)(m \<mapsto> ?cut, n := None)\<rparr>"
    by (simp add: r blank_def put_node_def delete_edge_def keep_edges_def restrict_map_def fun_eq_iff)
  ultimately show "blank n (delete_edge e (removeEdge m e g)) = keep_edges (- {e}) (blank n g)" by simp
qed

lemma fold_drop:
  fixes cut :: "edge_ref \<Rightarrow> ('n, 'e) dir_graph \<Rightarrow> ('n, 'e) dir_graph"
  assumes step: "\<And>e g x. edge_heap g e = Some x \<Longrightarrow> ends x \<Longrightarrow> cut e g = delete_edge e (removeEdge (far x) e g)"
    and ends: "\<And>x. ends x \<Longrightarrow> far x \<noteq> n \<and> (edge_from x = n \<and> edge_to x = far x \<or> edge_from x = far x \<and> edge_to x = n)"
  shows "\<lbrakk>adj_ok (blank n g); distinct es; \<forall>e\<in>set es. \<exists>x. edge_heap g e = Some x \<and> ends x \<and> live g (far x)\<rbrakk> \<Longrightarrow>
    blank n (fold cut es g) = keep_edges (- set es) (blank n g) \<and> node_heap (fold cut es g) n = node_heap g n"
proof (induction es arbitrary: g)
  case Nil
  then show ?case by (simp add: keep_UNIV)
next
  case (Cons e es)
  obtain x d where x: "edge_heap g e = Some x" "ends x" "node_heap g (far x) = Some d" using Cons.prems(3) by auto
  let ?g = "cut e g"
  note b = blank_drop [OF Cons.prems(1) x(1) _ x(3)]
  have bg: "blank n ?g = keep_edges (- {e}) (blank n g)" and ng: "node_heap ?g n = node_heap g n"
    using b ends [OF x(2)] by (simp_all add: step [OF x(1,2)])
  have heap: "edge_heap ?g e' = edge_heap g e'" if "e' \<noteq> e" for e'
  proof -
    have "edge_heap ?g = edge_heap (blank n ?g)" by (simp add: blank_def)
    then show ?thesis using that by (simp add: bg) (simp add: keep_edges_def blank_def)
  qed
  have live: "live ?g m \<longleftrightarrow> live g m" if "m \<noteq> n" for m
  proof -
    have "node_heap ?g m = node_heap (blank n ?g) m" using that by (simp add: blank_def)
    then show ?thesis using that by (simp add: bg dom_def) (simp add: keep_edges_def blank_def)
  qed
  have "blank n (fold cut es ?g) = keep_edges (- set es) (blank n ?g) \<and> node_heap (fold cut es ?g) n = node_heap ?g n"
  proof (rule Cons.IH)
    show "adj_ok (blank n ?g)" using adj_ok_keep [OF Cons.prems(1)] bg by simp
    show "\<forall>e\<in>set es. \<exists>x. edge_heap ?g e = Some x \<and> ends x \<and> live ?g (far x)"
      using Cons.prems(2,3) heap live ends by (metis distinct.simps(2) list.set_intros(2))
  qed (use Cons.prems in simp)
  moreover have "- {e} \<inter> - set es = - set (e # es)" by auto
  ultimately show ?case by (simp add: bg ng keep_keep)
qed

definition incident :: "('n, 'e) dir_graph \<Rightarrow> node_ref \<Rightarrow> edge_ref set" where
  "incident g n = {e. \<exists>x. edge_heap g e = Some x \<and> (edge_from x = n \<or> edge_to x = n)}"

lemma delete_node_eq:
  assumes wf: "wf_graph g" and n: "live g n"
  shows "delete_node n g = blank n (keep_edges (- incident g n) g)"
proof -
  define selfs where "selfs = {e. \<not> (e \<in> set (node_getAdjListOut g n) \<and> edge_getTo g e = n)}"
  let ?g1 = "keep_edges selfs g"
  have g1: "fold (drop_self_edge n) (node_getAdjListOut g n) g = ?g1"
    unfolding selfs_def using wf_out_edges [OF wf n] n by (intro fold_drop_self wf_adj_ok [OF wf]) auto
  have wf1: "wf_graph ?g1" by (rule wf_keep_edges [OF wf])
  have n1: "live ?g1 n" using n by (auto simp: keep_edges_def)
  have heap1: "edge_heap ?g1 e = Some x \<longleftrightarrow> edge_heap g e = Some x \<and> \<not> (edge_from x = n \<and> edge_to x = n)" for e x
    using wf_out_edges(1) [OF wf n] by (auto simp: selfs_def keep_edges_def restrict_map_def)
  let ?outs = "node_getAdjListOut ?g1 n"
  let ?g2 = "fold (drop_out_edge n) ?outs ?g1"
  have outs: "\<forall>e\<in>set ?outs. \<exists>x. edge_heap ?g1 e = Some x \<and> (edge_from x = n \<and> edge_to x \<noteq> n) \<and> live ?g1 (edge_to x)"
  proof
    fix e assume "e \<in> set ?outs"
    then obtain x where x: "edge_heap ?g1 e = Some x" "edge_from x = n" using wf_out_edges(1) [OF wf1 n1] by blast
    then have "edge_to x \<noteq> n" using heap1 by blast
    then show "\<exists>x. edge_heap ?g1 e = Some x \<and> (edge_from x = n \<and> edge_to x \<noteq> n) \<and> live ?g1 (edge_to x)"
      using x wf_edge(3) [OF wf1 x(1)] by blast
  qed
  have g2: "blank n ?g2 = keep_edges (- set ?outs) (blank n ?g1) \<and> node_heap ?g2 n = node_heap ?g1 n"
  proof (rule fold_drop [where ends = "\<lambda>x. edge_from x = n \<and> edge_to x \<noteq> n" and far = edge_to])
    show "adj_ok (blank n ?g1)" by (rule adj_ok_blank [OF wf_adj_ok [OF wf1]])
  qed (use outs wf_out_edges(3) [OF wf1 n1] in \<open>auto simp: drop_out_edge_def\<close>)
  let ?ins = "node_getAdjListIn ?g1 n"
  have ins2: "node_getAdjListIn ?g2 n = ?ins" using g2 by (simp add: node_getAdjListIn_def node_at_def)
  have heap2: "edge_heap ?g2 e = Some x \<longleftrightarrow> edge_heap ?g1 e = Some x \<and> edge_from x \<noteq> n" for e x
  proof -
    have "edge_heap ?g2 = edge_heap (blank n ?g2)" by (simp add: blank_def)
    also have "\<dots> = edge_heap ?g1 |` (- set ?outs)" using g2 by (simp add: keep_edges_def blank_def)
    finally show ?thesis using wf_out_edges(1) [OF wf1 n1] by (auto simp: restrict_map_def)
  qed
  have live2: "live ?g2 m \<longleftrightarrow> live ?g1 m" for m
  proof (cases "m = n")
    case False
    then have "node_heap ?g2 m = node_heap (blank n ?g2) m" by (simp add: blank_def)
    also have "\<dots> = node_heap (keep_edges (- set ?outs) (blank n ?g1)) m" using g2 by simp
    finally show ?thesis using False by (simp add: dom_def) (simp add: keep_edges_def blank_def)
  qed (use g2 in \<open>simp add: dom_def\<close>)
  have ins: "\<forall>e\<in>set ?ins. \<exists>x. edge_heap ?g2 e = Some x \<and> (edge_from x \<noteq> n \<and> edge_to x = n) \<and> live ?g2 (edge_from x)"
  proof
    fix e assume "e \<in> set ?ins"
    then obtain x where x: "edge_heap ?g1 e = Some x" "edge_to x = n" using wf_out_edges(2) [OF wf1 n1] by blast
    then have "edge_from x \<noteq> n" using heap1 by blast
    then show "\<exists>x. edge_heap ?g2 e = Some x \<and> (edge_from x \<noteq> n \<and> edge_to x = n) \<and> live ?g2 (edge_from x)"
      using x heap2 live2 wf_edge(2) [OF wf1 x(1)] by blast
  qed
  have "blank n (fold (drop_in_edge n) ?ins ?g2) = keep_edges (- set ?ins) (blank n ?g2) \<and>
      node_heap (fold (drop_in_edge n) ?ins ?g2) n = node_heap ?g2 n"
  proof (rule fold_drop [where ends = "\<lambda>x. edge_from x \<noteq> n \<and> edge_to x = n" and far = edge_from])
    show "adj_ok (blank n ?g2)" using g2 adj_ok_keep [OF adj_ok_blank [OF wf_adj_ok [OF wf1]]] by simp
  qed (use ins wf_out_edges(4) [OF wf1 n1] in \<open>auto simp: drop_in_edge_def\<close>)
  then have "delete_node n g = keep_edges (selfs \<inter> - set ?outs \<inter> - set ?ins) (blank n g)"
    using g2 by (simp add: delete_node_def g1 ins2 Let_def keep_keep keep_blank blank_def [symmetric])
  also have "selfs \<inter> - set ?outs \<inter> - set ?ins = - incident g n"
  proof (rule set_eqI)
    fix e
    have "e \<in> selfs \<longleftrightarrow> \<not> (\<exists>x. edge_heap g e = Some x \<and> edge_from x = n \<and> edge_to x = n)"
      using wf_out_edges(1) [OF wf n] by (auto simp: selfs_def)
    moreover have "e \<in> set ?outs \<longleftrightarrow> (\<exists>x. edge_heap g e = Some x \<and> edge_from x = n \<and> edge_to x \<noteq> n)"
      using wf_out_edges(1) [OF wf1 n1] heap1 by blast
    moreover have "e \<in> set ?ins \<longleftrightarrow> (\<exists>x. edge_heap g e = Some x \<and> edge_from x \<noteq> n \<and> edge_to x = n)"
      using wf_out_edges(2) [OF wf1 n1] heap1 by blast
    ultimately show "e \<in> selfs \<inter> - set ?outs \<inter> - set ?ins \<longleftrightarrow> e \<in> - incident g n"
      unfolding incident_def by blast
  qed
  finally show ?thesis by (simp add: keep_blank)
qed

lemma delNd_eq:
  assumes "wf_graph g" "live g n"
  shows "delNd n g = (blank n (keep_edges (- incident g n) g))\<lparr>graph_nodes := remove1 n (graph_nodes g)\<rparr>"
  by (simp add: delNd_def delete_node_eq [OF assms] Let_def) (simp add: blank_def keep_edges_def)

lemma wf_delEdg:
  assumes "wf_graph g" "live g f"
  shows "wf_graph (delEdg f t g)"
proof (cases "getEdg g f t")
  case None
  then show ?thesis by (simp add: delEdg_def assms)
next
  case (Some e)
  show ?thesis unfolding delEdg_eq [OF assms(1) Some assms(2)] by (rule wf_keep_edges [OF assms(1)])
qed

lemma sorted_wrt_remove1: "sorted_wrt P xs \<Longrightarrow> sorted_wrt P (remove1 x xs)"
  by (induction xs) (auto dest: notin_set_remove1 set_remove1_subset [THEN subsetD])

lemma wf_delNd:
  assumes wf: "wf_graph g" and n: "live g n"
  shows "wf_graph (delNd n g)"
proof -
  let ?k = "keep_edges (- incident g n) g"
  have wk: "wf_graph ?k" by (rule wf_keep_edges [OF wf])
  have away: "edge_from x \<noteq> n" "edge_to x \<noteq> n" if "edge_heap ?k e = Some x" for e x
    using that by (auto simp: keep_edges_def restrict_map_def incident_def split: if_splits)
  have dist: "distinct (graph_nodes g)"
    using wf_nodes [OF wf] strict_sorted_iff by blast
  have gn: "graph_nodes ?k = graph_nodes g" by (simp add: keep_edges_def)
  show ?thesis
    unfolding delNd_eq [OF wf n] wf_graph_def
  proof (intro conjI allI impI; (elim exE)?)
    show "sorted_wrt (<) (graph_nodes ((blank n ?k)\<lparr>graph_nodes := remove1 n (graph_nodes g)\<rparr>))"
      using wf_nodes [OF wf] by (simp add: sorted_wrt_remove1)
    show "set (graph_nodes ((blank n ?k)\<lparr>graph_nodes := remove1 n (graph_nodes g)\<rparr>)) =
        dom (node_heap ((blank n ?k)\<lparr>graph_nodes := remove1 n (graph_nodes g)\<rparr>))"
      using wf_nodes [OF wk] dist gn by (auto simp: blank_def)
  qed (use wf_node [OF wk] wf_edge [OF wk] wf_edge_unique [OF wk] away in \<open>auto simp: blank_def split: if_splits\<close>)
qed

section \<open>Adding edges and nodes\<close>

text \<open>A new edge is appended to the out list of its source and to the in list of its target.\<close>

definition with_edge :: "edge_ref \<Rightarrow> 'e gedge \<Rightarrow> ('n, 'e) dir_graph \<Rightarrow> ('n, 'e) dir_graph" where
  "with_edge e x g = g\<lparr>edge_heap := (edge_heap g)(e \<mapsto> x), next_edge := e + 1,
     node_heap := (\<lambda>n. map_option (\<lambda>d. d\<lparr>adjListOut := adjListOut d @ (if n = edge_from x then [e] else []),
                                           adjListIn := adjListIn d @ (if n = edge_to x then [e] else [])\<rparr>) (node_heap g n))\<rparr>"

lemma addEdg_eq:
  assumes wf: "wf_graph g" and f: "live g f" and t: "live g t" and none: "getEdg g f t = None"
  shows "addEdg f t p g = (next_edge g, with_edge (next_edge g) \<lparr>edge_from = f, edge_to = t, edge_pl = p\<rparr> g)"
proof -
  let ?e = "next_edge g"
  obtain df dt where df: "node_heap g f = Some df" and dt: "node_heap g t = Some dt" using f t by blast
  let ?h = "if t = f then (node_heap g)(f \<mapsto> df\<lparr>adjListOut := adjListOut df @ [?e], adjListIn := adjListIn df @ [?e]\<rparr>)
    else (node_heap g)(f \<mapsto> df\<lparr>adjListOut := adjListOut df @ [?e]\<rparr>, t \<mapsto> dt\<lparr>adjListIn := adjListIn dt @ [?e]\<rparr>)"
  have fresh: "edge_heap g ?e = None" using wf_edge(1) [OF wf] by (meson less_irrefl not_None_eq)
  have "?e \<notin> set (adjListOut df)" "?e \<notin> set (adjListIn df)" "?e \<notin> set (adjListOut dt)" "?e \<notin> set (adjListIn dt)"
    using wf_node(4,5) [OF wf df] wf_node(4,5) [OF wf dt] fresh by auto
  then have add: "addEdg f t p g = (?e, g\<lparr>edge_heap := (edge_heap g)(?e \<mapsto> \<lparr>edge_from = f, edge_to = t, edge_pl = p\<rparr>),
      next_edge := ?e + 1, node_heap := ?h\<rparr>)"
    using none df dt
    by (auto simp: addEdg_def new_edge_def addEdge_def put_node_def adjOutContains_def adjInContains_def
        edge_getFrom_def edge_getTo_def edge_at_def node_at_def Let_def)
  have h: "?h = (\<lambda>n. map_option (\<lambda>d. d\<lparr>adjListOut := adjListOut d @ (if n = f then [?e] else []),
      adjListIn := adjListIn d @ (if n = t then [?e] else [])\<rparr>) (node_heap g n))"
  proof
    fix n show "?h n = map_option (\<lambda>d. d\<lparr>adjListOut := adjListOut d @ (if n = f then [?e] else []),
      adjListIn := adjListIn d @ (if n = t then [?e] else [])\<rparr>) (node_heap g n)"
      using df dt by (cases "node_heap g n") auto
  qed
  show ?thesis unfolding add h with_edge_def by simp
qed

lemma wf_with_edge:
  assumes wf: "wf_graph g" and ends: "live g (edge_from x)" "live g (edge_to x)"
    and none: "\<not> (\<exists>e y. edge_heap g e = Some y \<and> edge_from y = edge_from x \<and> edge_to y = edge_to x)"
  shows "wf_graph (with_edge (next_edge g) x g)"
proof -
  let ?e = "next_edge g" and ?g = "with_edge (next_edge g) x g"
  have fresh: "edge_heap g ?e = None" using wf_edge(1) [OF wf] by (meson less_irrefl not_None_eq)
  have dom: "dom (node_heap ?g) = dom (node_heap g)" by (auto simp: with_edge_def)
  have heap: "edge_heap ?g e = Some y \<longleftrightarrow> e = ?e \<and> y = x \<or> e \<noteq> ?e \<and> edge_heap g e = Some y" for e y
    by (auto simp: with_edge_def)
  have rest: "graph_nodes ?g = graph_nodes g" "next_node ?g = next_node g" "next_edge ?g = ?e + 1"
    by (simp_all add: with_edge_def)
  show ?thesis
    unfolding wf_graph_def rest dom
  proof (intro conjI allI impI)
    show "sorted_wrt (<) (graph_nodes g)" "set (graph_nodes g) = dom (node_heap g)" using wf_nodes [OF wf] by simp_all
  next
    fix n d assume "node_heap ?g n = Some d"
    then obtain d' where d': "node_heap g n = Some d'" "adjListOut d = adjListOut d' @ (if n = edge_from x then [?e] else [])"
      "adjListIn d = adjListIn d' @ (if n = edge_to x then [?e] else [])" by (auto simp: with_edge_def)
    note w = wf_node [OF wf d'(1)]
    show "n < next_node g" "distinct (adjListOut d)" "distinct (adjListIn d)" using w d' fresh by auto
    fix e
    show "e \<in> set (adjListOut d) \<longleftrightarrow> (\<exists>y. edge_heap ?g e = Some y \<and> edge_from y = n)"
      using w(4) d'(2) heap fresh by auto
    show "e \<in> set (adjListIn d) \<longleftrightarrow> (\<exists>y. edge_heap ?g e = Some y \<and> edge_to y = n)"
      using w(5) d'(3) heap fresh by auto
  next
    fix e' y assume "edge_heap ?g e' = Some y"
    then have "e' = ?e \<and> y = x \<or> edge_heap g e' = Some y" using heap by blast
    then show "e' < ?e + 1" "live g (edge_from y)" "live g (edge_to y)"
      using wf_edge [OF wf, of e' y] ends by (elim disjE; simp)+
  next
    fix e1 e2 x1 x2 assume "edge_heap ?g e1 = Some x1" "edge_heap ?g e2 = Some x2" "edge_from x1 = edge_from x2" "edge_to x1 = edge_to x2"
    then show "e1 = e2" using heap none wf_edge_unique [OF wf] by metis
  qed
qed

lemma wf_addEdg:
  assumes "wf_graph g" "live g f" "live g t"
  shows "wf_graph (snd (addEdg f t p g))"
proof (cases "getEdg g f t")
  case None
  then show ?thesis
    using addEdg_eq [OF assms None] wf_with_edge [OF assms(1)] assms getEdg_None_iff [OF assms(1,2), of t] by simp
qed (simp add: addEdg_def assms)

lemma wf_addNd:
  assumes "wf_graph g"
  shows "wf_graph (snd (addNd p g))"
proof -
  have fresh: "node_heap g (next_node g) = None" using wf_node(1) [OF assms] by (meson less_irrefl not_None_eq)
  have last: "\<forall>n\<in>set (graph_nodes g). n < next_node g" using wf_nodes [OF assms] wf_node(1) [OF assms] by blast
  have no_edge: "edge_from x \<noteq> next_node g" "edge_to x \<noteq> next_node g" if "edge_heap g e = Some x" for e x
    using wf_edge(2,3) [OF assms that] fresh by auto
  have "insort a xs = xs @ [a]" if "\<forall>n\<in>set xs. n < a" for a :: nat and xs
    using that by (induction xs) auto
  then have ins: "insort (next_node g) (graph_nodes g) = graph_nodes g @ [next_node g]" using last by blast
  let ?g = "snd (addNd p g)"
  have heap: "node_heap ?g n = Some d \<longleftrightarrow> n = next_node g \<and> d = \<lparr>adjListIn = [], adjListOut = [], node_pl = p\<rparr> \<or>
      node_heap g n = Some d" for n d
    using fresh by (auto simp: addNd_def)
  have dom: "dom (node_heap ?g) = insert (next_node g) (dom (node_heap g))" by (simp add: addNd_def)
  have rest: "graph_nodes ?g = graph_nodes g @ [next_node g]" "next_node ?g = next_node g + 1" "edge_heap ?g = edge_heap g"
    "next_edge ?g = next_edge g" by (simp_all add: addNd_def ins)
  show ?thesis
    unfolding wf_graph_def rest dom
  proof (intro conjI allI impI)
    show "sorted_wrt (<) (graph_nodes g @ [next_node g])" "set (graph_nodes g @ [next_node g]) = insert (next_node g) (dom (node_heap g))"
      using wf_nodes [OF assms] last by (simp_all add: sorted_wrt_append)
  next
    fix n d assume "node_heap ?g n = Some d"
    then consider (new) "n = next_node g" "d = \<lparr>adjListIn = [], adjListOut = [], node_pl = p\<rparr>"
      | (old) "node_heap g n = Some d" using heap by blast
    then have "n < next_node g + 1 \<and> distinct (adjListOut d) \<and> distinct (adjListIn d) \<and>
      (\<forall>e. e \<in> set (adjListOut d) \<longleftrightarrow> (\<exists>x. edge_heap g e = Some x \<and> edge_from x = n)) \<and>
      (\<forall>e. e \<in> set (adjListIn d) \<longleftrightarrow> (\<exists>x. edge_heap g e = Some x \<and> edge_to x = n))"
    proof cases
      case new
      then show ?thesis using no_edge by auto
    next
      case old
      show ?thesis using wf_node [OF assms old] by simp
    qed
    then show "n < next_node g + 1" "distinct (adjListOut d)" "distinct (adjListIn d)"
      "e \<in> set (adjListOut d) \<longleftrightarrow> (\<exists>x. edge_heap g e = Some x \<and> edge_from x = n)"
      "e \<in> set (adjListIn d) \<longleftrightarrow> (\<exists>x. edge_heap g e = Some x \<and> edge_to x = n)" for e
      by blast+
  next
    fix e x assume "edge_heap g e = Some x"
    then show "e < next_edge g" "edge_from x \<in> insert (next_node g) (dom (node_heap g))" "edge_to x \<in> insert (next_node g) (dom (node_heap g))"
      using wf_edge [OF assms] by blast+
  next
    fix e1 e2 x1 x2 assume "edge_heap g e1 = Some x1" "edge_heap g e2 = Some x2" "edge_from x1 = edge_from x2" "edge_to x1 = edge_to x2"
    then show "e1 = e2" using wf_edge_unique [OF assms] by blast
  qed
qed

section \<open>The abstract graph\<close>

text \<open>
  What the heap stands for: the payload of every node, and the payload of the arc between two nodes.
\<close>

definition node_payloads :: "('n, 'e) dir_graph \<Rightarrow> node_ref \<rightharpoonup> 'n" where
  "node_payloads g n = map_option node_pl (node_heap g n)"

definition arcs :: "('n, 'e) dir_graph \<Rightarrow> node_ref \<times> node_ref \<rightharpoonup> 'e" where
  "arcs g ab = (if node_heap g (fst ab) = None then None
     else map_option (epl g) (getEdg g (fst ab) (snd ab)))"

lemma arcs_Some_iff:
  assumes "wf_graph g"
  shows "arcs g (a, b) = Some p \<longleftrightarrow>
    (\<exists>e x. edge_heap g e = Some x \<and> edge_from x = a \<and> edge_to x = b \<and> edge_pl x = p)"
proof (cases "live g a")
  case True
  have "arcs g (a, b) = Some p \<longleftrightarrow> (\<exists>e. getEdg g a b = Some e \<and> epl g e = p)"
    using True by (auto simp: arcs_def)
  also have "\<dots> \<longleftrightarrow> (\<exists>e x. edge_heap g e = Some x \<and> edge_from x = a \<and> edge_to x = b \<and> edge_pl x = p)"
    unfolding getEdg_Some_iff [OF assms True] by (metis edge_ends(3))
  finally show ?thesis .
next
  case False
  then have "arcs g (a, b) = None" by (auto simp: arcs_def)
  moreover have "\<not> (\<exists>e x. edge_heap g e = Some x \<and> edge_from x = a)" using False wf_edge(2) [OF assms] by blast
  ultimately show ?thesis by auto
qed

lemma map_eqI: "(\<And>k v. m k = Some v \<longleftrightarrow> m' k = Some v) \<Longrightarrow> m = m'"
  by (metis ext not_None_eq)

lemma arcs_keep_edges:
  assumes "wf_graph g"
  shows "arcs (keep_edges K g) (a, b) = Some p \<longleftrightarrow>
    (\<exists>e x. e \<in> K \<and> edge_heap g e = Some x \<and> edge_from x = a \<and> edge_to x = b \<and> edge_pl x = p)"
  unfolding arcs_Some_iff [OF wf_keep_edges [OF assms]] by (auto simp: keep_edges_def restrict_map_def)

lemma arcs_None_iff:
  assumes "wf_graph g" "live g a"
  shows "arcs g (a, b) = None \<longleftrightarrow> getEdg g a b = None"
  using assms(2) by (auto simp: arcs_def)

lemma arcs_addEdg:
  assumes "wf_graph g" "live g f" "live g t"
  shows "arcs (snd (addEdg f t p g)) = (if arcs g (f, t) = None then (arcs g)((f, t) \<mapsto> p) else arcs g)"
    "node_payloads (snd (addEdg f t p g)) = node_payloads g"
proof -
  have "arcs (snd (addEdg f t p g)) = (if arcs g (f, t) = None then (arcs g)((f, t) \<mapsto> p) else arcs g) \<and>
     node_payloads (snd (addEdg f t p g)) = node_payloads g"
  proof (cases "getEdg g f t")
    case None
    let ?x = "\<lparr>edge_from = f, edge_to = t, edge_pl = p\<rparr>" and ?e = "next_edge g"
    have eq: "snd (addEdg f t p g) = with_edge ?e ?x g" using addEdg_eq [OF assms None] by simp
    have "wf_graph (with_edge ?e ?x g)"
      using wf_addEdg [OF assms] eq by metis
    note iff = arcs_Some_iff [OF this]
    have fresh: "edge_heap g ?e = None" using wf_edge(1) [OF assms(1)] by (meson less_irrefl not_None_eq)
    have "arcs (with_edge ?e ?x g) = (arcs g)((f, t) \<mapsto> p)"
    proof (rule map_eqI)
      fix ab :: "node_ref \<times> node_ref" and v
      obtain a b where ab: "ab = (a, b)" by fastforce
      have none: "arcs g (f, t) = None" using None arcs_None_iff [OF assms(1,2)] by simp
      have "arcs (with_edge ?e ?x g) (a, b) = Some v \<longleftrightarrow>
          a = f \<and> b = t \<and> v = p \<or> (\<exists>e x. edge_heap g e = Some x \<and> edge_from x = a \<and> edge_to x = b \<and> edge_pl x = v)"
        unfolding iff using fresh by (auto simp: with_edge_def) (metis option.distinct(1))+
      then show "arcs (with_edge ?e ?x g) ab = Some v \<longleftrightarrow> ((arcs g)((f, t) \<mapsto> p)) ab = Some v"
        unfolding ab arcs_Some_iff [OF assms(1), symmetric] using none by auto
    qed
    moreover have "node_payloads (with_edge ?e ?x g) = node_payloads g"
      by (simp add: node_payloads_def with_edge_def fun_eq_iff option.map_comp comp_def)
    ultimately show ?thesis using None arcs_None_iff [OF assms(1,2)] eq by simp
  next
    case (Some e)
    then have "arcs g (f, t) \<noteq> None" using arcs_None_iff [OF assms(1,2)] by simp
    then show ?thesis using Some by (auto simp: addEdg_def)
  qed
  then show "arcs (snd (addEdg f t p g)) = (if arcs g (f, t) = None then (arcs g)((f, t) \<mapsto> p) else arcs g)"
    "node_payloads (snd (addEdg f t p g)) = node_payloads g" by blast+
qed

lemma arcs_delEdg:
  assumes "wf_graph g" "live g f"
  shows "arcs (delEdg f t g) = (arcs g)((f, t) := None)"
proof (cases "getEdg g f t")
  case None
  then show ?thesis using arcs_None_iff [OF assms] by (simp add: delEdg_def fun_upd_idem)
next
  case (Some e)
  obtain x where x: "edge_heap g e = Some x" "edge_from x = f" "edge_to x = t"
    using getEdg_Some_iff [OF assms] Some by blast
  show ?thesis
  proof (rule map_eqI)
    fix ab :: "node_ref \<times> node_ref" and v
    obtain a b where ab: "ab = (a, b)" by fastforce
    show "arcs (delEdg f t g) ab = Some v \<longleftrightarrow> ((arcs g)((f, t) := None)) ab = Some v"
      unfolding ab delEdg_eq [OF assms(1) Some assms(2)] arcs_keep_edges [OF assms(1)] fun_upd_apply
    proof (cases "(a, b) = (f, t)")
      case True
      have "\<not> (\<exists>e' x'. e' \<in> - {e} \<and> edge_heap g e' = Some x' \<and> edge_from x' = f \<and> edge_to x' = t)"
        using wf_edge_unique [OF assms(1) _ x(1)] unfolding x(2,3) by blast
      with True show "(\<exists>e' x. e' \<in> - {e} \<and> edge_heap g e' = Some x \<and> edge_from x = a \<and> edge_to x = b \<and> edge_pl x = v) \<longleftrightarrow>
          (if (a, b) = (f, t) then None else arcs g (a, b)) = Some v" by auto
    next
      case False
      then have "e' \<noteq> e" if "edge_heap g e' = Some x'" "edge_from x' = a" "edge_to x' = b" for e' x'
        using that x by auto
      with False show "(\<exists>e' x. e' \<in> - {e} \<and> edge_heap g e' = Some x \<and> edge_from x = a \<and> edge_to x = b \<and> edge_pl x = v) \<longleftrightarrow>
          (if (a, b) = (f, t) then None else arcs g (a, b)) = Some v"
        unfolding if_not_P [OF False] arcs_Some_iff [OF assms(1)] by blast
    qed
  qed
qed

lemma arcs_delNd:
  assumes "wf_graph g" "live g n"
  shows "arcs (delNd n g) (a, b) = (if a = n \<or> b = n then None else arcs g (a, b))"
    "node_payloads (delNd n g) = (node_payloads g)(n := None)"
proof -
  let ?k = "keep_edges (- incident g n) g"
  have d: "delNd n g = (blank n ?k)\<lparr>graph_nodes := remove1 n (graph_nodes g)\<rparr>" by (rule delNd_eq [OF assms])
  have "arcs (delNd n g) (a, b) = Some v \<longleftrightarrow> (if a = n \<or> b = n then None else arcs g (a, b)) = Some v" for v
    unfolding arcs_Some_iff [OF wf_delNd [OF assms]] arcs_Some_iff [OF assms(1)]
    by (auto simp: d blank_def keep_edges_def restrict_map_def incident_def arcs_Some_iff [OF assms(1)] split: if_splits)
  then show "arcs (delNd n g) (a, b) = (if a = n \<or> b = n then None else arcs g (a, b))" by (metis not_None_eq)
  show "node_payloads (delNd n g) = (node_payloads g)(n := None)"
    by (simp add: d node_payloads_def blank_def keep_edges_def fun_eq_iff option.map_comp comp_def)
qed

lemma live_node_payloads: "live g n \<longleftrightarrow> node_payloads g n \<noteq> None"
  by (auto simp: node_payloads_def)

lemma live_addEdg [simp]:
  assumes "wf_graph g" "live g f" "live g t"
  shows "live (snd (addEdg f t p g)) n \<longleftrightarrow> live g n"
  unfolding live_node_payloads using arcs_addEdg(2) [OF assms] by simp

section \<open>Adding many edges, and merging nodes\<close>

lemma edge_heap_addEdg:
  assumes "wf_graph g" "live g f" "live g t" "edge_heap g e = Some x"
  shows "edge_heap (snd (addEdg f t p g)) e = Some x"
proof (cases "getEdg g f t")
  case None
  have "e \<noteq> next_edge g" using wf_edge(1) [OF assms(1,4)] by simp
  then show ?thesis using addEdg_eq [OF assms(1-3) None] assms(4) by (simp add: with_edge_def)
qed (simp add: addEdg_def assms)

text \<open>
  A loop over edges of the graph that adds arcs computed from them: \<open>arc x\<close> is what the edge object \<open>x\<close> asks for.  Arcs that
  exist stay as they are, and the first request for an arc decides its payload.
\<close>

definition add_arcs :: "('e gedge \<Rightarrow> ((node_ref \<times> node_ref) \<times> 'e) option) \<Rightarrow> edge_ref list \<Rightarrow> ('n, 'e) dir_graph \<Rightarrow> ('n, 'e) dir_graph" where
  "add_arcs arc es g = fold (\<lambda>e g. case arc (edge_at g e) of None \<Rightarrow> g | Some ((f, t), p) \<Rightarrow> snd (addEdg f t p g)) es g"

lemma add_arcs_correct:
  assumes "wf_graph g" "\<forall>e\<in>set es. \<exists>x. edge_heap g e = Some x \<and> (\<forall>f t p. arc x = Some ((f, t), p) \<longrightarrow> live g f \<and> live g t)"
  shows "wf_graph (add_arcs arc es g) \<and> node_payloads (add_arcs arc es g) = node_payloads g \<and>
    arcs (add_arcs arc es g) = map_of (List.map_filter (\<lambda>e. arc (edge_at g e)) es) ++ arcs g"
  using assms
proof (induction es arbitrary: g)
  case Nil
  then show ?case by (simp add: add_arcs_def map_filter_simps)
next
  case (Cons e es)
  obtain x where x: "edge_heap g e = Some x" "\<forall>f t p. arc x = Some ((f, t), p) \<longrightarrow> live g f \<and> live g t"
    using Cons.prems(2) by auto
  show ?case
  proof (cases "arc x")
    case None
    then show ?thesis using Cons.IH [OF Cons.prems(1)] Cons.prems(2) x
      by (simp add: add_arcs_def map_filter_simps)
  next
    case (Some r)
    then obtain f t p where r: "arc x = Some ((f, t), p)" by (cases r) auto
    let ?g = "snd (addEdg f t p g)"
    have l: "live g f" "live g t" using x(2) r by blast+
    have wf': "wf_graph ?g" by (rule wf_addEdg [OF Cons.prems(1) l])
    have heap: "edge_heap ?g e' = Some y" if "edge_heap g e' = Some y" for e' y
      by (rule edge_heap_addEdg [OF Cons.prems(1) l that])
    have at: "edge_at ?g e' = edge_at g e'" if "e' \<in> set es" for e'
      using Cons.prems(2) that heap by (auto simp: edge_at_def)
    have pre: "\<forall>e\<in>set es. \<exists>x. edge_heap ?g e = Some x \<and> (\<forall>f t p. arc x = Some ((f, t), p) \<longrightarrow> live ?g f \<and> live ?g t)"
      using Cons.prems(2) heap unfolding live_addEdg [OF Cons.prems(1) l] by (metis list.set_intros(2))
    note IH = Cons.IH [OF wf' pre]
    have "List.map_filter (\<lambda>e. arc (edge_at ?g e)) es = List.map_filter (\<lambda>e. arc (edge_at g e)) es"
      using at by (induction es) (auto simp: map_filter_simps split: option.split)
    moreover have "add_arcs arc (e # es) g = add_arcs arc es ?g" using x(1) r by (simp add: add_arcs_def)
    moreover have "List.map_filter (\<lambda>e. arc (edge_at g e)) (e # es) = ((f, t), p) # List.map_filter (\<lambda>e. arc (edge_at g e)) es"
      using x(1) r by (simp add: map_filter_simps)
    moreover have "map_of ms ++ (if arcs g (f, t) = None then (arcs g)((f, t) \<mapsto> p) else arcs g) =
        map_of (((f, t), p) # ms) ++ arcs g" for ms
      by (auto simp: map_add_def fun_eq_iff split: option.split)
    ultimately show ?thesis using IH arcs_addEdg [OF Cons.prems(1) l] by (simp add: fun_upd_def)
  qed
qed

text \<open>What the requests of the edges that leave, or enter, a node add up to.\<close>

lemma map_of_requests:
  assumes "wf_graph g" "\<And>e. e \<in> set es \<longleftrightarrow> (\<exists>x. edge_heap g e = Some x \<and> sel x)"
    and "\<And>x y k p q. \<lbrakk>sel x; sel y; arc x = Some (k, p); arc y = Some (k, q)\<rbrakk> \<Longrightarrow> edge_from x = edge_from y \<and> edge_to x = edge_to y"
  shows "map_of (List.map_filter (\<lambda>e. arc (edge_at g e)) es) k = Some p \<longleftrightarrow>
    (\<exists>e x. edge_heap g e = Some x \<and> sel x \<and> arc x = Some (k, p))"
proof -
  let ?L = "List.map_filter (\<lambda>e. arc (edge_at g e)) es"
  have mem: "(k', p') \<in> set ?L \<longleftrightarrow> (\<exists>e x. edge_heap g e = Some x \<and> sel x \<and> arc x = Some (k', p'))" for k' p'
  proof -
    have "(k', p') \<in> set ?L \<longleftrightarrow> (\<exists>e\<in>set es. arc (edge_at g e) = Some (k', p'))"
      by (force simp: List.map_filter_def)
    then show ?thesis using assms(2) by (metis edge_ends(4))
  qed
  have unique: "p' = q'" if in1: "(k', p') \<in> set ?L" and in2: "(k', q') \<in> set ?L" for k' p' q'
  proof -
    obtain e x where x: "edge_heap g e = Some x" "sel x" "arc x = Some (k', p')" using in1 mem by blast
    obtain e' y where y: "edge_heap g e' = Some y" "sel y" "arc y = Some (k', q')" using in2 mem by blast
    have "e = e'" using wf_edge_unique [OF assms(1) x(1) y(1)] assms(3) [OF x(2) y(2) x(3) y(3)] by blast
    then show ?thesis using x y by simp
  qed
  have "map_of ?L k = Some p \<longleftrightarrow> (k, p) \<in> set ?L"
  proof
    assume kp: "(k, p) \<in> set ?L"
    then obtain q where q: "map_of ?L k = Some q" by (metis weak_map_of_SomeI)
    then have "q = p" using unique kp by (meson map_of_SomeD)
    with q show "map_of ?L k = Some p" by simp
  qed (rule map_of_SomeD)
  then show ?thesis using mem by simp
qed

definition merge_out :: "node_ref \<Rightarrow> 'e gedge \<Rightarrow> ((node_ref \<times> node_ref) \<times> 'e) option" where
  "merge_out b x = (if edge_to x \<noteq> b then Some ((b, edge_to x), edge_pl x) else None)"

definition merge_in :: "node_ref \<Rightarrow> 'e gedge \<Rightarrow> ((node_ref \<times> node_ref) \<times> 'e) option" where
  "merge_in b x = (if edge_from x \<noteq> b then Some ((edge_from x, b), edge_pl x) else None)"

lemma mergeNds_eq:
  "snd (mergeNds a b g) =
     (let g1 = add_arcs (merge_out b) (node_getAdjListOut g a) g
      in delNd a (add_arcs (merge_in b) (node_getAdjListIn g1 a) g1))"
proof -
  have "(\<lambda>e g. if edge_getTo g e \<noteq> b then snd (addEdg b (edge_getTo g e) (epl g e) g) else g) =
      (\<lambda>e g :: ('a, 'b) dir_graph. case merge_out b (edge_at g e) of None \<Rightarrow> g | Some ((f, t), p) \<Rightarrow> snd (addEdg f t p g))"
    by (simp add: merge_out_def edge_getTo_def epl_def fun_eq_iff)
  moreover have "(\<lambda>e g. if edge_getFrom g e \<noteq> b then snd (addEdg (edge_getFrom g e) b (epl g e) g) else g) =
      (\<lambda>e g :: ('a, 'b) dir_graph. case merge_in b (edge_at g e) of None \<Rightarrow> g | Some ((f, t), p) \<Rightarrow> snd (addEdg f t p g))"
    by (simp add: merge_in_def edge_getFrom_def epl_def fun_eq_iff)
  ultimately show ?thesis by (simp add: mergeNds_def add_arcs_def Let_def)
qed

lemma merge_requests:
  assumes wf: "wf_graph g" and a: "live g a" and b: "live g b"
  shows "wf_graph (add_arcs (merge_out b) (node_getAdjListOut g a) g)"
    "node_payloads (add_arcs (merge_out b) (node_getAdjListOut g a) g) = node_payloads g"
    "arcs (add_arcs (merge_out b) (node_getAdjListOut g a) g) (x, y) =
       (case arcs g (x, y) of Some p \<Rightarrow> Some p | None \<Rightarrow> if x = b \<and> y \<noteq> b then arcs g (a, y) else None)"
    "wf_graph (add_arcs (merge_in b) (node_getAdjListIn g a) g)"
    "node_payloads (add_arcs (merge_in b) (node_getAdjListIn g a) g) = node_payloads g"
    "arcs (add_arcs (merge_in b) (node_getAdjListIn g a) g) (x, y) =
       (case arcs g (x, y) of Some p \<Rightarrow> Some p | None \<Rightarrow> if y = b \<and> x \<noteq> b then arcs g (x, a) else None)"
proof -
  have outs: "\<forall>e\<in>set (node_getAdjListOut g a). \<exists>x. edge_heap g e = Some x \<and>
      (\<forall>f t p. merge_out b x = Some ((f, t), p) \<longrightarrow> live g f \<and> live g t)"
    using wf_out_edges(1) [OF wf a] wf_edge(3) [OF wf] b by (fastforce simp: merge_out_def)
  note o = add_arcs_correct [OF wf outs]
  show "wf_graph (add_arcs (merge_out b) (node_getAdjListOut g a) g)"
    "node_payloads (add_arcs (merge_out b) (node_getAdjListOut g a) g) = node_payloads g" using o by simp_all
  have "map_of (List.map_filter (\<lambda>e. merge_out b (edge_at g e)) (node_getAdjListOut g a)) (x, y) = Some p \<longleftrightarrow>
      (if x = b \<and> y \<noteq> b then arcs g (a, y) else None) = Some p" for p
  proof -
    have "map_of (List.map_filter (\<lambda>e. merge_out b (edge_at g e)) (node_getAdjListOut g a)) (x, y) = Some p \<longleftrightarrow>
        (\<exists>e z. edge_heap g e = Some z \<and> edge_from z = a \<and> merge_out b z = Some ((x, y), p))"
      by (rule map_of_requests [OF wf wf_out_edges(1) [OF wf a]]) (auto simp: merge_out_def split: if_splits)
    also have "\<dots> \<longleftrightarrow> (if x = b \<and> y \<noteq> b then arcs g (a, y) else None) = Some p"
      using arcs_Some_iff [OF wf] by (auto simp: merge_out_def split: if_splits)
    finally show ?thesis .
  qed
  then have "map_of (List.map_filter (\<lambda>e. merge_out b (edge_at g e)) (node_getAdjListOut g a)) (x, y) =
      (if x = b \<and> y \<noteq> b then arcs g (a, y) else None)" by (metis not_None_eq)
  then show "arcs (add_arcs (merge_out b) (node_getAdjListOut g a) g) (x, y) =
       (case arcs g (x, y) of Some p \<Rightarrow> Some p | None \<Rightarrow> if x = b \<and> y \<noteq> b then arcs g (a, y) else None)"
    using o by (auto simp: map_add_def split: option.split)
  have ins: "\<forall>e\<in>set (node_getAdjListIn g a). \<exists>x. edge_heap g e = Some x \<and>
      (\<forall>f t p. merge_in b x = Some ((f, t), p) \<longrightarrow> live g f \<and> live g t)"
    using wf_out_edges(2) [OF wf a] wf_edge(2) [OF wf] b by (fastforce simp: merge_in_def)
  note i = add_arcs_correct [OF wf ins]
  show "wf_graph (add_arcs (merge_in b) (node_getAdjListIn g a) g)"
    "node_payloads (add_arcs (merge_in b) (node_getAdjListIn g a) g) = node_payloads g" using i by simp_all
  have "map_of (List.map_filter (\<lambda>e. merge_in b (edge_at g e)) (node_getAdjListIn g a)) (x, y) = Some p \<longleftrightarrow>
      (if y = b \<and> x \<noteq> b then arcs g (x, a) else None) = Some p" for p
  proof -
    have "map_of (List.map_filter (\<lambda>e. merge_in b (edge_at g e)) (node_getAdjListIn g a)) (x, y) = Some p \<longleftrightarrow>
        (\<exists>e z. edge_heap g e = Some z \<and> edge_to z = a \<and> merge_in b z = Some ((x, y), p))"
      by (rule map_of_requests [OF wf wf_out_edges(2) [OF wf a]]) (auto simp: merge_in_def split: if_splits)
    also have "\<dots> \<longleftrightarrow> (if y = b \<and> x \<noteq> b then arcs g (x, a) else None) = Some p"
      using arcs_Some_iff [OF wf] by (auto simp: merge_in_def split: if_splits)
    finally show ?thesis .
  qed
  then have "map_of (List.map_filter (\<lambda>e. merge_in b (edge_at g e)) (node_getAdjListIn g a)) (x, y) =
      (if y = b \<and> x \<noteq> b then arcs g (x, a) else None)" by (metis not_None_eq)
  then show "arcs (add_arcs (merge_in b) (node_getAdjListIn g a) g) (x, y) =
       (case arcs g (x, y) of Some p \<Rightarrow> Some p | None \<Rightarrow> if y = b \<and> x \<noteq> b then arcs g (x, a) else None)"
    using i by (auto simp: map_add_def split: option.split)
qed

lemma mergeNds_correct:
  assumes wf: "wf_graph g" and a: "live g a" and b: "live g b" and ab: "a \<noteq> b"
  shows "wf_graph (snd (mergeNds a b g))"
    "node_payloads (snd (mergeNds a b g)) = (node_payloads g)(a := None)"
    "arcs (snd (mergeNds a b g)) (x, y) =
       (if x = a \<or> y = a then None
        else case arcs g (x, y) of
               Some p \<Rightarrow> Some p
             | None \<Rightarrow> if x = b \<and> y \<noteq> b then arcs g (a, y) else if y = b \<and> x \<noteq> b then arcs g (x, a) else None)"
proof -
  define g1 where "g1 = add_arcs (merge_out b) (node_getAdjListOut g a) g"
  define g2 where "g2 = add_arcs (merge_in b) (node_getAdjListIn g1 a) g1"
  have m: "snd (mergeNds a b g) = delNd a g2" by (simp add: mergeNds_eq g1_def g2_def Let_def)
  have 1: "wf_graph g1" "node_payloads g1 = node_payloads g"
    "arcs g1 (u, v) = (case arcs g (u, v) of Some p \<Rightarrow> Some p | None \<Rightarrow> if u = b \<and> v \<noteq> b then arcs g (a, v) else None)" for u v
    unfolding g1_def by (rule merge_requests [OF wf a b])+
  have l1: "live g1 a" "live g1 b" using 1(2) a b by (simp_all add: live_node_payloads)
  have 2: "wf_graph g2" "node_payloads g2 = node_payloads g1"
    "arcs g2 (u, v) = (case arcs g1 (u, v) of Some p \<Rightarrow> Some p | None \<Rightarrow> if v = b \<and> u \<noteq> b then arcs g1 (u, a) else None)" for u v
    unfolding g2_def by (rule merge_requests [OF 1(1) l1])+
  have l2: "live g2 a" using 2(2) l1 by (simp add: live_node_payloads)
  show "wf_graph (snd (mergeNds a b g))" unfolding m by (rule wf_delNd [OF 2(1) l2])
  show "node_payloads (snd (mergeNds a b g)) = (node_payloads g)(a := None)"
    unfolding m arcs_delNd(2) [OF 2(1) l2] 2(2) 1(2) ..
  show "arcs (snd (mergeNds a b g)) (x, y) =
       (if x = a \<or> y = a then None
        else case arcs g (x, y) of
               Some p \<Rightarrow> Some p
             | None \<Rightarrow> if x = b \<and> y \<noteq> b then arcs g (a, y) else if y = b \<and> x \<noteq> b then arcs g (x, a) else None)"
    unfolding m arcs_delNd(1) [OF 2(1) l2] 2(3) 1(3) using ab by (auto split: option.split)
qed

section \<open>Main results\<close>

text \<open>
  The graphs that a program can build: from the empty graph, by the operations of the graph on live nodes, and by
  writing payloads.
\<close>

inductive built :: "('n, 'e) dir_graph \<Rightarrow> bool" where
  built_init: "built dir_graph_init"
| built_addNd: "built g \<Longrightarrow> built (snd (addNd p g))"
| built_addEdg: "\<lbrakk>built g; live g f; live g t\<rbrakk> \<Longrightarrow> built (snd (addEdg f t p g))"
| built_delEdg: "\<lbrakk>built g; live g f; live g t\<rbrakk> \<Longrightarrow> built (delEdg f t g)"
| built_delNd: "\<lbrakk>built g; live g n\<rbrakk> \<Longrightarrow> built (delNd n g)"
| built_mergeNds: "\<lbrakk>built g; live g a; live g b; a \<noteq> b\<rbrakk> \<Longrightarrow> built (snd (mergeNds a b g))"
| built_epl: "\<lbrakk>built g; e \<in> dom (edge_heap g)\<rbrakk> \<Longrightarrow> built (set_epl e p g)"
| built_npl: "\<lbrakk>built g; live g n\<rbrakk> \<Longrightarrow> built (set_npl n q g)"

lemma wf_set_epl:
  assumes wf: "wf_graph g" and e: "edge_heap g e = Some x"
  shows "wf_graph (set_epl e p g)"
proof -
  let ?g = "set_epl e p g"
  have heap: "edge_heap ?g e' = Some y \<longleftrightarrow> e' = e \<and> y = x\<lparr>edge_pl := p\<rparr> \<or> e' \<noteq> e \<and> edge_heap g e' = Some y" for e' y
    using e by (auto simp: set_epl_def)
  have same: "(\<exists>y. edge_heap ?g e' = Some y \<and> edge_from y = a) \<longleftrightarrow> (\<exists>y. edge_heap g e' = Some y \<and> edge_from y = a)"
    "(\<exists>y. edge_heap ?g e' = Some y \<and> edge_to y = a) \<longleftrightarrow> (\<exists>y. edge_heap g e' = Some y \<and> edge_to y = a)" for e' a
    using e by (cases "e' = e"; simp add: set_epl_def)+
  have old: "\<exists>z. edge_heap g e' = Some z \<and> edge_from z = edge_from y \<and> edge_to z = edge_to y" if "edge_heap ?g e' = Some y" for e' y
    using that e by (cases "e' = e") (auto simp: set_epl_def)
  have rest: "graph_nodes ?g = graph_nodes g" "node_heap ?g = node_heap g" "next_node ?g = next_node g" "next_edge ?g = next_edge g"
    by (simp_all add: set_epl_def)
  show ?thesis
    unfolding wf_graph_def rest same
  proof (intro conjI allI impI)
    show "sorted_wrt (<) (graph_nodes g)" "set (graph_nodes g) = dom (node_heap g)" using wf_nodes [OF wf] by simp_all
  next
    fix n d assume "node_heap g n = Some d"
    note w = wf_node [OF wf this]
    show "n < next_node g" "distinct (adjListOut d)" "distinct (adjListIn d)" by (rule w)+
    show "e' \<in> set (adjListOut d) \<longleftrightarrow> (\<exists>y. edge_heap g e' = Some y \<and> edge_from y = n)"
      "e' \<in> set (adjListIn d) \<longleftrightarrow> (\<exists>y. edge_heap g e' = Some y \<and> edge_to y = n)" for e' by (rule w)+
  next
    fix e' y assume "edge_heap ?g e' = Some y"
    then obtain z where "edge_heap g e' = Some z" "edge_from z = edge_from y" "edge_to z = edge_to y" using old by blast
    then show "e' < next_edge g" "live g (edge_from y)" "live g (edge_to y)" using wf_edge [OF wf] by metis+
  next
    fix e1 e2 x1 x2 assume "edge_heap ?g e1 = Some x1" "edge_heap ?g e2 = Some x2" "edge_from x1 = edge_from x2" "edge_to x1 = edge_to x2"
    then show "e1 = e2" using old wf_edge_unique [OF wf] by metis
  qed
qed

lemma wf_set_npl:
  assumes wf: "wf_graph g" and n: "node_heap g n = Some d"
  shows "wf_graph (set_npl n q g)"
proof -
  let ?g = "set_npl n q g"
  have old: "\<exists>d0. node_heap g m = Some d0 \<and> adjListOut d0 = adjListOut d' \<and> adjListIn d0 = adjListIn d'"
    if "node_heap ?g m = Some d'" for m d'
    using that n by (auto simp: set_npl_def put_node_def split: if_splits)
  have rest: "graph_nodes ?g = graph_nodes g" "edge_heap ?g = edge_heap g" "next_node ?g = next_node g" "next_edge ?g = next_edge g"
    "dom (node_heap ?g) = dom (node_heap g)"
    using n by (auto simp: set_npl_def put_node_def)
  show ?thesis
    unfolding wf_graph_def rest
  proof (intro conjI allI impI)
    show "sorted_wrt (<) (graph_nodes g)" "set (graph_nodes g) = dom (node_heap g)" using wf_nodes [OF wf] by simp_all
  next
    fix m d' assume "node_heap ?g m = Some d'"
    then obtain d0 where d0: "node_heap g m = Some d0" "adjListOut d0 = adjListOut d'" "adjListIn d0 = adjListIn d'" using old by blast
    note w = wf_node [OF wf d0(1), unfolded d0(2,3)]
    show "m < next_node g" "distinct (adjListOut d')" "distinct (adjListIn d')" by (rule w)+
    show "e \<in> set (adjListOut d') \<longleftrightarrow> (\<exists>y. edge_heap g e = Some y \<and> edge_from y = m)"
      "e \<in> set (adjListIn d') \<longleftrightarrow> (\<exists>y. edge_heap g e = Some y \<and> edge_to y = m)" for e by (rule w)+
  next
    fix e y assume "edge_heap g e = Some y"
    then show "e < next_edge g" "live g (edge_from y)" "live g (edge_to y)" using wf_edge [OF wf] by blast+
  next
    fix e1 e2 x1 x2 assume "edge_heap g e1 = Some x1" "edge_heap g e2 = Some x2" "edge_from x1 = edge_from x2" "edge_to x1 = edge_to x2"
    then show "e1 = e2" using wf_edge_unique [OF wf] by metis
  qed
qed

lemma built_wf: "built g \<Longrightarrow> wf_graph g"
  by (induction rule: built.induct)
    (auto intro: wf_graph_init wf_addNd wf_addEdg wf_delEdg wf_delNd mergeNds_correct(1) wf_set_epl wf_set_npl)

definition two_nodes :: "(unit, string) dir_graph" where
  "two_nodes = snd (addNd () (snd (addNd () dir_graph_init)))"

lemma two_nodes_ok: "built two_nodes" "live two_nodes 0" "live two_nodes 1"
proof -
  show "built two_nodes" unfolding two_nodes_def by (intro built.intros)
qed (simp_all add: two_nodes_def addNd_def dir_graph_init_def)

text \<open>
  C14: every graph that a program builds with the graph's operations is well formed: the node set holds the live nodes
  in address order, the adjacency lists of a node are exactly the live edges that leave and enter it, without
  repetition, no edge refers to a deleted node, and no two edges have the same ends.
\<close>

theorem built_graphs_well_formed:
  "built g \<Longrightarrow> wf_graph g"
  by (rule built_wf)

theorem built_graphs_well_formed_witness:
  "wf_graph (delNd 0 (snd (addEdg 0 1 ''x'' two_nodes)))"
proof (rule built_graphs_well_formed, intro built.intros)
  show "live (snd (addEdg 0 1 ''x'' two_nodes)) 0"
    using two_nodes_ok by (simp add: built_wf)
qed (rule two_nodes_ok)+

text \<open>
  C15: the heap operations implement the abstract graph of payloads and arcs: adding an edge leaves an existing arc
  alone and adds a missing one, deleting an edge removes just that arc, deleting a node removes it with all its arcs, and
  merging a node into another moves its arcs over where the other has none and drops its loops and the arcs between
  the two.
\<close>

theorem graph_operations_refine:
  assumes "wf_graph g" "live g a" "live g b"
  shows "arcs (snd (addEdg a b p g)) = (if arcs g (a, b) = None then (arcs g)((a, b) \<mapsto> p) else arcs g) \<and>
    node_payloads (snd (addEdg a b p g)) = node_payloads g \<and>
    arcs (delEdg a b g) = (arcs g)((a, b) := None) \<and>
    (\<forall>x y. arcs (delNd a g) (x, y) = (if x = a \<or> y = a then None else arcs g (x, y))) \<and>
    node_payloads (delNd a g) = (node_payloads g)(a := None) \<and>
    (a \<noteq> b \<longrightarrow> node_payloads (snd (mergeNds a b g)) = (node_payloads g)(a := None) \<and>
       (\<forall>x y. arcs (snd (mergeNds a b g)) (x, y) =
         (if x = a \<or> y = a then None
          else case arcs g (x, y) of
                 Some p \<Rightarrow> Some p
               | None \<Rightarrow> if x = b \<and> y \<noteq> b then arcs g (a, y) else if y = b \<and> x \<noteq> b then arcs g (x, a) else None)))"
  using arcs_addEdg [OF assms] arcs_delEdg [OF assms(1,2)] arcs_delNd [OF assms(1,2)] mergeNds_correct [OF assms] by blast

theorem graph_operations_refine_witness:
  "arcs (snd (addEdg 0 1 ''x'' two_nodes)) = [(0, 1) \<mapsto> ''x'']"
proof -
  note wf = built_wf [OF two_nodes_ok(1)] and l = two_nodes_ok(2,3)
  have "arcs two_nodes = Map.empty"
    by (auto simp: arcs_def two_nodes_def addNd_def dir_graph_init_def getEdg_def node_getAdjList_def node_at_def fun_eq_iff)
  with graph_operations_refine [OF wf l, of "''x''"] show ?thesis by simp
qed

end
