(* ===== verification/Tr_Payload.thy ===== *)
theory Tr_Payload
  imports Util_String Dir_Graph
begin

text \<open>
  \<^verbatim>\<open>trgraph/{edge_payload,node_payload,station_info,station_group}\<close>: what the nodes and edges of the transit graph
  carry.  Geometry points are a type parameter \<open>'p\<close>.  The geometry of an edge payload is owned by it (the flat copy
  of the second constructor is never requested), so it is a value; transit lines, station groups and components are
  shared between payloads through pointers and counted, so they are references into heaps with the counters the code
  keeps.  A counter is a \<^verbatim>\<open>size_t\<close>: every unit of it stands for an object in memory, so it does not overflow, but it
  wraps when a reference that was never counted is given back.
\<close>

section \<open>Reference counters\<close>

type_synonym 'k counts = "'k \<rightharpoonup> nat"

definition ref_inc :: "'k \<Rightarrow> 'k counts \<Rightarrow> 'k counts" where
  "ref_inc k c = c(k \<mapsto> (case c k of None \<Rightarrow> 1 | Some n \<Rightarrow> n + 1))"

text \<open>
  \<^verbatim>\<open>c[k]--; if (c[k] == 0) { delete k; c.erase(k); }\<close>: the new counters, and whether the object is deleted.
\<close>

definition ref_dec :: "'k \<Rightarrow> 'k counts \<Rightarrow> 'k counts \<times> bool" where
  "ref_dec k c = (case c k of
     None \<Rightarrow> (c(k \<mapsto> 2 ^ 64 - 1), False)
   | Some n \<Rightarrow> if n = 1 then (c(k := None), True)
       else (c(k \<mapsto> (if n = 0 then 2 ^ 64 - 1 else n - 1)), False))"

section \<open>Transit lines\<close>

record transit_edge_line =
  fromStr :: string
  toStr :: string
  shortName :: string

type_synonym line_ref = nat

definition line_eq :: "transit_edge_line \<Rightarrow> transit_edge_line \<Rightarrow> bool" where
  "line_eq a b \<longleftrightarrow> fromStr a = fromStr b \<and> toStr a = toStr b \<and> shortName a = shortName b"

definition line_less :: "transit_edge_line \<Rightarrow> transit_edge_line \<Rightarrow> bool" where
  "line_less a b \<longleftrightarrow> str_less (fromStr a) (fromStr b) \<or>
     (fromStr a = fromStr b \<and> str_less (toStr a) (toStr b)) \<or>
     (fromStr a = fromStr b \<and> toStr a = toStr b \<and> str_less (shortName a) (shortName b))"

record line_statics =
  tlines :: "line_ref counts"
  line_heap :: "line_ref \<rightharpoonup> transit_edge_line"

section \<open>Edge payloads\<close>

record 'p edge_payload =
  ep_length :: double
  ep_max_speed :: double
  ep_oneWay :: "2 word"
  ep_hasRestr :: bool
  ep_rev :: bool
  ep_lvl :: "3 word"
  ep_geom :: "'p list"
  ep_lines :: "line_ref list"

definition edge_payload_init :: "'p edge_payload" where
  "edge_payload_init = \<lparr>ep_length = Finite 0, ep_max_speed = Finite 50, ep_oneWay = 0, ep_hasRestr = False,
     ep_rev = False, ep_lvl = 0, ep_geom = [], ep_lines = []\<rparr>"

definition add_point :: "'p \<Rightarrow> 'p edge_payload \<Rightarrow> 'p edge_payload" where
  "add_point p pl = pl\<lparr>ep_geom := ep_geom pl @ [p]\<rparr>"

text \<open>\<open>rnd\<close> is the rounding from \<^verbatim>\<open>double\<close> to the \<^verbatim>\<open>float\<close> the length is stored in.\<close>

definition set_length :: "(double \<Rightarrow> double) \<Rightarrow> double \<Rightarrow> 'p edge_payload \<Rightarrow> 'p edge_payload" where
  "set_length rnd d pl = pl\<lparr>ep_length := rnd d\<rparr>"

definition set_max_speed :: "double \<Rightarrow> 'p edge_payload \<Rightarrow> 'p edge_payload" where
  "set_max_speed d pl = pl\<lparr>ep_max_speed := d\<rparr>"

definition setOneWay_dir :: "8 word \<Rightarrow> 'p edge_payload \<Rightarrow> 'p edge_payload" where
  "setOneWay_dir dir pl = pl\<lparr>ep_oneWay := ucast dir\<rparr>"

definition setOneWay :: "'p edge_payload \<Rightarrow> 'p edge_payload" where
  "setOneWay pl = pl\<lparr>ep_oneWay := 1\<rparr>"

definition set_restricted :: "'p edge_payload \<Rightarrow> 'p edge_payload" where
  "set_restricted pl = pl\<lparr>ep_hasRestr := True\<rparr>"

definition set_reversed :: "'p edge_payload \<Rightarrow> 'p edge_payload" where
  "set_reversed pl = pl\<lparr>ep_rev := True\<rparr>"

definition set_level :: "8 word \<Rightarrow> 'p edge_payload \<Rightarrow> 'p edge_payload" where
  "set_level l pl = pl\<lparr>ep_lvl := ucast l\<rparr>"

definition is_oneWay :: "'p edge_payload \<Rightarrow> bool" where
  "is_oneWay pl \<longleftrightarrow> ep_oneWay pl \<noteq> 0"

text \<open>A geometry of fewer than two points has no hop: the iterator passes the end.\<close>

definition geom_second :: "'p list \<Rightarrow> 'p option" where
  "geom_second g = (if 2 \<le> length g then Some (g ! 1) else None)"

definition geom_before_last :: "'p list \<Rightarrow> 'p option" where
  "geom_before_last g = geom_second (rev g)"

definition backHop :: "'p edge_payload \<Rightarrow> 'p option" where
  "backHop pl = (if ep_rev pl then geom_second (ep_geom pl) else geom_before_last (ep_geom pl))"

definition frontHop :: "'p edge_payload \<Rightarrow> 'p option" where
  "frontHop pl = (if ep_rev pl then geom_before_last (ep_geom pl) else geom_second (ep_geom pl))"

definition add_line :: "line_ref \<Rightarrow> 'p edge_payload \<times> line_statics \<Rightarrow> 'p edge_payload \<times> line_statics" where
  "add_line l = (\<lambda>(pl, st).
     if l \<in> set (ep_lines pl) then (pl, st)
     else (pl\<lparr>ep_lines := ep_lines pl @ [l]\<rparr>, st\<lparr>tlines := ref_inc l (tlines st)\<rparr>))"

definition add_lines :: "line_ref list \<Rightarrow> 'p edge_payload \<times> line_statics \<Rightarrow> 'p edge_payload \<times> line_statics" where
  "add_lines ls = fold add_line ls"

definition copy_edge_payload :: "'p edge_payload \<Rightarrow> line_statics \<Rightarrow> 'p edge_payload \<times> line_statics" where
  "copy_edge_payload pl st = add_lines (ep_lines pl) (pl\<lparr>ep_lines := []\<rparr>, st)"

definition unRefTLine :: "line_ref \<Rightarrow> line_statics \<Rightarrow> line_statics" where
  "unRefTLine l st = (let (c, dead) = ref_dec l (tlines st)
     in st\<lparr>tlines := c, line_heap := (if dead then (line_heap st)(l := None) else line_heap st)\<rparr>)"

definition destroy_edge_payload :: "'p edge_payload \<Rightarrow> line_statics \<Rightarrow> line_statics" where
  "destroy_edge_payload pl st = fold unRefTLine (ep_lines pl) st"

definition flip_oneWay :: "'p edge_payload \<Rightarrow> 'p edge_payload" where
  "flip_oneWay pl = (if ep_oneWay pl = 1 then setOneWay_dir 2 pl
                     else if ep_oneWay pl = 2 then setOneWay_dir 1 pl else pl)"

text \<open>The payload of \<^verbatim>\<open>revCopy()\<close>; the counters see it as a copy.\<close>

definition revCopy :: "'p edge_payload \<Rightarrow> 'p edge_payload" where
  "revCopy pl = flip_oneWay (set_reversed pl)"

definition revCopy_counted :: "'p edge_payload \<Rightarrow> line_statics \<Rightarrow> 'p edge_payload \<times> line_statics" where
  "revCopy_counted pl st = (let (ret, st) = copy_edge_payload pl st in (revCopy ret, st))"

fun lines_text :: "bool \<Rightarrow> transit_edge_line list \<Rightarrow> string" where
  "lines_text first [] = ''''"
| "lines_text first (l # ls) =
     (if first then '','' else '''') @ shortName l @
     (if fromStr l \<noteq> '''' \<or> toStr l \<noteq> '''' then ''('' @ fromStr l @ ''->'' @ toStr l @ '')'' else '''') @
     lines_text True ls"

definition edge_get_attrs :: "line_statics \<Rightarrow> 'p edge_payload \<Rightarrow> (string \<times> string) list" where
  "edge_get_attrs st pl =
     [(''level'', to_string (unat (ep_lvl pl))),
      (''lines'', lines_text False (map (\<lambda>l. the (line_heap st l)) (ep_lines pl))),
      (''m_length'', fixed_double 6 (ep_length pl)),
      (''maxspeed'', fixed_double 6 (ep_max_speed pl)),
      (''oneway'', to_string (unat (ep_oneWay pl))),
      (''restriction'', if ep_hasRestr pl then ''yes'' else ''no'')]"

section \<open>Station infos and node payloads\<close>

type_synonym group_ref = nat
type_synonym comp_ref = nat

record component =
  minEdgeLvl :: "3 word"

record station_info =
  si_name :: string
  si_altNames :: "string list"
  si_track :: string
  si_fromOsm :: bool
  si_group :: "group_ref option"

definition station_info_init :: station_info where
  "station_info_init = \<lparr>si_name = '''', si_altNames = [], si_track = '''', si_fromOsm = False, si_group = None\<rparr>"

definition station_info_of :: "string \<Rightarrow> string \<Rightarrow> bool \<Rightarrow> station_info" where
  "station_info_of name track fromOsm =
     \<lparr>si_name = name, si_altNames = [], si_track = track, si_fromOsm = fromOsm, si_group = None\<rparr>"

definition add_alternative_name :: "string \<Rightarrow> station_info \<Rightarrow> station_info" where
  "add_alternative_name name si = si\<lparr>si_altNames := si_altNames si @ [name]\<rparr>"

definition set_track :: "string \<Rightarrow> station_info \<Rightarrow> station_info" where
  "set_track tr si = si\<lparr>si_track := tr\<rparr>"

definition set_is_from_osm :: "bool \<Rightarrow> station_info \<Rightarrow> station_info" where
  "set_is_from_osm b si = si\<lparr>si_fromOsm := b\<rparr>"

text \<open>
  \<^verbatim>\<open>statSimi\<close> of \<^verbatim>\<open>router/comp.h\<close> is the real number 1 or 0.  The quotient of two sizes is below \<open>0.05\<close> when twenty
  times the distance is below the longer size: the quotient \<open>1/20\<close> itself rounds to the literal, and any other
  quotient of sizes under \<open>2 ^ 48\<close> differs from it by more than the rounding.
\<close>

definition affix_simi :: "string \<Rightarrow> string \<Rightarrow> bool" where
  "affix_simi a b \<longleftrightarrow> length a > length b + 1 \<and>
     (take (length b + 1) a = b @ '' '' \<or> drop (length a - (length b + 1)) a = '' '' @ b)"

definition statSimi :: "string \<Rightarrow> string \<Rightarrow> nat" where
  "statSimi a b =
     (if a = b then 1
      else if a = [] \<or> b = [] then 0
      else if affix_simi a b then 1
      else if affix_simi b a then 1
      else if 20 * editDist a b < max (length a) (length b) then 1
      else 0)"

definition lineSimi :: "string \<Rightarrow> string \<Rightarrow> nat" where
  "lineSimi a b =
     (if a = b then 1
      else if a = [] \<or> b = [] then 0
      else if affix_simi a b then 1
      else if affix_simi b a then 1
      else 0)"

fun alt_simi :: "string list \<Rightarrow> station_info \<Rightarrow> bool" where
  "alt_simi [] other = False"
| "alt_simi (a # as) other =
     (if statSimi a (si_name other) = 1 then True
      else if list_ex (\<lambda>b. statSimi a b = 1) (si_altNames other) then True
      else alt_simi as other)"

definition simi :: "station_info \<Rightarrow> station_info option \<Rightarrow> nat" where
  "simi si oth = (case oth of
     None \<Rightarrow> 0
   | Some other \<Rightarrow>
       if statSimi (si_name si) (si_name other) = 1 then 1
       else if alt_simi (si_altNames si) other then 1
       else if list_ex (\<lambda>b. statSimi (si_name si) b = 1) (si_altNames other) then 1
       else 0)"

text \<open>
  A node payload points to a station info it owns, to the static object that marks a blocker, or to nothing.
\<close>

datatype si_ptr = Si_null | Si_blocker | Si station_info

record 'p node_payload =
  np_geom :: 'p
  np_si :: si_ptr
  np_component :: "comp_ref option"

definition node_payload_of :: "'p \<Rightarrow> 'p node_payload" where
  "node_payload_of p = \<lparr>np_geom = p, np_si = Si_null, np_component = None\<rparr>"

definition get_si :: "'p node_payload \<Rightarrow> station_info option" where
  "get_si pl = (case np_si pl of Si_null \<Rightarrow> None | Si_blocker \<Rightarrow> None | Si si \<Rightarrow> Some si)"

definition is_blocker :: "'p node_payload \<Rightarrow> bool" where
  "is_blocker pl \<longleftrightarrow> np_si pl = Si_blocker"

definition set_blocker :: "'p node_payload \<Rightarrow> 'p node_payload" where
  "set_blocker pl = pl\<lparr>np_si := Si_blocker\<rparr>"

definition set_no_statistics :: "'p node_payload \<Rightarrow> 'p node_payload" where
  "set_no_statistics pl = pl\<lparr>np_si := Si_null\<rparr>"

definition set_geom :: "'p \<Rightarrow> 'p node_payload \<Rightarrow> 'p node_payload" where
  "set_geom p pl = pl\<lparr>np_geom := p\<rparr>"

section \<open>The graph with the objects its payloads share\<close>

record ('p, 's) station_group =
  sg_nodes :: "node_ref list"
  sg_stops :: "'s list"

type_synonym 'p tr_graph = "('p node_payload, 'p edge_payload) dir_graph"

record ('p, 's) tr_world =
  tr_g :: "'p tr_graph"
  comp_heap :: "comp_ref \<rightharpoonup> component"
  comps :: "comp_ref counts"
  next_comp :: comp_ref
  groups :: "group_ref option counts"
  group_heap :: "group_ref \<rightharpoonup> ('p, 's) station_group"

definition set_component :: "comp_ref \<Rightarrow> node_ref \<Rightarrow> ('p, 's) tr_world \<Rightarrow> ('p, 's) tr_world" where
  "set_component c n w =
     (if np_component (npl (tr_g w) n) = Some c then w
      else w\<lparr>tr_g := set_npl n ((npl (tr_g w) n)\<lparr>np_component := Some c\<rparr>) (tr_g w), comps := ref_inc c (comps w)\<rparr>)"

definition unRefGroup :: "group_ref option \<Rightarrow> ('p, 's) tr_world \<Rightarrow> ('p, 's) tr_world" where
  "unRefGroup g w = (case g of
     None \<Rightarrow> w
   | Some k \<Rightarrow> (let (c, dead) = ref_dec (Some k) (groups w)
       in w\<lparr>groups := c, group_heap := (if dead then (group_heap w)(k := None) else group_heap w)\<rparr>))"

text \<open>\<^verbatim>\<open>set_group\<close> on a station info, giving the station info and the counters.\<close>

definition set_group ::
  "group_ref option \<Rightarrow> station_info \<Rightarrow> ('p, 's) tr_world \<Rightarrow> station_info \<times> ('p, 's) tr_world" where
  "set_group g si w =
     (if si_group si = g then (si, w)
      else (let w = unRefGroup (si_group si) w
            in (si\<lparr>si_group := g\<rparr>, w\<lparr>groups := ref_inc g (groups w)\<rparr>)))"

definition copy_station_info :: "station_info \<Rightarrow> ('p, 's) tr_world \<Rightarrow> station_info \<times> ('p, 's) tr_world" where
  "copy_station_info si w = set_group (si_group si) (si\<lparr>si_group := None\<rparr>) w"

text \<open>\<^verbatim>\<open>n->pl().set_si(si)\<close>: the node gets a copy; the station info it had before is not deleted.\<close>

definition set_si :: "station_info \<Rightarrow> node_ref \<Rightarrow> ('p, 's) tr_world \<Rightarrow> ('p, 's) tr_world" where
  "set_si si n w =
     (let (si', w) = copy_station_info si w
      in w\<lparr>tr_g := set_npl n ((npl (tr_g w) n)\<lparr>np_si := Si si'\<rparr>) (tr_g w)\<rparr>)"

text \<open>The destructor of a node payload.\<close>

definition destroy_node_payload :: "'p node_payload \<Rightarrow> ('p, 's) tr_world \<Rightarrow> ('p, 's) tr_world" where
  "destroy_node_payload pl w =
     (let w = (case get_si pl of None \<Rightarrow> w | Some si \<Rightarrow> unRefGroup (si_group si) w)
      in case np_component pl of
           None \<Rightarrow> w
         | Some c \<Rightarrow> (let (cs, dead) = ref_dec c (comps w)
             in w\<lparr>comps := cs, comp_heap := (if dead then (comp_heap w)(c := None) else comp_heap w)\<rparr>))"

text \<open>\<^verbatim>\<open>delNd\<close> of the transit graph: deleting the node object runs that destructor.\<close>

definition tr_delNd :: "node_ref \<Rightarrow> ('p, 's) tr_world \<Rightarrow> ('p, 's) tr_world" where
  "tr_delNd n w = destroy_node_payload (npl (tr_g w) n) (w\<lparr>tr_g := delNd n (tr_g w)\<rparr>)"

text \<open>The copy constructor: the component is copied without counting it, and a blocker is copied as a station.\<close>

definition copy_node_payload :: "'p node_payload \<Rightarrow> ('p, 's) tr_world \<Rightarrow> 'p node_payload \<times> ('p, 's) tr_world" where
  "copy_node_payload pl w = (case np_si pl of
     Si_null \<Rightarrow> (pl, w)
   | Si_blocker \<Rightarrow> (let (si, w) = copy_station_info station_info_init w in (pl\<lparr>np_si := Si si\<rparr>, w))
   | Si si \<Rightarrow> (let (si, w) = copy_station_info si w in (pl\<lparr>np_si := Si si\<rparr>, w)))"

section \<open>Counting references\<close>

text \<open>
  Objects of a pool hold references; a counter is right when it has an entry for exactly the references somebody
  holds, with the number of holders.  The locale carries the four ways the program changes a pool; it is used for
  the lines of edge payloads, the groups of station infos and the components of nodes.
\<close>

locale shared_refs =
  fixes held :: "'o \<Rightarrow> 'k set"
  assumes finite_held: "finite (held x)"
begin

definition holders :: "('i \<rightharpoonup> 'o) \<Rightarrow> 'k \<Rightarrow> 'i set" where
  "holders p k = {i. \<exists>x. p i = Some x \<and> k \<in> held x}"

definition counted :: "('i \<rightharpoonup> 'o) \<Rightarrow> 'k counts \<Rightarrow> bool" where
  "counted p c \<longleftrightarrow> finite (dom p) \<and> (\<forall>k. c k = (if holders p k = {} then None else Some (card (holders p k))))"

lemma finite_holders: "finite (dom p) \<Longrightarrow> finite (holders p k)"
  by (rule finite_subset [of _ "dom p"]) (auto simp: holders_def)

lemma holders_upd: "holders (p(i \<mapsto> x)) k = (if k \<in> held x then insert i (holders p k) else holders p k - {i})"
  by (auto simp: holders_def)

lemma holders_self: "p i = Some x \<Longrightarrow> i \<in> holders p k \<longleftrightarrow> k \<in> held x"
  by (simp add: holders_def)

lemma holders_new: "p i = None \<Longrightarrow> i \<notin> holders p k"
  by (simp add: holders_def)

lemma counted_cong:
  assumes "counted p c" "finite (dom q)" "\<And>k. holders q k = holders p k"
  shows "counted q c"
  using assms by (simp add: counted_def)

lemma counted_new:
  assumes "counted p c" "p i = None" "held x = {}"
  shows "counted (p(i \<mapsto> x)) c"
  using assms by (intro counted_cong [OF assms(1)]) (auto simp: holders_upd holders_new counted_def)

lemma counted_same:
  assumes "counted p c" "p i = Some x" "held y = held x"
  shows "counted (p(i \<mapsto> y)) c"
  using assms holders_self [of p i x, OF assms(2)] by (intro counted_cong [OF assms(1)]) (auto simp: holders_upd counted_def)

lemma counted_del:
  assumes "counted p c" "p i = Some x" "held x = {}"
  shows "counted (p(i := None)) c"
  using assms by (intro counted_cong [OF assms(1)]) (auto simp: holders_def counted_def)

lemma counted_inc:
  assumes c: "counted p c" and i: "p i = Some x" and k: "k \<notin> held x" "held y = insert k (held x)"
  shows "counted (p(i \<mapsto> y)) (ref_inc k c)"
proof -
  have fin: "finite (holders p k')" for k' using c by (simp add: counted_def finite_holders)
  have i': "i \<notin> holders p k" using holders_self [of p i x, OF i] k(1) by simp
  have "holders (p(i \<mapsto> y)) k' = (if k' = k then insert i (holders p k) else holders p k')" for k'
    using holders_self [of p i x k', OF i] k by (auto simp: holders_upd)
  then show ?thesis using c fin [of k] i' by (auto simp: counted_def ref_inc_def)
qed

lemma counted_dec:
  assumes c: "counted p c" and i: "p i = Some x" and k: "k \<in> held x" "held y = held x - {k}"
  shows "counted (p(i \<mapsto> y)) (fst (ref_dec k c)) \<and> (snd (ref_dec k c) \<longleftrightarrow> holders (p(i \<mapsto> y)) k = {})"
proof -
  have fin: "finite (holders p k')" for k' using c by (simp add: counted_def finite_holders)
  have i': "i \<in> holders p k" using holders_self [of p i x, OF i] k(1) by simp
  have h: "holders (p(i \<mapsto> y)) k' = (if k' = k then holders p k - {i} else holders p k')" for k'
    using holders_self [of p i x k', OF i] k by (auto simp: holders_upd)
  have ck: "c k = Some (card (holders p k))" using c i' by (auto simp: counted_def)
  have pos: "card (holders p k) > 0" using i' fin [of k] by (auto simp: card_gt_0_iff)
  have card: "card (holders p k - {i}) = card (holders p k) - 1" using i' fin [of k] by simp
  have empty: "holders p k - {i} = {} \<longleftrightarrow> card (holders p k) = 1"
    using card pos fin [of k] by (metis One_nat_def card_eq_0_iff diff_is_0_eq finite_Diff le_antisym Suc_leI)
  have dom: "finite (dom (p(i \<mapsto> y)))" using c by (simp add: counted_def)
  show ?thesis
  proof (cases "card (holders p k) = 1")
    case True
    then have d: "ref_dec k c = (c(k := None), True)" by (simp add: ref_dec_def ck)
    have "holders (p(i \<mapsto> y)) k = {}" using empty True h by simp
    then show ?thesis using c dom h by (simp add: d counted_def)
  next
    case False
    then have d: "ref_dec k c = (c(k \<mapsto> card (holders p k) - 1), False)" using pos by (simp add: ref_dec_def ck)
    have "holders (p(i \<mapsto> y)) k \<noteq> {}" using empty False h by simp
    then show ?thesis using c dom h card by (simp add: d counted_def)
  qed
qed

end

interpretation lns: shared_refs "\<lambda>pl. set (ep_lines pl)"
  by unfold_locales simp

text \<open>The life of edge payloads and the lines they share.\<close>

type_synonym 'p line_pool = "(nat \<rightharpoonup> 'p edge_payload) \<times> line_statics"

definition line_pool_init :: "'p line_pool" where
  "line_pool_init = (Map.empty, \<lparr>tlines = Map.empty, line_heap = Map.empty\<rparr>)"

inductive pool_step :: "'p line_pool \<Rightarrow> 'p line_pool \<Rightarrow> bool" where
  new_line: "line_heap st l = None \<Longrightarrow> pool_step (p, st) (p, st\<lparr>line_heap := (line_heap st)(l \<mapsto> x)\<rparr>)"
| create: "p k = None \<Longrightarrow> pool_step (p, st) (p(k \<mapsto> edge_payload_init), st)"
| copy: "\<lbrakk>p j = Some pl; p k = None; copy_edge_payload pl st = (pl', st')\<rbrakk> \<Longrightarrow> pool_step (p, st) (p(k \<mapsto> pl'), st')"
| add: "\<lbrakk>p k = Some pl; line_heap st l \<noteq> None; add_line l (pl, st) = (pl', st')\<rbrakk> \<Longrightarrow> pool_step (p, st) (p(k \<mapsto> pl'), st')"
| update: "\<lbrakk>p k = Some pl; ep_lines pl' = ep_lines pl\<rbrakk> \<Longrightarrow> pool_step (p, st) (p(k \<mapsto> pl'), st)"
| destroy: "p k = Some pl \<Longrightarrow> pool_step (p, st) (p(k := None), destroy_edge_payload pl st)"

inductive_cases pool_stepE: "pool_step s s'"

definition lines_ok :: "'p line_pool \<Rightarrow> bool" where
  "lines_ok = (\<lambda>(p, st). lns.counted p (tlines st) \<and>
     (\<forall>k pl. p k = Some pl \<longrightarrow> distinct (ep_lines pl) \<and> (\<forall>l\<in>set (ep_lines pl). line_heap st l \<noteq> None)))"

lemma lines_okD:
  assumes "lines_ok (p, st)" "p k = Some pl"
  shows "distinct (ep_lines pl)" "l \<in> set (ep_lines pl) \<Longrightarrow> line_heap st l \<noteq> None"
  using assms by (auto simp: lines_ok_def)

lemma lines_ok_add_line:
  assumes "lines_ok (p(k \<mapsto> pl), st)" "line_heap st l \<noteq> None" "add_line l (pl, st) = (pl', st')"
  shows "lines_ok (p(k \<mapsto> pl'), st') \<and> line_heap st' = line_heap st"
proof (cases "l \<in> set (ep_lines pl)")
  case True
  then show ?thesis using assms by (auto simp: add_line_def)
next
  case False
  then have eq: "pl' = pl\<lparr>ep_lines := ep_lines pl @ [l]\<rparr>" "st' = st\<lparr>tlines := ref_inc l (tlines st)\<rparr>"
    using assms(3) by (auto simp: add_line_def)
  have "lns.counted (p(k \<mapsto> pl)) (tlines st)" using assms(1) by (simp add: lines_ok_def)
  then have "lns.counted ((p(k \<mapsto> pl))(k \<mapsto> pl')) (ref_inc l (tlines st))"
    by (rule lns.counted_inc) (use False in \<open>auto simp: eq\<close>)
  then show ?thesis using assms(1,2) False by (auto simp: lines_ok_def eq split: if_splits)
qed

lemma lines_ok_add_lines:
  assumes "lines_ok (p(k \<mapsto> pl), st)" "\<forall>l\<in>set ls. line_heap st l \<noteq> None" "add_lines ls (pl, st) = (pl', st')"
  shows "lines_ok (p(k \<mapsto> pl'), st') \<and> line_heap st' = line_heap st"
  using assms
proof (induction ls arbitrary: pl st)
  case (Cons l ls)
  obtain pl1 st1 where 1: "add_line l (pl, st) = (pl1, st1)" by fastforce
  have ok: "lines_ok (p(k \<mapsto> pl1), st1) \<and> line_heap st1 = line_heap st"
    using lines_ok_add_line [OF Cons.prems(1) _ 1] Cons.prems(2) by simp
  moreover have "add_lines ls (pl1, st1) = (pl', st')" using Cons.prems(3) 1 by (simp add: add_lines_def)
  ultimately show ?case using Cons.IH [of pl1 st1] Cons.prems(2) by (metis list.set_intros(2))
qed (simp add: add_lines_def)

lemma lines_ok_unRef:
  assumes "lines_ok (p(k \<mapsto> pl\<lparr>ep_lines := l # ls\<rparr>), st)"
  shows "lines_ok (p(k \<mapsto> pl\<lparr>ep_lines := ls\<rparr>), unRefTLine l st) \<and>
    line_heap (unRefTLine l st) = (if lns.holders (p(k := None)) l = {} then (line_heap st)(l := None) else line_heap st)"
proof -
  let ?p = "p(k \<mapsto> pl\<lparr>ep_lines := l # ls\<rparr>)" and ?q = "p(k \<mapsto> pl\<lparr>ep_lines := ls\<rparr>)"
  have c: "lns.counted ?p (tlines st)" using assms by (simp add: lines_ok_def)
  have d: "distinct (l # ls)" using lines_okD(1) [OF assms, of k] by simp
  have step: "lns.counted (?p(k \<mapsto> pl\<lparr>ep_lines := ls\<rparr>)) (fst (ref_dec l (tlines st))) \<and>
      (snd (ref_dec l (tlines st)) \<longleftrightarrow> lns.holders (?p(k \<mapsto> pl\<lparr>ep_lines := ls\<rparr>)) l = {})"
    by (rule lns.counted_dec [OF c]) (use d in auto)
  have h: "lns.holders ?q l = lns.holders (p(k := None)) l"
    using d by (auto simp: lns.holders_def)
  have heap: "line_heap (unRefTLine l st) = (if lns.holders (p(k := None)) l = {} then (line_heap st)(l := None) else line_heap st)"
    using step h by (cases "ref_dec l (tlines st)") (auto simp: unRefTLine_def)
  have "line_heap (unRefTLine l st) m \<noteq> None" if "?q j = Some x" "m \<in> set (ep_lines x)" for j x m
  proof -
    have "line_heap st m \<noteq> None" using assms that by (auto simp: lines_ok_def split: if_splits)
    moreover have "lns.holders (p(k := None)) m \<noteq> {}" if "m = l"
    proof -
      have "j \<in> lns.holders ?q m" using \<open>?q j = Some x\<close> \<open>m \<in> set (ep_lines x)\<close> by (auto simp: lns.holders_def)
      then show ?thesis using h that by auto
    qed
    ultimately show ?thesis by (auto simp: heap)
  qed
  moreover have "distinct (ep_lines x)" if "?q j = Some x" for j x
    using assms that d by (auto simp: lines_ok_def split: if_splits)
  moreover have "lns.counted ?q (tlines (unRefTLine l st))"
    using step by (cases "ref_dec l (tlines st)") (simp add: unRefTLine_def)
  ultimately show ?thesis using heap by (simp add: lines_ok_def)
qed

lemma lines_ok_unRefs:
  assumes "lines_ok (p(k \<mapsto> pl\<lparr>ep_lines := ls\<rparr>), st)"
  shows "lines_ok (p(k \<mapsto> pl\<lparr>ep_lines := []\<rparr>), fold unRefTLine ls st) \<and>
    line_heap (fold unRefTLine ls st) =
      (\<lambda>l. if l \<in> set ls \<and> lns.holders (p(k := None)) l = {} then None else line_heap st l)"
  using assms
proof (induction ls arbitrary: st)
  case (Cons l ls)
  note u = lines_ok_unRef [OF Cons.prems]
  note IH = Cons.IH [OF conjunct1 [OF u]]
  define H where "H = lns.holders (p(k := None))"
  note heap = conjunct2 [OF IH, folded H_def] conjunct2 [OF u, folded H_def]
  have "line_heap (fold unRefTLine (l # ls) st) m =
      (if m \<in> set (l # ls) \<and> H m = {} then None else line_heap st m)" for m
    by (cases "m = l") (simp_all add: heap)
  then show ?case using conjunct1 [OF IH] unfolding H_def fun_upd_def by (intro conjI ext) simp_all
qed simp

lemma lines_ok_destroy:
  assumes "lines_ok (p, st)" "p k = Some pl"
  shows "lines_ok (p(k := None), destroy_edge_payload pl st) \<and>
    line_heap (destroy_edge_payload pl st) =
      (\<lambda>l. if l \<in> set (ep_lines pl) \<and> lns.holders (p(k := None)) l = {} then None else line_heap st l)"
proof -
  have eq: "p(k \<mapsto> pl\<lparr>ep_lines := ep_lines pl\<rparr>) = p" using assms(2) by auto
  note u = lines_ok_unRefs [where p = p and k = k and pl = pl and ls = "ep_lines pl" and st = st, unfolded eq, OF assms(1)]
  let ?st = "fold unRefTLine (ep_lines pl) st"
  have "lns.counted ((p(k \<mapsto> pl\<lparr>ep_lines := []\<rparr>))(k := None)) (tlines ?st)"
    by (rule lns.counted_del) (use u in \<open>auto simp: lines_ok_def\<close>)
  then show ?thesis using u by (auto simp: lines_ok_def destroy_edge_payload_def split: if_splits)
qed

lemma lines_ok_step:
  assumes "pool_step s s'" "lines_ok s"
  shows "lines_ok s'"
  using assms
proof cases
  case (copy p j pl k st pl' st')
  let ?e = "pl\<lparr>ep_lines := []\<rparr>"
  have "lns.counted (p(k \<mapsto> ?e)) (tlines st)"
    by (rule lns.counted_new) (use assms(2) copy in \<open>auto simp: lines_ok_def\<close>)
  then have "lines_ok (p(k \<mapsto> ?e), st)" using assms(2) copy by (auto simp: lines_ok_def)
  moreover have "\<forall>l\<in>set (ep_lines pl). line_heap st l \<noteq> None" using assms(2) copy by (auto simp: lines_ok_def)
  ultimately show ?thesis
    using lines_ok_add_lines [of p k ?e st "ep_lines pl" pl' st'] copy by (simp add: copy_edge_payload_def)
next
  case (add p k pl st l pl' st')
  have "p(k \<mapsto> pl) = p" using add by auto
  then show ?thesis using lines_ok_add_line [of p k pl st l pl' st'] add assms(2) by simp
next
  case (create p k st)
  have "lns.counted (p(k \<mapsto> edge_payload_init)) (tlines st)"
    by (rule lns.counted_new) (use assms(2) create in \<open>auto simp: lines_ok_def edge_payload_init_def\<close>)
  then show ?thesis using assms(2) create by (auto simp: lines_ok_def edge_payload_init_def)
next
  case (update p k pl pl' st)
  have "lns.counted (p(k \<mapsto> pl')) (tlines st)"
    by (rule lns.counted_same [of p _ k pl]) (use assms(2) update in \<open>auto simp: lines_ok_def\<close>)
  then show ?thesis using assms(2) update by (auto simp: lines_ok_def)
next
  case (destroy p k pl st)
  then show ?thesis using assms(2) lines_ok_destroy [of p st k pl] by simp
qed (use assms(2) in \<open>auto simp: lines_ok_def\<close>)

lemma lines_ok_reachable:
  assumes "pool_step\<^sup>*\<^sup>* line_pool_init s"
  shows "lines_ok s"
  using assms
proof (induction rule: rtranclp_induct)
  case base
  show ?case by (simp add: lines_ok_def line_pool_init_def lns.counted_def lns.holders_def)
next
  case (step s s')
  then show ?case using lines_ok_step by blast
qed

text \<open>
  C19: The counters of shared transit lines are right at every moment: whatever sequence of constructions, copies,
  \<open>add_line\<close> calls and destructions the edge payloads go through, the counter of a line is the number of payloads that
  list it, and every listed line is still allocated.  Destroying a payload deletes exactly the lines no other payload
  lists.
\<close>

theorem shared_lines_counted:
  assumes "pool_step\<^sup>*\<^sup>* line_pool_init (p, st)"
  shows "(\<forall>l. tlines st l = (let h = {k. \<exists>pl. p k = Some pl \<and> l \<in> set (ep_lines pl)}
              in if h = {} then None else Some (card h))) \<and>
    (\<forall>k pl. p k = Some pl \<longrightarrow> distinct (ep_lines pl) \<and> (\<forall>l\<in>set (ep_lines pl). line_heap st l \<noteq> None) \<and>
       line_heap (destroy_edge_payload pl st) =
         (\<lambda>l. if l \<in> set (ep_lines pl) \<and> (\<forall>j pl'. j \<noteq> k \<longrightarrow> p j = Some pl' \<longrightarrow> l \<notin> set (ep_lines pl'))
              then None else line_heap st l))"
proof -
  note ok = lines_ok_reachable [OF assms]
  have "line_heap (destroy_edge_payload pl st) =
      (\<lambda>l. if l \<in> set (ep_lines pl) \<and> (\<forall>j pl'. j \<noteq> k \<longrightarrow> p j = Some pl' \<longrightarrow> l \<notin> set (ep_lines pl'))
           then None else line_heap st l)" if "p k = Some pl" for k pl
  proof -
    have "lns.holders (p(k := None)) l = {} \<longleftrightarrow> (\<forall>j pl'. j \<noteq> k \<longrightarrow> p j = Some pl' \<longrightarrow> l \<notin> set (ep_lines pl'))" for l
      by (auto simp: lns.holders_def)
    then show ?thesis using lines_ok_destroy [OF ok that] by simp
  qed
  moreover have "tlines st l = (let h = {k. \<exists>pl. p k = Some pl \<and> l \<in> set (ep_lines pl)}
              in if h = {} then None else Some (card h))" for l
    using ok by (simp add: lines_ok_def lns.counted_def lns.holders_def)
  ultimately show ?thesis using lines_okD [OF ok] by blast
qed

text \<open>Two payloads that list one line: destroying the first keeps the line, destroying both deletes it.\<close>

definition shared_line :: transit_edge_line where
  "shared_line = \<lparr>fromStr = ''A'', toStr = ''B'', shortName = ''1''\<rparr>"

definition one_line_payload :: "nat edge_payload" where
  "one_line_payload = edge_payload_init\<lparr>ep_lines := [7]\<rparr>"

definition two_holders :: "nat line_pool" where
  "two_holders = ([0 \<mapsto> one_line_payload, 1 \<mapsto> one_line_payload], \<lparr>tlines = [7 \<mapsto> Suc 1], line_heap = [7 \<mapsto> shared_line]\<rparr>)"

lemma two_holders_reachable: "pool_step\<^sup>*\<^sup>* line_pool_init two_holders"
proof -
  let ?st = "\<lparr>tlines = Map.empty, line_heap = [7 \<mapsto> shared_line]\<rparr>"
  have 1: "pool_step (line_pool_init :: nat line_pool) (Map.empty, ?st)"
    using pool_step.new_line [of "snd line_pool_init" 7 "fst line_pool_init"] by (simp add: line_pool_init_def)
  have 2: "pool_step (Map.empty, ?st) ([0 \<mapsto> edge_payload_init :: nat edge_payload], ?st)"
    by (rule pool_step.create) simp
  have 3: "pool_step ([0 \<mapsto> edge_payload_init :: nat edge_payload], ?st) ([0 \<mapsto> one_line_payload], ?st\<lparr>tlines := [7 \<mapsto> 1]\<rparr>)"
    using pool_step.add [of "[0 \<mapsto> edge_payload_init :: nat edge_payload]" 0 edge_payload_init ?st 7]
    by (simp add: add_line_def edge_payload_init_def one_line_payload_def ref_inc_def)
  have 4: "pool_step ([0 \<mapsto> one_line_payload], ?st\<lparr>tlines := [7 \<mapsto> 1]\<rparr>) two_holders"
    using pool_step.copy [of "[0 \<mapsto> one_line_payload]" 0 one_line_payload 1 "?st\<lparr>tlines := [7 \<mapsto> 1]\<rparr>"]
    by (simp add: copy_edge_payload_def add_lines_def add_line_def one_line_payload_def ref_inc_def two_holders_def)
  note step = converse_rtranclp_into_rtranclp [where r = pool_step]
  show ?thesis by (rule step [OF 1], rule step [OF 2], rule step [OF 3], rule r_into_rtranclp [where r = pool_step, OF 4])
qed

theorem shared_lines_counted_witness:
  "line_heap (destroy_edge_payload one_line_payload (snd two_holders)) 7 = Some shared_line \<and> tlines (snd two_holders) 7 = Some 2"
  using shared_lines_counted [of "fst two_holders" "snd two_holders"] two_holders_reachable
  by (auto simp: two_holders_def one_line_payload_def edge_payload_init_def dest!: spec [of _ 0])

text \<open>
  The order on lines is the one a \<^verbatim>\<open>std::map\<close> needs, and it agrees with their equality.
\<close>

interpretation lines: key_order line_less
proof
  fix a b c :: transit_edge_line
  show "\<not> line_less a a" by (simp add: line_less_def strs.lt_irrefl)
  show "line_less a c" if "line_less a b" "line_less b c"
    using that strs.lt_trans [of "fromStr a" "fromStr b" "fromStr c"] strs.lt_trans [of "toStr a" "toStr b" "toStr c"]
      strs.lt_trans [of "shortName a" "shortName b" "shortName c"] by (auto simp: line_less_def)
  show "line_less b a" if "a \<noteq> b" "\<not> line_less a b"
    using that transit_edge_line.equality [of a b] strs.lt_total [of "fromStr a" "fromStr b"]
      strs.lt_total [of "toStr a" "toStr b"] strs.lt_total [of "shortName a" "shortName b"]
    by (cases "fromStr a = fromStr b"; cases "toStr a = toStr b"; cases "shortName a = shortName b") (auto simp: line_less_def)
qed

lemma line_eq_iff: "line_eq a b \<longleftrightarrow> a = b"
  by (auto simp: line_eq_def)

section \<open>Small facts\<close>

lemma revCopy_twice_oneWay: "ep_oneWay (revCopy (revCopy pl)) = ep_oneWay pl"
  by (simp add: revCopy_def flip_oneWay_def set_reversed_def setOneWay_dir_def)

lemma revCopy_hops [simp]:
  "\<not> ep_rev pl \<Longrightarrow> frontHop (revCopy pl) = backHop pl"
  "\<not> ep_rev pl \<Longrightarrow> backHop (revCopy pl) = frontHop pl"
  by (auto simp: frontHop_def backHop_def revCopy_def flip_oneWay_def set_reversed_def setOneWay_dir_def)

lemma affix_simi_sym_cases: "affix_simi a b \<Longrightarrow> \<not> affix_simi b a"
  by (simp add: affix_simi_def)

lemma copy_of_blocker_is_station:
  "np_si pl = Si_blocker \<Longrightarrow> is_blocker pl \<and> \<not> is_blocker (fst (copy_node_payload pl w)) \<and>
     get_si (fst (copy_node_payload pl w)) = Some station_info_init"
  by (simp add: copy_node_payload_def is_blocker_def get_si_def copy_station_info_def set_group_def station_info_init_def)

lemma copied_component_not_counted:
  assumes "np_component pl = Some c" "np_si pl = Si_null" "comps w c = Some 1"
  shows "comps (destroy_node_payload (fst (copy_node_payload pl w)) (snd (copy_node_payload pl w))) c = None"
  using assms by (simp add: copy_node_payload_def destroy_node_payload_def get_si_def ref_dec_def)

end
