(* ===== verification/Graph_Search.thy ===== *)
theory Graph_Search
  imports Prelude
begin

text \<open>
  The depth-first marking that \<^verbatim>\<open>graph::write_components\<close> and \<^verbatim>\<open>Algorithm::connectedComponents\<close> share: pop a vertex from
  the stack, mark it, push those of its neighbours that are not marked.  A vertex can be on the stack several
  times.  The locale below holds what the loops of the program rely on: an induction rule that follows the loop
  (so that each loop is shown to end) and the invariant that makes the marked set a connected component.
\<close>

definition push_unmarked :: "('v \<Rightarrow> 'v list) \<Rightarrow> 'v set \<Rightarrow> 'v \<Rightarrow> 'v list \<Rightarrow> 'v list" where
  "push_unmarked nbrs M v rest = rev (filter (\<lambda>w. w \<notin> M) (nbrs v)) @ rest"

definition reach :: "('v \<Rightarrow> 'v list) \<Rightarrow> 'v \<Rightarrow> 'v set" where
  "reach nbrs v = {w. (v, w) \<in> {(a, b). b \<in> set (nbrs a)}\<^sup>*}"

lemma reach_refl [simp]: "v \<in> reach nbrs v"
  by (simp add: reach_def)

lemma reach_step: "\<lbrakk>w \<in> reach nbrs v; u \<in> set (nbrs w)\<rbrakk> \<Longrightarrow> u \<in> reach nbrs v"
  unfolding reach_def by (auto intro: rtrancl_into_rtrancl)

lemma reach_closed:
  assumes "v \<in> C" "\<And>a. a \<in> C \<Longrightarrow> set (nbrs a) \<subseteq> C"
  shows "reach nbrs v \<subseteq> C"
proof
  fix w assume "w \<in> reach nbrs v"
  then have "(v, w) \<in> {(a, b). b \<in> set (nbrs a)}\<^sup>*" by (simp add: reach_def)
  then show "w \<in> C" using assms by (induction rule: rtrancl_induct) auto
qed

text \<open>
  \<open>M0\<close> is the set marked before the search from \<open>n\<close> began, \<open>M\<close> the marks now, \<open>S\<close> the stack.
\<close>

definition dfs_inv :: "('v \<Rightarrow> 'v list) \<Rightarrow> 'v set \<Rightarrow> 'v \<Rightarrow> 'v set \<Rightarrow> 'v list \<Rightarrow> bool" where
  "dfs_inv nbrs M0 n M S \<longleftrightarrow> (\<forall>a\<in>M0. set (nbrs a) \<subseteq> M0) \<and> (\<forall>v\<in>M. set (nbrs v) \<subseteq> M \<union> set S) \<and>
     M0 \<subseteq> M \<and> M \<subseteq> M0 \<union> reach nbrs n \<and> set S \<subseteq> reach nbrs n \<and> n \<in> M \<union> set S"

text \<open>A finite set of vertices, closed under a symmetric neighbourhood.\<close>

locale component_search =
  fixes nbrs :: "'v \<Rightarrow> 'v list" and U :: "'v set"
  assumes finite_U: "finite U"
    and closed_U: "v \<in> U \<Longrightarrow> set (nbrs v) \<subseteq> U"
    and nbrs_sym: "\<lbrakk>v \<in> U; w \<in> set (nbrs v)\<rbrakk> \<Longrightarrow> v \<in> set (nbrs w)"
begin

lemma reach_U: "v \<in> U \<Longrightarrow> reach nbrs v \<subseteq> U"
  by (rule reach_closed) (auto dest: closed_U)

lemma reach_sym:
  assumes "v \<in> U" "w \<in> reach nbrs v"
  shows "v \<in> reach nbrs w"
proof -
  have "(v, w) \<in> {(a, b). b \<in> set (nbrs a)}\<^sup>*" using assms(2) by (simp add: reach_def)
  then have "(w, v) \<in> {(a, b). b \<in> set (nbrs a)}\<^sup>*"
  proof (induction rule: rtrancl_induct)
    case (step y z)
    have "y \<in> U" using reach_U [OF assms(1)] step.hyps(1) by (auto simp: reach_def)
    then have "y \<in> set (nbrs z)" using step.hyps(2) nbrs_sym by auto
    with step.IH show ?case by (auto intro: converse_rtrancl_into_rtrancl)
  qed simp
  then show ?thesis by (simp add: reach_def)
qed

lemma reach_trans: "w \<in> reach nbrs v \<Longrightarrow> reach nbrs w \<subseteq> reach nbrs v"
  unfolding reach_def by (auto intro: rtrancl_trans)

lemma reach_eq: "\<lbrakk>v \<in> U; w \<in> reach nbrs v\<rbrakk> \<Longrightarrow> reach nbrs w = reach nbrs v"
  using reach_sym reach_trans by blast

text \<open>
  The loop ends: marking a new vertex uses one up; popping a marked vertex either shortens the stack or puts an
  unmarked vertex on top.
\<close>

lemma mark_induct [consumes 1, case_names Nil Cons]:
  assumes "set S \<subseteq> U"
    and Nil: "\<And>M. P M []"
    and Cons: "\<And>M v rest. \<lbrakk>v \<in> U; set rest \<subseteq> U; P (insert v M) (push_unmarked nbrs (insert v M) v rest)\<rbrakk> \<Longrightarrow> P M (v # rest)"
  shows "P M S"
proof -
  define meas where "meas = (\<lambda>(M, S). (card (U - M), (if S \<noteq> [] \<and> hd S \<in> M then 1 else 0 :: nat), length S))"
  let ?r = "inv_image (less_than <*lex*> less_than <*lex*> less_than) meas"
  have wf: "wf ?r" by (intro wf_inv_image wf_lex_prod wf_less_than)
  have "set (snd MS) \<subseteq> U \<longrightarrow> P (fst MS) (snd MS)" for MS
  proof (induction MS rule: wf_induct_rule [OF wf])
    case (1 MS)
    obtain M S where MS: "MS = (M, S)" by fastforce
    show ?case
    proof (cases S)
      case S: (Cons v rest)
      show ?thesis
      proof
        assume "set (snd MS) \<subseteq> U"
        then have v: "v \<in> U" "set rest \<subseteq> U" using MS S by auto
        let ?M = "insert v M" and ?S = "push_unmarked nbrs (insert v M) v rest"
        have sub: "set ?S \<subseteq> U" using closed_U [OF v(1)] v(2) by (auto simp: push_unmarked_def)
        have "((?M, ?S), MS) \<in> ?r"
        proof (cases "v \<in> M")
          case False
          then have "card (U - ?M) < card (U - M)" using v(1) finite_U by (intro psubset_card_mono) auto
          then show ?thesis by (simp add: MS meas_def)
        next
          case True
          then have M: "?M = M" by auto
          show ?thesis
          proof (cases "rev (filter (\<lambda>w. w \<notin> M) (nbrs v))")
            case Nil
            then have "?S = rest" unfolding M push_unmarked_def by simp
            then show ?thesis using True by (auto simp: MS S M meas_def)
          next
            case (Cons w ws)
            then have "w \<in> set (filter (\<lambda>w. w \<notin> M) (nbrs v))" by (metis list.set_intros(1) set_rev)
            then have "hd ?S \<notin> M" unfolding M push_unmarked_def Cons by simp
            then show ?thesis using True by (simp add: MS S M meas_def)
          qed
        qed
        with 1 sub have "P ?M ?S" by (metis fst_conv snd_conv)
        then show "P (fst MS) (snd MS)" using Cons [OF v] by (simp add: MS S)
      qed
    qed (simp add: MS Nil)
  qed
  from this [of "(M, S)"] assms(1) show ?thesis by simp
qed

lemma dfs_inv_start:
  assumes "\<And>a. a \<in> M0 \<Longrightarrow> set (nbrs a) \<subseteq> M0"
  shows "dfs_inv nbrs M0 n M0 [n]"
  using assms unfolding dfs_inv_def by (auto dest: subsetD)

lemma dfs_inv_step:
  assumes "dfs_inv nbrs M0 n M (v # rest)"
  shows "dfs_inv nbrs M0 n (insert v M) (push_unmarked nbrs (insert v M) v rest)"
proof -
  have v: "v \<in> reach nbrs n" using assms by (simp add: dfs_inv_def)
  have "set (push_unmarked nbrs (insert v M) v rest) = set rest \<union> (set (nbrs v) - insert v M)"
    by (auto simp: push_unmarked_def)
  moreover have "set (nbrs v) \<subseteq> reach nbrs n" using reach_step [OF v] by auto
  ultimately show ?thesis using assms v unfolding dfs_inv_def by (auto 0 3)
qed

lemma dfs_inv_end:
  assumes "dfs_inv nbrs M0 n M []"
  shows "M = M0 \<union> reach nbrs n"
proof -
  have "reach nbrs n \<subseteq> M" by (rule reach_closed) (use assms in \<open>auto simp: dfs_inv_def\<close>)
  with assms show ?thesis by (auto simp: dfs_inv_def)
qed

lemma closed_Un_reach:
  assumes "\<And>a. a \<in> M0 \<Longrightarrow> set (nbrs a) \<subseteq> M0" "a \<in> M0 \<union> reach nbrs n"
  shows "set (nbrs a) \<subseteq> M0 \<union> reach nbrs n"
  using assms by (auto intro: reach_step)

end

end
