(* ===== verification/Tr_Graph.thy ===== *)
theory Tr_Graph
  imports Tr_Payload Restrictor Graph_Search
begin

text \<open>
  \<^verbatim>\<open>trgraph/graph.{h,cpp}\<close>: the passes over the transit graph between reading the map and routing on it.  The loops
  over the node set and over adjacency lists follow the order of the containers.  The geometry of points (distances on
  the map projection, inner products, line simplification) and the rounding of lengths are arguments, collected in a
  record; nothing is assumed about them.  Reading a hop of a geometry with fewer than two points, and a failed
  assertion of the restrictor, are the result \<^const>\<open>None\<close>.
\<close>

section \<open>Definitions\<close>

record 'p geo_ops =
  webMercMeterDist :: "'p \<Rightarrow> 'p \<Rightarrow> double"
  innerProd :: "'p \<Rightarrow> 'p \<Rightarrow> 'p \<Rightarrow> double"
  geo_simplify :: "'p list \<Rightarrow> 'p list"
  to_float :: "double \<Rightarrow> double"
  double_add :: "double \<Rightarrow> double \<Rightarrow> double"

definition angSmaller :: "'p geo_ops \<Rightarrow> 'p \<Rightarrow> 'p \<Rightarrow> 'p \<Rightarrow> double \<Rightarrow> bool" where
  "angSmaller G f m t ang \<longleftrightarrow> double_less (innerProd G m f t) ang"

abbreviation degree :: "'p tr_graph \<Rightarrow> node_ref \<Rightarrow> nat" where
  "degree g n \<equiv> getInDeg g n + getOutDeg g n"

text \<open>The two loops of \<open>keep_full_turn\<close> that pick the edges other than \<open>e\<close>.\<close>

definition pick_two :: "edge_ref \<Rightarrow> edge_ref list \<Rightarrow> edge_ref option \<times> edge_ref option \<Rightarrow> edge_ref option \<times> edge_ref option" where
  "pick_two e = fold (\<lambda>f (a, b).
     if f \<noteq> e \<and> a = None then (Some f, b) else if f \<noteq> e \<and> b = None then (a, Some f) else (a, b))"

definition hop_at :: "'p tr_graph \<Rightarrow> edge_ref \<Rightarrow> node_ref \<Rightarrow> 'p option" where
  "hop_at g f other = (if edge_getTo g f \<noteq> other then frontHop (epl g f) else backHop (epl g f))"

text \<open>The result \<^const>\<open>None\<close> is a null edge or a missing hop.\<close>

definition keep_full_turn :: "'p geo_ops \<Rightarrow> double \<Rightarrow> 'p tr_graph \<Rightarrow> node_ref \<Rightarrow> bool option" where
  "keep_full_turn G ang g n =
     (if degree g n \<noteq> 1 then Some False
      else (let e = (if getOutDeg g n \<noteq> 0 then hd (node_getAdjListOut g n) else hd (node_getAdjListIn g n));
                other = getOtherNd g e n
            in if degree g other = 3
               then (case pick_two e (node_getAdjListOut g other) (pick_two e (node_getAdjListIn g other) (None, None)) of
                       (Some a, Some b) \<Rightarrow>
                         (case (hop_at g a other, hop_at g b other) of
                            (Some ap, Some bp) \<Rightarrow> Some (angSmaller G ap (np_geom (npl g other)) bp ang)
                          | _ \<Rightarrow> None)
                     | _ \<Rightarrow> None)
               else Some False))"

definition write_geometry :: "'p geo_ops \<Rightarrow> edge_ref \<Rightarrow> 'p tr_graph \<Rightarrow> 'p tr_graph" where
  "write_geometry G e g =
     (let a = np_geom (npl g (edge_getFrom g e)); b = np_geom (npl g (edge_getTo g e))
      in set_epl e (add_point b (set_length (to_float G) (webMercMeterDist G a b) (add_point a (epl g e)))) g)"

definition write_geometries :: "'p geo_ops \<Rightarrow> 'p tr_graph \<Rightarrow> 'p tr_graph" where
  "write_geometries G g = fold (\<lambda>n g. fold (write_geometry G) (node_getAdjListOut g n) g) (graph_nodes g) g"

definition is_orphan :: "'p tr_graph \<Rightarrow> node_ref \<Rightarrow> bool" where
  "is_orphan g n \<longleftrightarrow> degree g n = 0 \<and>
     \<not> (case get_si (npl g n) of None \<Rightarrow> False | Some si \<Rightarrow> si_group si \<noteq> None)"

definition delete_orphan_nodes :: "('p, 's) tr_world \<Rightarrow> ('p, 's) tr_world" where
  "delete_orphan_nodes w = fold (\<lambda>n w. if is_orphan (tr_g w) n then tr_delNd n w else w) (graph_nodes (tr_g w)) w"

definition are_edges_similar :: "'p tr_graph \<Rightarrow> edge_ref \<Rightarrow> edge_ref \<Rightarrow> bool" where
  "are_edges_similar g a b =
     (if is_oneWay (epl g a) \<noteq> is_oneWay (epl g b) then False
      else if ep_lvl (epl g a) \<noteq> ep_lvl (epl g b) then False
      else if length (ep_lines (epl g a)) \<noteq> length (ep_lines (epl g b)) then False
      else if ep_lines (epl g a) \<noteq> ep_lines (epl g b) then False
      else if is_oneWay (epl g a) \<and> is_oneWay (epl g b) \<and>
              edge_getFrom g a \<noteq> edge_getTo g b \<and> edge_getTo g a \<noteq> edge_getFrom g b then False
      else if ep_hasRestr (epl g a) \<or> ep_hasRestr (epl g b) then False
      else True)"

text \<open>\<open>merge_edge_payload\<close> writes the joined geometry and length into the payload of \<open>a\<close>, and returns it.\<close>

definition merge_edge_payload :: "'p geo_ops \<Rightarrow> edge_ref \<Rightarrow> edge_ref \<Rightarrow> 'p tr_graph \<Rightarrow> 'p edge_payload \<times> 'p tr_graph" where
  "merge_edge_payload G a b g =
     (let n = (if edge_getFrom g a = edge_getFrom g b then edge_getFrom g a
               else if edge_getFrom g a = edge_getTo g b then edge_getFrom g a
               else edge_getTo g a);
          ga = ep_geom (epl g a); gb = ep_geom (epl g b);
          l = (if edge_getTo g a = n \<and> edge_getTo g b = n then ga @ rev gb
               else if edge_getTo g a = n \<and> edge_getFrom g b = n then ga @ gb
               else if edge_getFrom g a = n \<and> edge_getTo g b = n then rev ga @ rev gb
               else rev ga @ gb);
          pl = set_length (to_float G) (double_add G (ep_length (epl g a)) (ep_length (epl g b))) ((epl g a)\<lparr>ep_geom := l\<rparr>)
      in (pl, set_epl a pl g))"

definition collapse_pair :: "'p tr_graph \<Rightarrow> node_ref \<Rightarrow> edge_ref \<times> edge_ref" where
  "collapse_pair g n =
     (if getOutDeg g n = 2 then (hd (node_getAdjListOut g n), last (node_getAdjListOut g n))
      else if getInDeg g n = 2 then (hd (node_getAdjListIn g n), last (node_getAdjListIn g n))
      else (hd (node_getAdjListOut g n), hd (node_getAdjListIn g n)))"

definition collapse_at :: "'p geo_ops \<Rightarrow> node_ref \<Rightarrow> 'p tr_graph \<Rightarrow> 'p tr_graph" where
  "collapse_at G n g =
     (if degree g n \<noteq> 2 \<or> get_si (npl g n) \<noteq> None then g
      else (let (ea, eb) = collapse_pair g n; oa = getOtherNd g ea n; ob = getOtherNd g eb n
            in if getEdg g oa ob \<noteq> None then g
               else if getEdg g ob oa \<noteq> None then g
               else if are_edges_similar g ea eb
               then (let g = (if is_oneWay (epl g ea) \<and> oa \<noteq> edge_getFrom g ea
                              then (let (pl, g) = merge_edge_payload G eb ea g in snd (addEdg ob oa pl g))
                              else (let (pl, g) = merge_edge_payload G ea eb g in snd (addEdg oa ob pl g)));
                         g = delEdg (edge_getFrom g ea) (edge_getTo g ea) g
                     in delEdg (edge_getFrom g eb) (edge_getTo g eb) g)
               else g))"

definition collapse_edges :: "'p geo_ops \<Rightarrow> 'p tr_graph \<Rightarrow> 'p tr_graph" where
  "collapse_edges G g = fold (collapse_at G) (graph_nodes g) g"

definition simplify_geometry :: "'p geo_ops \<Rightarrow> edge_ref \<Rightarrow> 'p tr_graph \<Rightarrow> 'p tr_graph" where
  "simplify_geometry G e g = set_epl e ((epl g e)\<lparr>ep_geom := geo_simplify G (ep_geom (epl g e))\<rparr>) g"

definition simplify_geometries :: "'p geo_ops \<Rightarrow> 'p tr_graph \<Rightarrow> 'p tr_graph" where
  "simplify_geometries G g = fold (\<lambda>n g. fold (simplify_geometry G) (node_getAdjListOut g n) g) (graph_nodes g) g"

definition orphan_edge_step :: "'p geo_ops \<Rightarrow> double \<Rightarrow> node_ref \<Rightarrow> ('p, 's) tr_world \<Rightarrow> ('p, 's) tr_world option" where
  "orphan_edge_step G ang n w =
     (if degree (tr_g w) n \<noteq> 1 \<or> get_si (npl (tr_g w) n) \<noteq> None then Some w
      else (case keep_full_turn G ang (tr_g w) n of
              None \<Rightarrow> None
            | Some keep \<Rightarrow> Some (if keep then w else tr_delNd n w)))"

fun opt_fold :: "('a \<Rightarrow> 'b \<Rightarrow> 'b option) \<Rightarrow> 'a list \<Rightarrow> 'b \<Rightarrow> 'b option" where
  "opt_fold f [] s = Some s"
| "opt_fold f (x # xs) s = (case f x s of None \<Rightarrow> None | Some s' \<Rightarrow> opt_fold f xs s')"

definition orphan_edge_round :: "'p geo_ops \<Rightarrow> double \<Rightarrow> ('p, 's) tr_world \<Rightarrow> ('p, 's) tr_world option" where
  "orphan_edge_round G ang w = opt_fold (orphan_edge_step G ang) (graph_nodes (tr_g w)) w"

definition delete_orphan_edges :: "'p geo_ops \<Rightarrow> double \<Rightarrow> ('p, 's) tr_world \<Rightarrow> ('p, 's) tr_world option" where
  "delete_orphan_edges G ang w = opt_fold (\<lambda>c. orphan_edge_round G ang) [0..<(3::nat)] w"

definition write_self_edge :: "node_ref \<Rightarrow> 'p tr_graph \<Rightarrow> 'p tr_graph" where
  "write_self_edge n g =
     (if get_si (npl g n) \<noteq> None \<and> node_getAdjListOut g n = [] then snd (addEdg n n edge_payload_init g) else g)"

definition writeSelfEdgs :: "'p tr_graph \<Rightarrow> 'p tr_graph" where
  "writeSelfEdgs g = fold write_self_edge (graph_nodes g) g"

type_synonym 'p routed = "'p tr_graph \<times> (node_ref, edge_ref) restrictor"

definition write_odir_edge :: "edge_ref \<Rightarrow> 'p routed \<Rightarrow> 'p routed option" where
  "write_odir_edge e = (\<lambda>(g, r).
     if getEdg g (edge_getTo g e) (edge_getFrom g e) \<noteq> None then Some (g, r)
     else (let pl = epl g e; (newE, g) = addEdg (edge_getTo g e) (edge_getFrom g e) (revCopy pl) g
           in if ep_hasRestr pl
              then map_option (\<lambda>r. (g, r)) (duplicate_edge (edge_getFrom g) (edge_getTo g) e newE r)
              else Some (g, r)))"

definition writeODirEdgs :: "'p routed \<Rightarrow> 'p routed option" where
  "writeODirEdgs gr = opt_fold (\<lambda>n gr. opt_fold write_odir_edge (node_getAdjListOut (fst gr) n) gr) (graph_nodes (fst gr)) gr"

text \<open>\<open>write_components\<close>: the stack holds a node and the edge it was reached by.\<close>

type_synonym comp_stack = "(node_ref \<times> edge_ref option) list"

definition visit_edge ::
  "comp_ref \<Rightarrow> node_ref \<Rightarrow> edge_ref \<Rightarrow> ('p, 's) tr_world \<times> comp_stack \<Rightarrow> ('p, 's) tr_world \<times> comp_stack" where
  "visit_edge c n e = (\<lambda>(w, st).
     (let g = tr_g w;
          m = minEdgeLvl (the (comp_heap w c));
          w = (if ep_lvl (epl g e) < m then w\<lparr>comp_heap := (comp_heap w)(c \<mapsto> \<lparr>minEdgeLvl = ep_lvl (epl g e)\<rparr>)\<rparr> else w);
          st = (if np_component (npl g (getOtherNd g e n)) = None then (getOtherNd g e n, Some e) # st else st)
      in (w, st)))"

definition visit_node ::
  "comp_ref \<Rightarrow> node_ref \<Rightarrow> ('p, 's) tr_world \<times> comp_stack \<Rightarrow> ('p, 's) tr_world \<times> comp_stack" where
  "visit_node c n = (\<lambda>(w, st).
     (let w = set_component c n w
      in fold (visit_edge c n) (node_getAdjListIn (tr_g w) n) (fold (visit_edge c n) (node_getAdjListOut (tr_g w) n) (w, st))))"

partial_function (option) component_loop :: "comp_ref \<Rightarrow> ('p, 's) tr_world \<Rightarrow> comp_stack \<Rightarrow> ('p, 's) tr_world option" where
  "component_loop c w st = (case st of
     [] \<Rightarrow> Some w
   | ne # rest \<Rightarrow> (case visit_node c (fst ne) (w, rest) of (w', st') \<Rightarrow> component_loop c w' st'))"

declare component_loop.simps [code]

definition new_component :: "('p, 's) tr_world \<Rightarrow> comp_ref \<times> ('p, 's) tr_world" where
  "new_component w =
     (next_comp w, w\<lparr>comp_heap := (comp_heap w)(next_comp w \<mapsto> \<lparr>minEdgeLvl = 7\<rparr>), next_comp := next_comp w + 1\<rparr>)"

definition component_node ::
  "node_ref \<Rightarrow> comp_ref \<times> u32 \<times> ('p, 's) tr_world \<Rightarrow> (comp_ref \<times> u32 \<times> ('p, 's) tr_world) option" where
  "component_node n = (\<lambda>(comp, cnt, w).
     if np_component (npl (tr_g w) n) = None
     then (case component_loop comp w [(n, None)] of
             None \<Rightarrow> None
           | Some w \<Rightarrow> (let (comp', w) = new_component w in Some (comp', cnt + 1, w)))
     else Some (comp, cnt, w))"

definition write_components :: "('p, 's) tr_world \<Rightarrow> (u32 \<times> ('p, 's) tr_world) option" where
  "write_components w =
     (let (comp, w) = new_component w
      in case opt_fold component_node (graph_nodes (tr_g w)) (comp, 0, w) of
           None \<Rightarrow> None
         | Some (comp, cnt, w) \<Rightarrow> Some (cnt, w\<lparr>comp_heap := (comp_heap w)(comp := None)\<rparr>))"

section \<open>Components\<close>

text \<open>
  The neighbours of a node in the order the loop pushes them, and the nodes of a well-formed graph.
\<close>

definition nbrs :: "('n, 'e) dir_graph \<Rightarrow> node_ref \<Rightarrow> node_ref list" where
  "nbrs g n = map (\<lambda>e. getOtherNd g e n) (node_getAdjListOut g n @ node_getAdjListIn g n)"

definition verts :: "('n, 'e) dir_graph \<Rightarrow> node_ref set" where
  "verts g = {n. wf_graph g \<and> live g n}"

lemma set_nbrs:
  assumes "wf_graph g" "live g n"
  shows "m \<in> set (nbrs g n) \<longleftrightarrow>
    (\<exists>e x. edge_heap g e = Some x \<and> (edge_from x = n \<and> edge_to x = m \<or> edge_to x = n \<and> edge_from x = m))"
proof -
  note out = wf_out_edges(1,2) [OF assms]
  have other: "getOtherNd g e n = (if edge_to x = n then edge_from x else edge_to x)" if "edge_heap g e = Some x" for e x
    using that by (simp add: getOtherNd_def)
  have "m \<in> set (nbrs g n) \<longleftrightarrow> (\<exists>e. (e \<in> set (node_getAdjListOut g n) \<or> e \<in> set (node_getAdjListIn g n)) \<and> getOtherNd g e n = m)"
    by (auto simp: nbrs_def)
  also have "\<dots> \<longleftrightarrow> (\<exists>e x. edge_heap g e = Some x \<and> (edge_from x = n \<or> edge_to x = n) \<and> getOtherNd g e n = m)"
    unfolding out by blast
  also have "\<dots> \<longleftrightarrow> (\<exists>e x. edge_heap g e = Some x \<and> (edge_from x = n \<and> edge_to x = m \<or> edge_to x = n \<and> edge_from x = m))"
    using other by (intro iff_exI conj_cong refl) (auto split: if_splits)
  finally show ?thesis .
qed

interpretation conn: component_search "nbrs g" "verts g" for g :: "('n, 'e) dir_graph"
proof
  show "finite (verts g)"
  proof (cases "wf_graph g")
    case True
    then have "verts g = set (graph_nodes g)" using wf_nodes [OF True] by (simp add: verts_def)
    then show ?thesis by simp
  qed (simp add: verts_def)
  fix v w
  assume v: "v \<in> verts g"
  then have g: "wf_graph g" "live g v" by (simp_all add: verts_def)
  show sub: "set (nbrs g v) \<subseteq> verts g"
    using wf_edge(2,3) [OF g(1)] by (fastforce simp: set_nbrs [OF g] verts_def g(1))
  assume w: "w \<in> set (nbrs g v)"
  then have "live g w" using sub by (auto simp: verts_def)
  then show "v \<in> set (nbrs g w)" using w by (auto simp: set_nbrs [OF g] set_nbrs [OF g(1)])
qed

text \<open>Two nodes are connected when a path of edges, in any direction, leads from one to the other.\<close>

definition connected :: "('n, 'e) dir_graph \<Rightarrow> node_ref \<Rightarrow> node_ref set" where
  "connected g n = reach (nbrs g) n"

text \<open>The graph with other components on its nodes.\<close>

definition relabel :: "(node_ref \<Rightarrow> comp_ref option) \<Rightarrow> 'p tr_graph \<Rightarrow> 'p tr_graph" where
  "relabel f g = g\<lparr>node_heap := (\<lambda>n. map_option (\<lambda>d. d\<lparr>node_pl := (node_pl d)\<lparr>np_component := f n\<rparr>\<rparr>) (node_heap g n))\<rparr>"

lemma relabel_simps [simp]:
  "edge_heap (relabel f g) = edge_heap g" "graph_nodes (relabel f g) = graph_nodes g"
  "dom (node_heap (relabel f g)) = dom (node_heap g)"
  "edge_getFrom (relabel f g) = edge_getFrom g" "edge_getTo (relabel f g) = edge_getTo g"
  "getOtherNd (relabel f g) = getOtherNd g" "epl (relabel f g) = epl g"
  by (auto simp: relabel_def fun_eq_iff edge_getFrom_def edge_getTo_def edge_at_def getOtherNd_def epl_def)

lemma relabel_live [simp]:
  assumes "live g n"
  shows "np_component (npl (relabel f g) n) = f n"
    "node_getAdjListOut (relabel f g) n = node_getAdjListOut g n"
    "node_getAdjListIn (relabel f g) n = node_getAdjListIn g n"
  using assms by (auto simp: relabel_def npl_def node_at_def node_getAdjListOut_def node_getAdjListIn_def)

lemma relabel_set:
  assumes "live g n"
  shows "set_npl n ((npl (relabel f g) n)\<lparr>np_component := k\<rparr>) (relabel f g) = relabel (f(n := k)) g"
  using assms by (auto simp: relabel_def set_npl_def npl_def node_at_def put_node_def fun_eq_iff)

text \<open>The least level of the edges at some nodes.\<close>

definition levels_at :: "'p tr_graph \<Rightarrow> node_ref \<Rightarrow> 3 word list" where
  "levels_at g n = map (\<lambda>e. ep_lvl (epl g e)) (node_getAdjListOut g n @ node_getAdjListIn g n)"

definition least_level :: "'p tr_graph \<Rightarrow> node_ref set \<Rightarrow> 3 word" where
  "least_level g N = Min (insert 7 (\<Union>n\<in>N. set (levels_at g n)))"

lemma least_level_empty [simp]: "least_level g {} = 7"
  by (simp add: least_level_def)

lemma fold_min_Min: "fold min xs (Min (insert x A)) = Min (insert x A \<union> set xs)" if "finite A" for x :: "'a::linorder"
  using that
proof (induction xs arbitrary: A)
  case (Cons y ys)
  have "min y (Min (insert x A)) = Min (insert x (insert y A))" using Cons.prems by (metis Min_insert finite.insertI insert_commute insert_not_empty)
  then show ?case using Cons.IH [of "insert y A"] Cons.prems by (simp add: insert_commute Un_commute)
qed simp

lemma least_level_insert:
  assumes "finite N"
  shows "least_level g (insert n N) = fold min (levels_at g n) (least_level g N)"
  using assms by (simp add: least_level_def fold_min_Min Un_commute)

text \<open>The world with another level stored in a component.\<close>

definition set_lvl :: "comp_ref \<Rightarrow> 3 word \<Rightarrow> ('p, 's) tr_world \<Rightarrow> ('p, 's) tr_world" where
  "set_lvl c k w = w\<lparr>comp_heap := (comp_heap w)(c \<mapsto> \<lparr>minEdgeLvl = k\<rparr>)\<rparr>"

lemma set_lvl_simps [simp]:
  "tr_g (set_lvl c k w) = tr_g w" "comps (set_lvl c k w) = comps w" "comp_heap (set_lvl c k w) c = Some \<lparr>minEdgeLvl = k\<rparr>"
  "set_lvl c k (set_lvl c k' w) = set_lvl c k w"
  by (simp_all add: set_lvl_def)

lemma set_lvl_triv: "comp_heap w c = Some \<lparr>minEdgeLvl = k\<rparr> \<Longrightarrow> set_lvl c k w = w"
  by (simp add: set_lvl_def map_upd_triv)

lemma visit_edge_eq:
  assumes "tr_g w = relabel f g" "comp_heap w c = Some \<lparr>minEdgeLvl = k\<rparr>" "live g (getOtherNd g e n)"
  shows "visit_edge c n e (w, st) =
    (set_lvl c (min (ep_lvl (epl g e)) k) w,
     if f (getOtherNd g e n) = None then (getOtherNd g e n, Some e) # st else st)"
  using assms set_lvl_triv [OF assms(2)] by (auto simp: visit_edge_def min_def not_less set_lvl_def [symmetric])

lemma visit_edges:
  assumes "tr_g w = relabel f g" "comp_heap w c = Some \<lparr>minEdgeLvl = k\<rparr>" "\<forall>e\<in>set es. live g (getOtherNd g e n)"
  shows "\<exists>st'. fold (visit_edge c n) es (w, st) =
      (set_lvl c (fold min (map (\<lambda>e. ep_lvl (epl g e)) es) k) w, st') \<and>
    map fst st' = rev (filter (\<lambda>m. f m = None) (map (\<lambda>e. getOtherNd g e n) es)) @ map fst st"
  using assms
proof (induction es arbitrary: w k st)
  case Nil
  then show ?case by (simp add: set_lvl_triv)
next
  case (Cons e es)
  let ?w = "set_lvl c (min (ep_lvl (epl g e)) k) w"
  let ?st = "if f (getOtherNd g e n) = None then (getOtherNd g e n, Some e) # st else st"
  have "visit_edge c n e (w, st) = (?w, ?st)" by (rule visit_edge_eq) (use Cons.prems in auto)
  moreover obtain st' where "fold (visit_edge c n) es (?w, ?st) =
      (set_lvl c (fold min (map (\<lambda>e. ep_lvl (epl g e)) es) (min (ep_lvl (epl g e)) k)) ?w, st')"
    "map fst st' = rev (filter (\<lambda>m. f m = None) (map (\<lambda>e. getOtherNd g e n) es)) @ map fst ?st"
    using Cons.IH [of ?w "min (ep_lvl (epl g e)) k" ?st] Cons.prems by auto
  ultimately show ?case by (intro exI [of _ st']) simp
qed

lemma visit_node_eq:
  assumes wf: "wf_graph g" and n: "live g n" and g: "tr_g w = relabel f g" and fn: "f n = None \<or> f n = Some c"
    and k: "comp_heap w c = Some \<lparr>minEdgeLvl = k\<rparr>"
  shows "\<exists>st'. visit_node c n (w, st) =
      (set_lvl c (fold min (levels_at g n) k)
         (w\<lparr>tr_g := relabel (f(n \<mapsto> c)) g, comps := (if f n = Some c then comps w else ref_inc c (comps w))\<rparr>), st') \<and>
    map fst st' = rev (filter (\<lambda>m. (f(n \<mapsto> c)) m = None) (nbrs g n)) @ map fst st"
proof -
  let ?w = "set_component c n w"
  have sc: "?w = w\<lparr>tr_g := relabel (f(n \<mapsto> c)) g, comps := (if f n = Some c then comps w else ref_inc c (comps w))\<rparr>"
  proof (cases "f n = Some c")
    case True
    then have "f(n \<mapsto> c) = f" by auto
    then show ?thesis using True n g by (simp add: set_component_def)
  qed (use n g fn in \<open>simp add: set_component_def relabel_set\<close>)
  have "set (nbrs g n) \<subseteq> verts g" using conn.closed_U wf n by (auto simp: verts_def)
  then have live: "\<forall>e\<in>set (node_getAdjListOut g n). live g (getOtherNd g e n)"
    "\<forall>e\<in>set (node_getAdjListIn g n). live g (getOtherNd g e n)" by (auto simp: nbrs_def verts_def)
  obtain st1 where 1: "fold (visit_edge c n) (node_getAdjListOut g n) (?w, st) =
      (set_lvl c (fold min (map (\<lambda>e. ep_lvl (epl g e)) (node_getAdjListOut g n)) k) ?w, st1)"
    "map fst st1 = rev (filter (\<lambda>m. (f(n \<mapsto> c)) m = None) (map (\<lambda>e. getOtherNd g e n) (node_getAdjListOut g n))) @ map fst st"
    using visit_edges [of ?w "f(n \<mapsto> c)" g c k "node_getAdjListOut g n" n st] live(1) k by (auto simp: sc)
  let ?w1 = "set_lvl c (fold min (map (\<lambda>e. ep_lvl (epl g e)) (node_getAdjListOut g n)) k) ?w"
  obtain st2 where 2: "fold (visit_edge c n) (node_getAdjListIn g n) (?w1, st1) =
      (set_lvl c (fold min (map (\<lambda>e. ep_lvl (epl g e)) (node_getAdjListIn g n))
         (fold min (map (\<lambda>e. ep_lvl (epl g e)) (node_getAdjListOut g n)) k)) ?w1, st2)"
    "map fst st2 = rev (filter (\<lambda>m. (f(n \<mapsto> c)) m = None) (map (\<lambda>e. getOtherNd g e n) (node_getAdjListIn g n))) @ map fst st1"
    using visit_edges [of ?w1 "f(n \<mapsto> c)" g c _ "node_getAdjListIn g n" n st1] live(2) by (auto simp: sc)
  have adj: "node_getAdjListOut (tr_g ?w) n = node_getAdjListOut g n" "node_getAdjListIn (tr_g ?w) n = node_getAdjListIn g n"
    using n by (simp_all add: sc)
  have "visit_node c n (w, st) = (set_lvl c (fold min (levels_at g n) k) ?w1, st2)"
    unfolding visit_node_def Let_def prod.case adj 1(1) 2(1) by (simp add: levels_at_def)
  then show ?thesis using 1(2) 2(2) by (intro exI [of _ st2]) (simp add: sc nbrs_def)
qed

text \<open>The world in which the nodes of \<open>N\<close> have been put into the new component \<open>c\<close>.\<close>

definition labelled :: "'p tr_graph \<Rightarrow> (node_ref \<Rightarrow> comp_ref option) \<Rightarrow> comp_ref \<Rightarrow> ('p, 's) tr_world \<Rightarrow> node_ref set \<Rightarrow> ('p, 's) tr_world" where
  "labelled g f c w N = set_lvl c (least_level g N)
     (w\<lparr>tr_g := relabel (\<lambda>v. if v \<in> N then Some c else f v) g,
        comps := (if N = {} then comps w else (comps w)(c \<mapsto> card N))\<rparr>)"

lemma component_loop_Nil [simp]: "component_loop c w [] = Some w"
  by (subst component_loop.simps) simp

lemma component_loop_Cons:
  "component_loop c w (ne # rest) = (case visit_node c (fst ne) (w, rest) of (w', st') \<Rightarrow> component_loop c w' st')"
  by (subst component_loop.simps) simp

lemma visit_labelled:
  assumes wf: "wf_graph g" and n: "live g n" and N: "finite N" and fn: "f n = None" and c: "comps w c = None"
  shows "\<exists>st'. visit_node c n (labelled g f c w N, st) = (labelled g f c w (insert n N), st') \<and>
    map fst st' = rev (filter (\<lambda>m. m \<notin> insert n N \<and> f m = None) (nbrs g n)) @ map fst st"
proof -
  let ?f = "\<lambda>v. if v \<in> N then Some c else f v" and ?w = "labelled g f c w N"
  have pre: "tr_g ?w = relabel ?f g" "?f n = None \<or> ?f n = Some c" "comp_heap ?w c = Some \<lparr>minEdgeLvl = least_level g N\<rparr>"
    using fn by (simp_all add: labelled_def)
  have f: "?f(n \<mapsto> c) = (\<lambda>v. if v \<in> insert n N then Some c else f v)" by auto
  have cnt: "(if ?f n = Some c then comps ?w else ref_inc c (comps ?w)) = (comps w)(c \<mapsto> card (insert n N))"
  proof (cases "n \<in> N")
    case True
    then show ?thesis using True by (auto simp: labelled_def insert_absorb)
  next
    case False
    then show ?thesis using fn c N by (auto simp: labelled_def ref_inc_def)
  qed
  have "labelled g f c w (insert n N) = set_lvl c (fold min (levels_at g n) (least_level g N))
      (?w\<lparr>tr_g := relabel (?f(n \<mapsto> c)) g, comps := (if ?f n = Some c then comps ?w else ref_inc c (comps ?w))\<rparr>)"
    unfolding cnt unfolding f by (simp add: labelled_def least_level_insert [OF N] set_lvl_def)
  moreover have "(\<lambda>m. (?f(n \<mapsto> c)) m = None) = (\<lambda>m. m \<notin> insert n N \<and> f m = None)" unfolding f by auto
  moreover obtain st' where "visit_node c n (?w, st) = (set_lvl c (fold min (levels_at g n) (least_level g N))
      (?w\<lparr>tr_g := relabel (?f(n \<mapsto> c)) g, comps := (if ?f n = Some c then comps ?w else ref_inc c (comps ?w))\<rparr>), st')"
    "map fst st' = rev (filter (\<lambda>m. (?f(n \<mapsto> c)) m = None) (nbrs g n)) @ map fst st"
    using visit_node_eq [OF wf n pre, of st] by blast
  ultimately show ?thesis by (intro exI [of _ st']) simp
qed

lemma component_loop_correct:
  fixes w :: "('p, 's) tr_world"
  assumes wf: "wf_graph g" and n: "live g n" and c: "comps w c = None"
    and closed: "\<And>v. \<lbrakk>live g v; f v \<noteq> None\<rbrakk> \<Longrightarrow> \<forall>u\<in>set (nbrs g v). f u \<noteq> None"
    and fn: "f n = None"
  shows "component_loop c (labelled g f c w {}) [(n, None)] = Some (labelled g f c w (connected g n))"
proof -
  define M0 where "M0 = {v \<in> verts g. f v \<noteq> None}"
  have M0: "set (nbrs g a) \<subseteq> M0" if "a \<in> M0" for a
    using that closed [of a] conn.closed_U [of a g] by (auto simp: M0_def verts_def)
  have disj: "f u = None" if "u \<in> connected g n" for u
  proof (rule ccontr)
    assume "f u \<noteq> None"
    have nv: "n \<in> verts g" using wf n by (simp add: verts_def)
    then have "u \<in> M0" using that \<open>f u \<noteq> None\<close> conn.reach_U by (auto simp: M0_def connected_def)
    then have "reach (nbrs g) u \<subseteq> M0" by (rule reach_closed) (rule M0)
    then have "n \<in> M0" using conn.reach_sym [OF nv] that by (auto simp: connected_def)
    then show False using fn by (simp add: M0_def)
  qed
  have loop: "\<forall>N st. map fst st = S \<longrightarrow> M = M0 \<union> N \<longrightarrow> N \<subseteq> connected g n \<longrightarrow> dfs_inv (nbrs g) M0 n M S \<longrightarrow>
      component_loop c (labelled g f c w N) st = Some (labelled g f c w (connected g n))"
    if "set S \<subseteq> verts g" for M S
    using that
  proof (induction M S rule: conn.mark_induct)
    case (Nil M)
    show ?case
    proof (intro allI impI)
      fix N and st :: comp_stack
      assume a: "map fst st = []" "M = M0 \<union> N" "N \<subseteq> connected g n" "dfs_inv (nbrs g) M0 n M []"
      have "M0 \<inter> connected g n = {}" using disj by (auto simp: M0_def)
      then have "N = connected g n" using conn.dfs_inv_end [OF a(4)] a(2,3) by (auto simp: connected_def)
      then show "component_loop c (labelled g f c w N) st = Some (labelled g f c w (connected g n))"
        using a(1) by simp
    qed
  next
    case (Cons M v rest)
    show ?case
    proof (intro allI impI)
      fix N and st :: comp_stack
      assume a: "map fst st = v # rest" "M = M0 \<union> N" "N \<subseteq> connected g n" "dfs_inv (nbrs g) M0 n M (v # rest)"
      have v: "live g v" "v \<in> connected g n" using Cons.hyps(1) a(4) by (auto simp: verts_def dfs_inv_def connected_def)
      have "finite (connected g n)"
        using conn.reach_U [of n g] conn.finite_U [of g] wf n by (auto simp: connected_def verts_def intro: finite_subset)
      then have N: "finite N" using a(3) by (rule rev_finite_subset)
      obtain ne st0 where st: "st = ne # st0" "fst ne = v" "map fst st0 = rest" using a(1) by auto
      obtain st' where st': "visit_node c v (labelled g f c w N, st0) = (labelled g f c w (insert v N), st')"
        "map fst st' = rev (filter (\<lambda>m. m \<notin> insert v N \<and> f m = None) (nbrs g v)) @ rest"
        using visit_labelled [of g v N f w c, OF wf v(1) N disj [OF v(2)] c, of st0] st(3) by blast
      have "(m \<notin> insert v N \<and> f m = None) = (m \<notin> insert v M)" if "m \<in> set (nbrs g v)" for m
        using that conn.closed_U [OF Cons.hyps(1)] by (auto simp: a(2) M0_def)
      then have "filter (\<lambda>m. m \<notin> insert v N \<and> f m = None) (nbrs g v) = filter (\<lambda>m. m \<notin> insert v M) (nbrs g v)"
        by (intro filter_cong [OF refl])
      then have "map fst st' = push_unmarked (nbrs g) (insert v M) v rest"
        unfolding st'(2) push_unmarked_def by (rule arg_cong)
      moreover have "insert v M = M0 \<union> insert v N" "insert v N \<subseteq> connected g n" using a(2,3) v(2) by auto
      moreover note conn.dfs_inv_step [OF a(4)]
      ultimately have "component_loop c (labelled g f c w (insert v N)) st' = Some (labelled g f c w (connected g n))"
        using Cons.IH by blast
      then show "component_loop c (labelled g f c w N) st = Some (labelled g f c w (connected g n))"
        by (simp add: st component_loop_Cons st'(1))
    qed
  qed
  have "set [n] \<subseteq> verts g" using wf n by (simp add: verts_def)
  note start = loop [OF this, of M0, rule_format, of "[(n, None)]" "{}"]
  show ?thesis by (rule start) (auto intro!: conn.dfs_inv_start dest: M0 [THEN subsetD])
qed

text \<open>
  The state between two rounds of the outer loop: \<open>f\<close> gives the components of the nodes searched so far, \<open>cp\<close> is the
  unused component of the next round.
\<close>

definition comps_inv ::
  "('p, 's) tr_world \<Rightarrow> (node_ref \<Rightarrow> comp_ref option) \<Rightarrow> comp_ref \<Rightarrow> nat \<Rightarrow> ('p, 's) tr_world \<Rightarrow> bool" where
  "comps_inv w0 f cp cnt w \<longleftrightarrow>
     (let g = tr_g w0; M = {v \<in> verts g. f v \<noteq> None} in
      tr_g w = relabel f g \<and> groups w = groups w0 \<and> group_heap w = group_heap w0 \<and>
      (\<forall>v. f v \<noteq> None \<longrightarrow> v \<in> M) \<and>
      (\<forall>v\<in>M. set (nbrs g v) \<subseteq> M) \<and>
      (\<forall>v\<in>M. \<forall>u\<in>M. f v = f u \<longleftrightarrow> u \<in> connected g v) \<and>
      (\<forall>v\<in>M. \<forall>c. f v = Some c \<longrightarrow> c < cp \<and> comps w c = Some (card (connected g v)) \<and>
          comp_heap w c = Some \<lparr>minEdgeLvl = least_level g (connected g v)\<rparr>) \<and>
      card (connected g ` M) = cnt \<and>
      next_comp w = cp + 1 \<and> comps w cp = None \<and> comp_heap w cp = Some \<lparr>minEdgeLvl = 7\<rparr> \<and>
      (\<forall>c>cp. comps w c = None))"

lemma connected_facts:
  assumes "wf_graph g" "live g n"
  shows "n \<in> connected g n" "connected g n \<subseteq> verts g" "finite (connected g n)"
    "u \<in> connected g n \<Longrightarrow> connected g u = connected g n"
    "u \<in> connected g n \<Longrightarrow> set (nbrs g u) \<subseteq> connected g n"
proof -
  have n: "n \<in> verts g" using assms by (simp add: verts_def)
  show "n \<in> connected g n" by (simp add: connected_def)
  show sub: "connected g n \<subseteq> verts g" using conn.reach_U [OF n] by (simp add: connected_def)
  then show "finite (connected g n)" using conn.finite_U by (rule finite_subset)
  show "connected g u = connected g n" if "u \<in> connected g n"
    using conn.reach_eq [OF n, of u] that unfolding connected_def by blast
  show "set (nbrs g u) \<subseteq> connected g n" if "u \<in> connected g n"
    using reach_step [of u "nbrs g" n] that unfolding connected_def by blast
qed

lemma labelled_start:
  assumes "tr_g w = relabel f g" "comp_heap w c = Some \<lparr>minEdgeLvl = 7\<rparr>"
  shows "labelled g f c w {} = w"
proof -
  have "w\<lparr>tr_g := relabel f g, comps := comps w\<rparr> = w" unfolding assms(1) [symmetric] by simp
  then show ?thesis using set_lvl_triv [OF assms(2)] by (simp add: labelled_def)
qed

lemma component_node_inv:
  assumes inv: "comps_inv w0 f cp cnt w" and wf: "wf_graph (tr_g w0)" and n: "live (tr_g w0) n"
  shows "\<exists>f' cp' cnt' w'. component_node n (cp, of_nat cnt, w) = Some (cp', of_nat cnt', w') \<and>
    comps_inv w0 f' cp' cnt' w' \<and> f' n \<noteq> None \<and> (\<forall>v. f v \<noteq> None \<longrightarrow> f' v = f v)"
proof (cases "f n")
  case (Some c)
  have "tr_g w = relabel f (tr_g w0)" using inv by (simp add: comps_inv_def Let_def)
  then have "component_node n (cp, of_nat cnt, w) = Some (cp, of_nat cnt, w)"
    using n Some by (simp add: component_node_def)
  then show ?thesis using inv Some by auto
next
  case None
  define g where "g = tr_g w0"
  define M where "M = {v \<in> verts g. f v \<noteq> None}"
  define C where "C = connected g n"
  define w1 where "w1 = labelled g f cp w C"
  define f' where "f' = (\<lambda>v. if v \<in> C then Some cp else f v)"
  define w2 where "w2 = snd (new_component w1)"
  note cf = connected_facts [of g n, folded C_def]
  have wfg: "wf_graph g" and ng: "live g n" using wf n by (simp_all add: g_def)
  have i: "tr_g w = relabel f g" "groups w = groups w0" "group_heap w = group_heap w0"
    "\<And>v. f v \<noteq> None \<Longrightarrow> v \<in> M" "\<And>v. v \<in> M \<Longrightarrow> set (nbrs g v) \<subseteq> M"
    "\<And>v u. v \<in> M \<Longrightarrow> u \<in> M \<Longrightarrow> f v = f u \<longleftrightarrow> u \<in> connected g v"
    "\<And>v c. v \<in> M \<Longrightarrow> f v = Some c \<Longrightarrow> c < cp \<and> comps w c = Some (card (connected g v)) \<and>
          comp_heap w c = Some \<lparr>minEdgeLvl = least_level g (connected g v)\<rparr>"
    "card (connected g ` M) = cnt" "next_comp w = cp + 1" "comps w cp = None"
    "comp_heap w cp = Some \<lparr>minEdgeLvl = 7\<rparr>" "\<And>c. c > cp \<Longrightarrow> comps w c = None"
    using inv unfolding comps_inv_def Let_def g_def M_def by blast+
  have "\<forall>u\<in>set (nbrs g v). f u \<noteq> None" if "live g v" "f v \<noteq> None" for v
    using i(5) [OF i(4) [OF that(2)]] by (auto simp: M_def)
  then have "component_loop cp w [(n, None)] = Some w1"
    using component_loop_correct [of g n w cp f, OF wfg ng i(10) _ None] labelled_start [OF i(1,11)]
    by (simp add: w1_def C_def)
  then have step: "component_node n (cp, of_nat cnt, w) = Some (next_comp w1, of_nat (Suc cnt), w2)"
    using n None i(1) by (simp add: component_node_def new_component_def w2_def g_def Let_def add.commute)
  have nextc: "next_comp w1 = cp + 1" using i(9) by (simp add: w1_def labelled_def set_lvl_def)
  have C: "n \<in> C" "C \<subseteq> verts g" "finite C" "\<And>u. u \<in> C \<Longrightarrow> connected g u = C" "\<And>u. u \<in> C \<Longrightarrow> set (nbrs g u) \<subseteq> C"
    using cf [OF wfg ng] by auto
  have disj: "M \<inter> C = {}"
  proof (rule equals0I)
    fix u assume u: "u \<in> M \<inter> C"
    then have "n \<in> connected g u" using C(1,4) by auto
    moreover have "reach (nbrs g) u \<subseteq> M" by (rule reach_closed) (use u i(5) in auto)
    ultimately show False using None by (auto simp: connected_def M_def)
  qed
  have M': "{v \<in> verts g. f' v \<noteq> None} = M \<union> C" using C(2) by (auto simp: f'_def M_def)
  have sep: "u \<notin> connected g v" if "v \<in> M" "u \<in> C" for u v
  proof
    assume "u \<in> connected g v"
    moreover have "reach (nbrs g) v \<subseteq> M" by (rule reach_closed) (use that i(5) in auto)
    ultimately show False using that disj by (auto simp: connected_def)
  qed
  have lt: "f v \<noteq> Some cp" for v using i(4) [of v] i(7) [of v cp] by auto
  have "comps_inv w0 f' (cp + 1) (Suc cnt) w2"
    unfolding comps_inv_def Let_def g_def [symmetric] M'
  proof (intro conjI)
    show "tr_g w2 = relabel f' g" by (simp add: w2_def new_component_def w1_def labelled_def f'_def)
    show "groups w2 = groups w0" "group_heap w2 = group_heap w0"
      using i(2,3) by (simp_all add: w2_def new_component_def w1_def labelled_def set_lvl_def)
    show "\<forall>v. f' v \<noteq> None \<longrightarrow> v \<in> M \<union> C" using i(4) by (auto simp: f'_def)
    show "\<forall>v\<in>M \<union> C. set (nbrs g v) \<subseteq> M \<union> C" using i(5) C(5) by blast
    show "\<forall>v\<in>M \<union> C. \<forall>u\<in>M \<union> C. f' v = f' u \<longleftrightarrow> u \<in> connected g v"
    proof (intro ballI)
      fix v u assume vu: "v \<in> M \<union> C" "u \<in> M \<union> C"
      show "f' v = f' u \<longleftrightarrow> u \<in> connected g v"
      proof (cases "v \<in> C")
        case True
        then show ?thesis using C(4) lt [of u] by (auto simp: f'_def)
      next
        case False
        then have v: "v \<in> M" using vu by auto
        show ?thesis
        proof (cases "u \<in> C")
          case True
          then show ?thesis using sep [OF v] lt [of v] False by (auto simp: f'_def)
        next
          case False
          then show ?thesis using i(6) [OF v] vu \<open>v \<notin> C\<close> by (simp add: f'_def)
        qed
      qed
    qed
    have c2: "comps w2 = (comps w)(cp \<mapsto> card C)"
      using C(1) by (auto simp: w2_def new_component_def w1_def labelled_def)
    have h2: "comp_heap w2 = (comp_heap w)(cp \<mapsto> \<lparr>minEdgeLvl = least_level g C\<rparr>, cp + 1 \<mapsto> \<lparr>minEdgeLvl = 7\<rparr>)"
      using nextc by (simp add: w2_def new_component_def w1_def labelled_def set_lvl_def)
    show "\<forall>v\<in>M \<union> C. \<forall>c. f' v = Some c \<longrightarrow> c < cp + 1 \<and> comps w2 c = Some (card (connected g v)) \<and>
          comp_heap w2 c = Some \<lparr>minEdgeLvl = least_level g (connected g v)\<rparr>"
    proof (intro ballI allI impI)
      fix v c assume v: "v \<in> M \<union> C" and f: "f' v = Some c"
      show "c < cp + 1 \<and> comps w2 c = Some (card (connected g v)) \<and>
          comp_heap w2 c = Some \<lparr>minEdgeLvl = least_level g (connected g v)\<rparr>"
      proof (cases "v \<in> C")
        case True
        then show ?thesis using f C(4) [OF True] by (simp add: f'_def c2 h2)
      next
        case False
        then have "v \<in> M" "f v = Some c" using v f by (auto simp: f'_def)
        then show ?thesis using i(7) [of v c] by (auto simp: c2 h2)
      qed
    qed
    have "connected g ` (M \<union> C) = insert C (connected g ` M)" using C(1,4) by auto
    moreover have "C \<notin> connected g ` M"
    proof
      assume "C \<in> connected g ` M"
      then obtain v where "v \<in> M" "C = connected g v" by auto
      then show False using sep [of v n] C(1) by auto
    qed
    moreover have "finite (connected g ` M)" using conn.finite_U [of g] by (simp add: M_def)
    ultimately show "card (connected g ` (M \<union> C)) = Suc cnt" using i(8) by simp
    show "next_comp w2 = cp + 1 + 1" using nextc by (simp add: w2_def new_component_def)
    show "comps w2 (cp + 1) = None" "\<forall>c>cp + 1. comps w2 c = None" using i(12) by (auto simp: c2)
    show "comp_heap w2 (cp + 1) = Some \<lparr>minEdgeLvl = 7\<rparr>" by (simp add: h2)
  qed
  moreover have "f' n \<noteq> None" "\<forall>v. f v \<noteq> None \<longrightarrow> f' v = f v" using C(1) disj i(4) by (auto simp: f'_def)
  ultimately show ?thesis using step nextc by metis
qed

lemma component_nodes_inv:
  assumes wf: "wf_graph (tr_g w0)"
  shows "\<lbrakk>\<forall>n\<in>set ns. live (tr_g w0) n; comps_inv w0 f c cnt w\<rbrakk> \<Longrightarrow>
    \<exists>f' c' cnt' w'. opt_fold component_node ns (c, of_nat cnt, w) = Some (c', of_nat cnt', w') \<and>
      comps_inv w0 f' c' cnt' w' \<and> (\<forall>n\<in>set ns. f' n \<noteq> None) \<and> (\<forall>v. f v \<noteq> None \<longrightarrow> f' v = f v)"
proof (induction ns arbitrary: f c cnt w)
  case (Cons n ns)
  obtain f1 c1 cnt1 w1 where 1: "component_node n (c, of_nat cnt, w) = Some (c1, of_nat cnt1, w1)"
    "comps_inv w0 f1 c1 cnt1 w1" "f1 n \<noteq> None" "\<forall>v. f v \<noteq> None \<longrightarrow> f1 v = f v"
    using component_node_inv [OF Cons.prems(2) wf, of n] Cons.prems(1) by auto
  obtain f2 c2 cnt2 w2 where 2: "opt_fold component_node ns (c1, of_nat cnt1, w1) = Some (c2, of_nat cnt2, w2)"
    "comps_inv w0 f2 c2 cnt2 w2" "\<forall>n\<in>set ns. f2 n \<noteq> None" "\<forall>v. f1 v \<noteq> None \<longrightarrow> f2 v = f1 v"
    using Cons.IH [OF _ 1(2)] Cons.prems(1) by auto
  have "f2 n \<noteq> None" using 1(3) 2(4) by metis
  moreover have "\<forall>v. f v \<noteq> None \<longrightarrow> f2 v = f v" using 1(4) 2(4) by metis
  ultimately show ?case using 1(1) 2 by (intro exI [of _ f2] exI [of _ c2] exI [of _ cnt2] exI [of _ w2]) simp
qed auto

lemma relabel_none:
  assumes "\<And>n. live g n \<Longrightarrow> np_component (npl g n) = None"
  shows "relabel (\<lambda>_. None) g = g"
proof -
  have "map_option (\<lambda>d. d\<lparr>node_pl := (node_pl d)\<lparr>np_component := None\<rparr>\<rparr>) (node_heap g n) = node_heap g n" for n
    using assms [of n] by (cases "node_heap g n") (fastforce simp: npl_def node_at_def intro!: dir_node.equality node_payload.equality)+
  then show ?thesis by (simp add: relabel_def)
qed

lemma comps_inv_start:
  assumes "\<And>n. live (tr_g w) n \<Longrightarrow> np_component (npl (tr_g w) n) = None" "\<And>c. next_comp w \<le> c \<Longrightarrow> comps w c = None"
  shows "comps_inv w (\<lambda>_. None) (next_comp w) 0 (snd (new_component w))"
  using relabel_none [of "tr_g w"] assms by (auto simp: comps_inv_def new_component_def)

text \<open>The components after the run.\<close>

lemma components_written:
  assumes wf: "wf_graph (tr_g w)"
    and fresh: "\<And>n. live (tr_g w) n \<Longrightarrow> np_component (npl (tr_g w) n) = None"
    and unused: "\<And>c. next_comp w \<le> c \<Longrightarrow> comps w c = None"
  shows "\<exists>cnt w' f. write_components w = Some (cnt, w') \<and> tr_g w' = relabel f (tr_g w) \<and>
    (\<forall>n. live (tr_g w) n \<longrightarrow> (\<exists>c. f n = Some c \<and> comps w' c = Some (card (connected (tr_g w) n)) \<and>
       comp_heap w' c = Some \<lparr>minEdgeLvl = least_level (tr_g w) (connected (tr_g w) n)\<rparr>)) \<and>
    (\<forall>n m. live (tr_g w) n \<longrightarrow> live (tr_g w) m \<longrightarrow> (f n = f m \<longleftrightarrow> m \<in> connected (tr_g w) n)) \<and>
    cnt = of_nat (card (connected (tr_g w) ` dom (node_heap (tr_g w)))) \<and>
    comp_heap w' (next_comp w' - 1) = None"
proof -
  define g where "g = tr_g w"
  have nds: "set (graph_nodes g) = dom (node_heap g)" "graph_nodes (tr_g (snd (new_component w))) = graph_nodes g"
    using wf_nodes [OF wf] by (simp_all add: g_def new_component_def)
  obtain f c cnt w1 where 1: "opt_fold component_node (graph_nodes g) (next_comp w, of_nat 0, snd (new_component w)) = Some (c, of_nat cnt, w1)"
    "comps_inv w f c cnt w1" "\<forall>n\<in>set (graph_nodes g). f n \<noteq> None"
    using component_nodes_inv [OF wf _ comps_inv_start [OF fresh unused], of "graph_nodes g"] nds(1) by (auto simp: g_def)
  define w' where "w' = w1\<lparr>comp_heap := (comp_heap w1)(c := None)\<rparr>"
  have run: "write_components w = Some (of_nat cnt, w')"
    using 1(1) nds(2) by (simp add: write_components_def w'_def new_component_def)
  have M: "{v \<in> verts g. f v \<noteq> None} = dom (node_heap g)" using 1(3) nds(1) wf by (auto simp: verts_def g_def)
  have i: "tr_g w1 = relabel f g"
    "\<And>v u. live g v \<Longrightarrow> live g u \<Longrightarrow> f v = f u \<longleftrightarrow> u \<in> connected g v"
    "\<And>v c'. live g v \<Longrightarrow> f v = Some c' \<Longrightarrow> c' < c \<and> comps w1 c' = Some (card (connected g v)) \<and>
          comp_heap w1 c' = Some \<lparr>minEdgeLvl = least_level g (connected g v)\<rparr>"
    "card (connected g ` dom (node_heap g)) = cnt" "next_comp w1 = c + 1"
    using 1(2) unfolding comps_inv_def Let_def g_def [symmetric] M by blast+
  have "\<exists>c'. f n = Some c' \<and> comps w' c' = Some (card (connected g n)) \<and>
      comp_heap w' c' = Some \<lparr>minEdgeLvl = least_level g (connected g n)\<rparr>" if "live g n" for n
  proof -
    obtain c' where c': "f n = Some c'" using 1(3) nds(1) \<open>live g n\<close> by auto
    then show ?thesis using i(3) [OF \<open>live g n\<close> c'] by (auto simp: w'_def)
  qed
  moreover have "tr_g w' = relabel f g" "comp_heap w' (next_comp w' - 1) = None"
    using i(1,5) by (simp_all add: w'_def)
  ultimately show ?thesis
    unfolding g_def [symmetric] using run i(2,4) by (intro exI [of _ "of_nat cnt"] exI [of _ w'] exI [of _ f]) simp
qed

text \<open>
  C9: \<open>write_components\<close> returns, and splits the graph into its connected components.  Nothing of the graph changes but
  the components of the nodes; every node gets one; two nodes get the same component exactly when a path leads from one
  to the other; the result is the number of components; each component records the least level of its edges (7 when
  all are higher or there are none) and its counter is the number of its nodes; the spare component is freed.
\<close>

theorem write_components_correct:
  assumes wf: "wf_graph (tr_g w)"
    and fresh: "\<And>n. live (tr_g w) n \<Longrightarrow> np_component (npl (tr_g w) n) = None"
    and unused: "\<And>c. next_comp w \<le> c \<Longrightarrow> comps w c = None"
  shows "\<exists>cnt w' f. write_components w = Some (cnt, w') \<and> tr_g w' = relabel f (tr_g w) \<and>
    (\<forall>n. live (tr_g w) n \<longrightarrow> (\<exists>c. f n = Some c \<and> comps w' c = Some (card (connected (tr_g w) n)) \<and>
       comp_heap w' c = Some \<lparr>minEdgeLvl = least_level (tr_g w) (connected (tr_g w) n)\<rparr>)) \<and>
    (\<forall>n m. live (tr_g w) n \<longrightarrow> live (tr_g w) m \<longrightarrow> (f n = f m \<longleftrightarrow> m \<in> connected (tr_g w) n)) \<and>
    cnt = of_nat (card (connected (tr_g w) ` dom (node_heap (tr_g w)))) \<and>
    comp_heap w' (next_comp w' - 1) = None"
  using assms by (rule components_written)

text \<open>Two nodes joined by an edge of level 3, and a node on its own.\<close>

definition lone_nodes :: "nat tr_graph" where
  "lone_nodes = snd (addNd (node_payload_of 2) (snd (addNd (node_payload_of 1) (snd (addNd (node_payload_of 0) dir_graph_init)))))"

definition three_nodes :: "(nat, nat) tr_world" where
  "three_nodes = \<lparr>tr_g = snd (addEdg 0 1 (set_level 3 edge_payload_init) lone_nodes),
     comp_heap = Map.empty, comps = Map.empty, next_comp = 0, groups = Map.empty, group_heap = Map.empty\<rparr>"

lemma three_nodes_eqs:
  "graph_nodes (tr_g three_nodes) = [0, 1, 2]"
  "map (\<lambda>n. np_component (npl (tr_g three_nodes) n)) [0, 1, 2] = [None, None, None]"
  "nbrs (tr_g three_nodes) 0 = [1]"
  by code_simp+

lemma three_nodes_wf: "wf_graph (tr_g three_nodes)" "live (tr_g three_nodes) n \<longleftrightarrow> n \<in> {0, 1, 2}"
proof -
  have "wf_graph lone_nodes" unfolding lone_nodes_def by (intro wf_addNd wf_graph_init)
  moreover have "live lone_nodes 0" "live lone_nodes 1"
    by (simp_all add: lone_nodes_def addNd_def dir_graph_init_def)
  ultimately show wf: "wf_graph (tr_g three_nodes)" unfolding three_nodes_def by (simp add: wf_addEdg)
  show "live (tr_g three_nodes) n \<longleftrightarrow> n \<in> {0, 1, 2}"
    using wf_nodes [OF wf] by (metis empty_set list.simps(15) three_nodes_eqs(1))
qed

theorem write_components_correct_witness:
  "\<exists>cnt w'. write_components three_nodes = Some (cnt, w') \<and>
     np_component (npl (tr_g w') 0) \<noteq> None \<and> np_component (npl (tr_g w') 0) = np_component (npl (tr_g w') 1)"
proof -
  have "1 \<in> connected (tr_g three_nodes) 0"
    unfolding connected_def by (rule reach_step [of 0]) (simp_all add: three_nodes_eqs)
  moreover have "np_component (npl (tr_g three_nodes) n) = None" if "live (tr_g three_nodes) n" for n
    using that three_nodes_eqs(2) by (auto simp: three_nodes_wf(2))
  ultimately show ?thesis
    using write_components_correct [of three_nodes, OF three_nodes_wf(1)]
    by (auto simp: three_nodes_wf(2) three_nodes_def [THEN arg_cong, of comps])
qed

section \<open>Opposite edges\<close>

lemma addEdg_edge:
  assumes "wf_graph g" "live g f" "live g t" "getEdg g f t = None"
  shows "edge_getFrom (snd (addEdg f t p g)) (fst (addEdg f t p g)) = f"
    "edge_getTo (snd (addEdg f t p g)) (fst (addEdg f t p g)) = t"
  using addEdg_eq [OF assms] by (simp_all add: with_edge_def edge_getFrom_def edge_getTo_def edge_at_def)

lemma duplicate_edge_opposite:
  assumes "fr old = to newE" "to old = fr newE"
  shows "\<exists>r'. duplicate_edge fr to old newE r = Some r'"
  using assms by (simp add: duplicate_edge_def duplicate_edge_at_def)

lemma write_odir_edge_step:
  fixes g :: "'p tr_graph"
  assumes wf: "wf_graph g" and e: "edge_heap g e = Some x"
  shows "\<exists>g' r'. write_odir_edge e (g, r) = Some (g', r') \<and> wf_graph g' \<and> node_payloads g' = node_payloads g \<and>
    (\<forall>e' x'. edge_heap g e' = Some x' \<longrightarrow> edge_heap g' e' = Some x') \<and>
    arcs g' = (if arcs g (edge_to x, edge_from x) = None
               then (arcs g)((edge_to x, edge_from x) \<mapsto> revCopy (edge_pl x)) else arcs g)"
proof -
  let ?a = "edge_from x" and ?b = "edge_to x"
  note l = wf_edge(3,2) [OF wf e]
  note none = arcs_None_iff [OF wf l(1), of ?a]
  show ?thesis
  proof (cases "getEdg g ?b ?a")
    case None
    let ?g' = "snd (addEdg ?b ?a (revCopy (edge_pl x)) g)" and ?e' = "fst (addEdg ?b ?a (revCopy (edge_pl x)) g)"
    have old: "edge_heap ?g' e' = Some x'" if "edge_heap g e' = Some x'" for e' x'
      by (rule edge_heap_addEdg [OF wf l that])
    have ends: "edge_getFrom ?g' e = edge_getTo ?g' ?e'" "edge_getTo ?g' e = edge_getFrom ?g' ?e'"
      using addEdg_edge [OF wf l None] old [OF e] by simp_all
    obtain r' where "write_odir_edge e (g, r) = Some (?g', r')"
      using None e duplicate_edge_opposite [of "edge_getFrom ?g'" e "edge_getTo ?g'" ?e', OF ends]
      by (cases "ep_hasRestr (edge_pl x)") (auto simp: write_odir_edge_def Let_def case_prod_unfold)
    then show ?thesis
      using wf_addEdg [OF wf l] arcs_addEdg [OF wf l] old none None by (intro exI [of _ ?g'] exI [of _ r']) simp
  next
    case (Some e')
    then have "write_odir_edge e (g, r) = Some (g, r)" using e by (simp add: write_odir_edge_def)
    then show ?thesis using wf none Some by (intro exI [of _ g] exI [of _ r]) auto
  qed
qed

text \<open>The arcs once the outgoing edges \<open>es\<close> of \<open>n\<close> have been treated.\<close>

definition with_opposites :: "(node_ref \<times> node_ref \<rightharpoonup> 'p edge_payload) \<Rightarrow> node_ref \<Rightarrow> node_ref set \<Rightarrow> node_ref \<times> node_ref \<rightharpoonup> 'p edge_payload" where
  "with_opposites A n T = (\<lambda>(x, y). case A (x, y) of Some p \<Rightarrow> Some p
     | None \<Rightarrow> if y = n \<and> x \<in> T then map_option revCopy (A (n, x)) else None)"

lemma write_odir_edges:
  fixes g :: "'p tr_graph"
  assumes "wf_graph g" "\<forall>e\<in>set es. \<exists>x. edge_heap g e = Some x \<and> edge_from x = n"
  shows "\<exists>g' r'. opt_fold write_odir_edge es (g, r) = Some (g', r') \<and> wf_graph g' \<and> node_payloads g' = node_payloads g \<and>
    arcs g' = with_opposites (arcs g) n (edge_getTo g ` set es)"
  using assms
proof (induction es arbitrary: g r)
  case Nil
  then show ?case by (auto simp: with_opposites_def fun_eq_iff split: option.split)
next
  case (Cons e es)
  obtain x where x: "edge_heap g e = Some x" "edge_from x = n" using Cons.prems(2) by auto
  obtain g1 r1 where 1: "write_odir_edge e (g, r) = Some (g1, r1)" "wf_graph g1" "node_payloads g1 = node_payloads g"
    "\<forall>e' x'. edge_heap g e' = Some x' \<longrightarrow> edge_heap g1 e' = Some x'"
    "arcs g1 = (if arcs g (edge_to x, n) = None then (arcs g)((edge_to x, n) \<mapsto> revCopy (edge_pl x)) else arcs g)"
    using write_odir_edge_step [OF Cons.prems(1) x(1), of r] unfolding x(2) by blast
  have rest: "\<forall>e\<in>set es. \<exists>x. edge_heap g1 e = Some x \<and> edge_from x = n" using Cons.prems(2) 1(4) by (meson list.set_intros(2))
  obtain g2 r2 where 2: "opt_fold write_odir_edge es (g1, r1) = Some (g2, r2)" "wf_graph g2" "node_payloads g2 = node_payloads g1"
    "arcs g2 = with_opposites (arcs g1) n (edge_getTo g1 ` set es)"
    using Cons.IH [OF 1(2) rest] by blast
  have same: "edge_getTo g1 e' = edge_getTo g e'" if "e' \<in> set es" for e'
    using Cons.prems(2) 1(4) that by (metis edge_ends(2) list.set_intros(2))
  have p: "arcs g (n, edge_to x) = Some (edge_pl x)" using arcs_Some_iff [OF Cons.prems(1)] x by blast
  have "with_opposites (arcs g1) n T = with_opposites (arcs g) n (insert (edge_to x) T)" for T
  proof (cases "arcs g (edge_to x, n)")
    case None
    then have ne: "edge_to x \<noteq> n" using p by auto
    show ?thesis unfolding 1(5) using None p ne by (auto simp: with_opposites_def fun_eq_iff split: option.split)
  next
    case (Some q)
    then show ?thesis unfolding 1(5) using p by (auto simp: with_opposites_def fun_eq_iff split: option.split)
  qed
  moreover have "edge_getTo g1 ` set es = edge_getTo g ` set es" using same by (intro image_cong refl)
  moreover have "edge_getTo g e = edge_to x" using x(1) by simp
  ultimately have "arcs g2 = with_opposites (arcs g) n (edge_getTo g ` set (e # es))" using 2(4) by simp
  then show ?case using 1 2 by (intro exI [of _ g2] exI [of _ r2]) simp
qed

lemma with_opposites_all:
  assumes "wf_graph g" "live g n"
  shows "with_opposites (arcs g) n (edge_getTo g ` set (node_getAdjListOut g n)) = with_opposites (arcs g) n UNIV"
proof -
  have "x \<in> edge_getTo g ` set (node_getAdjListOut g n)" if "arcs g (n, x) = Some p" for x p
    using that wf_out_edges(1) [OF assms] unfolding arcs_Some_iff [OF assms(1)] image_iff
    by (metis edge_ends(2))
  then show ?thesis by (fastforce simp: with_opposites_def fun_eq_iff split: option.split)
qed

lemma write_odir_nodes:
  fixes g :: "'p tr_graph"
  assumes "wf_graph g" "\<forall>n\<in>set ns. live g n"
    "arcs g = (\<lambda>(x, y). case A (x, y) of Some p \<Rightarrow> Some p | None \<Rightarrow> if y \<in> D then map_option revCopy (A (y, x)) else None)"
  shows "\<exists>g' r'. opt_fold (\<lambda>n gr. opt_fold write_odir_edge (node_getAdjListOut (fst gr) n) gr) ns (g, r) = Some (g', r') \<and>
    wf_graph g' \<and> node_payloads g' = node_payloads g \<and>
    arcs g' = (\<lambda>(x, y). case A (x, y) of Some p \<Rightarrow> Some p | None \<Rightarrow> if y \<in> D \<union> set ns then map_option revCopy (A (y, x)) else None)"
  using assms
proof (induction ns arbitrary: g r D)
  case (Cons n ns)
  have n: "live g n" using Cons.prems(2) by simp
  have es: "\<forall>e\<in>set (node_getAdjListOut g n). \<exists>x. edge_heap g e = Some x \<and> edge_from x = n"
    using wf_out_edges(1) [OF Cons.prems(1) n] by blast
  obtain g1 r1 where 1: "opt_fold write_odir_edge (node_getAdjListOut g n) (g, r) = Some (g1, r1)" "wf_graph g1"
    "node_payloads g1 = node_payloads g" "arcs g1 = with_opposites (arcs g) n UNIV"
    using write_odir_edges [OF Cons.prems(1) es, of r] with_opposites_all [OF Cons.prems(1) n] by auto
  have live: "\<forall>n\<in>set ns. live g1 n" using Cons.prems(2) 1(3) unfolding live_node_payloads by simp
  have "arcs g1 = (\<lambda>(x, y). case A (x, y) of Some p \<Rightarrow> Some p | None \<Rightarrow> if y \<in> insert n D then map_option revCopy (A (y, x)) else None)"
    unfolding 1(4) Cons.prems(3) by (auto simp: with_opposites_def fun_eq_iff split: option.split)
  note IH = Cons.IH [OF 1(2) live this, of r1]
  have un: "D \<union> set (n # ns) = insert n D \<union> set ns" by auto
  have "opt_fold (\<lambda>n gr. opt_fold write_odir_edge (node_getAdjListOut (fst gr) n) gr) (n # ns) (g, r) =
      opt_fold (\<lambda>n gr. opt_fold write_odir_edge (node_getAdjListOut (fst gr) n) gr) ns (g1, r1)"
    using 1(1) by simp
  then show ?case unfolding un 1(3) [symmetric] using IH by (simp only:)
qed auto

text \<open>The graph after the run.\<close>

lemma odir_written:
  fixes g :: "'p tr_graph"
  assumes "wf_graph g"
  shows "\<exists>g' r'. writeODirEdgs (g, r) = Some (g', r') \<and> wf_graph g' \<and> node_payloads g' = node_payloads g \<and>
    (\<forall>a b. arcs g' (a, b) = (case arcs g (a, b) of Some p \<Rightarrow> Some p | None \<Rightarrow> map_option revCopy (arcs g (b, a)))) \<and>
    (\<forall>a b. arcs g' (a, b) \<noteq> None \<longleftrightarrow> arcs g' (b, a) \<noteq> None)"
proof -
  have nds: "set (graph_nodes g) = dom (node_heap g)" using wf_nodes [OF assms] by simp
  have start: "arcs g = (\<lambda>(x, y). case arcs g (x, y) of Some p \<Rightarrow> Some p | None \<Rightarrow> if y \<in> {} then map_option revCopy (arcs g (y, x)) else None)"
    by (auto simp: fun_eq_iff split: option.split)
  obtain g' r' where 1: "writeODirEdgs (g, r) = Some (g', r')" "wf_graph g'" "node_payloads g' = node_payloads g"
    "arcs g' = (\<lambda>(x, y). case arcs g (x, y) of Some p \<Rightarrow> Some p
       | None \<Rightarrow> if y \<in> {} \<union> set (graph_nodes g) then map_option revCopy (arcs g (y, x)) else None)"
    using write_odir_nodes [OF assms _ start, of "graph_nodes g" r] nds by (auto simp: writeODirEdgs_def)
  have "arcs g (y, x) = None" if "\<not> live g y" for x y using that by (auto simp: arcs_def)
  then have "arcs g' (a, b) = (case arcs g (a, b) of Some p \<Rightarrow> Some p | None \<Rightarrow> map_option revCopy (arcs g (b, a)))" for a b
    unfolding 1(4) using nds by (auto split: option.split)
  with 1(1-3) show ?thesis by (auto split: option.split)
qed

text \<open>
  C12: \<open>writeODirEdgs\<close> never fails, leaves the nodes alone and makes the graph symmetric: every arc stays as it is, and an
  arc whose opposite is missing gets it, with the reversed copy of its payload; no other arc appears.  The assertion
  that the restrictor makes on the new edge holds.
\<close>

theorem writeODirEdgs_symmetric:
  fixes g :: "'p tr_graph"
  assumes "wf_graph g"
  shows "\<exists>g' r'. writeODirEdgs (g, r) = Some (g', r') \<and> wf_graph g' \<and> node_payloads g' = node_payloads g \<and>
    (\<forall>a b. arcs g' (a, b) = (case arcs g (a, b) of Some p \<Rightarrow> Some p | None \<Rightarrow> map_option revCopy (arcs g (b, a)))) \<and>
    (\<forall>a b. arcs g' (a, b) \<noteq> None \<longleftrightarrow> arcs g' (b, a) \<noteq> None)"
  using assms by (rule odir_written)

theorem writeODirEdgs_symmetric_witness:
  "\<exists>g' r'. writeODirEdgs (tr_g three_nodes, restrictor_init) = Some (g', r') \<and> wf_graph g'"
  using writeODirEdgs_symmetric [OF three_nodes_wf(1), of restrictor_init] by blast

section \<open>Dead ends\<close>

lemma pick_two_app: "pick_two e ys (pick_two e xs s) = pick_two e (xs @ ys) s"
  by (simp add: pick_two_def)

lemma pick_two_eq:
  "pick_two e xs (Some a, Some b) = (Some a, Some b)"
  "pick_two e xs (Some a, None) = (Some a, case filter (\<lambda>f. f \<noteq> e) xs of [] \<Rightarrow> None | b # _ \<Rightarrow> Some b)"
  "pick_two e xs (None, None) = (case filter (\<lambda>f. f \<noteq> e) xs of [] \<Rightarrow> (None, None)
     | a # bs \<Rightarrow> (Some a, case bs of [] \<Rightarrow> None | b # _ \<Rightarrow> Some b))"
proof -
  show both: "pick_two e xs (Some a, Some b) = (Some a, Some b)" for a b xs
    by (induction xs) (auto simp: pick_two_def)
  show one: "pick_two e xs (Some a, None) = (Some a, case filter (\<lambda>f. f \<noteq> e) xs of [] \<Rightarrow> None | b # _ \<Rightarrow> Some b)" for a xs
  proof (induction xs)
    case (Cons x xs)
    then show ?case using both [of xs a x] by (auto simp: pick_two_def)
  qed (simp add: pick_two_def)
  show "pick_two e xs (None, None) = (case filter (\<lambda>f. f \<noteq> e) xs of [] \<Rightarrow> (None, None)
     | a # bs \<Rightarrow> (Some a, case bs of [] \<Rightarrow> None | b # _ \<Rightarrow> Some b))"
  proof (induction xs)
    case (Cons x xs)
    then show ?case using one [of xs x] by (auto simp: pick_two_def)
  qed (simp add: pick_two_def)
qed

lemma length_two: "length xs = 2 \<Longrightarrow> \<exists>a b. xs = [a, b]"
  by (auto simp: length_Suc_conv numeral_2_eq_2)

lemma length_filter_neq:
  "distinct xs \<Longrightarrow> length (filter (\<lambda>f. f \<noteq> e) xs) + (if e \<in> set xs then 1 else 0) = length xs"
  by (induction xs) auto

text \<open>Every edge has a geometry with two points at least.\<close>

definition hops_exist :: "'p tr_graph \<Rightarrow> bool" where
  "hops_exist g \<longleftrightarrow> (\<forall>e x. edge_heap g e = Some x \<longrightarrow> 2 \<le> length (ep_geom (edge_pl x)))"

lemma hop_at_exists:
  assumes "hops_exist g" "edge_heap g f = Some x"
  shows "hop_at g f n \<noteq> None"
  using assms by (simp add: hops_exist_def hop_at_def frontHop_def backHop_def geom_before_last_def geom_second_def)

lemma keep_full_turn_defined:
  assumes wf: "wf_graph g" and n: "live g n" and geo: "hops_exist g"
  shows "keep_full_turn G ang g n \<noteq> None"
proof (cases "degree g n = 1")
  case True
  define e where "e = (if getOutDeg g n \<noteq> 0 then hd (node_getAdjListOut g n) else hd (node_getAdjListIn g n))"
  define other where "other = Dir_Graph.getOtherNd g e n"
  have deg: "length (node_getAdjListIn g n) + length (node_getAdjListOut g n) = 1"
    using True by (simp add: getInDeg_def getOutDeg_def node_getAdjListIn_def node_getAdjListOut_def)
  have e_in: "e \<in> set (node_getAdjListOut g n) \<and> node_getAdjListIn g n = [] \<or> e \<in> set (node_getAdjListIn g n) \<and> node_getAdjListOut g n = []"
    using deg unfolding e_def getOutDeg_def node_getAdjListOut_def [symmetric]
    by (cases "node_getAdjListOut g n"; cases "node_getAdjListIn g n") auto
  have kft: "keep_full_turn G ang g n = (if degree g other = 3
     then (case pick_two e (node_getAdjListOut g other) (pick_two e (node_getAdjListIn g other) (None, None)) of
             (Some a, Some b) \<Rightarrow>
               (case (hop_at g a other, hop_at g b other) of
                  (Some ap, Some bp) \<Rightarrow> Some (angSmaller G ap (np_geom (npl g other)) bp ang)
                | _ \<Rightarrow> None)
           | _ \<Rightarrow> None)
     else Some False)"
    unfolding keep_full_turn_def Let_def e_def [symmetric] other_def [symmetric] using True by simp
  note out = wf_out_edges(1,2) [OF wf n]
  obtain x where x: "edge_heap g e = Some x" "edge_from x = n \<and> edge_to x \<noteq> n \<or> edge_to x = n \<and> edge_from x \<noteq> n"
  proof -
    obtain x where x: "edge_heap g e = Some x" "edge_from x = n \<or> edge_to x = n"
      using e_in out [of e] by blast
    moreover have "\<not> (edge_from x = n \<and> edge_to x = n)"
      using e_in out [of e] x(1) by auto
    ultimately show ?thesis using that by blast
  qed
  have other: "live g other" "other = edge_to x \<and> edge_from x = n \<or> other = edge_from x \<and> edge_to x = n" "other \<noteq> n"
    using x wf_edge(2,3) [OF wf x(1)] by (auto simp: other_def Dir_Graph.getOtherNd_def)
  note oth = wf_out_edges [OF wf other(1)]
  show ?thesis
  proof (cases "degree g other = 3")
    case deg3: True
    let ?L = "node_getAdjListIn g other @ node_getAdjListOut g other"
    have "length (filter (\<lambda>f. f \<noteq> e) ?L) = 2"
    proof -
      have "(e \<in> set (node_getAdjListIn g other)) \<noteq> (e \<in> set (node_getAdjListOut g other))"
        using oth(1,2) [of e] x other by auto
      then have "length (filter (\<lambda>f. f \<noteq> e) ?L) + 1 = length ?L"
        using length_filter_neq [OF oth(4), of e] length_filter_neq [OF oth(3), of e] by (auto split: if_splits)
      then show ?thesis using deg3 by (simp add: getInDeg_def getOutDeg_def node_getAdjListIn_def node_getAdjListOut_def)
    qed
    from length_two [OF this] obtain a b where ab: "filter (\<lambda>f. f \<noteq> e) ?L = [a, b]" by blast
    then have pick: "pick_two e (node_getAdjListOut g other) (pick_two e (node_getAdjListIn g other) (None, None)) = (Some a, Some b)"
      unfolding pick_two_app unfolding pick_two_eq(3) by simp
    have "a \<in> set ?L" "b \<in> set ?L" using ab by (metis filter_is_subset list.set_intros subsetD)+
    then obtain xa xb where "edge_heap g a = Some xa" "edge_heap g b = Some xb" using oth(1,2) by auto
    then have "hop_at g a other \<noteq> None" "hop_at g b other \<noteq> None" using hop_at_exists [OF geo] by blast+
    then show ?thesis unfolding kft using pick deg3 by auto
  qed (simp add: kft)
qed (simp add: keep_full_turn_def)

text \<open>
  What the deletion of nodes leaves: the payloads of the remaining nodes and the arcs between them.
\<close>

definition shrunk :: "'p tr_graph \<Rightarrow> 'p tr_graph \<Rightarrow> bool" where
  "shrunk g0 g \<longleftrightarrow> wf_graph g \<and> dom (node_heap g) \<subseteq> dom (node_heap g0) \<and>
     node_payloads g = node_payloads g0 |` dom (node_heap g) \<and>
     (\<forall>a b. arcs g (a, b) = (if live g a \<and> live g b then arcs g0 (a, b) else None)) \<and>
     (\<forall>n pl. node_payloads g0 n = Some pl \<longrightarrow> get_si pl \<noteq> None \<longrightarrow> live g n)"

lemma node_payloads_npl: "live g n \<Longrightarrow> node_payloads g n = Some (npl g n)"
  by (auto simp: node_payloads_def npl_def node_at_def)

lemma live_delNd:
  assumes "wf_graph g" "live g n"
  shows "live (delNd n g) m \<longleftrightarrow> live g m \<and> m \<noteq> n"
  unfolding live_node_payloads arcs_delNd(2) [OF assms] by auto

lemma shrunk_refl:
  assumes "wf_graph g"
  shows "shrunk g g"
proof -
  have "arcs g (a, b) = None" if "\<not> live g a \<or> \<not> live g b" for a b
    using that wf_edge(2,3) [OF assms] arcs_Some_iff [OF assms, of a b] by (metis not_None_eq)
  then show ?thesis
    using assms by (auto simp: shrunk_def node_payloads_def restrict_map_def fun_eq_iff)
qed

lemma shrunk_delNd:
  assumes s: "shrunk g0 g" and n: "live g n" and si: "get_si (npl g n) = None"
  shows "shrunk g0 (delNd n g)"
proof -
  have wf: "wf_graph g" using s by (simp add: shrunk_def)
  note live = live_delNd [OF wf n]
  have "node_payloads g = node_payloads g0 |` dom (node_heap g)" using s by (simp add: shrunk_def)
  moreover have dom: "dom (node_heap (delNd n g)) = dom (node_heap g) - {n}" using live by blast
  ultimately have "node_payloads (delNd n g) = node_payloads g0 |` dom (node_heap (delNd n g))"
    unfolding arcs_delNd(2) [OF wf n] by (simp add: restrict_map_def fun_eq_iff)
  moreover have "arcs (delNd n g) (a, b) = (if live (delNd n g) a \<and> live (delNd n g) b then arcs g0 (a, b) else None)" for a b
    using s live arcs_delNd(1) [OF wf n] by (auto simp: shrunk_def)
  moreover have "live (delNd n g) m" if m: "node_payloads g0 m = Some pl" "get_si pl \<noteq> None" for m pl
  proof -
    have lm: "live g m" using s m by (auto simp: shrunk_def)
    then have "node_payloads g m = node_payloads g0 m" using s by (simp add: shrunk_def)
    then have "npl g m = pl" using node_payloads_npl [OF lm] m(1) by simp
    then show ?thesis using si m(2) lm live by auto
  qed
  moreover have "dom (node_heap (delNd n g)) \<subseteq> dom (node_heap g0)"
    using s unfolding dom shrunk_def by (meson Diff_subset subset_trans)
  ultimately show ?thesis
    unfolding shrunk_def using wf_delNd [OF wf n] by blast
qed

lemma hops_exist_arcs: "wf_graph g \<Longrightarrow> hops_exist g \<longleftrightarrow> (\<forall>a b pl. arcs g (a, b) = Some pl \<longrightarrow> 2 \<le> length (ep_geom pl))"
  unfolding hops_exist_def by (simp add: arcs_Some_iff) blast

lemma shrunk_hops:
  assumes "shrunk g0 g" "wf_graph g0" "hops_exist g0"
  shows "hops_exist g"
  using assms by (auto simp: shrunk_def hops_exist_arcs split: if_splits)

lemma tr_delNd_graph [simp]: "tr_g (tr_delNd n w) = delNd n (tr_g w)"
  by (auto simp: tr_delNd_def destroy_node_payload_def unRefGroup_def Let_def split: option.split prod.split)

lemma orphan_edge_step_ok:
  assumes "shrunk g0 (tr_g w)" "wf_graph g0" "hops_exist g0" "live (tr_g w) n"
  shows "\<exists>w'. orphan_edge_step G ang n w = Some w' \<and> shrunk g0 (tr_g w') \<and>
    (\<forall>m. m \<noteq> n \<longrightarrow> live (tr_g w) m \<longrightarrow> live (tr_g w') m)"
proof -
  have wf: "wf_graph (tr_g w)" using assms(1) by (simp add: shrunk_def)
  note kt = keep_full_turn_defined [OF wf assms(4) shrunk_hops [OF assms(1-3)], of G ang]
  show ?thesis
    using kt assms(1,4) shrunk_delNd [OF assms(1,4)] live_delNd [OF wf assms(4)]
    by (auto simp: orphan_edge_step_def)
qed

lemma orphan_edge_steps_ok:
  assumes "wf_graph g0" "hops_exist g0"
  shows "\<lbrakk>shrunk g0 (tr_g w); distinct ns; \<forall>n\<in>set ns. live (tr_g w) n\<rbrakk> \<Longrightarrow>
    \<exists>w'. opt_fold (orphan_edge_step G ang) ns w = Some w' \<and> shrunk g0 (tr_g w')"
proof (induction ns arbitrary: w)
  case (Cons n ns)
  obtain w1 where 1: "orphan_edge_step G ang n w = Some w1" "shrunk g0 (tr_g w1)"
    "\<forall>m. m \<noteq> n \<longrightarrow> live (tr_g w) m \<longrightarrow> live (tr_g w1) m"
    using orphan_edge_step_ok [OF Cons.prems(1) assms, of n G ang] Cons.prems(3) by auto
  have "\<forall>m\<in>set ns. live (tr_g w1) m" using 1(3) Cons.prems(2,3) by (metis distinct.simps(2) list.set_intros(2))
  then show ?case using Cons.IH [OF 1(2)] Cons.prems(2) 1(1) by auto
qed auto

lemma orphan_edge_round_ok:
  assumes "wf_graph g0" "hops_exist g0" "shrunk g0 (tr_g w)"
  shows "\<exists>w'. orphan_edge_round G ang w = Some w' \<and> shrunk g0 (tr_g w')"
proof -
  have wf: "wf_graph (tr_g w)" using assms(3) by (simp add: shrunk_def)
  have "distinct (graph_nodes (tr_g w))" using wf_nodes [OF wf] strict_sorted_iff by blast
  then show ?thesis
    unfolding orphan_edge_round_def using orphan_edge_steps_ok [OF assms] wf_nodes [OF wf] by auto
qed

text \<open>
  C13: when every edge has its geometry, the three rounds of \<open>delete_orphan_edges\<close> never follow a null edge or a missing
  hop, whatever the geometry says about the angles.  They only delete nodes: the remaining nodes and the arcs between
  them are as before, the graph stays well formed, and no station is deleted.
\<close>

theorem delete_orphan_edges_safe:
  assumes "wf_graph (tr_g w)" "hops_exist (tr_g w)"
  shows "\<exists>w'. delete_orphan_edges G ang w = Some w' \<and> shrunk (tr_g w) (tr_g w')"
proof -
  have "\<exists>w'. opt_fold (\<lambda>c. orphan_edge_round G ang) cs w1 = Some w' \<and> shrunk (tr_g w) (tr_g w')"
    if "shrunk (tr_g w) (tr_g w1)" for cs :: "nat list" and w1
    using that
  proof (induction cs arbitrary: w1)
    case (Cons c cs)
    then show ?case using orphan_edge_round_ok [OF assms Cons.prems, of G ang] by auto
  qed auto
  then show ?thesis unfolding delete_orphan_edges_def using shrunk_refl [OF assms(1)] by blast
qed

text \<open>A dead end: a way without a station leads from node 0 to node 1.\<close>

definition dead_end :: "(nat, nat) tr_world" where
  "dead_end = three_nodes\<lparr>tr_g := snd (addEdg 0 1 (add_point 1 (add_point 0 edge_payload_init)) lone_nodes)\<rparr>"

definition flat :: "nat geo_ops" where
  "flat = \<lparr>webMercMeterDist = \<lambda>a b. Finite 0, innerProd = \<lambda>m f t. Finite 0, geo_simplify = \<lambda>l. l,
     to_float = \<lambda>d. d, double_add = \<lambda>a b. a\<rparr>"

theorem delete_orphan_edges_safe_witness:
  "\<exists>w'. delete_orphan_edges flat (Finite 45) dead_end = Some w' \<and> wf_graph (tr_g w')"
proof -
  have l: "wf_graph lone_nodes" "live lone_nodes 0" "live lone_nodes 1" "edge_heap lone_nodes = Map.empty"
    by (simp_all add: lone_nodes_def wf_addNd wf_graph_init) (simp_all add: addNd_def dir_graph_init_def)
  have none: "getEdg lone_nodes 0 1 = None" using getEdg_None_iff [OF l(1,2), of 1] l(4) by simp
  have "wf_graph (tr_g dead_end)" using wf_addEdg [OF l(1-3)] by (simp add: dead_end_def)
  moreover have "hops_exist (tr_g dead_end)"
    using addEdg_eq [OF l(1-3) none] l(4) by (auto simp: dead_end_def hops_exist_def with_edge_def add_point_def split: if_splits)
  ultimately show ?thesis using delete_orphan_edges_safe [of dead_end flat "Finite 45"] by (auto simp: shrunk_def)
qed

end
