(* ===== verification/Contraction.thy ===== *)
theory Contraction
  imports Tr_Graph
begin

text \<open>
  \<^verbatim>\<open>graph::collapse_edges\<close> of \<^verbatim>\<open>trgraph/graph.cpp\<close> on the arcs of the graph: a contracted node loses its two edges, and one
  edge whose geometry is the two geometries joined leads past it.
\<close>

section \<open>The graph as a relation\<close>

text \<open>No edge has an edge in the opposite direction; in particular no edge is a loop.\<close>

definition one_directed :: "('n, 'e) dir_graph \<Rightarrow> bool" where
  "one_directed g \<longleftrightarrow> (\<forall>a b. arcs g (a, b) \<noteq> None \<longrightarrow> arcs g (b, a) = None)"

definition adjacent :: "('n, 'e) dir_graph \<Rightarrow> (node_ref \<times> node_ref) set" where
  "adjacent g = {(a, b). arcs g (a, b) \<noteq> None \<or> arcs g (b, a) \<noteq> None}"

lemma adjacent_sym: "(a, b) \<in> adjacent g \<Longrightarrow> (b, a) \<in> adjacent g"
  by (auto simp: adjacent_def)

lemma edge_arc:
  assumes "wf_graph g" "edge_heap g e = Some x"
  shows "arcs g (edge_from x, edge_to x) = Some (edge_pl x)"
  using arcs_Some_iff [OF assms(1)] assms(2) by blast

lemma nbrs_adjacent:
  assumes "wf_graph g" "live g n"
  shows "m \<in> set (nbrs g n) \<longleftrightarrow> (n, m) \<in> adjacent g"
proof -
  have "arcs g (a, b) \<noteq> None \<longleftrightarrow> (\<exists>e x. edge_heap g e = Some x \<and> edge_from x = a \<and> edge_to x = b)" for a b
    using arcs_Some_iff [OF assms(1), of a b] by (metis not_None_eq)
  then show ?thesis unfolding set_nbrs [OF assms] adjacent_def by blast
qed

lemma connected_adjacent:
  assumes "wf_graph g" "live g n"
  shows "m \<in> connected g n \<longleftrightarrow> (n, m) \<in> (adjacent g)\<^sup>*"
proof
  assume "m \<in> connected g n"
  then have "(n, m) \<in> {(a, b). b \<in> set (nbrs g a)}\<^sup>*" by (simp add: connected_def reach_def)
  then have "(n, m) \<in> (adjacent g)\<^sup>* \<and> live g m"
  proof (induction rule: rtrancl_induct)
    case (step y z)
    have "z \<in> verts g" using conn.closed_U [of y g] step assms(1) by (auto simp: verts_def)
    then show ?case using step nbrs_adjacent [OF assms(1), of y z] by (auto simp: verts_def intro: rtrancl_into_rtrancl)
  qed (simp add: assms)
  then show "(n, m) \<in> (adjacent g)\<^sup>*" by simp
next
  assume "(n, m) \<in> (adjacent g)\<^sup>*"
  then have "m \<in> connected g n \<and> live g m"
  proof (induction rule: rtrancl_induct)
    case (step y z)
    have z: "z \<in> set (nbrs g y)" using step nbrs_adjacent [OF assms(1), of y z] by auto
    then have "z \<in> verts g" using conn.closed_U [of y g] step assms(1) by (auto simp: verts_def)
    then show ?case using z step reach_step [of y "nbrs g" n z] by (auto simp: verts_def connected_def)
  qed (simp add: assms connected_def)
  then show "m \<in> connected g n" by simp
qed

text \<open>Leading a path past a node of degree two.\<close>

lemma rtrancl_bypass:
  assumes sym: "\<And>a b. (a, b) \<in> R \<Longrightarrow> (b, a) \<in> R"
    and p: "(p, n) \<in> R" "(n, q) \<in> R" "p \<noteq> n" "q \<noteq> n" "\<And>x. (n, x) \<in> R \<Longrightarrow> x = p \<or> x = q"
    and R': "R' = {(a, b) \<in> R. a \<noteq> n \<and> b \<noteq> n} \<union> {(p, q), (q, p)}"
    and uv: "u \<noteq> n" "v \<noteq> n"
  shows "(u, v) \<in> R'\<^sup>* \<longleftrightarrow> (u, v) \<in> R\<^sup>*"
proof
  have "(p, q) \<in> R\<^sup>*" "(q, p) \<in> R\<^sup>*" using p sym by (meson r_into_rtrancl rtrancl.rtrancl_into_rtrancl)+
  then have "R' \<subseteq> R\<^sup>*" unfolding R' by auto
  then show "(u, v) \<in> R'\<^sup>* \<Longrightarrow> (u, v) \<in> R\<^sup>*" using rtrancl_subset_rtrancl by blast
next
  assume "(u, v) \<in> R\<^sup>*"
  then have "if v = n then (u, p) \<in> R'\<^sup>* \<and> (u, q) \<in> R'\<^sup>* else (u, v) \<in> R'\<^sup>*"
  proof (induction rule: rtrancl_induct)
    case (step y z)
    have pq: "(p, q) \<in> R'" "(q, p) \<in> R'" unfolding R' by auto
    show ?case
    proof (cases "y = n")
      case True
      then have "z = p \<or> z = q" using step.hyps(2) p(5) by simp
      then show ?thesis using step.IH True p(3,4) by auto
    next
      case y: False
      show ?thesis
      proof (cases "z = n")
        case True
        then have "y = p \<or> y = q" using sym step.hyps(2) p(5) by simp
        then show ?thesis using step.IH y True pq by (auto intro: rtrancl_into_rtrancl)
      next
        case False
        then have "(y, z) \<in> R'" using step.hyps(2) y unfolding R' by auto
        then show ?thesis using step.IH y False by (auto intro: rtrancl_into_rtrancl)
      qed
    qed
  qed (simp add: uv)
  then show "(u, v) \<in> R'\<^sup>*" using uv by simp
qed

section \<open>One contraction\<close>

lemma arcs_set_epl:
  assumes "wf_graph g" "edge_heap g e = Some x"
  shows "arcs (set_epl e p g) = (arcs g)((edge_from x, edge_to x) \<mapsto> p)"
proof (rule map_eqI)
  fix ab :: "node_ref \<times> node_ref" and v
  obtain a b where ab: "ab = (a, b)" by fastforce
  have heap: "edge_heap (set_epl e p g) e' = Some y \<longleftrightarrow> e' = e \<and> y = x\<lparr>edge_pl := p\<rparr> \<or> e' \<noteq> e \<and> edge_heap g e' = Some y" for e' y
    using assms(2) by (auto simp: set_epl_def)
  show "arcs (set_epl e p g) ab = Some v \<longleftrightarrow> ((arcs g)((edge_from x, edge_to x) \<mapsto> p)) ab = Some v"
  proof (cases "ab = (edge_from x, edge_to x)")
    case True
    then have "\<not> (\<exists>e' y. e' \<noteq> e \<and> edge_heap g e' = Some y \<and> edge_from y = a \<and> edge_to y = b)"
      using wf_edge_unique [OF assms(1) _ assms(2)] ab by blast
    then have "arcs (set_epl e p g) ab = Some v \<longleftrightarrow> v = p"
      unfolding ab arcs_Some_iff [OF wf_set_epl [OF assms]] heap using True ab
      by (auto intro: exI [of _ e] exI [of _ "x\<lparr>edge_pl := p\<rparr>"])
    then show ?thesis using True by auto
  next
    case False
    then have "edge_heap (set_epl e p g) e' = Some y \<and> edge_from y = a \<and> edge_to y = b \<and> edge_pl y = v \<longleftrightarrow>
        edge_heap g e' = Some y \<and> edge_from y = a \<and> edge_to y = b \<and> edge_pl y = v" for e' y
      unfolding heap using assms(2) ab by auto
    then have "arcs (set_epl e p g) ab = Some v \<longleftrightarrow> arcs g ab = Some v"
      unfolding ab arcs_Some_iff [OF wf_set_epl [OF assms]] arcs_Some_iff [OF assms(1)] by simp
    then show ?thesis using False by simp
  qed
qed

lemma node_heap_set_epl [simp]: "node_heap (set_epl e p g) = node_heap g"
  by (simp add: set_epl_def)

lemma node_payloads_set_epl [simp]: "node_payloads (set_epl e p g) = node_payloads g"
  by (simp add: node_payloads_def fun_eq_iff)

text \<open>The end of an edge that is not \<open>n\<close>.\<close>

definition far :: "node_ref \<Rightarrow> 'e gedge \<Rightarrow> node_ref" where
  "far n x = (if edge_to x = n then edge_from x else edge_to x)"

definition touches :: "node_ref \<Rightarrow> 'e gedge \<Rightarrow> bool" where
  "touches n x \<longleftrightarrow> edge_from x = n \<or> edge_to x = n"

lemma getOtherNd_far: "edge_heap g e = Some x \<Longrightarrow> Dir_Graph.getOtherNd g e n = far n x"
  by (simp add: Dir_Graph.getOtherNd_def far_def)

lemma degree_lists: "degree g n = length (node_getAdjListIn g n) + length (node_getAdjListOut g n)"
  by (simp add: getInDeg_def getOutDeg_def node_getAdjListIn_def node_getAdjListOut_def)

lemma collapse_pair_spec:
  assumes wf: "wf_graph g" and n: "live g n" and deg: "degree g n = 2" and od: "one_directed g"
  obtains ea eb xa xb where "collapse_pair g n = (ea, eb)" "edge_heap g ea = Some xa" "edge_heap g eb = Some xb"
    "ea \<noteq> eb" "touches n xa" "touches n xb" "far n xa \<noteq> far n xb" "far n xa \<noteq> n" "far n xb \<noteq> n"
    "\<And>e x. \<lbrakk>edge_heap g e = Some x; touches n x\<rbrakk> \<Longrightarrow> e = ea \<or> e = eb"
proof -
  note out = wf_out_edges [OF wf n]
  have loop: "edge_from x \<noteq> edge_to x" if "edge_heap g e = Some x" for e x
    using edge_arc [OF wf that] od unfolding one_directed_def by (metis option.distinct(1))
  have len: "length (node_getAdjListIn g n) + length (node_getAdjListOut g n) = 2" using deg by (simp add: degree_lists)
  obtain ea eb where pair: "collapse_pair g n = (ea, eb)" by fastforce
  have "ea \<noteq> eb \<and> set (node_getAdjListOut g n) \<union> set (node_getAdjListIn g n) = {ea, eb}"
  proof (cases "length (node_getAdjListOut g n) = 2")
    case True
    then obtain a b where ab: "node_getAdjListOut g n = [a, b]" using length_two by blast
    then show ?thesis using pair out(3) len
      by (auto simp: collapse_pair_def getOutDeg_def node_getAdjListOut_def [symmetric])
  next
    case o: False
    show ?thesis
    proof (cases "length (node_getAdjListIn g n) = 2")
      case True
      then obtain a b where ab: "node_getAdjListIn g n = [a, b]" using length_two by blast
      then show ?thesis using pair out(4) len
        by (auto simp: collapse_pair_def getOutDeg_def getInDeg_def node_getAdjListOut_def [symmetric] node_getAdjListIn_def [symmetric])
    next
      case False
      then have "length (node_getAdjListIn g n) = 1" "length (node_getAdjListOut g n) = 1" using len o by linarith+
      then obtain a b where ab: "node_getAdjListOut g n = [a]" "node_getAdjListIn g n = [b]"
        by (auto simp: length_Suc_conv)
      moreover have "a \<noteq> b" using out(1) [of a] out(2) [of b] ab loop by (metis list.set_intros(1) option.inject)
      ultimately show ?thesis using pair
        by (auto simp: collapse_pair_def getOutDeg_def getInDeg_def node_getAdjListOut_def [symmetric] node_getAdjListIn_def [symmetric])
    qed
  qed
  then have ne: "ea \<noteq> eb" and inc: "(e \<in> set (node_getAdjListOut g n) \<or> e \<in> set (node_getAdjListIn g n)) \<longleftrightarrow> e = ea \<or> e = eb" for e
    by auto
  have all: "(\<exists>x. edge_heap g e = Some x \<and> touches n x) \<longleftrightarrow> e = ea \<or> e = eb" for e
    unfolding inc [symmetric] out(1,2) touches_def by blast
  obtain xa xb where x: "edge_heap g ea = Some xa" "touches n xa" "edge_heap g eb = Some xb" "touches n xb"
    using all by blast
  have fa: "far n xa \<noteq> n" "far n xb \<noteq> n" using loop [OF x(1)] loop [OF x(3)] x(2,4) by (auto simp: far_def touches_def)
  have "far n xa \<noteq> far n xb"
  proof
    assume eq: "far n xa = far n xb"
    have "\<not> (edge_from xa = edge_from xb \<and> edge_to xa = edge_to xb)" using wf_edge_unique [OF wf x(1,3)] ne by blast
    then have "edge_from xa = edge_to xb \<and> edge_to xa = edge_from xb"
      using eq x(2,4) by (auto simp: far_def touches_def split: if_splits)
    then show False using edge_arc [OF wf x(1)] edge_arc [OF wf x(3)] od by (auto simp: one_directed_def)
  qed
  then show ?thesis using that [OF pair x(1,3) ne x(2,4) _ fa] all by blast
qed

text \<open>The geometry of an edge at \<open>n\<close>, led towards \<open>n\<close>, and the payload that joins two edges at \<open>n\<close>.\<close>

definition toward :: "node_ref \<Rightarrow> 'p edge_payload gedge \<Rightarrow> 'p list" where
  "toward n x = (if edge_to x = n then ep_geom (edge_pl x) else rev (ep_geom (edge_pl x)))"

definition joined :: "'p geo_ops \<Rightarrow> node_ref \<Rightarrow> 'p edge_payload gedge \<Rightarrow> 'p edge_payload gedge \<Rightarrow> 'p edge_payload" where
  "joined G n x y = set_length (to_float G) (double_add G (ep_length (edge_pl x)) (ep_length (edge_pl y)))
     ((edge_pl x)\<lparr>ep_geom := toward n x @ rev (toward n y)\<rparr>)"

lemma merge_edge_payload_eq:
  assumes "wf_graph g" "edge_heap g a = Some x" "edge_heap g b = Some y" "a \<noteq> b" "touches n x" "touches n y" "far n x \<noteq> far n y"
  shows "merge_edge_payload G a b g = (joined G n x y, set_epl a (joined G n x y) g)"
proof -
  have "\<not> (edge_from x = edge_from y \<and> edge_to x = edge_to y)" using wf_edge_unique [OF assms(1-3)] assms(4) by blast
  then have n: "(if edge_getFrom g a = edge_getFrom g b then edge_getFrom g a
      else if edge_getFrom g a = edge_getTo g b then edge_getFrom g a else edge_getTo g a) = n"
    using assms(2,3,5-7) by (auto simp: touches_def far_def split: if_splits)
  have "(if edge_getTo g a = n \<and> edge_getTo g b = n then ep_geom (epl g a) @ rev (ep_geom (epl g b))
      else if edge_getTo g a = n \<and> edge_getFrom g b = n then ep_geom (epl g a) @ ep_geom (epl g b)
      else if edge_getFrom g a = n \<and> edge_getTo g b = n then rev (ep_geom (epl g a)) @ rev (ep_geom (epl g b))
      else rev (ep_geom (epl g a)) @ ep_geom (epl g b)) = toward n x @ rev (toward n y)"
    using assms(2,3,5,6) by (auto simp: touches_def toward_def)
  then show ?thesis
    unfolding merge_edge_payload_def Let_def n using assms(2,3) by (simp add: joined_def)
qed

text \<open>The edge that replaces \<open>x\<close> and \<open>y\<close>.\<close>

definition bypass :: "'p geo_ops \<Rightarrow> node_ref \<Rightarrow> 'p edge_payload gedge \<Rightarrow> 'p edge_payload gedge \<Rightarrow> 'p edge_payload gedge" where
  "bypass G n x y =
     (if is_oneWay (edge_pl x) \<and> far n x \<noteq> edge_from x
      then \<lparr>edge_from = far n y, edge_to = far n x, edge_pl = joined G n y x\<rparr>
      else \<lparr>edge_from = far n x, edge_to = far n y, edge_pl = joined G n x y\<rparr>)"

lemma delEdg_other:
  assumes "wf_graph g" "edge_heap g a = Some x" "edge_heap g b = Some y" "a \<noteq> b"
  shows "edge_heap (delEdg (edge_from x) (edge_to x) g) b = Some y"
proof -
  have l: "live g (edge_from x)" by (rule wf_edge [OF assms(1,2)])
  then have "getEdg g (edge_from x) (edge_to x) = Some a" using getEdg_Some_iff [OF assms(1) l] assms(2) by blast
  then show ?thesis using delEdg_eq [OF assms(1) _ l] assms(3,4) by (simp add: keep_edges_def)
qed

lemma live_delEdg: "wf_graph g \<Longrightarrow> live g f \<Longrightarrow> node_payloads (delEdg f t g) = node_payloads g"
  by (cases "getEdg g f t")
    (auto simp: delEdg_eq, auto simp: delEdg_def node_payloads_def keep_edges_def fun_eq_iff option.map_comp comp_def)

lemma set_epl_other: "\<lbrakk>edge_heap g e = Some x; e' \<noteq> e\<rbrakk> \<Longrightarrow> edge_heap (set_epl e p g) e' = edge_heap g e'"
  by (simp add: set_epl_def)

text \<open>The common part of both branches: write the payload of \<open>c\<close>, add the new edge and delete the two old ones.\<close>

lemma replace_two_edges:
  fixes pl :: "'p edge_payload" and g :: "'p tr_graph"
  assumes wf: "wf_graph g" and x: "edge_heap g a = Some x" and y: "edge_heap g b = Some y" and ab: "a \<noteq> b"
    and c: "c = a \<or> c = b" and l: "live g s" "live g t" and new: "arcs g (s, t) = None"
  defines "g1 \<equiv> snd (addEdg s t pl (set_epl c pl g))"
  defines "g2 \<equiv> delEdg (edge_getFrom g1 a) (edge_getTo g1 a) g1"
  defines "g3 \<equiv> delEdg (edge_getFrom g2 b) (edge_getTo g2 b) g2"
  shows "wf_graph g3 \<and> node_payloads g3 = node_payloads g \<and>
    arcs g3 = (arcs g)((s, t) \<mapsto> pl, (edge_from x, edge_to x) := None, (edge_from y, edge_to y) := None)"
proof -
  let ?g0 = "set_epl c pl g"
  obtain z where z: "edge_heap g c = Some z" using c x y by blast
  have wf0: "wf_graph ?g0" by (rule wf_set_epl [OF wf z])
  have l0: "live ?g0 s" "live ?g0 t" using l by simp_all
  have h0: "\<exists>x'. edge_heap ?g0 a = Some x' \<and> edge_from x' = edge_from x \<and> edge_to x' = edge_to x"
    "\<exists>y'. edge_heap ?g0 b = Some y' \<and> edge_from y' = edge_from y \<and> edge_to y' = edge_to y"
    using c x y ab by (auto simp: set_epl_def)
  then obtain x' y' where h0: "edge_heap ?g0 a = Some x'" "edge_from x' = edge_from x" "edge_to x' = edge_to x"
    "edge_heap ?g0 b = Some y'" "edge_from y' = edge_from y" "edge_to y' = edge_to y" by blast
  have wf1: "wf_graph g1" unfolding g1_def by (rule wf_addEdg [OF wf0 l0])
  have h1: "edge_heap g1 a = Some x'" "edge_heap g1 b = Some y'"
    unfolding g1_def using edge_heap_addEdg [OF wf0 l0] h0 by blast+
  have g2: "g2 = delEdg (edge_from x) (edge_to x) g1" unfolding g2_def using h1 h0 by simp
  have lx: "live g1 (edge_from x)" using wf_edge(2) [OF wf1 h1(1)] h0(2) by simp
  have wf2: "wf_graph g2" unfolding g2 by (rule wf_delEdg [OF wf1 lx])
  have "edge_heap g2 b = Some y'" unfolding g2 using delEdg_other [OF wf1 h1 ab] h0 by simp
  then have g3: "g3 = delEdg (edge_from y) (edge_to y) g2" "live g2 (edge_from y)"
    unfolding g3_def using h0 wf_edge(2) [OF wf2, of b y'] by simp_all
  have wf3: "wf_graph g3" unfolding g3(1) by (rule wf_delEdg [OF wf2 g3(2)])
  have pl: "node_payloads g3 = node_payloads g"
    unfolding g3(1) live_delEdg [OF wf2 g3(2)] unfolding g2 live_delEdg [OF wf1 lx] unfolding g1_def
    using arcs_addEdg(2) [OF wf0 l0] by simp
  have zc: "(edge_from z, edge_to z) = (edge_from x, edge_to x) \<or> (edge_from z, edge_to z) = (edge_from y, edge_to y)"
    using c x y z by auto
  have "(s, t) \<noteq> (edge_from z, edge_to z)" using new edge_arc [OF wf z] by auto
  then have a1: "arcs g1 = (arcs g)((edge_from z, edge_to z) \<mapsto> pl, (s, t) \<mapsto> pl)"
    unfolding g1_def arcs_addEdg(1) [OF wf0 l0] arcs_set_epl [OF wf z] using new by simp
  have "arcs g3 = (arcs g1)((edge_from x, edge_to x) := None, (edge_from y, edge_to y) := None)"
    unfolding g3(1) arcs_delEdg [OF wf2 g3(2)] unfolding g2 arcs_delEdg [OF wf1 lx] ..
  then have "arcs g3 = (arcs g)((s, t) \<mapsto> pl, (edge_from x, edge_to x) := None, (edge_from y, edge_to y) := None)"
    unfolding a1 using zc by (auto simp: fun_eq_iff)
  then show ?thesis using wf3 pl by blast
qed

text \<open>
  A contraction either leaves the graph alone or replaces the two edges of the node by the edge past it.
\<close>

definition contraction :: "'p geo_ops \<Rightarrow> node_ref \<Rightarrow> 'p tr_graph \<Rightarrow> 'p tr_graph \<Rightarrow> bool" where
  "contraction G n g g' \<longleftrightarrow> (\<exists>a b x y. edge_heap g a = Some x \<and> edge_heap g b = Some y \<and> a \<noteq> b \<and> touches n x \<and> touches n y \<and>
     far n x \<noteq> far n y \<and> far n x \<noteq> n \<and> far n y \<noteq> n \<and>
     (\<forall>e z. edge_heap g e = Some z \<longrightarrow> touches n z \<longrightarrow> e = a \<or> e = b) \<and>
     get_si (npl g n) = None \<and> are_edges_similar g a b \<and>
     arcs g (far n x, far n y) = None \<and> arcs g (far n y, far n x) = None \<and>
     wf_graph g' \<and> node_payloads g' = node_payloads g \<and>
     arcs g' = (arcs g)((edge_from (bypass G n x y), edge_to (bypass G n x y)) \<mapsto> edge_pl (bypass G n x y),
       (edge_from x, edge_to x) := None, (edge_from y, edge_to y) := None))"

lemma collapse_at_cases:
  assumes wf: "wf_graph g" and n: "live g n" and od: "one_directed g"
  shows "collapse_at G n g = g \<or> contraction G n g (collapse_at G n g)"
proof (cases "degree g n = 2 \<and> get_si (npl g n) = None")
  case True
  then obtain a b x y where p: "collapse_pair g n = (a, b)" "edge_heap g a = Some x" "edge_heap g b = Some y"
    "a \<noteq> b" "touches n x" "touches n y" "far n x \<noteq> far n y" "far n x \<noteq> n" "far n y \<noteq> n"
    "\<And>e z. \<lbrakk>edge_heap g e = Some z; touches n z\<rbrakk> \<Longrightarrow> e = a \<or> e = b"
    using collapse_pair_spec [OF wf n _ od] by blast
  have l: "live g (far n x)" "live g (far n y)"
    using wf_edge(2,3) [OF wf p(2)] wf_edge(2,3) [OF wf p(3)] by (auto simp: far_def)
  note far = getOtherNd_far [OF p(2), of n] getOtherNd_far [OF p(3), of n]
  show ?thesis
  proof (cases "getEdg g (far n x) (far n y) = None \<and> getEdg g (far n y) (far n x) = None \<and> are_edges_similar g a b")
    case todo: True
    then have none: "arcs g (far n x, far n y) = None" "arcs g (far n y, far n x) = None"
      using arcs_None_iff [OF wf l(1)] arcs_None_iff [OF wf l(2)] by simp_all
    have ne: "b \<noteq> a" "far n y \<noteq> far n x" using p(4,7) by auto
    note mxy = merge_edge_payload_eq [OF wf p(2-7), of G]
    have case_eq: "contraction G n g (collapse_at G n g)"
      if "wf_graph (collapse_at G n g) \<and> node_payloads (collapse_at G n g) = node_payloads g \<and>
        arcs (collapse_at G n g) = (arcs g)((edge_from (bypass G n x y), edge_to (bypass G n x y)) \<mapsto> edge_pl (bypass G n x y),
          (edge_from x, edge_to x) := None, (edge_from y, edge_to y) := None)"
      unfolding contraction_def using that p(2-10) True todo none by blast
    note myx = merge_edge_payload_eq [OF wf p(3,2) ne(1) p(6,5) ne(2), of G]
    show ?thesis
    proof (cases "is_oneWay (edge_pl x) \<and> far n x \<noteq> edge_from x")
      case ow: True
      have "collapse_at G n g = (let g1 = snd (addEdg (far n y) (far n x) (joined G n y x) (set_epl b (joined G n y x) g));
            g2 = delEdg (edge_getFrom g1 a) (edge_getTo g1 a) g1 in delEdg (edge_getFrom g2 b) (edge_getTo g2 b) g2)"
        using True todo ow p(1-3) by (simp add: collapse_at_def far myx Let_def)
      moreover have "bypass G n x y = \<lparr>edge_from = far n y, edge_to = far n x, edge_pl = joined G n y x\<rparr>"
        using ow by (simp add: bypass_def)
      ultimately have "contraction G n g (collapse_at G n g)"
        using replace_two_edges [OF wf p(2-4), of b "far n y" "far n x" "joined G n y x"] l none by (intro case_eq) (simp add: Let_def)
      then show ?thesis ..
    next
      case ow: False
      have "collapse_at G n g = (let g1 = snd (addEdg (far n x) (far n y) (joined G n x y) (set_epl a (joined G n x y) g));
            g2 = delEdg (edge_getFrom g1 a) (edge_getTo g1 a) g1 in delEdg (edge_getFrom g2 b) (edge_getTo g2 b) g2)"
        using True todo ow p(1-3) by (auto simp: collapse_at_def far mxy Let_def)
      moreover have "bypass G n x y = \<lparr>edge_from = far n x, edge_to = far n y, edge_pl = joined G n x y\<rparr>"
        using ow by (auto simp: bypass_def)
      ultimately have "contraction G n g (collapse_at G n g)"
        using replace_two_edges [OF wf p(2-4), of a "far n x" "far n y" "joined G n x y"] l none by (intro case_eq) (simp add: Let_def)
      then show ?thesis ..
    qed
  next
    case False
    then have "collapse_at G n g = g" using True p(1) by (auto simp: collapse_at_def far Let_def)
    then show ?thesis by blast
  qed
qed (auto simp: collapse_at_def)

section \<open>What contraction preserves\<close>

text \<open>The geometry of every arc leads from the one node to the other.\<close>

definition geometry_fits :: "'p tr_graph \<Rightarrow> bool" where
  "geometry_fits g \<longleftrightarrow> (\<forall>a b pl. arcs g (a, b) = Some pl \<longrightarrow>
     ep_geom pl \<noteq> [] \<and> hd (ep_geom pl) = np_geom (npl g a) \<and> last (ep_geom pl) = np_geom (npl g b))"

lemma npl_payloads: "npl g n = (case node_payloads g n of None \<Rightarrow> npl g n | Some pl \<Rightarrow> pl)"
  by (cases "node_heap g n") (simp_all add: node_payloads_def npl_def)

lemma npl_same:
  assumes "node_payloads g' = node_payloads g" "live g n"
  shows "npl g' n = npl g n"
proof -
  have "node_payloads g n \<noteq> None" using assms(2) by (auto simp: node_payloads_def)
  then show ?thesis using npl_payloads [of g' n] npl_payloads [of g n] assms(1) by (auto split: option.splits)
qed

lemma toward_ends:
  assumes "geometry_fits g" "wf_graph g" "edge_heap g e = Some x" "touches n x"
  shows "toward n x \<noteq> []" "hd (toward n x) = np_geom (npl g (far n x))" "last (toward n x) = np_geom (npl g n)"
proof -
  have "ep_geom (edge_pl x) \<noteq> []" "hd (ep_geom (edge_pl x)) = np_geom (npl g (edge_from x))"
    "last (ep_geom (edge_pl x)) = np_geom (npl g (edge_to x))"
    using assms(1) edge_arc [OF assms(2,3)] by (auto simp: geometry_fits_def)
  then show "toward n x \<noteq> []" "hd (toward n x) = np_geom (npl g (far n x))" "last (toward n x) = np_geom (npl g n)"
    using assms(4) by (auto simp: toward_def far_def touches_def hd_rev last_rev)
qed

lemma joined_ends:
  assumes "geometry_fits g" "wf_graph g" "edge_heap g a = Some x" "edge_heap g b = Some y" "touches n x" "touches n y"
  shows "ep_geom (joined G n x y) \<noteq> []" "hd (ep_geom (joined G n x y)) = np_geom (npl g (far n x))"
    "last (ep_geom (joined G n x y)) = np_geom (npl g (far n y))"
  using toward_ends [OF assms(1,2,3,5)] toward_ends [OF assms(1,2,4,6)]
  by (simp_all add: joined_def set_length_def last_rev)

lemma bypass_ends: "{edge_from (bypass G n x y), edge_to (bypass G n x y)} = {far n x, far n y}"
  by (auto simp: bypass_def)

lemma touching_ends: "touches n x \<Longrightarrow> {edge_from x, edge_to x} = {n, far n x}"
  by (auto simp: touches_def far_def)

lemma contraction_arcs:
  fixes g :: "'p tr_graph"
  assumes "wf_graph g" "contraction G n g g'"
  obtains p q and z :: "'p edge_payload gedge" where "p \<noteq> q" "p \<noteq> n" "q \<noteq> n" "(n, p) \<in> adjacent g" "(n, q) \<in> adjacent g"
    "\<And>m. (n, m) \<in> adjacent g \<Longrightarrow> m = p \<or> m = q" "arcs g (p, q) = None" "arcs g (q, p) = None"
    "edge_from z = p \<and> edge_to z = q \<or> edge_from z = q \<and> edge_to z = p"
    "\<And>a b. arcs g' (a, b) = (if (a, b) = (edge_from z, edge_to z) then Some (edge_pl z)
       else if a = n \<or> b = n then None else arcs g (a, b))"
    "geometry_fits g \<Longrightarrow> ep_geom (edge_pl z) \<noteq> [] \<and> hd (ep_geom (edge_pl z)) = np_geom (npl g (edge_from z)) \<and>
       last (ep_geom (edge_pl z)) = np_geom (npl g (edge_to z))"
proof -
  obtain a b x y where c: "edge_heap g a = Some x" "edge_heap g b = Some y" "touches n x" "touches n y"
    "far n x \<noteq> far n y" "far n x \<noteq> n" "far n y \<noteq> n" "\<And>e z. edge_heap g e = Some z \<Longrightarrow> touches n z \<Longrightarrow> e = a \<or> e = b"
    "arcs g (far n x, far n y) = None" "arcs g (far n y, far n x) = None"
    "arcs g' = (arcs g)((edge_from (bypass G n x y), edge_to (bypass G n x y)) \<mapsto> edge_pl (bypass G n x y),
       (edge_from x, edge_to x) := None, (edge_from y, edge_to y) := None)"
    using assms(2) unfolding contraction_def by blast
  let ?z = "bypass G n x y"
  have nx: "(n, far n x) \<in> adjacent g" "(n, far n y) \<in> adjacent g"
    using edge_arc [OF assms(1) c(1)] edge_arc [OF assms(1) c(2)] c(3,4) by (auto simp: adjacent_def touches_def far_def)
  have at: "\<exists>w. (w = x \<or> w = y) \<and> (s, t) = (edge_from w, edge_to w)" if nz: "arcs g (s, t) \<noteq> None" and st: "s = n \<or> t = n" for s t
  proof -
    obtain p0 where "arcs g (s, t) = Some p0" using nz by blast
    then obtain e w where w: "edge_heap g e = Some w" "edge_from w = s" "edge_to w = t"
      using arcs_Some_iff [OF assms(1), of s t] by blast
    then have "e = a \<or> e = b" using c(8) [OF w(1)] st by (auto simp: touches_def)
    then show ?thesis using w c(1,2) by auto
  qed
  have only: "m = far n x \<or> m = far n y" if "(n, m) \<in> adjacent g" for m
    using that at [of n m] at [of m n] c(3-7) by (auto simp: adjacent_def far_def touches_def split: if_splits)
  have ends: "edge_from ?z = far n x \<and> edge_to ?z = far n y \<or> edge_from ?z = far n y \<and> edge_to ?z = far n x"
    by (auto simp: bypass_def)
  have upd: "arcs g' k = (if k = (edge_from y, edge_to y) \<or> k = (edge_from x, edge_to x) then None
      else if k = (edge_from ?z, edge_to ?z) then Some (edge_pl ?z) else arcs g k)" for k
    unfolding c(11) by (simp only: fun_upd_apply) auto
  have new: "arcs g' (s, t) = (if (s, t) = (edge_from ?z, edge_to ?z) then Some (edge_pl ?z)
       else if s = n \<or> t = n then None else arcs g (s, t))" for s t
  proof (cases "s = n \<or> t = n")
    case True
    then have ne: "(s, t) \<noteq> (edge_from ?z, edge_to ?z)" using ends c(6,7) by auto
    moreover have "arcs g (s, t) = None" if "(s, t) \<noteq> (edge_from x, edge_to x)" "(s, t) \<noteq> (edge_from y, edge_to y)"
      using at [of s t] True that by blast
    ultimately have "arcs g' (s, t) = None" unfolding upd if_not_P [OF ne] by auto
    then show ?thesis unfolding if_not_P [OF ne] if_P [OF True] .
  next
    case False
    then have "\<not> ((s, t) = (edge_from y, edge_to y) \<or> (s, t) = (edge_from x, edge_to x))" using c(3,4) by (auto simp: touches_def)
    then show ?thesis unfolding upd if_not_P [OF False] by (rule if_not_P)
  qed
  have geo: "ep_geom (edge_pl ?z) \<noteq> [] \<and> hd (ep_geom (edge_pl ?z)) = np_geom (npl g (edge_from ?z)) \<and>
       last (ep_geom (edge_pl ?z)) = np_geom (npl g (edge_to ?z))" if "geometry_fits g"
  proof (cases "is_oneWay (edge_pl x) \<and> far n x \<noteq> edge_from x")
    case True
    then have b: "?z = \<lparr>edge_from = far n y, edge_to = far n x, edge_pl = joined G n y x\<rparr>" by (simp add: bypass_def)
    show ?thesis unfolding b gedge.select_convs using joined_ends [OF that assms(1) c(2,1,4,3), of G] by blast
  next
    case False
    then have b: "?z = \<lparr>edge_from = far n x, edge_to = far n y, edge_pl = joined G n x y\<rparr>" by (auto simp: bypass_def)
    show ?thesis unfolding b gedge.select_convs using joined_ends [OF that assms(1) c(1,2,3,4), of G] by blast
  qed
  show ?thesis by (rule that [OF c(5-7) nx only c(9,10) ends new geo])
qed

lemma contraction_adjacent:
  fixes g :: "'p tr_graph"
  assumes "wf_graph g" "contraction G n g g'"
  shows "\<exists>p q. (n, p) \<in> adjacent g \<and> (n, q) \<in> adjacent g \<and> p \<noteq> n \<and> q \<noteq> n \<and> (\<forall>m. (n, m) \<in> adjacent g \<longrightarrow> m = p \<or> m = q) \<and>
    adjacent g' = {(a, b) \<in> adjacent g. a \<noteq> n \<and> b \<noteq> n} \<union> {(p, q), (q, p)}"
proof (rule contraction_arcs [OF assms])
  fix p q and z :: "'p edge_payload gedge"
  assume c: "p \<noteq> q" "p \<noteq> n" "q \<noteq> n" "(n, p) \<in> adjacent g" "(n, q) \<in> adjacent g"
    "\<And>m. (n, m) \<in> adjacent g \<Longrightarrow> m = p \<or> m = q" "arcs g (p, q) = None" "arcs g (q, p) = None"
    "edge_from z = p \<and> edge_to z = q \<or> edge_from z = q \<and> edge_to z = p"
    "\<And>a b. arcs g' (a, b) = (if (a, b) = (edge_from z, edge_to z) then Some (edge_pl z)
       else if a = n \<or> b = n then None else arcs g (a, b))"
  have arc: "arcs g' (a, b) \<noteq> None \<longleftrightarrow> (a, b) = (edge_from z, edge_to z) \<or> a \<noteq> n \<and> b \<noteq> n \<and> arcs g (a, b) \<noteq> None" for a b
    unfolding c(10) by (cases "(a, b) = (edge_from z, edge_to z)"; cases "a = n \<or> b = n") auto
  have "(a, b) \<in> adjacent g' \<longleftrightarrow> (a, b) \<in> adjacent g \<and> a \<noteq> n \<and> b \<noteq> n \<or> (a, b) = (p, q) \<or> (a, b) = (q, p)" for a b
    using c(9) unfolding adjacent_def mem_Collect_eq prod.case arc by (elim disjE conjE) (simp, blast)+
  then have "adjacent g' = {(a, b) \<in> adjacent g. a \<noteq> n \<and> b \<noteq> n} \<union> {(p, q), (q, p)}" by auto
  with c show ?thesis by blast
qed

lemma arc_live:
  assumes "wf_graph g" "arcs g (a, b) \<noteq> None"
  shows "live g a" "live g b"
proof -
  obtain p where "arcs g (a, b) = Some p" using assms(2) by blast
  then obtain e x where "edge_heap g e = Some x" "edge_from x = a" "edge_to x = b"
    using arcs_Some_iff [OF assms(1)] by blast
  then show "live g a" "live g b" using wf_edge(2,3) [OF assms(1), of e x] by simp_all
qed

lemma contraction_keeps:
  fixes g :: "'p tr_graph"
  assumes wf: "wf_graph g" and c: "contraction G n g g'"
  shows "one_directed g \<Longrightarrow> one_directed g'" "geometry_fits g \<Longrightarrow> geometry_fits g'"
proof -
  have pl: "node_payloads g' = node_payloads g" "wf_graph g'" using c by (auto simp: contraction_def)
  have npl: "npl g' m = npl g m" if "arcs g' (m, k) \<noteq> None \<or> arcs g' (k, m) \<noteq> None" for m k
  proof -
    have "live g' m" using that arc_live [OF pl(2)] by blast
    then have "live g m" unfolding live_node_payloads pl(1) .
    then show ?thesis by (rule npl_same [OF pl(1)])
  qed
  show "one_directed g'" if "one_directed g"
  proof (rule contraction_arcs [OF wf c])
    fix p q and z :: "'p edge_payload gedge"
    assume z: "p \<noteq> q" "arcs g (p, q) = None" "arcs g (q, p) = None" "edge_from z = p \<and> edge_to z = q \<or> edge_from z = q \<and> edge_to z = p"
      and new: "\<And>a b. arcs g' (a, b) = (if (a, b) = (edge_from z, edge_to z) then Some (edge_pl z)
       else if a = n \<or> b = n then None else arcs g (a, b))"
    have opp: "(edge_to z, edge_from z) \<noteq> (edge_from z, edge_to z)" "arcs g (edge_to z, edge_from z) = None" using z by auto
    show "one_directed g'"
      unfolding one_directed_def
    proof (intro allI impI)
      fix a b assume ab: "arcs g' (a, b) \<noteq> None"
      show "arcs g' (b, a) = None"
      proof (cases "(a, b) = (edge_from z, edge_to z)")
        case True
        then show ?thesis using opp by (simp add: new)
      next
        case False
        then have "arcs g (a, b) \<noteq> None" using ab new [of a b] by (metis (full_types))
        moreover then have "(b, a) \<noteq> (edge_from z, edge_to z)" using opp(2) by auto
        ultimately show ?thesis using \<open>one_directed g\<close> by (simp add: new one_directed_def)
      qed
    qed
  qed
  show "geometry_fits g'" if geo: "geometry_fits g"
  proof (rule contraction_arcs [OF wf c])
    fix p q and z :: "'p edge_payload gedge"
    assume new: "\<And>a b. arcs g' (a, b) = (if (a, b) = (edge_from z, edge_to z) then Some (edge_pl z)
       else if a = n \<or> b = n then None else arcs g (a, b))"
      and zg: "geometry_fits g \<Longrightarrow> ep_geom (edge_pl z) \<noteq> [] \<and> hd (ep_geom (edge_pl z)) = np_geom (npl g (edge_from z)) \<and>
       last (ep_geom (edge_pl z)) = np_geom (npl g (edge_to z))"
    show "geometry_fits g'"
      unfolding geometry_fits_def
    proof (intro allI impI)
      fix a b pl assume e: "arcs g' (a, b) = Some pl"
      then have "npl g' a = npl g a" "npl g' b = npl g b" using npl by blast+
      then show "ep_geom pl \<noteq> [] \<and> hd (ep_geom pl) = np_geom (npl g' a) \<and> last (ep_geom pl) = np_geom (npl g' b)"
        using e new [of a b] zg [OF geo] geo by (auto simp: geometry_fits_def split: if_splits)
    qed
  qed
qed

text \<open>The nodes of \<open>Z\<close> have been contracted on the way from \<open>g0\<close> to \<open>g\<close>.\<close>

definition collapsed :: "'p tr_graph \<Rightarrow> node_ref set \<Rightarrow> 'p tr_graph \<Rightarrow> bool" where
  "collapsed g0 Z g \<longleftrightarrow> wf_graph g \<and> one_directed g \<and> geometry_fits g \<and> node_payloads g = node_payloads g0 \<and>
     (\<forall>n\<in>Z. live g0 n \<and> get_si (npl g0 n) = None \<and> (\<forall>m. (n, m) \<notin> adjacent g)) \<and>
     (\<forall>u v. u \<notin> Z \<longrightarrow> v \<notin> Z \<longrightarrow> ((u, v) \<in> (adjacent g)\<^sup>* \<longleftrightarrow> (u, v) \<in> (adjacent g0)\<^sup>*))"

lemma contraction_facts:
  assumes "contraction G n g g'"
  shows "get_si (npl g n) = None" "wf_graph g'" "node_payloads g' = node_payloads g"
  using assms unfolding contraction_def by blast+

lemma collapsed_step:
  fixes g :: "'p tr_graph"
  assumes c: "collapsed g0 Z g" and n: "live g0 n"
  shows "\<exists>Z'. collapsed g0 Z' (collapse_at G n g)"
proof -
  have g: "wf_graph g" "one_directed g" "geometry_fits g" "node_payloads g = node_payloads g0"
    "\<And>m. m \<in> Z \<Longrightarrow> live g0 m \<and> get_si (npl g0 m) = None \<and> (\<forall>k. (m, k) \<notin> adjacent g)"
    "\<And>u v. \<lbrakk>u \<notin> Z; v \<notin> Z\<rbrakk> \<Longrightarrow> (u, v) \<in> (adjacent g)\<^sup>* \<longleftrightarrow> (u, v) \<in> (adjacent g0)\<^sup>*"
    using c unfolding collapsed_def by blast+
  have ng: "live g n" using n g(4) unfolding live_node_payloads by simp
  let ?g' = "collapse_at G n g"
  consider "?g' = g" | "contraction G n g ?g'" using collapse_at_cases [OF g(1) ng g(2)] by blast
  then show ?thesis
  proof cases
    case 1
    then show ?thesis using c by auto
  next
    case 2
    obtain p q where pq: "(n, p) \<in> adjacent g" "(n, q) \<in> adjacent g" "p \<noteq> n" "q \<noteq> n" "\<And>m. (n, m) \<in> adjacent g \<Longrightarrow> m = p \<or> m = q"
      "adjacent ?g' = {(a, b) \<in> adjacent g. a \<noteq> n \<and> b \<noteq> n} \<union> {(p, q), (q, p)}"
      using contraction_adjacent [OF g(1) 2] by blast
    note cf = contraction_facts [OF 2]
    have si: "get_si (npl g0 n) = None" using cf(1) npl_same [OF g(4) n] by simp
    have pl: "wf_graph ?g'" "node_payloads ?g' = node_payloads g0" using cf(2,3) g(4) by simp_all
    have nZ: "p \<notin> Z" "q \<notin> Z" using g(5) adjacent_sym pq(1,2) by blast+
    have iso: "(m, k) \<notin> adjacent ?g'" if "m \<in> insert n Z" for m k
      using that g(5) [of m] nZ pq(3,4) unfolding pq(6) by auto
    have "(u, v) \<in> (adjacent ?g')\<^sup>* \<longleftrightarrow> (u, v) \<in> (adjacent g0)\<^sup>*" if uv: "u \<notin> insert n Z" "v \<notin> insert n Z" for u v
    proof -
      have "(u, v) \<in> (adjacent ?g')\<^sup>* \<longleftrightarrow> (u, v) \<in> (adjacent g)\<^sup>*"
        by (rule rtrancl_bypass [where n = n, OF adjacent_sym adjacent_sym [OF pq(1)] pq(2-5) pq(6)]) (use uv in auto)
      then show ?thesis using g(6) uv by auto
    qed
    then have "collapsed g0 (insert n Z) ?g'"
      unfolding collapsed_def
      using pl contraction_keeps(1) [OF g(1) 2 g(2)] contraction_keeps(2) [OF g(1) 2 g(3)] g(5) n si iso by blast
    then show ?thesis ..
  qed
qed

lemma collapsed_steps:
  fixes g :: "'p tr_graph"
  shows "\<lbrakk>collapsed g0 Z g; \<forall>n\<in>set ns. live g0 n\<rbrakk> \<Longrightarrow> \<exists>Z'. collapsed g0 Z' (fold (collapse_at G) ns g)"
proof (induction ns arbitrary: g Z)
  case (Cons n ns)
  have "live g0 n" using Cons.prems(2) by simp
  then obtain Z' where "collapsed g0 Z' (collapse_at G n g)" using collapsed_step [OF Cons.prems(1)] by blast
  then show ?case using Cons.IH Cons.prems(2) by simp
qed auto

text \<open>
  C10: when no two ways run between the same two nodes in opposite directions and the geometries fit, contracting the nodes
  of degree two keeps the graph well formed and all geometries fitting (the ends of every joined geometry are its
  nodes), changes no node, isolates only nodes without a station, and neither connects nor disconnects any of the
  other nodes.
\<close>

theorem collapse_edges_correct:
  assumes "wf_graph g" "one_directed g" "geometry_fits g"
  shows "wf_graph (collapse_edges G g) \<and> one_directed (collapse_edges G g) \<and> geometry_fits (collapse_edges G g) \<and>
    node_payloads (collapse_edges G g) = node_payloads g \<and>
    (\<exists>Z. (\<forall>n\<in>Z. live g n \<and> get_si (npl g n) = None \<and> (\<forall>m. arcs (collapse_edges G g) (n, m) = None \<and> arcs (collapse_edges G g) (m, n) = None)) \<and>
       (\<forall>u v. live g u \<longrightarrow> u \<notin> Z \<longrightarrow> v \<notin> Z \<longrightarrow> (v \<in> connected (collapse_edges G g) u \<longleftrightarrow> v \<in> connected g u)))"
proof -
  let ?g' = "collapse_edges G g"
  have "collapsed g {} g" using assms by (simp add: collapsed_def)
  then obtain Z where Z: "collapsed g Z ?g'"
    unfolding collapse_edges_def using collapsed_steps [of g "{}" g "graph_nodes g" G] wf_nodes [OF assms(1)] by auto
  have wf': "wf_graph ?g'" and pl: "node_payloads ?g' = node_payloads g" using Z by (simp_all add: collapsed_def)
  have "v \<in> connected ?g' u \<longleftrightarrow> v \<in> connected g u" if "live g u" "u \<notin> Z" "v \<notin> Z" for u v
  proof -
    have "live ?g' u" using that(1) pl unfolding live_node_payloads by simp
    then show ?thesis
      using Z that by (simp add: connected_adjacent [OF wf'] connected_adjacent [OF assms(1)] collapsed_def)
  qed
  moreover have "arcs ?g' (n, m) = None \<and> arcs ?g' (m, n) = None" if "n \<in> Z" for n m
    using Z that by (auto simp: collapsed_def adjacent_def)
  moreover have "live g n \<and> get_si (npl g n) = None" if "n \<in> Z" for n using Z that by (simp add: collapsed_def)
  moreover have "one_directed ?g' \<and> geometry_fits ?g'" using Z by (simp add: collapsed_def)
  ultimately show ?thesis using wf' pl by (intro conjI exI [of _ Z]) simp_all
qed

text \<open>A way from node 0 over node 1 to node 2.\<close>

definition chain :: "nat tr_graph" where
  "chain = snd (addEdg 1 2 (add_point 2 (add_point 1 edge_payload_init))
     (snd (addEdg 0 1 (add_point 1 (add_point 0 edge_payload_init)) lone_nodes)))"

lemma lone_nodes_facts:
  "wf_graph lone_nodes" "live lone_nodes n \<longleftrightarrow> n \<in> {0, 1, 2}" "arcs lone_nodes = Map.empty"
proof -
  show wf: "wf_graph lone_nodes" unfolding lone_nodes_def by (intro wf_addNd wf_graph_init)
  show "live lone_nodes n \<longleftrightarrow> n \<in> {0, 1, 2}" by (auto simp: lone_nodes_def addNd_def dir_graph_init_def)
  have "edge_heap lone_nodes = Map.empty" by (simp add: lone_nodes_def addNd_def dir_graph_init_def)
  then show "arcs lone_nodes = Map.empty" using arcs_Some_iff [OF wf] by (intro map_eqI) auto
qed

lemma chain_facts:
  "wf_graph chain" "arcs chain = [(0, 1) \<mapsto> add_point 1 (add_point 0 edge_payload_init), (1, 2) \<mapsto> add_point 2 (add_point 1 edge_payload_init)]"
  "node_payloads chain = node_payloads lone_nodes"
proof -
  let ?p = "add_point (1::nat) (add_point 0 edge_payload_init)"
  let ?g = "snd (addEdg 0 1 ?p lone_nodes)"
  have l: "live lone_nodes 0" "live lone_nodes 1" "live lone_nodes 2" by (simp_all only: lone_nodes_facts(2)) simp_all
  note wf = wf_addEdg [OF lone_nodes_facts(1) l(1,2), where p = ?p] and ar = arcs_addEdg [OF lone_nodes_facts(1) l(1,2), where p = ?p]
  have l1: "live ?g 1" "live ?g 2" using l live_addEdg [OF lone_nodes_facts(1) l(1,2), where p = ?p] by auto
  show "wf_graph chain" unfolding chain_def by (rule wf_addEdg [OF wf l1])
  show "arcs chain = [(0, 1) \<mapsto> ?p, (1, 2) \<mapsto> add_point 2 (add_point 1 edge_payload_init)]"
    unfolding chain_def arcs_addEdg(1) [OF wf l1] ar lone_nodes_facts(3) by simp
  show "node_payloads chain = node_payloads lone_nodes"
    unfolding chain_def arcs_addEdg(2) [OF wf l1] ar(2) ..
qed

theorem collapse_edges_correct_witness:
  "geometry_fits (collapse_edges flat chain) \<and> one_directed (collapse_edges flat chain) \<and>
   node_payloads (collapse_edges flat chain) = node_payloads chain"
proof -
  have "one_directed chain" by (auto simp: one_directed_def chain_facts(2) split: if_splits)
  moreover have pl: "node_payloads chain 0 = Some (node_payload_of 0)" "node_payloads chain 1 = Some (node_payload_of 1)"
    "node_payloads chain 2 = Some (node_payload_of 2)"
    unfolding chain_facts(3) by (simp_all add: node_payloads_def lone_nodes_def addNd_def dir_graph_init_def)
  then have "npl chain 0 = node_payload_of 0" "npl chain 1 = node_payload_of 1" "npl chain 2 = node_payload_of 2"
    by (subst npl_payloads, simp)+
  then have "geometry_fits chain"
    by (auto simp: geometry_fits_def chain_facts(2) add_point_def edge_payload_init_def node_payload_of_def split: if_splits)
  ultimately show ?thesis using collapse_edges_correct [OF chain_facts(1), of flat] by blast
qed

text \<open>
  Two one-way edges of opposite permitted directions count as similar: the way from node 0 to node 1 may be used forwards
  only (code 1), the way from node 1 to node 2 backwards only (code 2), so no vehicle can pass node 1 from 0 to 2.  At node 1
  the two are merged, and the payload of the new edge from 0 to 2 permits the forward direction.
\<close>

definition opposed :: "nat tr_graph" where
  "opposed = \<lparr>graph_nodes = [0, 1, 2],
     node_heap = [0 \<mapsto> \<lparr>adjListIn = [], adjListOut = [0], node_pl = node_payload_of 0\<rparr>,
       1 \<mapsto> \<lparr>adjListIn = [0], adjListOut = [1], node_pl = node_payload_of 1\<rparr>,
       2 \<mapsto> \<lparr>adjListIn = [1], adjListOut = [], node_pl = node_payload_of 2\<rparr>],
     edge_heap = [0 \<mapsto> \<lparr>edge_from = 0, edge_to = 1, edge_pl = setOneWay (edge_payload_init\<lparr>ep_geom := [0, 1]\<rparr>)\<rparr>,
       1 \<mapsto> \<lparr>edge_from = 1, edge_to = 2, edge_pl = setOneWay_dir 2 (edge_payload_init\<lparr>ep_geom := [1, 2]\<rparr>)\<rparr>],
     next_node = 3, next_edge = 2\<rparr>"

lemma collapse_joins_opposed_oneways:
  "degree opposed 1 = 2 \<and> collapse_pair opposed 1 = (1, 0) \<and> getEdg opposed 0 2 = None \<and> getEdg opposed 2 0 = None \<and>
   ep_oneWay (epl opposed 0) = 1 \<and> ep_oneWay (epl opposed 1) = 2 \<and> are_edges_similar opposed 1 0"
  "ep_oneWay (fst (merge_edge_payload flat 0 1 opposed)) = 1 \<and> ep_geom (fst (merge_edge_payload flat 0 1 opposed)) = [0, 1, 1, 2]"
  by code_simp+

text \<open>
  Without the hypothesis on opposite ways: two one-way edges between the nodes 0 and 1.  Contracting node 1 asks for a loop at
  node 0, and the merge takes node 0 for the common node: the geometry starts and ends at node 1.
\<close>

definition two_way :: "nat tr_graph" where
  "two_way = \<lparr>graph_nodes = [0, 1],
     node_heap = [0 \<mapsto> \<lparr>adjListIn = [1], adjListOut = [0], node_pl = node_payload_of 0\<rparr>,
       1 \<mapsto> \<lparr>adjListIn = [0], adjListOut = [1], node_pl = node_payload_of 1\<rparr>],
     edge_heap = [0 \<mapsto> \<lparr>edge_from = 0, edge_to = 1, edge_pl = setOneWay (edge_payload_init\<lparr>ep_geom := [0, 1]\<rparr>)\<rparr>,
       1 \<mapsto> \<lparr>edge_from = 1, edge_to = 0, edge_pl = setOneWay (edge_payload_init\<lparr>ep_geom := [1, 0]\<rparr>)\<rparr>],
     next_node = 2, next_edge = 2\<rparr>"

lemma collapse_loop_geometry:
  "degree two_way 1 = 2 \<and> collapse_pair two_way 1 = (1, 0) \<and> getEdg two_way 0 0 = None \<and> are_edges_similar two_way 1 0 \<and>
   is_oneWay (epl two_way 1) \<and> Dir_Graph.getOtherNd two_way 1 1 = 0 \<and> edge_getFrom two_way 1 = 1"
  "ep_geom (fst (merge_edge_payload flat 0 1 two_way)) = [1, 0, 0, 1]"
  by code_simp+

end
