(* ===== verification/Router_Cost.thy ===== *)
theory Router_Cost
  imports Contraction EDijkstra Gtfs_Feed
begin

text \<open>
  \<^verbatim>\<open>router/{misc,routing_attributes}.h\<close>, \<^verbatim>\<open>router/misc.cpp\<close> and the cost functions of \<^verbatim>\<open>router/router.{h,cpp}\<close>: what a path through
  the transit graph costs.  Costs are exact rational numbers where the code adds and multiplies \<^verbatim>\<open>double\<close>s; lengths and
  penalties are finite.
\<close>

section \<open>Options and costs\<close>

record routing_options =
  fullTurnPunishFac :: rat
  fullTurnAngle :: rat
  passThruStationsPunish :: rat
  oneWayPunishFac :: rat
  oneWayEdgePunish :: rat
  lineUnmatchedPunishFact :: rat
  noLinesPunishFact :: rat
  platformUnmatchedPen :: rat
  stationDistPenFactor :: rat
  nonOsmPen :: rat
  levelPunish :: "rat list"
  popReachEdge :: bool
  noSelfHops :: bool

definition near :: "rat \<Rightarrow> rat \<Rightarrow> bool" where
  "near a b \<longleftrightarrow> \<bar>a - b\<bar> < 1 / 100"

definition routing_options_eq :: "routing_options \<Rightarrow> routing_options \<Rightarrow> bool" where
  "routing_options_eq a b \<longleftrightarrow>
     near (fullTurnPunishFac a) (fullTurnPunishFac b) \<and> near (fullTurnAngle a) (fullTurnAngle b) \<and>
     near (passThruStationsPunish a) (passThruStationsPunish b) \<and> near (oneWayPunishFac a) (oneWayPunishFac b) \<and>
     near (oneWayEdgePunish a) (oneWayEdgePunish b) \<and> near (lineUnmatchedPunishFact a) (lineUnmatchedPunishFact b) \<and>
     near (noLinesPunishFact a) (noLinesPunishFact b) \<and> near (platformUnmatchedPen a) (platformUnmatchedPen b) \<and>
     near (stationDistPenFactor a) (stationDistPenFactor b) \<and> near (nonOsmPen a) (nonOsmPen b) \<and>
     (\<forall>i\<in>set [0..<8]. near (levelPunish a ! i) (levelPunish b ! i)) \<and>
     popReachEdge a = popReachEdge b \<and> noSelfHops a = noSelfHops b"

text \<open>The constructor of \<^verbatim>\<open>edge_cost\<close>: the metres on each level, the counts and penalties, and the options, which may be null.\<close>

definition edge_cost ::
  "rat list \<Rightarrow> nat \<Rightarrow> int \<Rightarrow> rat \<Rightarrow> nat \<Rightarrow> rat \<Rightarrow> rat \<Rightarrow> rat \<Rightarrow> routing_options option \<Rightarrow> rat" where
  "edge_cost mDists fullTurns passThru oneWayMeters oneWayEdges lineUnmatchedMeters noLinesMeters reachPen opts = (case opts of
     None \<Rightarrow> mDists ! 0 + reachPen
   | Some ro \<Rightarrow>
       (\<Sum>i\<leftarrow>[0..<8]. mDists ! i * levelPunish ro ! i) +
       oneWayMeters * oneWayPunishFac ro + of_nat oneWayEdges * oneWayEdgePunish ro +
       lineUnmatchedMeters * lineUnmatchedPunishFact ro + noLinesMeters * noLinesPunishFact ro +
       of_nat fullTurns * fullTurnPunishFac ro + of_int passThru * passThruStationsPunish ro + reachPen)"

definition pen_cost :: "rat \<Rightarrow> rat" where
  "pen_cost pen = edge_cost (replicate 8 0) 0 0 0 0 0 0 pen None"

section \<open>Routing attributes\<close>

record routing_attributes =
  ra_from :: string
  ra_to :: string
  ra_short_name :: string

type_synonym simi_cache = "line_ref \<rightharpoonup> rat"

definition attrs_eq :: "routing_attributes \<Rightarrow> routing_attributes \<Rightarrow> bool" where
  "attrs_eq a b \<longleftrightarrow> ra_short_name a = ra_short_name b \<and> ra_to a = ra_to b \<and> ra_from a = ra_from b"

definition attrs_less :: "routing_attributes \<Rightarrow> routing_attributes \<Rightarrow> bool" where
  "attrs_less a b \<longleftrightarrow> str_less (ra_from a) (ra_from b) \<or>
     (ra_from a = ra_from b \<and> str_less (ra_to a) (ra_to b)) \<or>
     (ra_from a = ra_from b \<and> ra_to a = ra_to b \<and> str_less (ra_short_name a) (ra_short_name b))"

definition third :: rat where
  "third = 333333333 / 1000000000"

definition line_simi :: "routing_attributes \<Rightarrow> transit_edge_line \<Rightarrow> rat" where
  "line_simi ra line =
     (let cur = 1;
          cur = (if ra_short_name ra = [] \<or> lineSimi (shortName line) (ra_short_name ra) = 1 then cur - third else cur);
          cur = (if ra_to ra = [] \<or> toStr line = [] \<or> statSimi (toStr line) (ra_to ra) = 1 then cur - third else cur)
      in if ra_from ra = [] \<or> fromStr line = [] \<or> statSimi (fromStr line) (ra_from ra) = 1 then cur - third else cur)"

text \<open>\<open>simi\<close> with its cache, which is keyed by the line object.\<close>

definition ra_simi ::
  "routing_attributes \<Rightarrow> (line_ref \<Rightarrow> transit_edge_line) \<Rightarrow> line_ref \<Rightarrow> simi_cache \<Rightarrow> rat \<times> simi_cache" where
  "ra_simi ra heap l c = (case c l of
     Some v \<Rightarrow> (v, c)
   | None \<Rightarrow> (let cur = line_simi ra (heap l) in (cur, c(l \<mapsto> cur))))"

text \<open>The loop of \<open>transitLineCmp\<close> over the lines of an edge.\<close>

fun best_line :: "routing_attributes \<Rightarrow> (line_ref \<Rightarrow> transit_edge_line) \<Rightarrow> line_ref list \<Rightarrow> rat \<Rightarrow> simi_cache \<Rightarrow> rat \<times> simi_cache" where
  "best_line ra heap [] best c = (best, c)"
| "best_line ra heap (l # ls) best c =
     (let (cur, c) = ra_simi ra heap l c
      in if cur < 1 / 10000 then (0, c)
         else best_line ra heap ls (if cur < best then cur else best) c)"

definition no_attrs :: "routing_attributes \<Rightarrow> bool" where
  "no_attrs ra \<longleftrightarrow> ra_short_name ra = [] \<and> ra_to ra = [] \<and> ra_from ra = []"

definition transitLineCmp ::
  "routing_attributes \<Rightarrow> (line_ref \<Rightarrow> transit_edge_line) \<Rightarrow> line_ref list \<Rightarrow> simi_cache \<Rightarrow> rat \<times> simi_cache" where
  "transitLineCmp ra heap ls c = (if no_attrs ra then (0, c) else best_line ra heap ls 1 c)"

text \<open>The cache never shows: as long as the line objects and the attributes stay, the result is that of the pure comparison.\<close>

definition simi_cache_ok :: "routing_attributes \<Rightarrow> (line_ref \<Rightarrow> transit_edge_line) \<Rightarrow> simi_cache \<Rightarrow> bool" where
  "simi_cache_ok ra heap c \<longleftrightarrow> (\<forall>l v. c l = Some v \<longrightarrow> v = line_simi ra (heap l))"

definition line_cmp :: "routing_attributes \<Rightarrow> (line_ref \<Rightarrow> transit_edge_line) \<Rightarrow> line_ref list \<Rightarrow> rat" where
  "line_cmp ra heap ls =
     (if no_attrs ra \<or> (\<exists>l\<in>set ls. line_simi ra (heap l) < 1 / 10000) then 0
      else Min (insert 1 ((\<lambda>l. line_simi ra (heap l)) ` set ls)))"

lemma ra_simi_cached:
  "simi_cache_ok ra heap c \<Longrightarrow> fst (ra_simi ra heap l c) = line_simi ra (heap l) \<and> simi_cache_ok ra heap (snd (ra_simi ra heap l c))"
  by (auto simp: ra_simi_def simi_cache_ok_def Let_def split: option.split)

lemma best_line_cached:
  assumes "simi_cache_ok ra heap c"
  shows "fst (best_line ra heap ls best c) = (if \<exists>l\<in>set ls. line_simi ra (heap l) < 1 / 10000 then 0
      else Min (insert best ((\<lambda>l. line_simi ra (heap l)) ` set ls))) \<and> simi_cache_ok ra heap (snd (best_line ra heap ls best c))"
  using assms
proof (induction ls arbitrary: best c)
  case (Cons l ls)
  obtain v c1 where v: "ra_simi ra heap l c = (v, c1)" by fastforce
  then have r: "v = line_simi ra (heap l)" "simi_cache_ok ra heap c1" using ra_simi_cached [OF Cons.prems, of l] by auto
  let ?A = "(\<lambda>l. line_simi ra (heap l)) ` set ls"
  have "Min (insert (if v < best then v else best) ?A) = Min (insert best (insert v ?A))"
    by (cases "?A = {}") (auto simp: min_def not_less)
  then show ?case using Cons.IH [OF r(2), of "if v < best then v else best"] r v by auto
qed simp

lemma transitLineCmp_cached:
  assumes "simi_cache_ok ra heap c"
  shows "fst (transitLineCmp ra heap ls c) = line_cmp ra heap ls \<and> simi_cache_ok ra heap (snd (transitLineCmp ra heap ls c))"
  using best_line_cached [OF assms] assms by (auto simp: transitLineCmp_def line_cmp_def)

interpretation attrs: key_order attrs_less
proof
  fix a b c :: routing_attributes
  show "\<not> attrs_less a a" by (simp add: attrs_less_def strs.lt_irrefl)
  show "attrs_less a c" if "attrs_less a b" "attrs_less b c"
    using that strs.lt_trans [of "ra_from a" "ra_from b" "ra_from c"] strs.lt_trans [of "ra_to a" "ra_to b" "ra_to c"]
      strs.lt_trans [of "ra_short_name a" "ra_short_name b" "ra_short_name c"] by (auto simp: attrs_less_def)
  show "attrs_less b a" if "a \<noteq> b" "\<not> attrs_less a b"
    using that routing_attributes.equality [of a b] strs.lt_total [of "ra_from a" "ra_from b"]
      strs.lt_total [of "ra_to a" "ra_to b"] strs.lt_total [of "ra_short_name a" "ra_short_name b"]
    by (cases "ra_from a = ra_from b"; cases "ra_to a = ra_to b"; cases "ra_short_name a = ra_short_name b") (auto simp: attrs_less_def)
qed

section \<open>The cost functions\<close>

text \<open>
  The members of a \<^verbatim>\<open>CostFunc\<close>: attributes, options, turn restrictions, the group of the target station and the
  infinity.  What the cost functions read besides them is the transit graph with its line and component objects.
\<close>

record CostFunc =
  cf_rAttrs :: routing_attributes
  cf_rOpts :: routing_options
  cf_res :: "(node_ref, edge_ref) restrictor"
  cf_tgGrp :: "group_ref option"
  cf_inf :: rat

record 'p transit_map =
  tm_geo :: "'p geo_ops"
  tm_g :: "'p tr_graph"
  tm_line :: "line_ref \<Rightarrow> transit_edge_line"
  tm_comp :: "comp_ref \<Rightarrow> component"

definition metres :: "double \<Rightarrow> rat" where
  "metres d = (case d of Finite q \<Rightarrow> q | _ \<Rightarrow> 0)"

definition level_dists :: "'p edge_payload \<Rightarrow> rat list" where
  "level_dists pl = map (\<lambda>i. if unat (ep_lvl pl) = i then metres (ep_length pl) else 0) [0..<8]"

definition trivial_turn :: "'p tr_graph \<Rightarrow> edge_ref \<Rightarrow> edge_ref \<Rightarrow> bool" where
  "trivial_turn g a b \<longleftrightarrow> edge_getFrom g a = edge_getTo g b \<and> edge_getTo g a = edge_getFrom g b"

definition full_turns :: "'p transit_map \<Rightarrow> routing_options \<Rightarrow> edge_ref \<Rightarrow> node_ref \<Rightarrow> edge_ref \<Rightarrow> nat" where
  "full_turns M ro a n b =
     (let g = tm_g M in
      if trivial_turn g a b then 1
      else if 2 < getOutDeg g n
      then of_bool (angSmaller (tm_geo M) (the (backHop (epl g a))) (np_geom (npl g n)) (the (frontHop (epl g b)))
                      (Finite (fullTurnAngle ro)))
      else 0)"

definition skips_station :: "'p tr_graph \<Rightarrow> group_ref option \<Rightarrow> node_ref \<Rightarrow> bool" where
  "skips_station g tg n \<longleftrightarrow> tg \<noteq> None \<and>
     (case get_si (npl g n) of None \<Rightarrow> False | Some si \<Rightarrow> si_group si \<noteq> tg)"

text \<open>\<open>CostFunc::operator()\<close>.  The call without a node is the one at the end of a path; no caller makes it with an edge.\<close>

definition cost_call :: "'p transit_map \<Rightarrow> CostFunc \<Rightarrow> edge_ref option \<Rightarrow> node_ref option \<Rightarrow> edge_ref \<Rightarrow> rat" where
  "cost_call M cf frm n b = (case frm of
     None \<Rightarrow> 0
   | Some a \<Rightarrow>
       (let g = tm_g M; pl = epl g a; ra = cf_rAttrs cf; ro = cf_rOpts cf;
            oneway = ep_oneWay pl = 2;
            (turns, oneway, skip) = (case n of
               None \<Rightarrow> (0, oneway, False)
             | Some n \<Rightarrow> (full_turns M ro a n b,
                          if ep_hasRestr pl \<and> \<not> may a b n (cf_res cf) then True else oneway,
                          skips_station g (cf_tgGrp cf) n));
            len = metres (ep_length pl);
            linePen = fst (transitLineCmp ra (tm_line M) (ep_lines pl) Map.empty);
            noLines = no_attrs ra \<and> ep_lines pl = []
        in edge_cost (level_dists pl) turns (of_bool skip) (len * of_bool oneway) (of_bool oneway)
             (len * linePen) (if noLines then len else 0) 0 (Some ro)))"

definition ncost_call :: "'p transit_map \<Rightarrow> CostFunc \<Rightarrow> node_ref option \<Rightarrow> edge_ref \<Rightarrow> node_ref option \<Rightarrow> rat" where
  "ncost_call M cf frm e n = (case frm of
     None \<Rightarrow> 0
   | Some _ \<Rightarrow>
       (let pl = epl (tm_g M) e; oneway = ep_oneWay pl = 2; len = metres (ep_length pl)
        in edge_cost (level_dists pl) 0 0 (len * of_bool oneway) (of_bool oneway) 0 0 0 (Some (cf_rOpts cf))))"

text \<open>The searches over the transit graph with a cost function.\<close>

definition tr_search :: "'p transit_map \<Rightarrow> CostFunc \<Rightarrow> (node_ref, edge_ref, rat) search" where
  "tr_search M cf = (let g = tm_g M in
     \<lparr>getFrom = edge_getFrom g, getTo = edge_getTo g, getAdjListOut = node_getAdjListOut g,
      getAdjListIn = node_getAdjListIn g, hasEdgeIn = node_hasEdgeIn g, costFunc = cost_call M cf, infC = cf_inf cf\<rparr>)"

text \<open>
  The heuristics: the distance to the centre of the targets, scaled by a level's factor, less the largest of these distances
  among the targets.  The centre is computed by \<open>center\<close> from the points of the targets in their order.
\<close>

definition dist_to :: "'p geo_ops \<Rightarrow> 'p \<Rightarrow> 'p \<Rightarrow> rat" where
  "dist_to geo c p = metres (webMercMeterDist geo p c)"

definition dist_heur :: "'p transit_map \<Rightarrow> ('p list \<Rightarrow> 'p) \<Rightarrow> 3 word \<Rightarrow> routing_options \<Rightarrow> edge_ref list \<Rightarrow> edge_ref \<Rightarrow> rat" where
  "dist_heur M center lvl ro tos =
     (let g = tm_g M; c = center (map (\<lambda>e. np_geom (npl g (edge_getFrom g e))) tos);
          d = (\<lambda>e. dist_to (tm_geo M) c (np_geom (npl g (edge_getFrom g e))) * levelPunish ro ! unat lvl);
          maxCentD = fold (\<lambda>e m. if m < d e then d e else m) tos 0
      in (\<lambda>e. d e - maxCentD))"

definition ndist_heur :: "'p transit_map \<Rightarrow> ('p list \<Rightarrow> 'p) \<Rightarrow> node_ref list \<Rightarrow> node_ref \<Rightarrow> rat" where
  "ndist_heur M center tos =
     (let g = tm_g M; c = center (map (\<lambda>n. np_geom (npl g n)) tos);
          d = (\<lambda>n. dist_to (tm_geo M) c (np_geom (npl g n)));
          maxCentD = fold (\<lambda>n m. if m < d n then d n else m) tos 0
      in (\<lambda>n. d n - maxCentD))"

section \<open>Transport modes\<close>

text \<open>The modes in the order of the set; a mode without a name is read past the end of the table.\<close>

fun mot_names :: "route_type list \<Rightarrow> bool \<Rightarrow> string \<Rightarrow> string option" where
  "mot_names [] notFirst motStr = Some motStr"
| "mot_names (mot # mots) notFirst motStr =
     (case get_route_type_string mot of
        None \<Rightarrow> None
      | Some name \<Rightarrow> mot_names mots True ((if notFirst then motStr @ '', '' else motStr) @ ''<'' @ name @ ''>''))"

definition get_mot_str :: "route_type list \<Rightarrow> string option" where
  "get_mot_str mots = mot_names mots False []"

definition route_type_section :: "route_type list \<Rightarrow> route_type set \<Rightarrow> route_type set" where
  "route_type_section a b = fold (\<lambda>mot ret. if mot \<in> b then insert mot ret else ret) a {}"

text \<open>The stops served by a mode, by their keys in the feed.\<close>

definition mot_stop_of :: "feed \<Rightarrow> stop_time \<Rightarrow> Id set \<Rightarrow> Id set res" where
  "mot_stop_of f st ret = exn_bind (stop_time_stop st f) (\<lambda>s. case s of
     None \<Rightarrow> Inr ret
   | Some stop \<Rightarrow>
       if sp_location_type stop = 2 \<and> sp_parent_station stop \<noteq> []
       then exn_bind (get_parent_station stop f) (\<lambda>parent.
              Inr (insert (case parent of Some _ \<Rightarrow> sp_parent_station stop | None \<Rightarrow> st_stop_id st) ret))
       else Inr (insert (st_stop_id st) ret))"

fun mot_stops_of :: "feed \<Rightarrow> nat list \<Rightarrow> Id set \<Rightarrow> Id set res" where
  "mot_stops_of f [] ret = Inr ret"
| "mot_stops_of f (i # is) ret = exn_bind (mot_stop_of f (stop_times f ! i) ret) (mot_stops_of f is)"

fun mot_trips :: "feed \<Rightarrow> route_type set \<Rightarrow> string \<Rightarrow> (Id \<times> trip) list \<Rightarrow> Id set \<Rightarrow> Id set res" where
  "mot_trips f mots tid [] ret = Inr ret"
| "mot_trips f mots tid ((k, t) # ts) ret =
     (if tid \<noteq> [] \<and> tr_trip_id t \<noteq> tid then mot_trips f mots tid ts ret
      else exn_bind (trip_route t f) (\<lambda>r. case r of
             None \<Rightarrow> mot_trips f mots tid ts ret
           | Some rt \<Rightarrow>
               if Route_type (rt_route_type rt) \<in> mots
               then exn_bind (trip_stop_times t f) (\<lambda>sts. exn_bind (mot_stops_of f sts ret) (mot_trips f mots tid ts))
               else mot_trips f mots tid ts ret))"

definition write_mot_stops :: "feed \<Rightarrow> route_type set \<Rightarrow> string \<Rightarrow> Id set res" where
  "write_mot_stops f mots tid = mot_trips f mots tid (trips f) {}"

end
