(* ===== verification/Router_Hops.thy ===== *)
theory Router_Hops
  imports Router_Cost
begin

text \<open>
  \<^verbatim>\<open>router/router.cpp\<close>: the hops between candidates.  A hop is a path through the transit graph from one candidate edge to another;
  \<open>hops\<close> computes those from one edge to all candidates of the next group, \<open>getHopBand\<close> bounds them by a pilot run, and both
  fill the cache with the hops contained in the paths they find.
\<close>

section \<open>Definitions\<close>

record node_candidate =
  nc_nd :: node_ref
  nc_pen :: rat

record edge_candidate =
  ec_e :: edge_ref
  ec_pen :: rat

text \<open>
  The router with what it reads: the transit map, the computation of a centre, the queue of the searches and the caching flag.
  The arguments that all of its functions hand on are a job.  One thread's cache is a map from attributes, source and target.
\<close>

record 'p router =
  rr_map :: "'p transit_map"
  rr_center :: "'p list \<Rightarrow> 'p"
  rr_top :: "(node_ref, edge_ref, rat) RouteEdge list \<Rightarrow> (node_ref, edge_ref, rat) RouteEdge"
  rr_caching :: bool

record job =
  job_attrs :: routing_attributes
  job_opts :: routing_options
  job_rest :: "(node_ref, edge_ref) restrictor"

type_synonym route_cache = "routing_attributes \<times> edge_ref \<times> edge_ref \<rightharpoonup> rat \<times> edge_ref list"

record HopBand =
  minD :: rat
  maxD :: rat
  nearest :: "edge_ref option"
  maxInGrpDist :: rat

text \<open>The constructor of \<^verbatim>\<open>CostFunc\<close>, and a set of edges in its iteration order.\<close>

definition make_cost :: "job \<Rightarrow> group_ref option \<Rightarrow> rat \<Rightarrow> CostFunc" where
  "make_cost J tg m = \<lparr>cf_rAttrs = job_attrs J, cf_rOpts = job_opts J, cf_res = job_rest J, cf_tgGrp = tg, cf_inf = pen_cost m\<rparr>"

definition edge_set :: "edge_ref list \<Rightarrow> edge_ref list" where
  "edge_set es = sort (remdups es)"

definition cache_hop :: "bool \<Rightarrow> routing_attributes \<Rightarrow> edge_ref \<Rightarrow> edge_ref \<Rightarrow> rat \<Rightarrow> edge_ref list \<Rightarrow> route_cache \<Rightarrow> route_cache" where
  "cache_hop caching ra f t v es c = (if \<not> caching then c else if f = t then c else c((ra, f, t) \<mapsto> (v, es)))"

text \<open>The loop of \<open>nestedCache\<close> over the edges of a path, which are listed from the target backwards.\<close>

fun nested_loop ::
  "'p router \<Rightarrow> CostFunc \<Rightarrow> edge_ref set \<Rightarrow> edge_ref \<Rightarrow> edge_ref list \<Rightarrow> edge_ref list \<Rightarrow> rat \<Rightarrow> route_cache \<Rightarrow> route_cache" where
  "nested_loop R cf froms front [] curEdges curCost c = c"
| "nested_loop R cf froms front (e # es) curEdges curCost c =
     (let M = rr_map R;
          curCost = (if curEdges \<noteq> [] then curCost + cost_call M cf (Some e) (Some (edge_getTo (tm_g M) e)) (last curEdges)
                     else curCost);
          curEdges = curEdges @ [e];
          c = (if e \<in> froms
               then cache_hop (rr_caching R) (cf_rAttrs cf) e front (cost_call M cf None None e + curCost) curEdges c
               else c)
      in nested_loop R cf froms front es curEdges curCost c)"

definition nestedCache :: "'p router \<Rightarrow> edge_ref list \<Rightarrow> edge_ref set \<Rightarrow> CostFunc \<Rightarrow> route_cache \<Rightarrow> route_cache" where
  "nestedCache R el froms cf c =
     (if \<not> rr_caching R then c else if el = [] then c else nested_loop R cf froms (hd el) el [] 0 c)"

type_synonym hop_lists = "edge_ref \<rightharpoonup> edge_ref list"
type_synonym hop_costs = "edge_ref \<rightharpoonup> rat"

text \<open>The targets that are not in the cache, and the cost and edge list of those that are.\<close>

definition getCachedHops ::
  "'p router \<Rightarrow> routing_attributes \<Rightarrow> route_cache \<Rightarrow> edge_ref \<Rightarrow> edge_ref list \<Rightarrow> hop_lists \<Rightarrow> hop_costs \<Rightarrow>
     edge_ref list \<times> hop_lists \<times> hop_costs" where
  "getCachedHops R ra c frm tos els costs =
     fold (\<lambda>t (ret, els, costs).
       case (if rr_caching R then c (ra, frm, t) else None) of
         Some (v, es) \<Rightarrow> (ret, els(t \<mapsto> es), costs(t \<mapsto> v))
       | None \<Rightarrow> (ret @ [t], els, costs)) tos ([], els, costs)"

text \<open>The condition of the shortcut in \<open>hops\<close>: the hop is taken to be infinite without a search.\<close>

definition no_hop :: "'p tr_graph \<Rightarrow> routing_options \<Rightarrow> edge_ref \<Rightarrow> edge_ref \<Rightarrow> bool" where
  "no_hop g ro frm e \<longleftrightarrow>
     (noSelfHops ro \<and> (e = frm \<or> edge_getFrom g e = edge_getFrom g frm)) \<or>
     np_component (npl g (edge_getFrom g frm)) \<noteq> np_component (npl g (edge_getTo g e)) \<or>
     ep_oneWay (epl g e) = 2 \<or> ep_oneWay (epl g frm) = 2"

definition split_hops ::
  "'p tr_graph \<Rightarrow> routing_options \<Rightarrow> rat \<Rightarrow> edge_ref \<Rightarrow> edge_ref list \<Rightarrow> hop_costs \<Rightarrow> edge_ref list \<times> hop_costs" where
  "split_hops g ro infty frm cached costs =
     fold (\<lambda>e (rem, costs). if no_hop g ro frm e then (rem, costs(e \<mapsto> infty)) else (rem @ [e], costs)) cached ([], costs)"

definition component_lvl :: "'p transit_map \<Rightarrow> node_ref \<Rightarrow> 3 word" where
  "component_lvl M n = minEdgeLvl (tm_comp M (the (np_component (npl (tm_g M) n))))"

text \<open>\<open>hops\<close>: the new edge lists, costs and cache.\<close>

definition hops ::
  "'p router \<Rightarrow> job \<Rightarrow> edge_ref \<Rightarrow> edge_ref set \<Rightarrow> edge_ref list \<Rightarrow> group_ref option \<Rightarrow> hop_lists \<Rightarrow> hop_costs \<Rightarrow> HopBand \<Rightarrow>
     route_cache \<Rightarrow> (hop_lists \<times> hop_costs \<times> route_cache) option" where
  "hops R J frm froms tos tgGrp els costs hopB c =
     (let M = rr_map R; g = tm_g M;
          cf = make_cost J tgGrp (maxD hopB);
          (cached, els, costs) = getCachedHops R (job_attrs J) c frm tos els costs;
          (rem, costs) = split_hops g (job_opts J) (cf_inf cf) frm cached costs
      in if rem = [] then Some (els, costs, c)
         else
           (let heur = dist_heur M (rr_center R) (component_lvl M (edge_getFrom g frm)) (job_opts J) rem in
            case shortestPath_many (rr_top R) (tr_search M cf) heur frm (set rem) of
              None \<Rightarrow> None
            | Some (ret, paths) \<Rightarrow>
                (let els = (\<lambda>t. case paths t of
                       None \<Rightarrow> els t
                     | Some (nodes, es) \<Rightarrow> Some ((case els t of None \<Rightarrow> [] | Some l \<Rightarrow> l) @ es));
                     c = fold (\<lambda>t. nestedCache R (case els t of None \<Rightarrow> [] | Some l \<Rightarrow> l) froms cf) rem c
                 in Some (els, costs ++ ret, c))))"

definition compConned :: "'p tr_graph \<Rightarrow> edge_candidate list \<Rightarrow> edge_candidate list \<Rightarrow> bool" where
  "compConned g a b \<longleftrightarrow> (\<exists>n1\<in>set a. \<exists>n2\<in>set b.
     np_component (npl g (edge_getFrom g (ec_e n1))) = np_component (npl g (edge_getFrom g (ec_e n2))))"

text \<open>The group of the first candidate's station, which is the target group of a hop.\<close>

definition target_group :: "'p tr_graph \<Rightarrow> edge_candidate list \<Rightarrow> group_ref option" where
  "target_group g b = (case get_si (npl g (edge_getFrom g (ec_e (hd b)))) of None \<Rightarrow> None | Some si \<Rightarrow> si_group si)"

definition edge_dist :: "'p transit_map \<Rightarrow> node_ref \<Rightarrow> node_ref \<Rightarrow> rat" where
  "edge_dist M n m = metres (webMercMeterDist (tm_geo M) (np_geom (npl (tm_g M) n)) (np_geom (npl (tm_g M) m)))"

definition pending_dist :: "'p transit_map \<Rightarrow> edge_candidate list \<Rightarrow> edge_candidate list \<Rightarrow> rat" where
  "pending_dist M a b = fold (\<lambda>i. fold (\<lambda>j pend.
     let d = edge_dist M (edge_getFrom (tm_g M) (ec_e i)) (edge_getFrom (tm_g M) (ec_e j)) in if pend < d then d else pend) b) a 0"

definition getHopBand ::
  "'p router \<Rightarrow> job \<Rightarrow> edge_candidate list \<Rightarrow> edge_candidate list \<Rightarrow> route_cache \<Rightarrow> (HopBand \<times> route_cache) option" where
  "getHopBand R J a b c =
     (let M = rr_map R; g = tm_g M; ro = job_opts J;
          pend = pending_dist M a b;
          cf = make_cost J (target_group g b) (pend * 50);
          frm = edge_set (map ec_e a); to = edge_set (map ec_e b);
          heur = dist_heur M (rr_center R) 0 ro to
      in case (if compConned g a b
               then map_option (\<lambda>(r, nodes, el). (r, el)) (shortestPath (rr_top R) (tr_search M cf) heur frm (set to))
               else Some (cf_inf cf, [])) of
           None \<Rightarrow> None
         | Some (ret, el) \<Rightarrow>
             if length el < 2 \<and> cf_inf cf \<le> ret then Some (\<lparr>minD = 0, maxD = 1, nearest = None, maxInGrpDist = 0\<rparr>, c)
             else
               (let c = nestedCache R el (set frm) cf c;
                    maxStrD = fold (\<lambda>e m. let d = edge_dist M (edge_getFrom g (hd el)) (edge_getTo g e) in if m < d then d else m) to 0;
                    mxD = max ret (pend * levelPunish ro ! 2) * 3 + fullTurnPunishFac ro + platformUnmatchedPen ro
                in Some (\<lparr>minD = ret, maxD = mxD, nearest = Some (hd el), maxInGrpDist = maxStrD\<rparr>, c)))"

section \<open>Walks\<close>

text \<open>
  A walk lists its edges from the last one backwards, as the searches return them; its cost is the sum of the costs
  of its transitions.
\<close>

definition legal :: "'p tr_graph \<Rightarrow> edge_ref \<Rightarrow> edge_ref \<Rightarrow> bool" where
  "legal g e' e \<longleftrightarrow> e' \<noteq> e \<and> e' \<in> set (node_getAdjListOut g (edge_getTo g e))"

definition walk :: "'p tr_graph \<Rightarrow> edge_ref list \<Rightarrow> bool" where
  "walk g es \<longleftrightarrow> es \<noteq> [] \<and> successively (legal g) es"

fun walk_cost :: "(edge_ref \<Rightarrow> edge_ref \<Rightarrow> rat) \<Rightarrow> edge_ref list \<Rightarrow> rat" where
  "walk_cost k (e' # e # es) = k e' e + walk_cost k (e # es)"
| "walk_cost k _ = 0"

definition hop_cost :: "'p transit_map \<Rightarrow> CostFunc \<Rightarrow> edge_ref \<Rightarrow> edge_ref \<Rightarrow> rat" where
  "hop_cost M cf e' e = cost_call M cf (Some e) (Some (edge_getTo (tm_g M) e)) e'"

text \<open>A walk from \<open>s\<close> to \<open>t\<close> with its cost; with \<open>x\<close>, a cheapest one.\<close>

definition best_walk :: "bool \<Rightarrow> 'p tr_graph \<Rightarrow> (edge_ref \<Rightarrow> edge_ref \<Rightarrow> rat) \<Rightarrow> edge_ref \<Rightarrow> edge_ref \<Rightarrow> rat \<Rightarrow> edge_ref list \<Rightarrow> bool" where
  "best_walk x g k s t v es \<longleftrightarrow> walk g es \<and> hd es = t \<and> last es = s \<and> v = walk_cost k es \<and>
     (x \<longrightarrow> (\<forall>es'. walk g es' \<longrightarrow> hd es' = t \<longrightarrow> last es' = s \<longrightarrow> v \<le> walk_cost k es'))"

lemma walk_simps [simp]: "walk g [e]" "walk g (e' # e # es) \<longleftrightarrow> legal g e' e \<and> walk g (e # es)" "\<not> walk g []"
  by (auto simp: walk_def)

lemma walk_join: "walk g (xs @ [i]) \<Longrightarrow> walk g (i # ys) \<Longrightarrow> walk g (xs @ i # ys)"
  by (auto simp: walk_def successively_append_iff successively_Cons)

lemma walk_split: "walk g (xs @ i # ys) \<Longrightarrow> walk g (xs @ [i]) \<and> walk g (i # ys)"
  by (auto simp: walk_def successively_append_iff successively_Cons)

lemma walk_cost_split: "walk_cost k (xs @ i # ys) = walk_cost k (xs @ [i]) + walk_cost k (i # ys)"
proof (induction xs)
  case (Cons x xs)
  then show ?case by (cases xs) auto
qed simp

lemma walk_cost_snoc: "es \<noteq> [] \<Longrightarrow> walk_cost k (es @ [e]) = walk_cost k es + k (last es) e"
proof -
  assume "es \<noteq> []"
  then have "es @ [e] = butlast es @ last es # [e]" "es = butlast es @ [last es]" by simp_all
  then show ?thesis using walk_cost_split [of k "butlast es" "last es" "[e]"] by (metis add.right_neutral walk_cost.simps(1,3))
qed

text \<open>The part of such a walk up to its target is one, too.\<close>

lemma best_walk_part:
  assumes "best_walk x g k s t v (xs @ i # ys)"
  shows "best_walk x g k i t (walk_cost k (xs @ [i])) (xs @ [i])"
proof -
  have w: "walk g (xs @ i # ys)" "hd (xs @ i # ys) = t" "last (i # ys) = s" "v = walk_cost k (xs @ i # ys)"
    using assms by (auto simp: best_walk_def)
  have least: "v \<le> walk_cost k es'" if "x" "walk g es'" "hd es' = t" "last es' = s" for es'
    using assms that by (auto simp: best_walk_def)
  have "walk_cost k (xs @ [i]) \<le> walk_cost k es'" if x: "x" and es': "walk g es'" "hd es' = t" "last es' = i" for es'
  proof -
    have s: "es' = butlast es' @ [i]" using es' by (metis append_butlast_last_id walk_simps(3))
    have "walk g (butlast es' @ i # ys)" by (rule walk_join) (use s es'(1) walk_split [OF w(1)] in auto)
    moreover have "hd (butlast es' @ i # ys) = t" using es'(2) s by (metis hd_append list.sel(1))
    ultimately have "v \<le> walk_cost k (butlast es' @ i # ys)" using least [OF x] w(3) by simp
    then show ?thesis using w(4) s walk_cost_split [of k xs i ys] walk_cost_split [of k "butlast es'" i ys] by simp
  qed
  then show ?thesis using walk_split [OF w(1)] w(2) by (auto simp: best_walk_def hd_append)
qed

text \<open>Lengths and options that are not negative give costs that are not negative.\<close>

definition sane :: "'p transit_map \<Rightarrow> routing_options \<Rightarrow> bool" where
  "sane M ro \<longleftrightarrow> (\<forall>e\<in>dom (edge_heap (tm_g M)). 0 \<le> metres (ep_length (epl (tm_g M) e))) \<and> (\<forall>i<8. 0 \<le> levelPunish ro ! i) \<and>
     0 \<le> oneWayPunishFac ro \<and> 0 \<le> oneWayEdgePunish ro \<and> 0 \<le> lineUnmatchedPunishFact ro \<and> 0 \<le> noLinesPunishFact ro \<and>
     0 \<le> fullTurnPunishFac ro \<and> 0 \<le> passThruStationsPunish ro \<and> 0 \<le> platformUnmatchedPen ro"

lemma line_cmp_nonneg: "0 \<le> fst (transitLineCmp ra h ls Map.empty)"
proof -
  have "0 \<le> line_simi ra l" for l by (simp add: line_simi_def Let_def third_def)
  then have "0 \<le> line_cmp ra h ls" by (simp add: line_cmp_def)
  moreover have "simi_cache_ok ra h Map.empty" by (simp add: simi_cache_ok_def)
  ultimately show ?thesis using transitLineCmp_cached [of ra h Map.empty ls] by simp
qed

lemma cost_call_nonneg:
  assumes "sane M (cf_rOpts cf)" "e \<in> dom (edge_heap (tm_g M))"
  shows "0 \<le> cost_call M cf (Some e) n b"
proof -
  have s: "0 \<le> (\<Sum>i\<leftarrow>[0..<8]. level_dists pl ! i * levelPunish (cf_rOpts cf) ! i)" if "0 \<le> metres (ep_length pl)" for pl :: "'a edge_payload"
    by (rule sum_list_nonneg) (use assms that in \<open>auto simp: level_dists_def sane_def nth_append\<close>)
  show ?thesis
    using assms line_cmp_nonneg s
    by (auto simp: cost_call_def edge_cost_def Let_def sane_def intro!: add_nonneg_nonneg mult_nonneg_nonneg split: option.splits)
qed

lemma legal_from:
  assumes "wf_graph g" "e \<in> dom (edge_heap g)" "legal g e' e"
  shows "edge_getFrom g e' = edge_getTo g e"
proof -
  obtain x where x: "edge_heap g e = Some x" using assms(2) by auto
  then have "live g (edge_to x)" by (rule wf_edge(3) [OF assms(1)])
  then show ?thesis
    using wf_out_edges(1) [OF assms(1)] assms(3) x by (auto simp: legal_def edge_getFrom_def edge_getTo_def edge_at_def)
qed

text \<open>Whatever a walk from an edge of the graph passes is an edge of the graph.\<close>

lemma legal_live:
  assumes wf: "wf_graph g" and e: "e \<in> dom (edge_heap g)" and l: "legal g e' e"
  shows "e' \<in> dom (edge_heap g)"
proof -
  obtain x where x: "edge_heap g e = Some x" using e by auto
  then have "live g (edge_to x)" by (rule wf_edge(3) [OF wf])
  then show ?thesis using wf_out_edges [OF wf] l x by (auto simp: legal_def)
qed

lemma walk_live:
  assumes wf: "wf_graph g"
  shows "walk g es \<Longrightarrow> last es \<in> dom (edge_heap g) \<Longrightarrow> set es \<subseteq> dom (edge_heap g)"
proof (induction es rule: induct_list012)
  case (3 e' e es)
  then have "set (e # es) \<subseteq> dom (edge_heap g)" by simp
  then show ?case using legal_live [OF wf, of e e'] 3(3) by simp
qed auto

lemma walk_cost_nonneg: "(\<And>a b. b \<in> set es \<Longrightarrow> 0 \<le> k a b) \<Longrightarrow> 0 \<le> walk_cost k es"
  by (induction k es rule: walk_cost.induct) simp_all

lemma hop_cost_nonneg:
  assumes "wf_graph (tm_g M)" "sane M (cf_rOpts cf)" "walk (tm_g M) es" "last es \<in> dom (edge_heap (tm_g M))"
  shows "0 \<le> walk_cost (hop_cost M cf) es"
  using walk_live [OF assms(1,3,4)] by (intro walk_cost_nonneg) (auto simp: hop_cost_def intro: cost_call_nonneg [OF assms(2)])

section \<open>The searches find cheapest walks\<close>

lemma tr_search_sel [simp]:
  "costFunc (tr_search M cf) = cost_call M cf" "infC (tr_search M cf) = cf_inf cf"
  "EDijkstra.getTo (tr_search M cf) = edge_getTo (tm_g M)"
  by (simp_all add: tr_search_def Let_def)

lemma cost_call_start [simp]: "cost_call M cf None n e = 0"
  by (simp add: cost_call_def)

lemma tr_turn: "turn (tr_search M cf) e n e' \<longleftrightarrow> n = edge_getTo (tm_g M) e \<and> legal (tm_g M) e' e"
  by (auto simp: turn_def tr_search_def Let_def legal_def node_hasEdgeIn_def)

text \<open>The paths of a search are the walks from its sources, cut at the infinity.\<close>

lemma path_walk:
  "path (tr_search M cf) S es d \<Longrightarrow> walk (tm_g M) es \<and> last es \<in> S \<and> d = walk_cost (hop_cost M cf) es \<and> (tl es \<noteq> [] \<longrightarrow> d < cf_inf cf)"
  by (induction es d rule: path.induct) (auto simp: tr_turn hop_cost_def)

lemma walk_path:
  assumes wf: "wf_graph (tm_g M)" and sane: "sane M (cf_rOpts cf)" and S: "S \<subseteq> dom (edge_heap (tm_g M))"
  shows "walk (tm_g M) es \<Longrightarrow> last es \<in> S \<Longrightarrow> walk_cost (hop_cost M cf) es < cf_inf cf \<or> tl es = [] \<Longrightarrow>
    path (tr_search M cf) S es (walk_cost (hop_cost M cf) es)"
proof (induction "hop_cost M cf" es rule: walk_cost.induct [case_names pair none single])
  case (pair e' e es)
  let ?k = "hop_cost M cf"
  have lt: "?k e' e + walk_cost ?k (e # es) < cf_inf cf" using pair(4) by simp
  have "set (e # es) \<subseteq> dom (edge_heap (tm_g M))" using walk_live [OF wf] pair(2,3) S by (metis last_ConsR list.discI subsetD walk_simps(2))
  then have "0 \<le> ?k e' e" using cost_call_nonneg [OF sane] by (simp add: hop_cost_def)
  then have "walk_cost ?k (e # es) < cf_inf cf" using lt by linarith
  then have p: "path (tr_search M cf) S (e # es) (walk_cost ?k (e # es))" using pair(1-3) by simp
  show ?case using path_step [OF p, of "edge_getTo (tm_g M) e" e'] pair(2) lt
    by (simp add: tr_turn hop_cost_def add.commute not_le)
next
  case (single v)
  then show ?case using path_start [of v S "tr_search M cf"] by simp
qed simp

lemma tr_closed:
  assumes wf: "wf_graph (tm_g M)"
  shows "closed_edges (tr_search M cf) (dom (edge_heap (tm_g M)))"
proof -
  have "dom (edge_heap (tm_g M)) \<subseteq> {..<next_edge (tm_g M)}" using wf by (auto simp: wf_graph_def)
  then have "finite (dom (edge_heap (tm_g M)))" by (rule finite_subset) simp
  moreover have "e' \<in> dom (edge_heap (tm_g M))" if "e \<in> dom (edge_heap (tm_g M))" "legal (tm_g M) e' e" for e e'
    using legal_live [OF wf] that by blast
  ultimately show ?thesis by (simp add: closed_edges_def tr_turn)
qed

lemma search_best_walk:
  assumes wf: "wf_graph (tm_g M)" and sane: "sane M (cf_rOpts cf)" and S: "S \<subseteq> dom (edge_heap (tm_g M))"
    and p: "path (tr_search M cf) S (t # es) v" and least: "\<And>es' d. x \<Longrightarrow> path (tr_search M cf) S (t # es') d \<Longrightarrow> v \<le> d"
  shows "best_walk x (tm_g M) (hop_cost M cf) (last (t # es)) t v (t # es)"
proof -
  note w = path_walk [OF p]
  have "v \<le> walk_cost (hop_cost M cf) es'"
    if x: "x" and es': "walk (tm_g M) es'" "hd es' = t" "last es' = last (t # es)" for es'
  proof (cases "walk_cost (hop_cost M cf) es' < cf_inf cf \<or> tl es' = []")
    case True
    then have "path (tr_search M cf) S es' (walk_cost (hop_cost M cf) es')" using walk_path [OF wf sane S es'(1)] es'(3) w by simp
    then show ?thesis using least [OF x, of "tl es'"] es'(1,2) by (cases es') auto
  next
    case False
    then have c: "cf_inf cf \<le> walk_cost (hop_cost M cf) es'" by simp
    show ?thesis
    proof (cases "es = []")
      case True
      then have "v = 0" using w by simp
      moreover have "last es' \<in> dom (edge_heap (tm_g M))" using es'(3) w S by auto
      ultimately show ?thesis using hop_cost_nonneg [OF wf sane es'(1)] by simp
    next
      case False
      then show ?thesis using w c by simp
    qed
  qed
  then show ?thesis using w by (auto simp: best_walk_def)
qed

section \<open>The cache\<close>

lemma nested_loop_entries:
  assumes "nested_loop R cf froms front es cur cc c x = Some y"
    and "cc = walk_cost (hop_cost (rr_map R) cf) cur"
  shows "c x = Some y \<or> (\<exists>pre i suf. cur @ es = pre @ i # suf \<and> x = (cf_rAttrs cf, i, front) \<and>
    y = (walk_cost (hop_cost (rr_map R) cf) (pre @ [i]), pre @ [i]))"
  using assms
proof (induction es arbitrary: cur cc c)
  case (Cons e es)
  let ?k = "hop_cost (rr_map R) cf"
  define cc' where "cc' = walk_cost ?k (cur @ [e])"
  define c' where "c' = (if e \<in> froms then cache_hop (rr_caching R) (cf_rAttrs cf) e front cc' (cur @ [e]) c else c)"
  have cc: "(if cur \<noteq> [] then cc + cost_call (rr_map R) cf (Some e) (Some (edge_getTo (tm_g (rr_map R)) e)) (last cur) else cc) = cc'"
    using Cons.prems(2) walk_cost_snoc [of cur ?k e] by (simp add: cc'_def hop_cost_def [abs_def])
  have "nested_loop R cf froms front es (cur @ [e]) cc' c' x = Some y"
    using Cons.prems(1) unfolding nested_loop.simps Let_def cc c'_def by (simp only: cost_call_start add_0_left)
  then consider "c' x = Some y" | "\<exists>pre i suf. (cur @ [e]) @ es = pre @ i # suf \<and> x = (cf_rAttrs cf, i, front) \<and>
      y = (walk_cost ?k (pre @ [i]), pre @ [i])"
    using Cons.IH [OF _ cc'_def] by blast
  then show ?case
  proof cases
    case 1
    then have "c x = Some y \<or> x = (cf_rAttrs cf, e, front) \<and> y = (cc', cur @ [e])"
      by (auto simp: c'_def cache_hop_def split: if_splits)
    then show ?thesis by (auto simp: cc'_def)
  next
    case 2
    then show ?thesis by simp
  qed
qed simp

text \<open>
  What the cache promises for one job: an entry for a target \<open>t\<close> is a walk with its cost towards the group
  of \<open>t\<close>; with \<open>x\<close>, a cheapest one.
\<close>

definition cost_to :: "'p transit_map \<Rightarrow> job \<Rightarrow> (edge_ref \<Rightarrow> group_ref option) \<Rightarrow> edge_ref \<Rightarrow> edge_ref \<Rightarrow> edge_ref \<Rightarrow> rat" where
  "cost_to M J tg t = hop_cost M (make_cost J (tg t) 0)"

definition cache_ok :: "bool \<Rightarrow> 'p router \<Rightarrow> job \<Rightarrow> (edge_ref \<Rightarrow> group_ref option) \<Rightarrow> route_cache \<Rightarrow> bool" where
  "cache_ok x R J tg c \<longleftrightarrow> (\<forall>s t v es. c (job_attrs J, s, t) = Some (v, es) \<longrightarrow>
     best_walk x (tm_g (rr_map R)) (cost_to (rr_map R) J tg t) s t v es)"

lemma hop_cost_make [simp]: "hop_cost M (make_cost J (tg t) m) = cost_to M J tg t"
  by (auto simp: hop_cost_def cost_to_def make_cost_def cost_call_def fun_eq_iff)

lemma make_cost_sel [simp]:
  "cf_rAttrs (make_cost J tg m) = job_attrs J" "cf_rOpts (make_cost J tg m) = job_opts J" "cf_inf (make_cost J tg m) = m"
  by (simp_all add: make_cost_def pen_cost_def edge_cost_def)

lemma nestedCache_ok:
  assumes ok: "cache_ok x R J tg c"
    and best: "best_walk x (tm_g (rr_map R)) (cost_to (rr_map R) J tg t) s t v el"
  shows "cache_ok x R J tg (nestedCache R el froms (make_cost J (tg t) m) c)"
proof (cases "rr_caching R \<and> el \<noteq> []")
  case True
  let ?k = "cost_to (rr_map R) J tg t" let ?cf = "make_cost J (tg t) m"
  have hd: "hd el = t" using best by (simp add: best_walk_def)
  have "best_walk x (tm_g (rr_map R)) (cost_to (rr_map R) J tg t') s' t' v' es"
    if new: "nested_loop R ?cf froms t el [] 0 c (job_attrs J, s', t') = Some (v', es)" for s' t' v' es
  proof -
    consider "c (job_attrs J, s', t') = Some (v', es)"
      | pre suf where "el = pre @ s' # suf" "t' = t" "v' = walk_cost ?k (pre @ [s'])" "es = pre @ [s']"
      using nested_loop_entries [OF new] by auto
    then show ?thesis
    proof cases
      case 1
      then show ?thesis using ok by (simp add: cache_ok_def)
    next
      case 2
      then show ?thesis using best_walk_part [of x "tm_g (rr_map R)" ?k s t v pre s' suf] best by simp
    qed
  qed
  then show ?thesis using True hd by (simp add: nestedCache_def cache_ok_def)
next
  case False
  then show ?thesis using ok by (auto simp: nestedCache_def)
qed

section \<open>The hops\<close>

definition cached_hop :: "'p router \<Rightarrow> routing_attributes \<Rightarrow> route_cache \<Rightarrow> edge_ref \<Rightarrow> edge_ref \<Rightarrow> (rat \<times> edge_ref list) option" where
  "cached_hop R ra c frm t = (if rr_caching R then c (ra, frm, t) else None)"

lemma getCachedHops_eq:
  assumes "distinct tos"
  shows "getCachedHops R ra c frm tos els costs =
    (filter (\<lambda>t. cached_hop R ra c frm t = None) tos,
     \<lambda>t. if t \<in> set tos then (case cached_hop R ra c frm t of None \<Rightarrow> els t | Some (v, l) \<Rightarrow> Some l) else els t,
     \<lambda>t. if t \<in> set tos then (case cached_hop R ra c frm t of None \<Rightarrow> costs t | Some (v, l) \<Rightarrow> Some v) else costs t)"
  using assms
proof (induction tos rule: rev_induct)
  case (snoc t tos)
  then show ?case
    unfolding getCachedHops_def fold_append cached_hop_def [symmetric]
    by (auto simp: fun_eq_iff split: option.splits)
qed (simp add: getCachedHops_def)

lemma split_hops_eq:
  "split_hops g ro infty frm ts costs =
    (filter (\<lambda>t. \<not> no_hop g ro frm t) ts, \<lambda>t. if t \<in> set ts \<and> no_hop g ro frm t then Some infty else costs t)"
  by (induction ts rule: rev_induct) (auto simp: split_hops_def fun_eq_iff)

text \<open>
  A hop is a walk with its cost, or it has the infinite cost and no edges, because of the shortcut or since the search found none.
  With \<open>x\<close>, the walk is a cheapest one, and the search found none since no walk is cheaper than the infinite cost.
\<close>

definition hop_ok ::
  "bool \<Rightarrow> 'p router \<Rightarrow> job \<Rightarrow> (edge_ref \<Rightarrow> edge_ref \<Rightarrow> rat) \<Rightarrow> rat \<Rightarrow> edge_ref \<Rightarrow> edge_ref \<Rightarrow> rat \<Rightarrow> edge_ref list \<Rightarrow> bool" where
  "hop_ok x R J k infty frm t v es \<longleftrightarrow>
     best_walk x (tm_g (rr_map R)) k frm t v es \<or>
     v = infty \<and> es = [] \<and>
       (no_hop (tm_g (rr_map R)) (job_opts J) frm t \<or>
        (x \<longrightarrow> (\<forall>es'. walk (tm_g (rr_map R)) es' \<longrightarrow> hd es' = t \<longrightarrow> last es' = frm \<longrightarrow> infty \<le> walk_cost k es')))"

section \<open>Straight-line estimates\<close>

text \<open>A transition costs at least the metres of the edge it leaves, scaled by the factor of its level.\<close>

lemma level_lt: "unat (k :: 3 word) < 8"
  using unsigned_less [of k, where ?'a = nat] by simp

lemma level_dists_sum: "(\<Sum>i\<leftarrow>[0..<8]. level_dists pl ! i * f i) = metres (ep_length pl) * f (unat (ep_lvl pl))"
proof -
  have "unat (ep_lvl pl) < 8" by (rule level_lt)
  then show ?thesis
    by (simp add: level_dists_def upt_rec numeral_eq_Suc less_Suc_eq) (auto simp: numeral_eq_Suc)
qed

lemma cost_call_least:
  assumes sane: "sane M (cf_rOpts cf)" and e: "e \<in> dom (edge_heap (tm_g M))"
  shows "metres (ep_length (epl (tm_g M) e)) * levelPunish (cf_rOpts cf) ! unat (ep_lvl (epl (tm_g M) e)) \<le> cost_call M cf (Some e) n b"
proof -
  have "0 \<le> metres (ep_length (epl (tm_g M) e))" using sane e by (simp add: sane_def)
  then show ?thesis
    using sane line_cmp_nonneg
    by (auto simp: cost_call_def edge_cost_def Let_def sane_def level_dists_sum add.assoc
        intro!: add_increasing2 add_nonneg_nonneg mult_nonneg_nonneg split: option.splits)
qed

text \<open>
  When straight lines never overestimate: higher levels are not cheaper, no edge that has a length is below the least level of its
  component, as \<open>write_components\<close> leaves it (the dummy edges of \<open>writeSelfEdgs\<close> have no length), and leaving an edge never brings a
  route nearer to a point than the metres of the edge.
\<close>

definition rising_levels :: "routing_options \<Rightarrow> bool" where
  "rising_levels ro \<longleftrightarrow> (\<forall>j<8. \<forall>i\<le>j. levelPunish ro ! i \<le> levelPunish ro ! j)"

definition comp_levels :: "'p transit_map \<Rightarrow> bool" where
  "comp_levels M \<longleftrightarrow> (\<forall>e\<in>dom (edge_heap (tm_g M)).
     np_component (npl (tm_g M) (edge_getFrom (tm_g M) e)) = np_component (npl (tm_g M) (edge_getTo (tm_g M) e)) \<and>
     (metres (ep_length (epl (tm_g M) e)) \<noteq> 0 \<longrightarrow> component_lvl M (edge_getFrom (tm_g M) e) \<le> ep_lvl (epl (tm_g M) e)))"

definition long_edges :: "'p transit_map \<Rightarrow> bool" where
  "long_edges M \<longleftrightarrow> (\<forall>e\<in>dom (edge_heap (tm_g M)). \<forall>c.
     dist_to (tm_geo M) c (np_geom (npl (tm_g M) (edge_getFrom (tm_g M) e))) \<le>
     metres (ep_length (epl (tm_g M) e)) + dist_to (tm_geo M) c (np_geom (npl (tm_g M) (edge_getTo (tm_g M) e))))"

definition straight_lines :: "'p router \<Rightarrow> job \<Rightarrow> bool" where
  "straight_lines R J \<longleftrightarrow> rising_levels (job_opts J) \<and> comp_levels (rr_map R) \<and> long_edges (rr_map R)"

lemma dist_heur_consistent:
  assumes wf: "wf_graph (tm_g M)" and sane: "sane M (job_opts J)" and long: "long_edges M" and frm: "frm \<subseteq> dom (edge_heap (tm_g M))"
    and lvl: "\<And>e es d. path (tr_search M (make_cost J tg m)) frm (e # es) d \<Longrightarrow>
      metres (ep_length (epl (tm_g M) e)) \<noteq> 0 \<Longrightarrow> levelPunish (job_opts J) ! unat lvl \<le> levelPunish (job_opts J) ! unat (ep_lvl (epl (tm_g M) e))"
  shows "consistent_heur (tr_search M (make_cost J tg m)) frm (dist_heur M center lvl (job_opts J) ts)"
  unfolding consistent_heur_def
proof (intro allI impI)
  fix e es d n e'
  let ?cf = "make_cost J tg m" let ?g = "tm_g M" let ?lp = "levelPunish (job_opts J)"
  assume p: "path (tr_search M ?cf) frm (e # es) d" and t: "turn (tr_search M ?cf) e n e'"
  have e: "e \<in> dom (edge_heap ?g)" using path_walk [OF p] walk_live [OF wf, of "e # es"] frm by auto
  have "legal ?g e' e" using t by (simp add: tr_turn)
  then have from_e': "edge_getFrom ?g e' = edge_getTo ?g e" using legal_from [OF wf e] by blast
  have lp: "0 \<le> ?lp ! unat lvl" using sane level_lt [of lvl] by (simp add: sane_def)
  have len: "0 \<le> metres (ep_length (epl ?g e))" using sane e by (simp add: sane_def)
  have cost: "metres (ep_length (epl ?g e)) * ?lp ! unat (ep_lvl (epl ?g e)) \<le> cost_call M ?cf (Some e) (Some n) e'"
    using cost_call_least [of M ?cf e "Some n" e'] sane e by simp
  have up: "metres (ep_length (epl ?g e)) * ?lp ! unat lvl \<le> metres (ep_length (epl ?g e)) * ?lp ! unat (ep_lvl (epl ?g e))"
    using mult_left_mono [OF lvl [OF p] len] by (cases "metres (ep_length (epl ?g e)) = 0") simp_all
  have "x - y \<le> cost_call M ?cf (Some e) (Some n) e' + (z - y)"
    if near: "x \<le> metres (ep_length (epl ?g e)) * ?lp ! unat lvl + z" for x y z
    using near cost up by linarith
  moreover have "dist_to (tm_geo M) c (np_geom (npl ?g (edge_getFrom ?g e))) * ?lp ! unat lvl \<le>
      metres (ep_length (epl ?g e)) * ?lp ! unat lvl + dist_to (tm_geo M) c (np_geom (npl ?g (edge_getFrom ?g e'))) * ?lp ! unat lvl" for c
    using mult_right_mono [OF long [unfolded long_edges_def, THEN bspec, OF e, THEN spec] lp, of c]
    by (simp add: from_e' distrib_right)
  ultimately show "dist_heur M center lvl (job_opts J) ts e
      \<le> costFunc (tr_search M ?cf) (Some e) (Some n) e' + dist_heur M center lvl (job_opts J) ts e'"
    unfolding dist_heur_def Let_def tr_search_sel by blast
qed

lemma pilot_consistent:
  assumes "wf_graph (tm_g (rr_map R))" "sane (rr_map R) (job_opts J)" "straight_lines R J" "frm \<subseteq> dom (edge_heap (tm_g (rr_map R)))"
  shows "consistent_heur (tr_search (rr_map R) (make_cost J tg m)) frm (dist_heur (rr_map R) center 0 (job_opts J) ts)"
  using assms(3) level_lt by (intro dist_heur_consistent [OF assms(1,2) _ assms(4)]) (auto simp: straight_lines_def rising_levels_def)

lemma walk_component:
  assumes "comp_levels M" "wf_graph (tm_g M)"
  shows "walk (tm_g M) es \<Longrightarrow> set es \<subseteq> dom (edge_heap (tm_g M)) \<Longrightarrow>
    np_component (npl (tm_g M) (edge_getFrom (tm_g M) (hd es))) = np_component (npl (tm_g M) (edge_getFrom (tm_g M) (last es)))"
proof (induction es rule: induct_list012)
  case (3 e' e es)
  then have e: "e \<in> dom (edge_heap (tm_g M))" "legal (tm_g M) e' e" by simp_all
  then have "np_component (npl (tm_g M) (edge_getFrom (tm_g M) e')) = np_component (npl (tm_g M) (edge_getFrom (tm_g M) e))"
    using legal_from [OF assms(2)] assms(1) by (simp add: comp_levels_def)
  then show ?case using 3 by simp
qed auto

lemma hops_consistent:
  assumes wf: "wf_graph (tm_g (rr_map R))" and sane: "sane (rr_map R) (job_opts J)" and st: "straight_lines R J"
    and frm: "frm \<in> dom (edge_heap (tm_g (rr_map R)))"
  shows "consistent_heur (tr_search (rr_map R) (make_cost J tg m)) {frm}
    (dist_heur (rr_map R) center (component_lvl (rr_map R) (edge_getFrom (tm_g (rr_map R)) frm)) (job_opts J) ts)"
proof (rule dist_heur_consistent [OF wf sane])
  let ?M = "rr_map R" let ?g = "tm_g (rr_map R)"
  fix e es d
  assume p: "path (tr_search ?M (make_cost J tg m)) {frm} (e # es) d" and long: "metres (ep_length (epl ?g e)) \<noteq> 0"
  then have w: "walk ?g (e # es)" "last (e # es) = frm" "set (e # es) \<subseteq> dom (edge_heap ?g)"
    using path_walk [OF p] walk_live [OF wf, of "e # es"] frm by auto
  then have "np_component (npl ?g (edge_getFrom ?g e)) = np_component (npl ?g (edge_getFrom ?g frm))"
    using walk_component [OF _ wf w(1,3)] st by (simp add: straight_lines_def)
  then have "component_lvl ?M (edge_getFrom ?g e) = component_lvl ?M (edge_getFrom ?g frm)" by (simp only: component_lvl_def)
  moreover have "e \<in> dom (edge_heap ?g)" using w(3) by simp
  then have "component_lvl ?M (edge_getFrom ?g e) \<le> ep_lvl (epl ?g e)"
    using st long unfolding straight_lines_def comp_levels_def by blast
  ultimately have "component_lvl ?M (edge_getFrom ?g frm) \<le> ep_lvl (epl ?g e)" by simp
  then show "levelPunish (job_opts J) ! unat (component_lvl ?M (edge_getFrom ?g frm)) \<le> levelPunish (job_opts J) ! unat (ep_lvl (epl ?g e))"
    using st level_lt by (simp add: straight_lines_def rising_levels_def word_le_nat_alt)
qed (use st frm in \<open>simp_all add: straight_lines_def\<close>)

section \<open>Every hop is a walk\<close>

lemma nestedCaches_ok:
  assumes "cache_ok x R J tg c"
    and "\<forall>t\<in>set ts. f t = [] \<or> (\<exists>s v. best_walk x (tm_g (rr_map R)) (cost_to (rr_map R) J tg t) s t v (f t))" "\<forall>t\<in>set ts. tg t = tgGrp"
  shows "cache_ok x R J tg (fold (\<lambda>t. nestedCache R (f t) froms (make_cost J tgGrp m)) ts c)"
  using assms
proof (induction ts arbitrary: c)
  case (Cons t ts)
  have "cache_ok x R J tg (nestedCache R (f t) froms (make_cost J tgGrp m) c)"
  proof (cases "f t = []")
    case True
    then show ?thesis using Cons.prems(1) by (simp add: nestedCache_def)
  next
    case False
    then show ?thesis using Cons.prems nestedCache_ok [OF Cons.prems(1)] by fastforce
  qed
  then show ?case using Cons by simp
qed simp

lemma searched_hop:
  assumes spec: "many_found x (tr_search (rr_map R) cf) {frm} ts ret paths" and t: "t \<in> ts"
    and sane: "sane (rr_map R) (cf_rOpts cf)" and wf: "wf_graph (tm_g (rr_map R))" and frm: "frm \<in> dom (edge_heap (tm_g (rr_map R)))"
  shows "\<exists>v. ret t = Some v \<and>
    hop_ok x R J (hop_cost (rr_map R) cf) (cf_inf cf) frm t v (case paths t of None \<Rightarrow> [] | Some (nodes, es) \<Rightarrow> es)"
proof -
  let ?G = "tr_search (rr_map R) cf" let ?g = "tm_g (rr_map R)" let ?k = "hop_cost (rr_map R) cf"
  consider "x \<longrightarrow> (\<forall>es d. \<not> path ?G {frm} (t # es) d)" "ret t = Some (cf_inf cf)" "paths t = None"
    | v nodes es where "ret t = Some v" "paths t = Some (nodes, t # es)" "path ?G {frm} (t # es) v"
        "x \<longrightarrow> (\<forall>es' d. path ?G {frm} (t # es') d \<longrightarrow> v \<le> d)"
    using spec [unfolded many_found_def tr_search_sel, THEN conjunct2, THEN conjunct2, THEN bspec, OF t]
    by (elim disjE conjE exE) metis+
  then show ?thesis
  proof cases
    case 1
    have "cf_inf cf \<le> walk_cost ?k es'" if x: "x" and es': "walk ?g es'" "hd es' = t" "last es' = frm" for es'
    proof (rule ccontr)
      assume "\<not> ?thesis"
      then have "path ?G {frm} es' (walk_cost ?k es')" using walk_path [OF wf sane _ es'(1), of "{frm}"] es' frm by simp
      then show False using 1(1) x es'(1,2) by (cases es') auto
    qed
    then show ?thesis using 1 by (simp add: hop_ok_def)
  next
    case 2
    have "best_walk x ?g ?k (last (t # es)) t v (t # es)" by (rule search_best_walk [OF wf sane _ 2(3)]) (use frm 2(4) in blast)+
    moreover have "last (t # es) = frm" using path_walk [OF 2(3)] by simp
    ultimately show ?thesis using 2(1,2) by (simp add: hop_ok_def)
  qed
qed

lemma hops_ok:
  assumes tp: "route_queue (rr_top R)" and wf: "wf_graph (tm_g (rr_map R))" and frm: "frm \<in> dom (edge_heap (tm_g (rr_map R)))"
    and sane: "sane (rr_map R) (job_opts J)" and st: "x \<longrightarrow> straight_lines R J" and dist: "distinct tos"
    and ok: "cache_ok x R J tg c" and tg: "\<forall>t\<in>set tos. tg t = tgGrp" and fresh: "\<forall>t\<in>set tos. els t = Some []"
  shows "\<exists>els' costs' c'. hops R J frm froms tos tgGrp els costs hb c = Some (els', costs', c') \<and> cache_ok x R J tg c' \<and>
    (\<forall>t\<in>set tos. \<exists>v es. costs' t = Some v \<and> els' t = Some es \<and> hop_ok x R J (cost_to (rr_map R) J tg t) (maxD hb) frm t v es)"
proof -
  let ?g = "tm_g (rr_map R)" let ?hit = "cached_hop R (job_attrs J) c frm" let ?cf = "make_cost J tgGrp (maxD hb)"
  define els1 where "els1 = (\<lambda>t. if t \<in> set tos then (case ?hit t of None \<Rightarrow> els t | Some (v, l) \<Rightarrow> Some l) else els t)"
  define costs1 where "costs1 = (\<lambda>t. if t \<in> set tos then (case ?hit t of None \<Rightarrow> costs t | Some (v, l) \<Rightarrow> Some v) else costs t)"
  define new where "new = filter (\<lambda>t. ?hit t = None) tos"
  define costs2 where "costs2 = (\<lambda>t. if t \<in> set new \<and> no_hop ?g (job_opts J) frm t then Some (maxD hb) else costs1 t)"
  define rem where "rem = filter (\<lambda>t. \<not> no_hop ?g (job_opts J) frm t) new"
  have eqs: "getCachedHops R (job_attrs J) c frm tos els costs = (new, els1, costs1)"
    "split_hops ?g (job_opts J) (maxD hb) frm new costs1 = (rem, costs2)"
    by (simp_all only: getCachedHops_eq [OF dist] new_def els1_def costs1_def split_hops_eq rem_def costs2_def)
  have rem: "t \<in> set tos" "?hit t = None" "els1 t = Some []" if "t \<in> set rem" for t
    using that fresh by (auto simp: rem_def new_def els1_def)
  have kept: "\<exists>v es. costs2 t = Some v \<and> els1 t = Some es \<and> hop_ok x R J (cost_to (rr_map R) J tg t) (maxD hb) frm t v es"
    if t: "t \<in> set tos" "t \<notin> set rem" for t
  proof (cases "?hit t")
    case None
    then have "no_hop ?g (job_opts J) frm t" "t \<in> set new" using t by (auto simp: rem_def new_def)
    then show ?thesis using None t fresh by (simp add: costs2_def els1_def hop_ok_def)
  next
    case (Some p)
    then obtain v es where p: "?hit t = Some (v, es)" by (cases p) auto
    then have "best_walk x ?g (cost_to (rr_map R) J tg t) frm t v es"
      using ok by (auto simp: cached_hop_def cache_ok_def split: if_splits)
    moreover have "t \<notin> set new" using p by (simp add: new_def)
    ultimately show ?thesis using p t by (simp add: costs2_def costs1_def els1_def hop_ok_def)
  qed
  show ?thesis
  proof (cases "rem = []")
    case True
    then have "hops R J frm froms tos tgGrp els costs hb c = Some (els1, costs2, c)"
      by (simp add: hops_def Let_def eqs)
    then show ?thesis using kept True ok by auto
  next
    case False
    let ?G = "tr_search (rr_map R) ?cf"
    have cons: "x \<longrightarrow> consistent_heur ?G {frm} (dist_heur (rr_map R) (rr_center R) (component_lvl (rr_map R) (edge_getFrom ?g frm)) (job_opts J) rem)"
      using hops_consistent [OF wf sane _ frm] st by blast
    obtain ret paths where s: "shortestPath_many (rr_top R) ?G
        (dist_heur (rr_map R) (rr_center R) (component_lvl (rr_map R) (edge_getFrom ?g frm)) (job_opts J) rem) frm (set rem) = Some (ret, paths)"
      and spec: "many_found x ?G {frm} (set rem) ret paths"
      using shortestPath_many_found [OF tp tr_closed [OF wf] frm cons, of "set rem"] by (metis finite_set)
    define els2 where "els2 = (\<lambda>t. case paths t of None \<Rightarrow> els1 t | Some (nodes, es) \<Rightarrow> Some ((case els1 t of None \<Rightarrow> [] | Some l \<Rightarrow> l) @ es))"
    define c2 where "c2 = fold (\<lambda>t. nestedCache R (case els2 t of None \<Rightarrow> [] | Some l \<Rightarrow> l) froms ?cf) rem c"
    have h: "hops R J frm froms tos tgGrp els costs hb c = Some (els2, costs2 ++ ret, c2)"
      using False s by (simp add: hops_def Let_def eqs els2_def c2_def)
    have found: "\<exists>v es. ret t = Some v \<and> els2 t = Some es \<and> hop_ok x R J (cost_to (rr_map R) J tg t) (maxD hb) frm t v es" if t: "t \<in> set rem" for t
    proof -
      have k: "hop_cost (rr_map R) ?cf = cost_to (rr_map R) J tg t" using tg rem(1) [OF t] hop_cost_make by metis
      show ?thesis
        using searched_hop [OF spec t _ wf frm, where J = J] rem [OF t] sane
        by (cases "paths t") (auto simp: els2_def k)
    qed
    have "cache_ok x R J tg c2"
      unfolding c2_def
    proof (rule nestedCaches_ok [OF ok])
      show "\<forall>t\<in>set rem. (case els2 t of None \<Rightarrow> [] | Some l \<Rightarrow> l) = [] \<or>
          (\<exists>s v. best_walk x ?g (cost_to (rr_map R) J tg t) s t v (case els2 t of None \<Rightarrow> [] | Some l \<Rightarrow> l))"
        using found by (fastforce simp: hop_ok_def)
      show "\<forall>t\<in>set rem. tg t = tgGrp" using tg rem(1) by blast
    qed
    moreover have "\<exists>v es. (costs2 ++ ret) t = Some v \<and> els2 t = Some es \<and> hop_ok x R J (cost_to (rr_map R) J tg t) (maxD hb) frm t v es"
      if t: "t \<in> set tos" for t
    proof (cases "t \<in> set rem")
      case True
      then show ?thesis using found by (fastforce simp: map_add_def)
    next
      case nrem: False
      then have "ret t = None" "paths t = None" using spec by (auto simp: many_found_def)
      then show ?thesis using kept [OF t nrem] by (simp add: map_add_def els2_def)
    qed
    ultimately show ?thesis using h by blast
  qed
qed

section \<open>The pilot run\<close>

lemma getHopBand_ok:
  assumes tp: "route_queue (rr_top R)" and wf: "wf_graph (tm_g (rr_map R))" and frm: "ec_e ` set a \<subseteq> dom (edge_heap (tm_g (rr_map R)))"
    and sane: "sane (rr_map R) (job_opts J)" and st: "x \<longrightarrow> straight_lines R J"
    and ok: "cache_ok x R J tg c" and tg: "\<forall>t\<in>set b. tg (ec_e t) = target_group (tm_g (rr_map R)) b"
  shows "\<exists>hb c'. getHopBand R J a b c = Some (hb, c') \<and> cache_ok x R J tg c' \<and> 0 \<le> maxD hb"
proof -
  let ?g = "tm_g (rr_map R)"
  let ?m = "pending_dist (rr_map R) a b * 50" let ?cf = "make_cost J (target_group ?g b) ?m"
  let ?G = "tr_search (rr_map R) ?cf" let ?frm = "edge_set (map ec_e a)" let ?to = "edge_set (map ec_e b)"
  let ?heur = "dist_heur (rr_map R) (rr_center R) 0 (job_opts J) ?to"
  have sets: "set ?frm = ec_e ` set a" "set ?to = ec_e ` set b" by (simp_all add: edge_set_def)
  have sub: "set ?frm \<subseteq> dom (edge_heap ?g)" using frm sets by simp
  have cons: "x \<longrightarrow> consistent_heur ?G (set ?frm) ?heur" using pilot_consistent [OF wf sane _ sub] st by blast
  obtain v nodes el where s: "shortestPath (rr_top R) ?G ?heur ?frm (set ?to) = Some (v, nodes, el)"
    and r: "el = [] \<and> v = infC ?G \<and> (x \<longrightarrow> (\<forall>t\<in>set ?to. \<forall>es d. \<not> path ?G (set ?frm) (t # es) d)) \<or> (\<exists>t es. el = t # es \<and> t \<in> set ?to \<and> path ?G (set ?frm) el v \<and>
        (x \<longrightarrow> (\<forall>t'\<in>set ?to. \<forall>es' d. path ?G (set ?frm) (t' # es') d \<longrightarrow> v + ?heur t \<le> d + ?heur t')))"
    using shortestPath_found [OF tp tr_closed [OF wf] sub cons, of "set ?to"] by (elim exE conjE) (rule that)
  have kept: "cache_ok x R J tg (nestedCache R el (set ?frm) ?cf c)" if el: "el \<noteq> []"
  proof -
    obtain t es where t: "el = t # es" "t \<in> set ?to" "path ?G (set ?frm) (t # es) v"
      and least: "\<And>es' d. x \<Longrightarrow> path ?G (set ?frm) (t # es') d \<Longrightarrow> v \<le> d"
      using r el by fastforce
    have "tg t = target_group ?g b" using t(2) tg sets by auto
    then show ?thesis
      using search_best_walk [OF wf _ sub t(3) least] sane nestedCache_ok [OF ok, of t "last el" v el "set ?frm" ?m] t(1)
        hop_cost_make [of "rr_map R" J tg t ?m] by simp
  qed
  show ?thesis
  proof (cases "compConned ?g a b")
    case True
    then have e: "getHopBand R J a b c = (if length el < 2 \<and> ?m \<le> v then Some (\<lparr>minD = 0, maxD = 1, nearest = None, maxInGrpDist = 0\<rparr>, c)
        else Some (\<lparr>minD = v, maxD = max v (pending_dist (rr_map R) a b * levelPunish (job_opts J) ! 2) * 3 + fullTurnPunishFac (job_opts J) +
            platformUnmatchedPen (job_opts J), nearest = Some (hd el), maxInGrpDist = fold (\<lambda>e m.
              let d = edge_dist (rr_map R) (edge_getFrom ?g (hd el)) (edge_getTo ?g e) in if m < d then d else m) ?to 0\<rparr>,
          nestedCache R el (set ?frm) ?cf c))"
      using s by (simp add: getHopBand_def Let_def)
    show ?thesis
    proof (cases "length el < 2 \<and> ?m \<le> v")
      case True
      then show ?thesis using e ok by simp
    next
      case False
      then have el: "el \<noteq> []" using r by auto
      then have "path ?G (set ?frm) el v" using r by blast
      then have "walk ?g el" "last el \<in> dom (edge_heap ?g)" "v = walk_cost (hop_cost (rr_map R) ?cf) el" using path_walk sub by blast+
      then have "0 \<le> v" using hop_cost_nonneg [OF wf, of ?cf el] sane by simp
      moreover have "v * 3 \<le> max v (pending_dist (rr_map R) a b * levelPunish (job_opts J) ! 2) * 3" by simp
      ultimately have "0 \<le> max v (pending_dist (rr_map R) a b * levelPunish (job_opts J) ! 2) * 3 + fullTurnPunishFac (job_opts J) + platformUnmatchedPen (job_opts J)"
        using sane unfolding sane_def by linarith
      then show ?thesis using e False kept [OF el] by simp
    qed
  next
    case False
    then show ?thesis using ok by (simp add: getHopBand_def Let_def)
  qed
qed

end
