(* ===== verification/Graph_Steps.thy ===== *)
theory Graph_Steps
  imports Contraction
begin

text \<open>
  Building a graph step by step: adding nodes and edges and writing payloads keep the nodes and edges that are there, and change the
  map of arcs at one place.
\<close>

definition extends_graph :: "('n, 'e) dir_graph \<Rightarrow> ('n, 'e) dir_graph \<Rightarrow> bool" where
  "extends_graph g g' \<longleftrightarrow> wf_graph g' \<and> dom (node_heap g) \<subseteq> dom (node_heap g') \<and>
     (\<forall>x y. edge_heap g x = Some y \<longrightarrow> (\<exists>y'. edge_heap g' x = Some y' \<and> edge_from y' = edge_from y \<and> edge_to y' = edge_to y))"

lemma extends_refl: "wf_graph g \<Longrightarrow> extends_graph g g"
  by (auto simp: extends_graph_def)

lemma extends_trans: "extends_graph a b \<Longrightarrow> extends_graph b c \<Longrightarrow> extends_graph a c"
  unfolding extends_graph_def by (metis (no_types, opaque_lifting) order_trans)

lemma addNd_facts:
  assumes wf: "wf_graph g"
  shows "fst (addNd p g) = next_node g" "extends_graph g (snd (addNd p g))" "\<not> live g (next_node g)"
    "dom (node_heap (snd (addNd p g))) = insert (next_node g) (dom (node_heap g))" "arcs (snd (addNd p g)) = arcs g"
proof -
  show fresh: "\<not> live g (next_node g)" using wf_node(1) [OF wf] by (meson domD less_irrefl)
  show "fst (addNd p g) = next_node g" "dom (node_heap (snd (addNd p g))) = insert (next_node g) (dom (node_heap g))"
    by (simp_all add: addNd_def)
  show "extends_graph g (snd (addNd p g))" using wf_addNd [OF wf, of p] by (auto simp: extends_graph_def addNd_def)
  have heap: "edge_heap (snd (addNd p g)) = edge_heap g" by (simp add: addNd_def)
  show "arcs (snd (addNd p g)) = arcs g"
    by (rule map_eqI) (auto simp: arcs_Some_iff [OF wf] arcs_Some_iff [OF wf_addNd [OF wf]] heap)
qed

lemma addEdg_facts:
  assumes wf: "wf_graph g" and f: "live g f" and t: "live g t"
  shows "extends_graph g (snd (addEdg f t p g))" "dom (node_heap (snd (addEdg f t p g))) = dom (node_heap g)"
    "\<exists>y. edge_heap (snd (addEdg f t p g)) (fst (addEdg f t p g)) = Some y \<and> edge_from y = f \<and> edge_to y = t"
proof -
  show d: "dom (node_heap (snd (addEdg f t p g))) = dom (node_heap g)" using live_addEdg [OF assms] by blast
  show "extends_graph g (snd (addEdg f t p g))"
    using wf_addEdg [OF assms] edge_heap_addEdg [OF assms] d by (auto simp: extends_graph_def)
  show "\<exists>y. edge_heap (snd (addEdg f t p g)) (fst (addEdg f t p g)) = Some y \<and> edge_from y = f \<and> edge_to y = t"
  proof (cases "getEdg g f t")
    case None
    then show ?thesis by (simp add: addEdg_eq [OF assms] with_edge_def)
  next
    case (Some e)
    then have "addEdg f t p g = (e, g)" by (simp add: addEdg_def)
    then show ?thesis using Some getEdg_Some_iff [OF wf f] by simp
  qed
qed

lemma set_epl_facts:
  assumes wf: "wf_graph g" and x: "edge_heap g x = Some y"
  shows "extends_graph g (set_epl x p g)" "dom (node_heap (set_epl x p g)) = dom (node_heap g)"
    "arcs (set_epl x p g) = (arcs g)((edge_from y, edge_to y) \<mapsto> p)"
  using wf_set_epl [OF wf x] arcs_set_epl [OF wf x] x by (auto simp: extends_graph_def set_epl_def)

end
