(* ===== verification/Router.thy ===== *)
theory Router
  imports Router_Hops Graph_Steps
begin

text \<open>
  \<^verbatim>\<open>router/router.cpp\<close>, \<^verbatim>\<open>router/{graph,node_payload}.h\<close> and \<^verbatim>\<open>router/edge_payload.{h,cpp}\<close>: choosing one candidate for each stop.
  \<open>route\<close> builds a graph with one node per candidate and one edge per hop, and searches it for the cheapest path from a source
  in front of the first group to a sink behind the last one.
\<close>

section \<open>The graph of candidates\<close>

text \<open>A node has the transit node it stands for; the source and the sink have none.  The edges of a hop are listed backwards.\<close>

record comb_edge =
  ce_cost :: rat
  ce_edges :: "edge_ref list"
  ce_start :: "node_ref option"
  ce_end :: "node_ref option"
  ce_startE :: "edge_ref option"
  ce_endE :: "edge_ref option"

type_synonym comb_graph = "(node_ref option, comb_edge) dir_graph"

definition comb_edge_init :: comb_edge where
  "comb_edge_init = \<lparr>ce_cost = 0, ce_edges = [], ce_start = None, ce_end = None, ce_startE = None, ce_endE = None\<rparr>"

definition comb_node_geom :: "'p transit_map \<Rightarrow> node_ref option \<Rightarrow> 'p option" where
  "comb_node_geom M n = (case n of None \<Rightarrow> None | Some n \<Rightarrow> Some (np_geom (npl (tm_g M) n)))"

text \<open>The hops at the ends of an edge; a hop without edges has those of its end nodes, which have to be set.\<close>

definition comb_frontHop :: "'p transit_map \<Rightarrow> comb_edge \<Rightarrow> 'p option" where
  "comb_frontHop M p =
     (if ce_edges p = [] then comb_node_geom M (ce_end p) else frontHop (epl (tm_g M) (last (ce_edges p))))"

definition comb_backHop :: "'p transit_map \<Rightarrow> comb_edge \<Rightarrow> 'p option" where
  "comb_backHop M p =
     (if ce_edges p = [] then comb_node_geom M (ce_start p) else backHop (epl (tm_g M) (hd (ce_edges p))))"

text \<open>The geometry of a hop, as it is computed on the first call.\<close>

fun edge_geoms :: "'p tr_graph \<Rightarrow> edge_ref list \<Rightarrow> node_ref option \<Rightarrow> 'p list" where
  "edge_geoms g [] l = []"
| "edge_geoms g (e # es) l =
     (let pl = epl g e;
          fwd = (Some (edge_getFrom g e) = l) \<noteq> ep_rev pl
      in (if fwd then ep_geom pl else rev (ep_geom pl)) @
         edge_geoms g es (Some (if Some (edge_getTo g e) = l then edge_getFrom g e else edge_getTo g e)))"

definition comb_geom :: "'p transit_map \<Rightarrow> comb_edge \<Rightarrow> 'p list option" where
  "comb_geom M p = (if ce_edges p = [] then None else Some (edge_geoms (tm_g M) (rev (ce_edges p)) (ce_start p)))"

section \<open>Routing\<close>

record edge_list_hop =
  eh_edges :: "edge_ref list"
  eh_cost :: rat
  eh_start :: "node_ref option"
  eh_end :: "node_ref option"

type_synonym comb_nodes = "edge_ref \<rightharpoonup> node_ref"

text \<open>\<^verbatim>\<open>cgraph.addEdg(f, t)->pl()\<close> with a write to the payload.\<close>

definition link :: "node_ref \<Rightarrow> node_ref \<Rightarrow> (comb_edge \<Rightarrow> comb_edge) \<Rightarrow> comb_graph \<Rightarrow> edge_ref \<times> comb_graph" where
  "link f t upd cg = (let (x, cg) = addEdg f t comb_edge_init cg in (x, set_epl x (upd (epl cg x)) cg))"

definition first_candidate :: "'p tr_graph \<Rightarrow> node_ref \<Rightarrow> edge_candidate \<Rightarrow> comb_nodes \<times> comb_graph \<Rightarrow> comb_nodes \<times> comb_graph" where
  "first_candidate g source i = (\<lambda>(nodes, cg).
     (let (n, cg) = addNd (Some (edge_getFrom g (ec_e i))) cg
      in (nodes(ec_e i \<mapsto> n), snd (link source n (\<lambda>p. p\<lparr>ce_cost := pen_cost (ec_pen i)\<rparr>) cg))))"

text \<open>The loop over the candidates of the next group: the nodes, the graph, the edges from \<open>eFr\<close> and the penalties.\<close>

type_synonym next_state = "comb_nodes \<times> comb_graph \<times> (edge_ref \<rightharpoonup> edge_ref) \<times> (edge_ref \<rightharpoonup> rat)"

definition next_candidate ::
  "'p tr_graph \<Rightarrow> bool \<Rightarrow> node_ref \<Rightarrow> edge_ref \<Rightarrow> node_ref \<Rightarrow> edge_candidate \<Rightarrow> next_state \<Rightarrow> next_state" where
  "next_candidate g is_last sink eFr cNodeFr to = (\<lambda>(nextNodes, cg, edges, pens).
     (let eTo = ec_e to;
          (nextNodes, cg) = (if nextNodes eTo = None
            then (let (n, cg) = addNd (Some (edge_getFrom g eTo)) cg in (nextNodes(eTo \<mapsto> n), cg))
            else (nextNodes, cg));
          n = the (nextNodes eTo);
          cg = (if is_last then snd (addEdg n sink comb_edge_init cg) else cg);
          (x, cg) = link cNodeFr n (\<lambda>p. p\<lparr>ce_start := Some (edge_getFrom g eFr), ce_startE := Some eFr,
                                          ce_end := Some (edge_getFrom g eTo), ce_endE := Some eTo\<rparr>) cg
      in (nextNodes, cg, edges(eTo \<mapsto> x), pens(eTo \<mapsto> ec_pen to))))"

text \<open>Writing a hop's edges and cost.\<close>

definition finish_edge ::
  "routing_options \<Rightarrow> (edge_ref \<rightharpoonup> edge_ref) \<Rightarrow> (edge_ref \<rightharpoonup> rat) \<Rightarrow> hop_lists \<Rightarrow> hop_costs \<Rightarrow> edge_ref \<Rightarrow> comb_graph \<Rightarrow> comb_graph" where
  "finish_edge ro edges pens els costs eTo cg =
     (let x = the (edges eTo);
          es = (case els eTo of None \<Rightarrow> [] | Some es \<Rightarrow> es);
          cost = (case costs eTo of None \<Rightarrow> 0 | Some v \<Rightarrow> v)
      in set_epl x ((epl cg x)\<lparr>ce_cost := pen_cost (the (pens eTo)) + cost,
                               ce_edges := (if popReachEdge ro \<and> es \<noteq> [] then tl es else es)\<rparr>) cg)"

definition from_edge ::
  "'p router \<Rightarrow> job \<Rightarrow> bool \<Rightarrow> node_ref \<Rightarrow> comb_nodes \<Rightarrow> edge_ref list \<Rightarrow> edge_candidate list \<Rightarrow> HopBand \<Rightarrow> edge_ref \<Rightarrow>
     comb_nodes \<times> comb_graph \<times> route_cache \<Rightarrow> (comb_nodes \<times> comb_graph \<times> route_cache) option" where
  "from_edge R J is_last sink nodes froms grp hopBand eFr = (\<lambda>(nextNodes, cg, c).
     (let g = tm_g (rr_map R);
          (nextNodes, cg, edges, pens) =
            fold (next_candidate g is_last sink eFr (the (nodes eFr))) grp (nextNodes, cg, Map.empty, Map.empty);
          tos = edge_set (map ec_e grp);
          els = (\<lambda>t. map_option (\<lambda>x. ce_edges (epl cg x)) (edges t))
      in case hops R J eFr (set froms) tos (target_group g grp) els Map.empty hopBand c of
           None \<Rightarrow> None
         | Some (els, costs, c) \<Rightarrow> Some (nextNodes, fold (finish_edge (job_opts J) edges pens els costs) tos cg, c)))"

definition route_step ::
  "'p router \<Rightarrow> job \<Rightarrow> edge_candidate list list \<Rightarrow> node_ref \<Rightarrow> nat \<Rightarrow> comb_nodes \<times> comb_graph \<times> route_cache \<Rightarrow>
     (comb_nodes \<times> comb_graph \<times> route_cache) option" where
  "route_step R J route sink i = (\<lambda>(nodes, cg, c).
     (case getHopBand R J (route ! i) (route ! (i + 1)) c of
        None \<Rightarrow> None
      | Some (hopBand, c) \<Rightarrow>
          (let froms = edge_set (map ec_e (route ! i))
           in opt_fold (from_edge R J (i = length route - 2) sink nodes froms (route ! (i + 1)) hopBand) froms
                (Map.empty, cg, c))))"

text \<open>The search over the graph of candidates; \<open>infty\<close> stands for the infinity, which no sum of costs reaches.\<close>

definition comb_search :: "rat \<Rightarrow> comb_graph \<Rightarrow> (node_ref, edge_ref, rat) search" where
  "comb_search infty cg =
     \<lparr>getFrom = edge_getFrom cg, getTo = edge_getTo cg, getAdjListOut = node_getAdjListOut cg,
      getAdjListIn = node_getAdjListIn cg, hasEdgeIn = node_hasEdgeIn cg,
      costFunc = (\<lambda>frm n to. ce_cost (epl cg to)), infC = infty\<rparr>"

definition hop_of :: "comb_edge \<Rightarrow> edge_list_hop" where
  "hop_of p = \<lparr>eh_edges = ce_edges p, eh_cost = ce_cost p, eh_start = ce_start p, eh_end = ce_end p\<rparr>"

definition read_hops :: "comb_graph \<Rightarrow> node_ref \<Rightarrow> node_ref \<Rightarrow> edge_ref list \<Rightarrow> edge_list_hop list" where
  "read_hops cg source sink res =
     map (\<lambda>x. hop_of (epl cg x)) (filter (\<lambda>x. edge_getFrom cg x \<noteq> source \<and> edge_getTo cg x \<noteq> sink) (rev res))"

text \<open>
  \<open>route\<close> on a given graph: the hops, the graph and the cache.  The result is \<^const>\<open>None\<close> when a search does not end, and when the path
  does not fill the hops, where the assertion at the end fails.
\<close>

definition route_edges ::
  "'p router \<Rightarrow> job \<Rightarrow> rat \<Rightarrow> edge_candidate list list \<Rightarrow> comb_graph \<Rightarrow> route_cache \<Rightarrow>
     (edge_list_hop list \<times> comb_graph \<times> route_cache) option" where
  "route_edges R J infty route cg c =
     (if length route < 2 then Some ([], cg, c)
      else
        (let (source, cg) = addNd None cg;
             (sink, cg) = addNd None cg;
             (nodes, cg) = fold (first_candidate (tm_g (rr_map R)) source) (route ! 0) (Map.empty, cg)
         in case opt_fold (route_step R J route sink) [0..<length route - 1] (nodes, cg, c) of
              None \<Rightarrow> None
            | Some (nodes, cg, c) \<Rightarrow>
                (case shortestPath_node_nodes (rr_top R) (comb_search infty cg) (\<lambda>_. 0) source {sink} of
                   None \<Rightarrow> None
                 | Some (cost, ns, res) \<Rightarrow>
                     (let hs = read_hops cg source sink res
                      in if length hs = length route - 1 then Some (hs, cg, c) else None))))"

definition route_fresh ::
  "'p router \<Rightarrow> job \<Rightarrow> rat \<Rightarrow> edge_candidate list list \<Rightarrow> route_cache \<Rightarrow> (edge_list_hop list \<times> route_cache) option" where
  "route_fresh R J infty route c = map_option (\<lambda>(hs, cg, c). (hs, c)) (route_edges R J infty route dir_graph_init c)"

text \<open>The candidate edges of candidate nodes: all edges leaving them, with the node's penalty.\<close>

definition edge_candidates :: "'p tr_graph \<Rightarrow> node_candidate list \<Rightarrow> edge_candidate list" where
  "edge_candidates g nCands = concat (map (\<lambda>n. map (\<lambda>e. \<lparr>ec_e = e, ec_pen = nc_pen n\<rparr>) (node_getAdjListOut g (nc_nd n))) nCands)"

definition route_nodes ::
  "'p router \<Rightarrow> job \<Rightarrow> rat \<Rightarrow> node_candidate list list \<Rightarrow> comb_graph \<Rightarrow> route_cache \<Rightarrow>
     (edge_list_hop list \<times> comb_graph \<times> route_cache) option" where
  "route_nodes R J infty route = route_edges R J infty (map (edge_candidates (tm_g (rr_map R))) route)"

definition route_nodes_fresh ::
  "'p router \<Rightarrow> job \<Rightarrow> rat \<Rightarrow> node_candidate list list \<Rightarrow> route_cache \<Rightarrow> (edge_list_hop list \<times> route_cache) option" where
  "route_nodes_fresh R J infty route c = map_option (\<lambda>(hs, cg, c). (hs, c)) (route_nodes R J infty route dir_graph_init c)"

section \<open>Building the graph\<close>

lemma link_facts:
  assumes wf: "wf_graph cg" and f: "live cg f" and t: "live cg t"
  shows "extends_graph cg (snd (link f t upd cg))" "dom (node_heap (snd (link f t upd cg))) = dom (node_heap cg)"
    "\<exists>y. edge_heap (snd (link f t upd cg)) (fst (link f t upd cg)) = Some y \<and> edge_from y = f \<and> edge_to y = t"
    "arcs (snd (link f t upd cg)) = (arcs cg)((f, t) \<mapsto> upd (case arcs cg (f, t) of None \<Rightarrow> comb_edge_init | Some p \<Rightarrow> p))"
proof -
  define x cg1 where "x = fst (addEdg f t comb_edge_init cg)" and "cg1 = snd (addEdg f t comb_edge_init cg)"
  have l: "link f t upd cg = (x, set_epl x (upd (epl cg1 x)) cg1)"
    by (simp add: link_def x_def cg1_def case_prod_beta Let_def)
  note a = addEdg_facts [OF assms, of comb_edge_init, folded x_def cg1_def]
  obtain y where y: "edge_heap cg1 x = Some y" "edge_from y = f" "edge_to y = t" using a(3) by auto
  have wf1: "wf_graph cg1" using a(1) by (simp add: extends_graph_def)
  note s = set_epl_facts [OF wf1 y(1), of "upd (epl cg1 x)"]
  show "extends_graph cg (snd (link f t upd cg))" using extends_trans [OF a(1) s(1)] l by simp
  show "dom (node_heap (snd (link f t upd cg))) = dom (node_heap cg)" using s(2) a(2) l by simp
  show "\<exists>y. edge_heap (snd (link f t upd cg)) (fst (link f t upd cg)) = Some y \<and> edge_from y = f \<and> edge_to y = t"
    using y s(1) l unfolding extends_graph_def by auto
  have "arcs cg1 (f, t) = Some (epl cg1 x)" using arcs_Some_iff [OF wf1] y by force
  moreover have "arcs cg1 = (if arcs cg (f, t) = None then (arcs cg)((f, t) \<mapsto> comb_edge_init) else arcs cg)"
    unfolding cg1_def by (rule arcs_addEdg [OF assms])
  ultimately show "arcs (snd (link f t upd cg)) = (arcs cg)((f, t) \<mapsto> upd (case arcs cg (f, t) of None \<Rightarrow> comb_edge_init | Some p \<Rightarrow> p))"
    using s(3) y l by (auto split: option.splits if_splits)
qed

section \<open>The hops from one edge\<close>

definition hop_init :: "'p tr_graph \<Rightarrow> edge_ref \<Rightarrow> edge_ref \<Rightarrow> comb_edge" where
  "hop_init g eFr t = comb_edge_init\<lparr>ce_start := Some (edge_getFrom g eFr), ce_startE := Some eFr,
     ce_end := Some (edge_getFrom g t), ce_endE := Some t\<rparr>"

text \<open>Before the candidates of the next group are added for the edge of the node \<open>f\<close>.\<close>

definition source_ready :: "node_ref \<Rightarrow> node_ref \<Rightarrow> comb_nodes \<Rightarrow> comb_graph \<Rightarrow> bool" where
  "source_ready sink f nx cg \<longleftrightarrow> wf_graph cg \<and> live cg f \<and> live cg sink \<and> f \<noteq> sink \<and>
     ran nx \<subseteq> dom (node_heap cg) - {f, sink} \<and> inj_on nx (dom nx) \<and> (\<forall>b. arcs cg (f, b) = None) \<and>
     (\<forall>n p. n \<in> ran nx \<longrightarrow> arcs cg (n, sink) = Some p \<longrightarrow> p = comb_edge_init)"

text \<open>After the candidates \<open>T\<close> have been added, with the payload \<open>P t\<close> of the edge to \<open>t\<close>.\<close>

definition targets_inv ::
  "(edge_ref \<Rightarrow> comb_edge) \<Rightarrow> bool \<Rightarrow> node_ref \<Rightarrow> node_ref \<Rightarrow> comb_nodes \<Rightarrow> comb_graph \<Rightarrow> edge_ref set \<Rightarrow>
     comb_nodes \<Rightarrow> comb_graph \<Rightarrow> (edge_ref \<rightharpoonup> edge_ref) \<Rightarrow> bool" where
  "targets_inv P is_last sink f nx0 cg0 T nx cg edges \<longleftrightarrow>
     extends_graph cg0 cg \<and> dom (node_heap cg) = dom (node_heap cg0) \<union> ran nx \<and>
     nx0 \<subseteq>\<^sub>m nx \<and> dom nx = dom nx0 \<union> T \<and> inj_on nx (dom nx) \<and> (\<forall>t n. nx t = Some n \<longrightarrow> nx0 t = Some n \<or> \<not> live cg0 n) \<and>
     dom edges = T \<and>
     (\<forall>t\<in>T. \<exists>y. edge_heap cg (the (edges t)) = Some y \<and> edge_from y = f \<and> nx t = Some (edge_to y)) \<and>
     (\<forall>a b p. arcs cg (a, b) = Some p \<longleftrightarrow> (a = f \<and> (\<exists>t\<in>T. nx t = Some b \<and> p = P t)) \<or>
        (is_last \<and> b = sink \<and> p = comb_edge_init \<and> (\<exists>t\<in>T. nx t = Some a)) \<or> arcs cg0 (a, b) = Some p)"

lemma targets_invD:
  assumes "targets_inv P is_last sink f nx0 cg0 T nx cg edges"
  shows "extends_graph cg0 cg" "dom (node_heap cg) = dom (node_heap cg0) \<union> ran nx" "nx0 \<subseteq>\<^sub>m nx" "dom nx = dom nx0 \<union> T"
    "inj_on nx (dom nx)" "\<forall>t n. nx t = Some n \<longrightarrow> nx0 t = Some n \<or> \<not> live cg0 n" "dom edges = T"
    "\<forall>t\<in>T. \<exists>y. edge_heap cg (the (edges t)) = Some y \<and> edge_from y = f \<and> nx t = Some (edge_to y)"
    "\<forall>a b p. arcs cg (a, b) = Some p \<longleftrightarrow> (a = f \<and> (\<exists>t\<in>T. nx t = Some b \<and> p = P t)) \<or>
        (is_last \<and> b = sink \<and> p = comb_edge_init \<and> (\<exists>t\<in>T. nx t = Some a)) \<or> arcs cg0 (a, b) = Some p"
  using assms unfolding targets_inv_def by - (elim conjE, assumption)+

lemma source_readyD:
  assumes "source_ready sink f nx cg"
  shows "wf_graph cg" "live cg f" "live cg sink" "f \<noteq> sink" "ran nx \<subseteq> dom (node_heap cg) - {f, sink}" "inj_on nx (dom nx)"
    "\<forall>b. arcs cg (f, b) = None" "\<forall>n p. n \<in> ran nx \<longrightarrow> arcs cg (n, sink) = Some p \<longrightarrow> p = comb_edge_init"
  using assms unfolding source_ready_def by - (elim conjE, assumption)+

lemma inj_on_map_upd: "inj_on m (dom m) \<Longrightarrow> n \<notin> ran m \<Longrightarrow> inj_on (m(k \<mapsto> n)) (dom (m(k \<mapsto> n)))"
  by (auto simp: inj_on_def ran_def dom_def split: if_splits)

lemma targets_start:
  assumes "source_ready sink f nx cg"
  shows "targets_inv (hop_init g eFr) is_last sink f nx cg {} nx cg Map.empty"
  using assms by (auto simp: source_ready_def targets_inv_def extends_refl)

text \<open>The node of a candidate, which is made when there is none.\<close>

lemma target_node:
  assumes ready: "source_ready sink f nx0 cg0" and inv: "targets_inv (hop_init g eFr) is_last sink f nx0 cg0 T nx cg edges"
  shows "\<exists>n cg1. (if nx t = None then (let (n, cg) = addNd p cg in (nx(t \<mapsto> n), cg)) else (nx, cg)) = (nx(t \<mapsto> n), cg1) \<and>
    extends_graph cg cg1 \<and> dom (node_heap cg1) = insert n (dom (node_heap cg)) \<and> arcs cg1 = arcs cg \<and>
    (nx t = Some n \<or> nx t = None \<and> \<not> live cg n)"
proof -
  have wf: "wf_graph cg" using inv by (simp add: targets_inv_def extends_graph_def)
  show ?thesis
  proof (cases "nx t")
    case None
    then show ?thesis using addNd_facts [OF wf] by (auto simp: case_prod_beta Let_def)
  next
    case (Some n)
    have "live cg n" using inv ranI [of nx t n] Some by (simp add: targets_inv_def)
    then show ?thesis using Some extends_refl [OF wf] by (auto simp: insert_absorb fun_upd_idem)
  qed
qed

text \<open>The two edges that a candidate gets.\<close>

definition set_ends :: "'p tr_graph \<Rightarrow> edge_ref \<Rightarrow> edge_ref \<Rightarrow> comb_edge \<Rightarrow> comb_edge" where
  "set_ends g eFr t p = p\<lparr>ce_start := Some (edge_getFrom g eFr), ce_startE := Some eFr,
     ce_end := Some (edge_getFrom g t), ce_endE := Some t\<rparr>"

lemma set_ends_init: "set_ends g eFr t comb_edge_init = hop_init g eFr t" "set_ends g eFr t (hop_init g eFr t) = hop_init g eFr t"
  by (simp_all add: set_ends_def hop_init_def)

lemma arcs_to_sink:
  assumes "wf_graph cg" "live cg n" "live cg sink" "\<And>p. arcs cg (n, sink) = Some p \<Longrightarrow> p = comb_edge_init"
  shows "arcs (snd (addEdg n sink comb_edge_init cg)) (a, b) = Some p \<longleftrightarrow>
    arcs cg (a, b) = Some p \<or> a = n \<and> b = sink \<and> p = comb_edge_init"
  using assms(4) by (auto simp: arcs_addEdg [OF assms(1-3)])

lemma arcs_hop:
  assumes "wf_graph cg" "live cg f" "live cg n" "\<And>p. arcs cg (f, n) = Some p \<Longrightarrow> p = hop_init g eFr t"
  shows "arcs (snd (link f n (set_ends g eFr t) cg)) (a, b) = Some p \<longleftrightarrow>
    arcs cg (a, b) = Some p \<or> a = f \<and> b = n \<and> p = hop_init g eFr t"
  using assms(4) by (cases "arcs cg (f, n)") (auto simp: link_facts(4) [OF assms(1-3)] set_ends_init)

lemma arcs_live: "arcs cg (a, b) = Some p \<Longrightarrow> live cg a"
  by (auto simp: arcs_def split: if_splits)

text \<open>One candidate: its node, the edge to the sink in the last round, and the edge of the hop.\<close>

lemma targets_step:
  assumes ready: "source_ready sink f nx0 cg0" and inv: "targets_inv (hop_init g eFr) is_last sink f nx0 cg0 T nx cg edges"
  shows "\<exists>nx' cg' x. next_candidate g is_last sink eFr f to (nx, cg, edges, pens) = (nx', cg', edges(ec_e to \<mapsto> x), pens(ec_e to \<mapsto> ec_pen to)) \<and>
    targets_inv (hop_init g eFr) is_last sink f nx0 cg0 (insert (ec_e to) T) nx' cg' (edges(ec_e to \<mapsto> x))"
proof -
  let ?t = "ec_e to"
  obtain n cg1 where node: "(if nx ?t = None then (let (n, cg) = addNd (Some (edge_getFrom g ?t)) cg in (nx(?t \<mapsto> n), cg)) else (nx, cg)) = (nx(?t \<mapsto> n), cg1)"
    and cg1: "extends_graph cg cg1" "dom (node_heap cg1) = insert n (dom (node_heap cg))" "arcs cg1 = arcs cg"
    and n: "nx ?t = Some n \<or> nx ?t = None \<and> \<not> live cg n"
    using target_node [OF ready inv, of ?t "Some (edge_getFrom g ?t)"] by blast
  define nx' where "nx' = nx(?t \<mapsto> n)"
  define cg2 where "cg2 = (if is_last then snd (addEdg n sink comb_edge_init cg1) else cg1)"
  define cg3 x where "cg3 = snd (link f n (set_ends g eFr ?t) cg2)" and "x = fst (link f n (set_ends g eFr ?t) cg2)"
  have eq: "next_candidate g is_last sink eFr f to (nx, cg, edges, pens) = (nx', cg3, edges(?t \<mapsto> x), pens(?t \<mapsto> ec_pen to))"
    unfolding next_candidate_def prod.case Let_def node [unfolded Let_def] cg3_def x_def cg2_def nx'_def
    by (simp add: case_prod_beta set_ends_def [abs_def])
  note r = source_readyD(2-5,7,8) [OF ready]
  note i = targets_invD [OF inv]
  have n0: "n \<in> ran nx0 \<or> \<not> live cg0 n" using n i(2,6) ranI [of nx0 ?t n] by blast
  then have nn: "n \<noteq> f" "n \<noteq> sink" using r(1,2,4) by blast+
  have lv: "live cg1 n" "live cg1 f" "live cg1 sink" using cg1(2) i(2) r(1,2) by blast+
  have wf1: "wf_graph cg1" using cg1(1) by (simp add: extends_graph_def)
  have same: "nx' t' = nx t'" if "t' \<in> T" for t' using that n i(4) by (auto simp: nx'_def)
  have sink_arc: "p = comb_edge_init" if "arcs cg1 (n, sink) = Some p" for p
  proof -
    have "arcs cg (n, sink) = Some p" using that cg1(3) by simp
    then have "p = comb_edge_init \<or> arcs cg0 (n, sink) = Some p" using iffD1 [OF i(9) [rule_format]] nn(1) by blast
    then show ?thesis using r(6) [rule_format, of n p] n0 arcs_live [of cg0 n sink p] by blast
  qed
  have cg2: "extends_graph cg1 cg2" "dom (node_heap cg2) = dom (node_heap cg1)"
    "arcs cg2 (a, b) = Some p \<longleftrightarrow> arcs cg (a, b) = Some p \<or> is_last \<and> a = n \<and> b = sink \<and> p = comb_edge_init" for a b p
    using addEdg_facts(1,2) [OF wf1 lv(1,3)] arcs_to_sink [OF wf1 lv(1,3) sink_arc] extends_refl [OF wf1] cg1(3)
    by (auto simp: cg2_def)
  have wf2: "wf_graph cg2" "live cg2 n" "live cg2 f" using cg2(1,2) lv by (auto simp: extends_graph_def)
  have hop_arc: "p = hop_init g eFr ?t" if "arcs cg2 (f, n) = Some p" for p
  proof -
    have "arcs cg (f, n) = Some p" using that nn cg2(3) by blast
    then obtain t' where t': "nx t' = Some n" "p = hop_init g eFr t'"
      using iffD1 [OF i(9) [rule_format], of f n p] nn(2) r(5) [rule_format, of n] by auto
    then have "nx ?t = Some n" using n ranI [of nx t' n] i(2) by blast
    then have "t' = ?t" using t'(1) inj_onD [OF i(5), of t' ?t] by auto
    then show ?thesis using t'(2) by simp
  qed
  note l = link_facts [OF wf2(1,3,2), of "set_ends g eFr ?t", folded cg3_def x_def]
  have old: "nx \<subseteq>\<^sub>m nx'" using n by (auto simp: nx'_def map_le_def)
  have ran: "ran nx' = insert n (ran nx)" using n ranI [of nx ?t n] by (auto simp: nx'_def fun_upd_idem)
  have "targets_inv (hop_init g eFr) is_last sink f nx0 cg0 (insert ?t T) nx' cg3 (edges(?t \<mapsto> x))"
    unfolding targets_inv_def
  proof (intro conjI)
    show "extends_graph cg0 cg3" using extends_trans [OF extends_trans [OF i(1) cg1(1)] extends_trans [OF cg2(1) l(1)]] .
    show "dom (node_heap cg3) = dom (node_heap cg0) \<union> ran nx'" using l(2) cg2(2) cg1(2) i(2) ran by auto
    show "nx0 \<subseteq>\<^sub>m nx'" by (rule map_le_trans [OF i(3) old])
    show "dom nx' = dom nx0 \<union> insert ?t T" using i(4) by (auto simp: nx'_def)
    show "inj_on nx' (dom nx')"
    proof (cases "nx ?t")
      case None
      then have "n \<notin> ran nx" using n i(2) by auto
      then show ?thesis unfolding nx'_def by (rule inj_on_map_upd [OF i(5)])
    next
      case (Some m)
      then show ?thesis using n i(5) by (simp add: nx'_def fun_upd_idem)
    qed
    show "\<forall>t n. nx' t = Some n \<longrightarrow> nx0 t = Some n \<or> \<not> live cg0 n"
      using i(6) n i(2) by (auto simp: nx'_def)
    show "dom (edges(?t \<mapsto> x)) = insert ?t T" using i(7) by simp
    have "extends_graph cg cg3" using extends_trans [OF cg1(1) extends_trans [OF cg2(1) l(1)]] .
    then show "\<forall>t\<in>insert ?t T. \<exists>y. edge_heap cg3 (the ((edges(?t \<mapsto> x)) t)) = Some y \<and> edge_from y = f \<and> nx' t = Some (edge_to y)"
      using l(3) i(8) same unfolding extends_graph_def by (fastforce simp: nx'_def)
    show "\<forall>a b p. arcs cg3 (a, b) = Some p \<longleftrightarrow> (a = f \<and> (\<exists>t\<in>insert ?t T. nx' t = Some b \<and> p = hop_init g eFr t)) \<or>
        (is_last \<and> b = sink \<and> p = comb_edge_init \<and> (\<exists>t\<in>insert ?t T. nx' t = Some a)) \<or> arcs cg0 (a, b) = Some p"
    proof (intro allI)
      fix a b p
      have "nx' ?t = Some n" by (simp add: nx'_def)
      moreover have "arcs cg3 (a, b) = Some p \<longleftrightarrow> (arcs cg (a, b) = Some p \<or> is_last \<and> a = n \<and> b = sink \<and> p = comb_edge_init) \<or>
          a = f \<and> b = n \<and> p = hop_init g eFr ?t"
        using arcs_hop [OF wf2(1,3,2) hop_arc] cg2(3) by (simp add: cg3_def)
      ultimately show "arcs cg3 (a, b) = Some p \<longleftrightarrow> (a = f \<and> (\<exists>t\<in>insert ?t T. nx' t = Some b \<and> p = hop_init g eFr t)) \<or>
        (is_last \<and> b = sink \<and> p = comb_edge_init \<and> (\<exists>t\<in>insert ?t T. nx' t = Some a)) \<or> arcs cg0 (a, b) = Some p"
        using same by (auto simp: i(9) [rule_format])
    qed
  qed
  then show ?thesis using eq by blast
qed

text \<open>The penalty of an edge in a group: its last candidate counts.\<close>

definition penalty :: "edge_candidate list \<Rightarrow> edge_ref \<Rightarrow> rat" where
  "penalty grp t = ec_pen (last (filter (\<lambda>to. ec_e to = t) grp))"

definition last_pens :: "edge_candidate list \<Rightarrow> (edge_ref \<rightharpoonup> rat) \<Rightarrow> edge_ref \<rightharpoonup> rat" where
  "last_pens grp pens = fold (\<lambda>to pens. pens(ec_e to \<mapsto> ec_pen to)) grp pens"

lemma last_pens_penalty: "t \<in> ec_e ` set grp \<Longrightarrow> last_pens grp pens t = Some (penalty grp t)"
  by (induction grp rule: rev_induct) (auto simp: last_pens_def penalty_def)

lemma targets_fold:
  assumes ready: "source_ready sink f nx0 cg0"
  shows "targets_inv (hop_init g eFr) is_last sink f nx0 cg0 T nx cg edges \<Longrightarrow>
    \<exists>nx' cg' edges'. fold (next_candidate g is_last sink eFr f) grp (nx, cg, edges, pens) = (nx', cg', edges', last_pens grp pens) \<and>
      targets_inv (hop_init g eFr) is_last sink f nx0 cg0 (ec_e ` set grp \<union> T) nx' cg' edges'"
proof (induction grp arbitrary: T nx cg edges pens)
  case (Cons to grp)
  obtain nx1 cg1 edges1 pens1 where s: "next_candidate g is_last sink eFr f to (nx, cg, edges, pens) = (nx1, cg1, edges1, pens1)"
    "targets_inv (hop_init g eFr) is_last sink f nx0 cg0 (insert (ec_e to) T) nx1 cg1 edges1" "pens1 = pens(ec_e to \<mapsto> ec_pen to)"
    using targets_step [OF ready Cons.prems, of to pens] by blast
  have "last_pens (to # grp) pens = last_pens grp pens1" by (simp only: last_pens_def fold_simps o_apply s(3))
  then show ?case using Cons.IH [OF s(2), of pens1] s(1) by simp
qed (auto simp: last_pens_def)

lemma finish_step:
  assumes inv: "targets_inv P is_last sink f nx0 cg0 T nx cg edges" and t: "t \<in> T"
    and f: "f \<noteq> sink" "\<forall>b. arcs cg0 (f, b) = None" "f \<notin> ran nx"
  shows "targets_inv (P(t := Q)) is_last sink f nx0 cg0 T nx (set_epl (the (edges t)) Q cg) edges" "epl cg (the (edges t)) = P t"
proof -
  note i = targets_invD [OF inv]
  obtain y where y: "edge_heap cg (the (edges t)) = Some y" "edge_from y = f" "nx t = Some (edge_to y)" using i(8) t by blast
  have wf: "wf_graph cg" using i(1) by (simp add: extends_graph_def)
  note s = set_epl_facts [OF wf y(1), of Q]
  have only: "t' = t" if "nx t' = Some (edge_to y)" for t' using inj_onD [OF i(5), of t' t] that y(3) by auto
  have "arcs cg (f, edge_to y) = Some (P t)" using i(9) t y(3) by blast
  then show "epl cg (the (edges t)) = P t" using arcs_Some_iff [OF wf] y wf_edge_unique [OF wf] by fastforce
  show "targets_inv (P(t := Q)) is_last sink f nx0 cg0 T nx (set_epl (the (edges t)) Q cg) edges"
    unfolding targets_inv_def
  proof (intro conjI)
    show "extends_graph cg0 (set_epl (the (edges t)) Q cg)" by (rule extends_trans [OF i(1) s(1)])
    show "\<forall>t'\<in>T. \<exists>y. edge_heap (set_epl (the (edges t)) Q cg) (the (edges t')) = Some y \<and> edge_from y = f \<and> nx t' = Some (edge_to y)"
      using i(8) s(1) unfolding extends_graph_def by metis
    show "\<forall>a b p. arcs (set_epl (the (edges t)) Q cg) (a, b) = Some p \<longleftrightarrow> (a = f \<and> (\<exists>t'\<in>T. nx t' = Some b \<and> p = (P(t := Q)) t')) \<or>
        (is_last \<and> b = sink \<and> p = comb_edge_init \<and> (\<exists>t\<in>T. nx t = Some a)) \<or> arcs cg0 (a, b) = Some p"
    proof (intro allI)
      fix a b p
      show "arcs (set_epl (the (edges t)) Q cg) (a, b) = Some p \<longleftrightarrow> (a = f \<and> (\<exists>t'\<in>T. nx t' = Some b \<and> p = (P(t := Q)) t')) \<or>
        (is_last \<and> b = sink \<and> p = comb_edge_init \<and> (\<exists>t\<in>T. nx t = Some a)) \<or> arcs cg0 (a, b) = Some p"
      proof (cases "a = f \<and> b = edge_to y")
        case True
        then have "arcs (set_epl (the (edges t)) Q cg) (a, b) = Some Q" using s(3) y(2) by simp
        moreover have "(\<exists>t'\<in>T. nx t' = Some b \<and> p = (P(t := Q)) t') \<longleftrightarrow> p = Q"
          using True t y(3) only by (metis fun_upd_same)
        moreover have "nx t' \<noteq> Some a" for t' using True f(3) ranI [of nx t' a] by blast
        moreover have "a = f" "arcs cg0 (a, b) = None" using True f(2) by simp_all
        ultimately show ?thesis by auto
      next
        case False
        then have "arcs (set_epl (the (edges t)) Q cg) (a, b) = arcs cg (a, b)" using s(3) y(2) by auto
        moreover have "t' \<noteq> t" if "a = f" "nx t' = Some b" for t' using False that y(3) by auto
        ultimately show ?thesis unfolding i(9) [rule_format, symmetric] by (auto simp: i(9) [rule_format])
      qed
    qed
  qed (use i s(2) in auto)
qed

definition hop_payload :: "'p tr_graph \<Rightarrow> routing_options \<Rightarrow> edge_ref \<Rightarrow> edge_ref \<Rightarrow> rat \<Rightarrow> edge_ref list \<Rightarrow> comb_edge" where
  "hop_payload g ro eFr t v es = (hop_init g eFr t)\<lparr>ce_cost := v,
     ce_edges := (if popReachEdge ro \<and> es \<noteq> [] then tl es else es)\<rparr>"

lemma targets_cong:
  assumes "targets_inv P is_last sink f nx0 cg0 T nx cg edges" "\<And>t. t \<in> T \<Longrightarrow> P t = P' t"
  shows "targets_inv P' is_last sink f nx0 cg0 T nx cg edges"
  using assms(1) unfolding targets_inv_def by (simp add: assms(2) cong: bex_cong conj_cong)

lemma finish_fold:
  assumes f: "f \<noteq> sink" "\<forall>b. arcs cg0 (f, b) = None" "f \<notin> ran nx"
    and vals: "\<forall>t\<in>set tos. pens t = Some (K t) \<and> els t = Some (L t) \<and> costs t = Some (H t)"
  shows "targets_inv P is_last sink f nx0 cg0 T nx cg edges \<Longrightarrow> distinct tos \<Longrightarrow> set tos \<subseteq> T \<Longrightarrow> \<forall>t\<in>set tos. P t = hop_init g eFr t \<Longrightarrow>
    targets_inv (\<lambda>t. if t \<in> set tos then hop_payload g ro eFr t (K t + H t) (L t) else P t) is_last sink f nx0 cg0 T nx
      (fold (finish_edge ro edges pens els costs) tos cg) edges"
  using vals
proof (induction tos arbitrary: P cg)
  case (Cons t ts)
  let ?Q = "hop_payload g ro eFr t (K t + H t) (L t)"
  have t: "t \<in> T" using Cons.prems by simp
  note s = finish_step(1) [OF Cons.prems(1) t f, of ?Q] finish_step(2) [OF Cons.prems(1) t f]
  have e: "finish_edge ro edges pens els costs t cg = set_epl (the (edges t)) ?Q cg"
    using s(2) Cons.prems(4,5) by (simp add: finish_edge_def Let_def hop_payload_def pen_cost_def edge_cost_def)
  have "\<forall>t'\<in>set ts. (P(t := ?Q)) t' = hop_init g eFr t'" using Cons.prems by auto
  then have "targets_inv (\<lambda>t'. if t' \<in> set ts then hop_payload g ro eFr t' (K t' + H t') (L t') else (P(t := ?Q)) t') is_last sink f nx0 cg0 T nx
      (fold (finish_edge ro edges pens els costs) ts (set_epl (the (edges t)) ?Q cg)) edges"
    using Cons.IH [OF s(1)] Cons.prems by simp
  then show ?case unfolding list.set fold_simps o_apply e by (rule targets_cong) (use Cons.prems(2) in auto)
qed simp

text \<open>What the routing functions need: a queue, a well-formed graph, and lengths and options that are not negative.\<close>

definition router_ok :: "'p router \<Rightarrow> job \<Rightarrow> bool" where
  "router_ok R J \<longleftrightarrow> route_queue (rr_top R) \<and> wf_graph (tm_g (rr_map R)) \<and> sane (rr_map R) (job_opts J)"

lemma edge_set_props [simp]: "set (edge_set es) = set es" "distinct (edge_set es)"
  by (simp_all add: edge_set_def)

lemma from_edge_ok:
  assumes rok: "router_ok R J" and st: "x \<longrightarrow> straight_lines R J" and e: "eFr \<in> dom (edge_heap (tm_g (rr_map R)))" "nodes eFr = Some f"
    and ok: "cache_ok x R J tg c" and tg: "\<forall>t\<in>ec_e ` set grp. tg t = target_group (tm_g (rr_map R)) grp"
    and ready: "source_ready sink f nx cg"
  shows "\<exists>nx' cg' c' H L edges. from_edge R J is_last sink nodes froms grp hb eFr (nx, cg, c) = Some (nx', cg', c') \<and>
    cache_ok x R J tg c' \<and> (\<forall>t\<in>ec_e ` set grp. hop_ok x R J (cost_to (rr_map R) J tg t) (maxD hb) eFr t (H t) (L t)) \<and>
    targets_inv (\<lambda>t. hop_payload (tm_g (rr_map R)) (job_opts J) eFr t (penalty grp t + H t) (L t)) is_last sink f nx cg
      (ec_e ` set grp) nx' cg' edges"
proof -
  let ?g = "tm_g (rr_map R)" let ?T = "ec_e ` set grp" let ?tos = "edge_set (map ec_e grp)"
  obtain nx' cg1 edges where fold: "fold (next_candidate ?g is_last sink eFr f) grp (nx, cg, Map.empty, Map.empty) = (nx', cg1, edges, last_pens grp Map.empty)"
    and inv: "targets_inv (hop_init ?g eFr) is_last sink f nx cg ?T nx' cg1 edges"
    using targets_fold [OF ready targets_start [OF ready, of ?g eFr is_last], of grp Map.empty] by (auto simp del: fold_simps)
  note r = source_readyD [OF ready] and i = targets_invD [OF inv]
  have "f \<notin> ran nx'"
  proof
    assume "f \<in> ran nx'"
    then obtain t where "nx' t = Some f" by (auto simp: ran_def)
    then have "f \<in> ran nx" using i(6) r(2) ranI [of nx t f] by blast
    then show False using r(5) by blast
  qed
  then have f: "f \<noteq> sink" "\<forall>b. arcs cg (f, b) = None" "f \<notin> ran nx'" using r(4,7) by blast+
  define els where "els = (\<lambda>t. map_option (\<lambda>x. ce_edges (epl cg1 x)) (edges t))"
  have fresh: "\<forall>t\<in>set ?tos. els t = Some []"
  proof
    fix t assume "t \<in> set ?tos"
    then have t: "t \<in> ?T" by simp
    then obtain x where x: "edges t = Some x" using i(7) by blast
    have "epl cg1 (the (edges t)) = hop_init ?g eFr t" by (rule finish_step(2) [OF inv t f])
    then show "els t = Some []" using x by (simp add: els_def hop_init_def comb_edge_init_def)
  qed
  have tgs: "\<forall>t\<in>set ?tos. tg t = target_group ?g grp" using tg by simp
  have rk: "route_queue (rr_top R)" "wf_graph ?g" "sane (rr_map R) (job_opts J)" using rok by (auto simp: router_ok_def)
  obtain els' costs' c' where h: "hops R J eFr (set froms) ?tos (target_group ?g grp) els Map.empty hb c = Some (els', costs', c')"
    and c': "cache_ok x R J tg c'"
    and res: "\<forall>t\<in>set ?tos. \<exists>v es. costs' t = Some v \<and> els' t = Some es \<and> hop_ok x R J (cost_to (rr_map R) J tg t) (maxD hb) eFr t v es"
    using hops_ok [OF rk(1,2) e(1) rk(3) st edge_set_props(2) ok tgs fresh, where froms = "set froms" and costs = Map.empty and hb = hb] by blast
  define H L where "H = (\<lambda>t. the (costs' t))" and "L = (\<lambda>t. the (els' t))"
  have vals: "\<forall>t\<in>set ?tos. last_pens grp Map.empty t = Some (penalty grp t) \<and> els' t = Some (L t) \<and> costs' t = Some (H t)"
    using res by (auto simp: H_def L_def last_pens_penalty)
  have "targets_inv (\<lambda>t. if t \<in> set ?tos then hop_payload ?g (job_opts J) eFr t (penalty grp t + H t) (L t) else hop_init ?g eFr t) is_last sink f nx cg
      ?T nx' (fold (finish_edge (job_opts J) edges (last_pens grp Map.empty) els' costs') ?tos cg1) edges"
    by (rule finish_fold [OF f vals inv]) simp_all
  then have fin: "targets_inv (\<lambda>t. hop_payload ?g (job_opts J) eFr t (penalty grp t + H t) (L t)) is_last sink f nx cg
      ?T nx' (fold (finish_edge (job_opts J) edges (last_pens grp Map.empty) els' costs') ?tos cg1) edges"
    by (rule targets_cong) simp
  have "from_edge R J is_last sink nodes froms grp hb eFr (nx, cg, c) =
      Some (nx', fold (finish_edge (job_opts J) edges (last_pens grp Map.empty) els' costs') ?tos cg1, c')"
    using h by (simp add: from_edge_def Let_def e(2) fold els_def del: fold_simps)
  moreover have "\<forall>t\<in>?T. hop_ok x R J (cost_to (rr_map R) J tg t) (maxD hb) eFr t (H t) (L t)" using res by (auto simp: H_def L_def)
  ultimately show ?thesis using c' fin by blast
qed

section \<open>The hops between two groups\<close>

text \<open>
  A layer after the hops from the edges \<open>S\<close>: new nodes for the candidates \<open>T\<close>, the hops with the payload \<open>W\<close>, and the edges to the
  sink in the last layer.
\<close>

definition layer_inv ::
  "(edge_ref \<Rightarrow> edge_ref \<Rightarrow> comb_edge) \<Rightarrow> bool \<Rightarrow> node_ref \<Rightarrow> comb_nodes \<Rightarrow> edge_ref set \<Rightarrow> comb_graph \<Rightarrow> edge_ref set \<Rightarrow>
     comb_nodes \<Rightarrow> comb_graph \<Rightarrow> bool" where
  "layer_inv W is_last sink nodes T cg0 S nx cg \<longleftrightarrow>
     extends_graph cg0 cg \<and> dom (node_heap cg) = dom (node_heap cg0) \<union> ran nx \<and>
     dom nx = (if S = {} then {} else T) \<and> inj_on nx (dom nx) \<and> ran nx \<inter> dom (node_heap cg0) = {} \<and>
     (\<forall>a b p. arcs cg (a, b) = Some p \<longleftrightarrow> (\<exists>x\<in>S. \<exists>t\<in>T. nodes x = Some a \<and> nx t = Some b \<and> p = W x t) \<or>
        (is_last \<and> b = sink \<and> p = comb_edge_init \<and> (\<exists>t\<in>T. nx t = Some a)) \<or> arcs cg0 (a, b) = Some p)"

lemma layer_invD:
  assumes "layer_inv W is_last sink nodes T cg0 S nx cg"
  shows "extends_graph cg0 cg" "dom (node_heap cg) = dom (node_heap cg0) \<union> ran nx"
    "dom nx = (if S = {} then {} else T)" "inj_on nx (dom nx)" "ran nx \<inter> dom (node_heap cg0) = {}"
    "\<forall>a b p. arcs cg (a, b) = Some p \<longleftrightarrow> (\<exists>x\<in>S. \<exists>t\<in>T. nodes x = Some a \<and> nx t = Some b \<and> p = W x t) \<or>
        (is_last \<and> b = sink \<and> p = comb_edge_init \<and> (\<exists>t\<in>T. nx t = Some a)) \<or> arcs cg0 (a, b) = Some p"
  using assms unfolding layer_inv_def by - (elim conjE, assumption)+

text \<open>Before a layer is added: the nodes of the previous one have no outgoing edges yet.\<close>

definition layer_ready :: "node_ref \<Rightarrow> comb_nodes \<Rightarrow> comb_graph \<Rightarrow> bool" where
  "layer_ready sink nodes cg \<longleftrightarrow> wf_graph cg \<and> live cg sink \<and> ran nodes \<subseteq> dom (node_heap cg) - {sink} \<and>
     inj_on nodes (dom nodes) \<and> (\<forall>a b. a \<in> ran nodes \<longrightarrow> arcs cg (a, b) = None)"

lemma layer_readyD:
  assumes "layer_ready sink nodes cg"
  shows "wf_graph cg" "live cg sink" "ran nodes \<subseteq> dom (node_heap cg) - {sink}" "inj_on nodes (dom nodes)"
    "\<forall>a b. a \<in> ran nodes \<longrightarrow> arcs cg (a, b) = None"
  using assms unfolding layer_ready_def by - (elim conjE, assumption)+

lemma layer_start:
  assumes "wf_graph cg"
  shows "layer_inv W is_last sink nodes T cg {} Map.empty cg"
  using extends_refl [OF assms] by (simp add: layer_inv_def)

lemma layer_source_ready:
  assumes ready: "layer_ready sink nodes cg0" and inv: "layer_inv W is_last sink nodes T cg0 S nx cg"
    and f: "nodes eFr = Some f" "eFr \<notin> S" "S \<subseteq> dom nodes"
  shows "source_ready sink f nx cg"
proof -
  note r = layer_readyD [OF ready] and i = layer_invD [OF inv]
  have fr: "f \<in> ran nodes" using f(1) by (rule ranI)
  then have f0: "live cg0 f" "f \<noteq> sink" using r(3) by blast+
  have new: "nx t \<noteq> Some n" if "live cg0 n" for t n using that i(5) ranI [of nx t n] by blast
  have only: "x = eFr" if "nodes x = Some f" for x using inj_onD [OF r(4), of x eFr] that f(1) by auto
  have "arcs cg (f, b) = None" for b
  proof (cases "arcs cg (f, b)")
    case (Some p)
    then consider x where "x \<in> S" "nodes x = Some f" | t where "nx t = Some f" | "arcs cg0 (f, b) = Some p"
      using iffD1 [OF i(6) [rule_format], of f b p] by blast
    then show ?thesis using only f(2) new f0(1) r(5) fr by cases auto
  qed simp
  moreover have "p = comb_edge_init" if n: "n \<in> ran nx" and p: "arcs cg (n, sink) = Some p" for n p
  proof -
    have "arcs cg0 (n, sink) = None" using n i(5) by (auto simp: arcs_def domIff)
    moreover have "nx t \<noteq> Some sink" for t using new r(2) by blast
    ultimately show ?thesis using iffD1 [OF i(6) [rule_format] p] by auto
  qed
  moreover have "wf_graph cg" using i(1) by (simp add: extends_graph_def)
  moreover have "ran nx \<subseteq> dom (node_heap cg) - {f, sink}" using i(2,5) f0 r(2) by blast
  ultimately show ?thesis using i(1,2,4) f0 r(2) by (simp add: source_ready_def)
qed

lemma layer_step:
  assumes ready: "layer_ready sink nodes cg0" and inv: "layer_inv W is_last sink nodes T cg0 S nx cg"
    and f: "nodes eFr = Some f" "eFr \<notin> S" "S \<subseteq> dom nodes" "T \<noteq> {}"
    and step: "targets_inv P is_last sink f nx cg T nx' cg' edges"
  shows "layer_inv (W(eFr := P)) is_last sink nodes T cg0 (insert eFr S) nx' cg'"
proof -
  note i = layer_invD [OF inv] and s = targets_invD [OF step]
  have ran: "ran nx \<subseteq> ran nx'" using s(3) by (force simp: ran_def map_le_def dom_def)
  have dom: "dom nx' = T" using i(3) s(4) by (auto split: if_splits)
  show ?thesis
    unfolding layer_inv_def
  proof (intro conjI)
    show "extends_graph cg0 cg'" by (rule extends_trans [OF i(1) s(1)])
    show "dom (node_heap cg') = dom (node_heap cg0) \<union> ran nx'" using s(2) i(2) ran by blast
    show "dom nx' = (if insert eFr S = {} then {} else T)" using dom by simp
    show "inj_on nx' (dom nx')" by (rule s(5))
    have "\<not> live cg0 n" if n: "n \<in> ran nx'" for n
    proof -
      obtain t where "nx' t = Some n" using n by (auto simp: ran_def)
      then have "n \<in> ran nx \<or> \<not> live cg n" using s(6) ranI [of nx t n] by blast
      then show ?thesis using i(2,5) by blast
    qed
    then show "ran nx' \<inter> dom (node_heap cg0) = {}" by blast
    have older: "nx t = Some a \<longleftrightarrow> nx' t = Some a" if "S \<noteq> {}" "t \<in> T" for t a
      using that s(3) i(3) unfolding map_le_def by (metis (full_types))
    have none: "nx t = None" if "S = {}" for t using that i(3) by (simp add: domIff [symmetric])
    show "\<forall>a b p. arcs cg' (a, b) = Some p \<longleftrightarrow> (\<exists>x\<in>insert eFr S. \<exists>t\<in>T. nodes x = Some a \<and> nx' t = Some b \<and> p = (W(eFr := P)) x t) \<or>
        (is_last \<and> b = sink \<and> p = comb_edge_init \<and> (\<exists>t\<in>T. nx' t = Some a)) \<or> arcs cg0 (a, b) = Some p"
    proof (intro allI)
      fix a b p
      have hop: "(\<exists>x\<in>insert eFr S. \<exists>t\<in>T. nodes x = Some a \<and> nx' t = Some b \<and> p = (W(eFr := P)) x t) \<longleftrightarrow>
          a = f \<and> (\<exists>t\<in>T. nx' t = Some b \<and> p = P t) \<or> (\<exists>x\<in>S. \<exists>t\<in>T. nodes x = Some a \<and> nx t = Some b \<and> p = W x t)"
      proof -
        have "(\<exists>x\<in>S. \<exists>t\<in>T. nodes x = Some a \<and> nx' t = Some b \<and> p = (W(eFr := P)) x t) \<longleftrightarrow>
            (\<exists>x\<in>S. \<exists>t\<in>T. nodes x = Some a \<and> nx t = Some b \<and> p = W x t)"
          by (intro bex_cong refl) (use f(2) older in auto)
        then show ?thesis using f(1) by auto
      qed
      have old: "(\<exists>t\<in>T. nx t = Some a) \<Longrightarrow> (\<exists>t\<in>T. nx' t = Some a)" using older none by (cases "S = {}") auto
      show "arcs cg' (a, b) = Some p \<longleftrightarrow> (\<exists>x\<in>insert eFr S. \<exists>t\<in>T. nodes x = Some a \<and> nx' t = Some b \<and> p = (W(eFr := P)) x t) \<or>
        (is_last \<and> b = sink \<and> p = comb_edge_init \<and> (\<exists>t\<in>T. nx' t = Some a)) \<or> arcs cg0 (a, b) = Some p"
        unfolding s(9) [rule_format] i(6) [rule_format] hop using old by blast
    qed
  qed
qed

text \<open>The payload of the hop from \<open>x\<close> to \<open>t\<close>, with its cost \<open>H x t\<close> and edges \<open>L x t\<close>.\<close>

definition hop_table ::
  "'p router \<Rightarrow> job \<Rightarrow> edge_candidate list \<Rightarrow> (edge_ref \<Rightarrow> edge_ref \<Rightarrow> rat) \<Rightarrow> (edge_ref \<Rightarrow> edge_ref \<Rightarrow> edge_ref list) \<Rightarrow>
     edge_ref \<Rightarrow> edge_ref \<Rightarrow> comb_edge" where
  "hop_table R J grp H L = (\<lambda>x t. hop_payload (tm_g (rr_map R)) (job_opts J) x t (penalty grp t + H x t) (L x t))"

definition hops_found ::
  "bool \<Rightarrow> 'p router \<Rightarrow> job \<Rightarrow> (edge_ref \<Rightarrow> group_ref option) \<Rightarrow> rat \<Rightarrow> edge_ref set \<Rightarrow> edge_ref set \<Rightarrow> (edge_ref \<Rightarrow> edge_ref \<Rightarrow> rat) \<Rightarrow>
     (edge_ref \<Rightarrow> edge_ref \<Rightarrow> edge_ref list) \<Rightarrow> bool" where
  "hops_found x R J tg infty S T H L \<longleftrightarrow> (\<forall>s\<in>S. \<forall>t\<in>T. hop_ok x R J (cost_to (rr_map R) J tg t) infty s t (H s t) (L s t))"

lemma layer_fold:
  assumes rok: "router_ok R J" and st: "x \<longrightarrow> straight_lines R J" and ready: "layer_ready sink nodes cg0" and grp: "grp \<noteq> []"
    and tg: "\<forall>t\<in>ec_e ` set grp. tg t = target_group (tm_g (rr_map R)) grp"
  shows "layer_inv (hop_table R J grp H L) is_last sink nodes (ec_e ` set grp) cg0 S nx cg \<Longrightarrow> cache_ok x R J tg c \<Longrightarrow>
    hops_found x R J tg (maxD hb) S (ec_e ` set grp) H L \<Longrightarrow> distinct xs \<Longrightarrow> set xs \<inter> S = {} \<Longrightarrow> set xs \<union> S \<subseteq> dom nodes \<Longrightarrow>
    set xs \<subseteq> dom (edge_heap (tm_g (rr_map R))) \<Longrightarrow>
    \<exists>nx' cg' c' H L. opt_fold (from_edge R J is_last sink nodes froms grp hb) xs (nx, cg, c) = Some (nx', cg', c') \<and> cache_ok x R J tg c' \<and>
      hops_found x R J tg (maxD hb) (set xs \<union> S) (ec_e ` set grp) H L \<and>
      layer_inv (hop_table R J grp H L) is_last sink nodes (ec_e ` set grp) cg0 (set xs \<union> S) nx' cg'"
proof (induction xs arbitrary: H L S nx cg c)
  case (Cons y xs)
  let ?T = "ec_e ` set grp"
  obtain f where f: "nodes y = Some f" using Cons.prems(6) by auto
  have xs: "y \<notin> S" "S \<subseteq> dom nodes" "y \<in> dom (edge_heap (tm_g (rr_map R)))" "?T \<noteq> {}" using Cons.prems grp by auto
  obtain nx1 cg1 c1 H1 L1 edges where s: "from_edge R J is_last sink nodes froms grp hb y (nx, cg, c) = Some (nx1, cg1, c1)"
    "cache_ok x R J tg c1" "\<forall>t\<in>?T. hop_ok x R J (cost_to (rr_map R) J tg t) (maxD hb) y t (H1 t) (L1 t)"
    and inv: "targets_inv (\<lambda>t. hop_payload (tm_g (rr_map R)) (job_opts J) y t (penalty grp t + H1 t) (L1 t)) is_last sink f nx cg ?T nx1 cg1 edges"
    using from_edge_ok [where nodes = nodes and f = f and eFr = y, OF rok st xs(3) f Cons.prems(2) tg
        layer_source_ready [OF ready Cons.prems(1) f xs(1,2)], of is_last froms hb] by blast
  have "layer_inv ((hop_table R J grp H L)(y := \<lambda>t. hop_payload (tm_g (rr_map R)) (job_opts J) y t (penalty grp t + H1 t) (L1 t)))
      is_last sink nodes ?T cg0 (insert y S) nx1 cg1"
    by (rule layer_step [OF ready Cons.prems(1) f xs(1,2,4) inv])
  moreover have "(hop_table R J grp H L)(y := \<lambda>t. hop_payload (tm_g (rr_map R)) (job_opts J) y t (penalty grp t + H1 t) (L1 t)) =
      hop_table R J grp (H(y := H1)) (L(y := L1))"
    by (auto simp: hop_table_def fun_eq_iff)
  ultimately have l: "layer_inv (hop_table R J grp (H(y := H1)) (L(y := L1))) is_last sink nodes ?T cg0 (insert y S) nx1 cg1" by simp
  have h: "hops_found x R J tg (maxD hb) (insert y S) ?T (H(y := H1)) (L(y := L1))"
    using Cons.prems(3) s(3) by (auto simp: hops_found_def)
  have p: "distinct xs" "set xs \<inter> insert y S = {}" "set xs \<union> insert y S \<subseteq> dom nodes" "set xs \<subseteq> dom (edge_heap (tm_g (rr_map R)))"
    using Cons.prems(4-7) f by auto
  show ?case using Cons.IH [OF l s(2) h p] s(1) by simp
qed auto

section \<open>All groups\<close>

definition cands :: "edge_candidate list list \<Rightarrow> nat \<Rightarrow> edge_ref set" where
  "cands route i = ec_e ` set (route ! i)"

text \<open>
  The graph after \<open>i\<close> layers of hops: \<open>N j\<close> are the nodes of group \<open>j\<close>, \<open>W j\<close> the payloads of the hops from group \<open>j\<close>, and \<open>S\<close> those of the
  edges from the source.
\<close>

definition comb_arc ::
  "edge_candidate list list \<Rightarrow> node_ref \<Rightarrow> node_ref \<Rightarrow> (node_ref \<rightharpoonup> comb_edge) \<Rightarrow> (nat \<Rightarrow> comb_nodes) \<Rightarrow>
     (nat \<Rightarrow> edge_ref \<Rightarrow> edge_ref \<Rightarrow> comb_edge) \<Rightarrow> nat \<Rightarrow> node_ref \<Rightarrow> node_ref \<Rightarrow> comb_edge \<Rightarrow> bool" where
  "comb_arc route source sink S N W i a b p \<longleftrightarrow>
     a = source \<and> S b = Some p \<or>
     (\<exists>j<i. \<exists>x\<in>cands route j. \<exists>t\<in>cands route (j + 1). N j x = Some a \<and> N (j + 1) t = Some b \<and> p = W j x t) \<or>
     i = length route - 1 \<and> b = sink \<and> p = comb_edge_init \<and> (\<exists>t\<in>cands route i. N i t = Some a)"

definition comb_inv ::
  "edge_candidate list list \<Rightarrow> node_ref \<Rightarrow> node_ref \<Rightarrow> (node_ref \<rightharpoonup> comb_edge) \<Rightarrow> (nat \<Rightarrow> comb_nodes) \<Rightarrow>
     (nat \<Rightarrow> edge_ref \<Rightarrow> edge_ref \<Rightarrow> comb_edge) \<Rightarrow> nat \<Rightarrow> comb_graph \<Rightarrow> bool" where
  "comb_inv route source sink S N W i cg \<longleftrightarrow>
     wf_graph cg \<and> live cg source \<and> live cg sink \<and> source \<noteq> sink \<and> dom S \<subseteq> dom (node_heap cg) - {source, sink} \<and>
     (\<forall>t\<in>cands route 0. \<exists>n p. N 0 t = Some n \<and> S n = Some p \<and> ce_cost p = penalty (route ! 0) t) \<and>
     (\<forall>j\<le>i. dom (N j) = cands route j \<and> inj_on (N j) (dom (N j)) \<and> ran (N j) \<subseteq> dom (node_heap cg) - {source, sink}) \<and>
     (\<forall>j\<le>i. \<forall>j'\<le>i. j \<noteq> j' \<longrightarrow> ran (N j) \<inter> ran (N j') = {}) \<and>
     (\<forall>j\<le>i. 0 < j \<longrightarrow> ran (N j) \<inter> dom S = {}) \<and>
     (\<forall>a b p. arcs cg (a, b) = Some p \<longleftrightarrow> comb_arc route source sink S N W i a b p)"

lemma comb_invD:
  assumes "comb_inv route source sink S N W i cg"
  shows "wf_graph cg" "live cg source" "live cg sink" "source \<noteq> sink" "dom S \<subseteq> dom (node_heap cg) - {source, sink}"
    "\<forall>t\<in>cands route 0. \<exists>n p. N 0 t = Some n \<and> S n = Some p \<and> ce_cost p = penalty (route ! 0) t"
    "\<forall>j\<le>i. dom (N j) = cands route j \<and> inj_on (N j) (dom (N j)) \<and> ran (N j) \<subseteq> dom (node_heap cg) - {source, sink}"
    "\<forall>j\<le>i. \<forall>j'\<le>i. j \<noteq> j' \<longrightarrow> ran (N j) \<inter> ran (N j') = {}"
    "\<forall>j\<le>i. 0 < j \<longrightarrow> ran (N j) \<inter> dom S = {}"
    "\<forall>a b p. arcs cg (a, b) = Some p \<longleftrightarrow> comb_arc route source sink S N W i a b p"
  using assms unfolding comb_inv_def by - (elim conjE, assumption)+

lemma comb_layer_ready:
  assumes inv: "comb_inv route source sink S N W i cg" and i: "i < length route - 1"
  shows "layer_ready sink (N i) cg"
proof -
  note c = comb_invD [OF inv]
  have Ni: "inj_on (N i) (dom (N i))" "ran (N i) \<subseteq> dom (node_heap cg) - {source, sink}" using c(7) by auto
  have "arcs cg (a, b) = None" if a: "a \<in> ran (N i)" for a b
  proof (cases "arcs cg (a, b)")
    case (Some p)
    then have "comb_arc route source sink S N W i a b p" using c(10) by blast
    then obtain j x where "j < i" "N j x = Some a" using Ni(2) a i unfolding comb_arc_def by auto
    then have "a \<in> ran (N j) \<inter> ran (N i)" using a ranI [of "N j" x a] by blast
    then show ?thesis using c(8) \<open>j < i\<close> by (metis empty_iff less_imp_le_nat less_irrefl order_refl)
  qed simp
  then show ?thesis using c(1,3) Ni by (auto simp: layer_ready_def)
qed

lemma comb_next:
  assumes inv: "comb_inv route source sink S N W i cg" and i: "i < length route - 1"
    and layer: "layer_inv P (i = length route - 2) sink (N i) (cands route (i + 1)) cg (cands route i) nx cg'" and ne: "cands route i \<noteq> {}"
  shows "comb_inv route source sink S (N(i + 1 := nx)) (W(i := P)) (i + 1) cg'"
proof -
  note c = comb_invD [OF inv] and l = layer_invD [OF layer]
  let ?N = "N(i + 1 := nx)"
  have old: "?N j = N j" if "j \<le> i" for j using that by simp
  have new: "ran nx \<inter> ran (N j) = {}" if "j \<le> i" for j using l(5) c(7) that by blast
  have ext: "dom (node_heap cg) \<subseteq> dom (node_heap cg')" using l(2) by blast
  show ?thesis
    unfolding comb_inv_def
  proof (intro conjI)
    show "wf_graph cg'" using l(1) by (simp add: extends_graph_def)
    show "live cg' source" "live cg' sink" "source \<noteq> sink" "dom S \<subseteq> dom (node_heap cg') - {source, sink}" using c(2-5) ext by blast+
    show "\<forall>t\<in>cands route 0. \<exists>n p. ?N 0 t = Some n \<and> S n = Some p \<and> ce_cost p = penalty (route ! 0) t" using c(6) by simp
    show "\<forall>j\<le>i + 1. dom (?N j) = cands route j \<and> inj_on (?N j) (dom (?N j)) \<and> ran (?N j) \<subseteq> dom (node_heap cg') - {source, sink}"
    proof (intro allI impI)
      fix j assume "j \<le> i + 1"
      then consider "j \<le> i" | "j = i + 1" by linarith
      then show "dom (?N j) = cands route j \<and> inj_on (?N j) (dom (?N j)) \<and> ran (?N j) \<subseteq> dom (node_heap cg') - {source, sink}"
      proof cases
        case 1
        then have "dom (N j) = cands route j" "inj_on (N j) (dom (N j))" "ran (N j) \<subseteq> dom (node_heap cg') - {source, sink}"
          using c(7) ext by blast+
        then show ?thesis unfolding old [OF 1] by blast
      next
        case 2
        then show ?thesis using l(2-5) c(2,3) ne by auto
      qed
    qed
    show "\<forall>j\<le>i + 1. \<forall>j'\<le>i + 1. j \<noteq> j' \<longrightarrow> ran (?N j) \<inter> ran (?N j') = {}"
      using c(8) new by (auto simp: le_Suc_eq)
    show "\<forall>j\<le>i + 1. 0 < j \<longrightarrow> ran (?N j) \<inter> dom S = {}"
    proof -
      have "ran nx \<inter> dom S = {}" using c(5) l(5) by blast
      then show ?thesis using c(9) by (simp add: le_Suc_eq)
    qed
    show "\<forall>a b p. arcs cg' (a, b) = Some p \<longleftrightarrow> comb_arc route source sink S ?N (W(i := P)) (i + 1) a b p"
    proof (intro allI)
      fix a b p
      have older: "comb_arc route source sink S N W i a b p \<longleftrightarrow> a = source \<and> S b = Some p \<or>
          (\<exists>j<i. \<exists>x\<in>cands route j. \<exists>t\<in>cands route (j + 1). ?N j x = Some a \<and> ?N (j + 1) t = Some b \<and> p = (W(i := P)) j x t)"
      proof -
        have "j < i \<Longrightarrow> ?N j = N j \<and> ?N (j + 1) = N (j + 1) \<and> (W(i := P)) j = W j" for j by simp
        then have "(\<exists>j<i. \<exists>x\<in>cands route j. \<exists>t\<in>cands route (j + 1). ?N j x = Some a \<and> ?N (j + 1) t = Some b \<and> p = (W(i := P)) j x t) \<longleftrightarrow>
            (\<exists>j<i. \<exists>x\<in>cands route j. \<exists>t\<in>cands route (j + 1). N j x = Some a \<and> N (j + 1) t = Some b \<and> p = W j x t)"
          by metis
        then show ?thesis using i by (auto simp: comb_arc_def)
      qed
      have here: "(\<exists>j<i + 1. Q j) \<longleftrightarrow> (\<exists>j<i. Q j) \<or> Q i" for Q :: "nat \<Rightarrow> bool" using less_Suc_eq by auto
      have last: "i + 1 = length route - 1 \<longleftrightarrow> i = length route - 2" using i by linarith
      show "arcs cg' (a, b) = Some p \<longleftrightarrow> comb_arc route source sink S ?N (W(i := P)) (i + 1) a b p"
        unfolding l(6) [rule_format] c(10) [rule_format] older unfolding comb_arc_def here last
        by (simp only: fun_upd_same old [OF order_refl]) blast
    qed
  qed
qed

section \<open>The first group\<close>

definition first_inv ::
  "node_ref \<Rightarrow> node_ref \<Rightarrow> edge_candidate list \<Rightarrow> comb_nodes \<Rightarrow> comb_graph \<Rightarrow> (node_ref \<rightharpoonup> comb_edge) \<Rightarrow> bool" where
  "first_inv source sink cs nodes cg S \<longleftrightarrow>
     wf_graph cg \<and> live cg source \<and> live cg sink \<and> dom S \<subseteq> dom (node_heap cg) - {source, sink} \<and>
     dom nodes = ec_e ` set cs \<and> inj_on nodes (dom nodes) \<and> ran nodes \<subseteq> dom S \<and>
     (\<forall>t\<in>ec_e ` set cs. \<exists>n p. nodes t = Some n \<and> S n = Some p \<and> ce_cost p = penalty cs t) \<and>
     (\<forall>a b p. arcs cg (a, b) = Some p \<longleftrightarrow> a = source \<and> S b = Some p)"

lemma first_invD:
  assumes "first_inv source sink cs nodes cg S"
  shows "wf_graph cg" "live cg source" "live cg sink" "dom S \<subseteq> dom (node_heap cg) - {source, sink}"
    "dom nodes = ec_e ` set cs" "inj_on nodes (dom nodes)" "ran nodes \<subseteq> dom S"
    "\<forall>t\<in>ec_e ` set cs. \<exists>n p. nodes t = Some n \<and> S n = Some p \<and> ce_cost p = penalty cs t"
    "\<forall>a b p. arcs cg (a, b) = Some p \<longleftrightarrow> a = source \<and> S b = Some p"
  using assms unfolding first_inv_def by - (elim conjE, assumption)+

lemma penalty_snoc: "penalty (cs @ [c]) t = (if t = ec_e c then ec_pen c else penalty cs t)"
  by (simp add: penalty_def)

lemma first_step:
  assumes inv: "first_inv source sink cs nodes cg S"
  shows "\<exists>nodes' cg' S'. first_candidate g source i (nodes, cg) = (nodes', cg') \<and> first_inv source sink (cs @ [i]) nodes' cg' S'"
proof -
  note c = first_invD [OF inv] and a = addNd_facts [OF c(1)]
  define n where "n = next_node cg"
  define cg1 where "cg1 = snd (addNd (Some (edge_getFrom g (ec_e i))) cg)"
  define cg2 where "cg2 = snd (link source n (\<lambda>p. p\<lparr>ce_cost := pen_cost (ec_pen i)\<rparr>) cg1)"
  define p where "p = comb_edge_init\<lparr>ce_cost := ec_pen i\<rparr>"
  have eq: "first_candidate g source i (nodes, cg) = (nodes(ec_e i \<mapsto> n), cg2)"
    using a(1) by (simp add: first_candidate_def case_prod_beta Let_def n_def cg1_def cg2_def)
  have wf1: "wf_graph cg1" using a(2) by (simp add: extends_graph_def cg1_def)
  have d1: "dom (node_heap cg1) = insert n (dom (node_heap cg))" unfolding cg1_def n_def by (rule a(4))
  have lv: "live cg1 source" "live cg1 n" using c(2) d1 by blast+
  have fresh: "\<not> live cg n" unfolding n_def by (rule a(3))
  note l = link_facts [OF wf1 lv, of "\<lambda>p. p\<lparr>ce_cost := pen_cost (ec_pen i)\<rparr>", folded cg2_def]
  have nS: "S n = None" using fresh c(4) by (cases "S n") auto
  have none: "arcs cg1 (source, n) = None"
    using a(5) c(9) nS unfolding cg1_def by (metis not_Some_eq option.distinct(1))
  then have arcs2: "arcs cg2 = (arcs cg)((source, n) \<mapsto> p)"
    using l(4) a(5) by (simp add: p_def pen_cost_def edge_cost_def cg1_def)
  have ns: "n \<noteq> source" "n \<noteq> sink" "n \<notin> ran nodes" using fresh c(2-4,7) by blast+
  have "first_inv source sink (cs @ [i]) (nodes(ec_e i \<mapsto> n)) cg2 (S(n \<mapsto> p))"
    unfolding first_inv_def
  proof (intro conjI)
    show "wf_graph cg2" using l(1) by (simp add: extends_graph_def)
    show "live cg2 source" "live cg2 sink" "dom (S(n \<mapsto> p)) \<subseteq> dom (node_heap cg2) - {source, sink}"
      using l(2) d1 c(2-4) ns by auto
    show "dom (nodes(ec_e i \<mapsto> n)) = ec_e ` set (cs @ [i])" using c(5) by simp
    show "inj_on (nodes(ec_e i \<mapsto> n)) (dom (nodes(ec_e i \<mapsto> n)))" by (rule inj_on_map_upd [OF c(6) ns(3)])
    show "ran (nodes(ec_e i \<mapsto> n)) \<subseteq> dom (S(n \<mapsto> p))" using c(7) by (auto simp: ran_def split: if_splits)
    show "\<forall>t\<in>ec_e ` set (cs @ [i]). \<exists>m q. (nodes(ec_e i \<mapsto> n)) t = Some m \<and> (S(n \<mapsto> p)) m = Some q \<and> ce_cost q = penalty (cs @ [i]) t"
    proof
      fix t assume t: "t \<in> ec_e ` set (cs @ [i])"
      show "\<exists>m q. (nodes(ec_e i \<mapsto> n)) t = Some m \<and> (S(n \<mapsto> p)) m = Some q \<and> ce_cost q = penalty (cs @ [i]) t"
      proof (cases "t = ec_e i")
        case True
        then show ?thesis by (simp add: penalty_snoc p_def)
      next
        case False
        then have "t \<in> ec_e ` set cs" using t by auto
        then obtain m q where m: "nodes t = Some m" "S m = Some q" "ce_cost q = penalty cs t" using c(8) by blast
        moreover from this have "m \<noteq> n" using nS by auto
        ultimately show ?thesis using False by (simp add: penalty_snoc)
      qed
    qed
    show "\<forall>a b q. arcs cg2 (a, b) = Some q \<longleftrightarrow> a = source \<and> (S(n \<mapsto> p)) b = Some q"
      using c(9) nS by (auto simp: arcs2)
  qed
  then show ?thesis using eq by blast
qed

lemma first_fold:
  assumes "first_inv source sink [] Map.empty cg Map.empty"
  shows "\<exists>nodes cg' S. fold (first_candidate g source) cs (Map.empty, cg) = (nodes, cg') \<and> first_inv source sink cs nodes cg' S"
proof (induction cs rule: rev_induct)
  case (snoc i cs)
  then obtain nodes cg' S where s: "fold (first_candidate g source) cs (Map.empty, cg) = (nodes, cg')" "first_inv source sink cs nodes cg' S" by blast
  then show ?case using first_step [OF s(2), of g i] by simp
qed (use assms in auto)

lemma first_comb:
  assumes "first_inv source sink (route ! 0) nodes cg S" "source \<noteq> sink" "2 \<le> length route"
  shows "comb_inv route source sink S (\<lambda>_. nodes) W 0 cg"
proof -
  note c = first_invD [OF assms(1)]
  have "ran nodes \<subseteq> dom (node_heap cg) - {source, sink}" using c(4,7) by blast
  then show ?thesis
    using c assms(2,3) by (auto simp: comb_inv_def cands_def comb_arc_def)
qed

section \<open>The finished graph\<close>

definition route_ok :: "'p router \<Rightarrow> (edge_ref \<Rightarrow> group_ref option) \<Rightarrow> edge_candidate list list \<Rightarrow> bool" where
  "route_ok R tg route \<longleftrightarrow>
     (\<forall>grp\<in>set route. grp \<noteq> [] \<and> ec_e ` set grp \<subseteq> dom (edge_heap (tm_g (rr_map R))) \<and> (\<forall>c\<in>set grp. 0 \<le> ec_pen c)) \<and>
     (\<forall>i<length route. 0 < i \<longrightarrow> (\<forall>t\<in>cands route i. tg t = target_group (tm_g (rr_map R)) (route ! i)))"

text \<open>The infinite cost of the hops between two groups is the bound of their pilot run, which does not depend on the cache.\<close>

definition hop_inf :: "'p router \<Rightarrow> job \<Rightarrow> edge_candidate list list \<Rightarrow> nat \<Rightarrow> rat" where
  "hop_inf R J route i = (case getHopBand R J (route ! i) (route ! (i + 1)) Map.empty of None \<Rightarrow> 0 | Some (hb, _) \<Rightarrow> maxD hb)"

lemma getHopBand_cache: "map_option fst (getHopBand R J a b c) = map_option fst (getHopBand R J a b c')"
  by (simp add: getHopBand_def Let_def option.map_comp split: option.split)

lemma hop_inf_band: "getHopBand R J (route ! i) (route ! (i + 1)) c = Some (hb, c') \<Longrightarrow> hop_inf R J route i = maxD hb"
  using getHopBand_cache [of R J "route ! i" "route ! (i + 1)" c Map.empty] by (auto simp: hop_inf_def split: option.split)

lemma route_step_ok:
  assumes rok: "router_ok R J" and st: "x \<longrightarrow> straight_lines R J" and route: "route_ok R tg route" and i: "i < length route - 1"
    and inv: "comb_inv route source sink S N W i cg" and ok: "cache_ok x R J tg c"
  shows "\<exists>nx cg' c' H L. route_step R J route sink i (N i, cg, c) = Some (nx, cg', c') \<and> cache_ok x R J tg c' \<and> 0 \<le> hop_inf R J route i \<and>
    hops_found x R J tg (hop_inf R J route i) (cands route i) (cands route (i + 1)) H L \<and>
    comb_inv route source sink S (N(i + 1 := nx)) (W(i := hop_table R J (route ! (i + 1)) H L)) (i + 1) cg'"
proof -
  let ?a = "route ! i" let ?b = "route ! (i + 1)" let ?froms = "edge_set (map ec_e ?a)"
  have ix: "i < length route" "i + 1 < length route" using i by auto
  then have ab: "?a \<in> set route" "?b \<in> set route" by simp_all
  have ra: "?a \<noteq> []" "ec_e ` set ?a \<subseteq> dom (edge_heap (tm_g (rr_map R)))" and rb: "?b \<noteq> []"
    and tg: "\<forall>t\<in>ec_e ` set ?b. tg t = target_group (tm_g (rr_map R)) ?b"
    using route ab ix unfolding route_ok_def cands_def by auto
  have rk: "route_queue (rr_top R)" "wf_graph (tm_g (rr_map R))" "sane (rr_map R) (job_opts J)" using rok by (auto simp: router_ok_def)
  have tg': "\<forall>t\<in>set ?b. tg (ec_e t) = target_group (tm_g (rr_map R)) ?b" using tg by simp
  obtain hb c1 where hb: "getHopBand R J ?a ?b c = Some (hb, c1)" "cache_ok x R J tg c1" "0 \<le> maxD hb"
    using getHopBand_ok [OF rk(1,2) ra(2) rk(3) st ok tg'] by blast
  have inf: "maxD hb = hop_inf R J route i" using hop_inf_band [OF hb(1)] by simp
  note c = comb_invD [OF inv]
  have wf: "wf_graph cg" by (rule c(1))
  have dom: "dom (N i) = cands route i" using c(7) by blast
  have fr: "set ?froms = cands route i" by (simp add: cands_def)
  have sub: "set ?froms \<union> {} \<subseteq> dom (N i)" "set ?froms \<subseteq> dom (edge_heap (tm_g (rr_map R)))" using dom fr ra(2) by (auto simp: cands_def)
  obtain nx cg' c' H L where s: "opt_fold (from_edge R J (i = length route - 2) sink (N i) ?froms ?b hb) ?froms (Map.empty, cg, c1) = Some (nx, cg', c')"
    "cache_ok x R J tg c'" "hops_found x R J tg (maxD hb) (set ?froms \<union> {}) (ec_e ` set ?b) H L"
    and layer: "layer_inv (hop_table R J ?b H L) (i = length route - 2) sink (N i) (ec_e ` set ?b) cg (set ?froms \<union> {}) nx cg'"
    using layer_fold [OF rok st comb_layer_ready [OF inv i] rb tg layer_start [OF wf] hb(2) _ edge_set_props(2) _ sub]
    unfolding hops_found_def by blast
  have "comb_inv route source sink S (N(i + 1 := nx)) (W(i := hop_table R J ?b H L)) (i + 1) cg'"
    by (rule comb_next [OF inv i]) (use layer fr ra(1) in \<open>auto simp: cands_def\<close>)
  moreover have "route_step R J route sink i (N i, cg, c) = Some (nx, cg', c')"
    using hb(1) s(1) by (simp add: route_step_def)
  moreover have "hops_found x R J tg (maxD hb) (cands route i) (cands route (i + 1)) H L" using s(3) fr by (simp add: cands_def)
  ultimately show ?thesis using s(2) hb(3) unfolding inf by blast
qed

lemma opt_fold_snoc: "opt_fold f (xs @ [x]) s = Option.bind (opt_fold f xs s) (f x)"
  by (induction xs arbitrary: s) (simp_all split: option.split)

definition hops_known ::
  "bool \<Rightarrow> 'p router \<Rightarrow> job \<Rightarrow> (edge_ref \<Rightarrow> group_ref option) \<Rightarrow> edge_candidate list list \<Rightarrow>
     (nat \<Rightarrow> edge_ref \<Rightarrow> edge_ref \<Rightarrow> rat) \<Rightarrow> (nat \<Rightarrow> edge_ref \<Rightarrow> edge_ref \<Rightarrow> edge_ref list) \<Rightarrow> nat \<Rightarrow> bool" where
  "hops_known x R J tg route H L n \<longleftrightarrow>
     (\<forall>j<n. 0 \<le> hop_inf R J route j \<and> hops_found x R J tg (hop_inf R J route j) (cands route j) (cands route (j + 1)) (H j) (L j))"

definition tables ::
  "'p router \<Rightarrow> job \<Rightarrow> edge_candidate list list \<Rightarrow> (nat \<Rightarrow> edge_ref \<Rightarrow> edge_ref \<Rightarrow> rat) \<Rightarrow>
     (nat \<Rightarrow> edge_ref \<Rightarrow> edge_ref \<Rightarrow> edge_ref list) \<Rightarrow> nat \<Rightarrow> edge_ref \<Rightarrow> edge_ref \<Rightarrow> comb_edge" where
  "tables R J route H L = (\<lambda>j. hop_table R J (route ! (j + 1)) (H j) (L j))"

lemma route_steps_ok:
  assumes rok: "router_ok R J" and st: "x \<longrightarrow> straight_lines R J" and route: "route_ok R tg route"
    and start: "\<And>W. comb_inv route source sink S (\<lambda>_. nodes) W 0 cg" and ok: "cache_ok x R J tg c"
  shows "n \<le> length route - 1 \<Longrightarrow>
    \<exists>N H L cg' c'. opt_fold (route_step R J route sink) [0..<n] (nodes, cg, c) = Some (N n, cg', c') \<and> cache_ok x R J tg c' \<and>
      hops_known x R J tg route H L n \<and> comb_inv route source sink S N (tables R J route H L) n cg'"
proof (induction n)
  case 0
  show ?case
    by (rule exI [of _ "\<lambda>_. nodes"]) (use start ok in \<open>auto simp: hops_known_def\<close>)
next
  case (Suc n)
  then obtain N H L cg1 c1 where s: "opt_fold (route_step R J route sink) [0..<n] (nodes, cg, c) = Some (N n, cg1, c1)"
    "cache_ok x R J tg c1" "hops_known x R J tg route H L n" and inv: "comb_inv route source sink S N (tables R J route H L) n cg1"
    by force
  have n: "n < length route - 1" using Suc.prems by simp
  obtain nx cg' c' H' L' where t: "route_step R J route sink n (N n, cg1, c1) = Some (nx, cg', c')" "cache_ok x R J tg c'" "0 \<le> hop_inf R J route n"
    "hops_found x R J tg (hop_inf R J route n) (cands route n) (cands route (n + 1)) H' L'"
    "comb_inv route source sink S (N(n + 1 := nx)) ((tables R J route H L)(n := hop_table R J (route ! (n + 1)) H' L')) (n + 1) cg'"
    using route_step_ok [OF rok st route n inv s(2)] by blast
  have tab: "(tables R J route H L)(n := hop_table R J (route ! (n + 1)) H' L') = tables R J route (H(n := H')) (L(n := L'))"
    by (auto simp: tables_def fun_eq_iff)
  have known: "hops_known x R J tg route (H(n := H')) (L(n := L')) (Suc n)"
    using s(3) t(3,4) by (auto simp: hops_known_def less_Suc_eq)
  have "opt_fold (route_step R J route sink) [0..<Suc n] (nodes, cg, c) = Some ((N(n + 1 := nx)) (Suc n), cg', c')"
    using s(1) t(1) by (simp add: opt_fold_snoc)
  then show ?case using t(2,5) known unfolding tab Suc_eq_plus1 by blast
qed

end
