(* ===== verification/Router_Optimal.thy ===== *)
theory Router_Optimal
  imports Router
begin

text \<open>
  The route that \<^verbatim>\<open>router/router.cpp\<close> returns is the cheapest one: the paths from the source to the sink of the graph of candidates are
  the choices of one candidate per group, with the sum of the penalties and hop costs as their cost.
\<close>

section \<open>Choices of candidates\<close>

text \<open>A choice lists one candidate per group, the last group first.\<close>

fun choice :: "edge_candidate list list \<Rightarrow> edge_ref list \<Rightarrow> bool" where
  "choice route [] = False"
| "choice route [x] = (x \<in> cands route 0)"
| "choice route (t # x # xs) = (t \<in> cands route (length (x # xs)) \<and> choice route (x # xs))"

fun choice_cost :: "edge_candidate list list \<Rightarrow> (nat \<Rightarrow> edge_ref \<Rightarrow> edge_ref \<Rightarrow> rat) \<Rightarrow> edge_ref list \<Rightarrow> rat" where
  "choice_cost route H (t # x # xs) =
     choice_cost route H (x # xs) + (penalty (route ! length (x # xs)) t + H (length xs) x t)"
| "choice_cost route H [x] = penalty (route ! 0) x"
| "choice_cost route H [] = 0"

text \<open>The hops of a choice, the first hop first.\<close>

definition choice_hop ::
  "'p router \<Rightarrow> job \<Rightarrow> edge_candidate list list \<Rightarrow> (nat \<Rightarrow> edge_ref \<Rightarrow> edge_ref \<Rightarrow> rat) \<Rightarrow>
     (nat \<Rightarrow> edge_ref \<Rightarrow> edge_ref \<Rightarrow> edge_ref list) \<Rightarrow> nat \<Rightarrow> edge_ref \<Rightarrow> edge_ref \<Rightarrow> edge_list_hop" where
  "choice_hop R J route H L i x t =
     \<lparr>eh_edges = (if popReachEdge (job_opts J) \<and> L i x t \<noteq> [] then tl (L i x t) else L i x t),
      eh_cost = penalty (route ! (i + 1)) t + H i x t,
      eh_start = Some (edge_getFrom (tm_g (rr_map R)) x), eh_end = Some (edge_getFrom (tm_g (rr_map R)) t)\<rparr>"

fun choice_hops ::
  "'p router \<Rightarrow> job \<Rightarrow> edge_candidate list list \<Rightarrow> (nat \<Rightarrow> edge_ref \<Rightarrow> edge_ref \<Rightarrow> rat) \<Rightarrow>
     (nat \<Rightarrow> edge_ref \<Rightarrow> edge_ref \<Rightarrow> edge_ref list) \<Rightarrow> edge_ref list \<Rightarrow> edge_list_hop list" where
  "choice_hops R J route H L (t # x # xs) =
     choice_hops R J route H L (x # xs) @ [choice_hop R J route H L (length xs) x t]"
| "choice_hops R J route H L _ = []"

section \<open>Paths through the graph of candidates\<close>

definition edge_of :: "comb_graph \<Rightarrow> node_ref \<Rightarrow> node_ref \<Rightarrow> edge_ref" where
  "edge_of cg a b = the (getEdg cg a b)"

text \<open>The path of a choice, the last edge first.\<close>

fun choice_path :: "comb_graph \<Rightarrow> node_ref \<Rightarrow> (nat \<Rightarrow> comb_nodes) \<Rightarrow> edge_ref list \<Rightarrow> edge_ref list" where
  "choice_path cg source N (t # x # xs) =
     edge_of cg (the (N (length xs) x)) (the (N (length (x # xs)) t)) # choice_path cg source N (x # xs)"
| "choice_path cg source N [x] = [edge_of cg source (the (N 0 x))]"
| "choice_path cg source N [] = []"

definition is_arc :: "comb_graph \<Rightarrow> edge_ref \<Rightarrow> node_ref \<Rightarrow> node_ref \<Rightarrow> comb_edge \<Rightarrow> bool" where
  "is_arc cg e a b p \<longleftrightarrow> edge_heap cg e = Some \<lparr>edge_from = a, edge_to = b, edge_pl = p\<rparr>"

lemma arc_edge:
  assumes "wf_graph cg" "arcs cg (a, b) = Some p"
  shows "is_arc cg (edge_of cg a b) a b p"
proof -
  obtain e x where x: "edge_heap cg e = Some x" "edge_from x = a" "edge_to x = b" "edge_pl x = p"
    using assms(2) by (auto simp: arcs_Some_iff [OF assms(1)])
  then have "getEdg cg a b = Some e" using getEdg_Some_iff [OF assms(1)] wf_edge(2) [OF assms(1) x(1)] by auto
  then show ?thesis using x by (simp add: edge_of_def is_arc_def)
qed

lemma comb_edge_arc:
  assumes "wf_graph cg" "edge_heap cg e = Some x"
  shows "arcs cg (edge_from x, edge_to x) = Some (edge_pl x)" "e = edge_of cg (edge_from x) (edge_to x)"
proof -
  show "arcs cg (edge_from x, edge_to x) = Some (edge_pl x)" using assms by (auto simp: arcs_Some_iff)
  have "getEdg cg (edge_from x) (edge_to x) = Some e"
    using getEdg_Some_iff [OF assms(1) wf_edge(2) [OF assms]] assms(2) by auto
  then show "e = edge_of cg (edge_from x) (edge_to x)" by (simp add: edge_of_def)
qed

lemma is_arcD:
  assumes "is_arc cg e a b p"
  shows "edge_heap cg e \<noteq> None" "edge_getFrom cg e = a" "edge_getTo cg e = b" "epl cg e = p"
  using assms by (auto simp: is_arc_def)

text \<open>The transitions of the search: two edges that meet in a node.\<close>

lemma comb_turn:
  assumes wf: "wf_graph cg" and e: "edge_heap cg e = Some x" and ne: "\<And>x. edge_heap cg e = Some x \<Longrightarrow> edge_from x \<noteq> edge_to x"
  shows "turn (comb_search infty cg) e n e' \<longleftrightarrow> n = edge_to x \<and> (\<exists>y. edge_heap cg e' = Some y \<and> edge_from y = n)"
proof -
  have "e' \<noteq> e" if "edge_heap cg e' = Some y" "edge_from y = edge_to x" for y using that e ne by auto
  moreover have "e' \<in> set (node_getAdjListOut cg (edge_to x)) \<longleftrightarrow> (\<exists>y. edge_heap cg e' = Some y \<and> edge_from y = edge_to x)"
    by (rule wf_out_edges [OF wf wf_edge(3) [OF wf e]])
  ultimately show ?thesis
    using ne [OF e] e by (auto simp: turn_def comb_search_def node_hasEdgeIn_def)
qed

lemma comb_search_sel [simp]:
  "costFunc (comb_search infty cg) f n e = ce_cost (epl cg e)" "infC (comb_search infty cg) = infty"
  "EDijkstra.getAdjListOut (comb_search infty cg) = node_getAdjListOut cg"
  "EDijkstra.getAdjListIn (comb_search infty cg) = node_getAdjListIn cg"
  by (simp_all add: comb_search_def)

text \<open>A node stands for one candidate of one group.\<close>

lemma node_unique:
  assumes inv: "comb_inv route source sink S N W i cg" and n: "N j x = Some a" "N k y = Some a" "j \<le> i" "k \<le> i"
  shows "j = k \<and> x = y"
proof -
  note c = comb_invD [OF inv]
  have r: "a \<in> ran (N j)" "a \<in> ran (N k)" using n(1,2) by (auto simp: ran_def)
  have jk: "j = k"
  proof (rule ccontr)
    assume "j \<noteq> k"
    then have "ran (N j) \<inter> ran (N k) = {}" using c(8) n(3,4) by blast
    then show False using r by blast
  qed
  have "inj_on (N j) (dom (N j))" using c(7) n(3) by blast
  then have "x = y" by (rule inj_onD) (use n jk in auto)
  then show ?thesis using jk by simp
qed

lemma node_not_end:
  assumes inv: "comb_inv route source sink S N W i cg" and n: "N j x = Some a" "j \<le> i"
  shows "a \<noteq> source" "a \<noteq> sink"
proof -
  have "a \<in> ran (N j)" using n(1) by (rule ranI)
  then show "a \<noteq> source" "a \<noteq> sink" using comb_invD(7) [OF inv] n(2) by blast+
qed

lemma cand_node:
  assumes inv: "comb_inv route source sink S N W i cg" and x: "x \<in> cands route j" "j \<le> i"
  shows "N j x = Some (the (N j x))"
proof -
  have "x \<in> dom (N j)" using comb_invD(7) [OF inv] x by blast
  then show ?thesis by auto
qed

text \<open>The edges of the graph, by their start.\<close>

lemma arc_from_node:
  assumes inv: "comb_inv route source sink S N W (length route - 1) cg" and two: "2 \<le> length route"
    and e: "edge_heap cg e = Some y" and a: "N j x = Some (edge_from y)" "j \<le> length route - 1"
  shows "(\<exists>t\<in>cands route (j + 1). j < length route - 1 \<and> N (j + 1) t = Some (edge_to y) \<and> edge_pl y = W j x t) \<or>
    j = length route - 1 \<and> edge_to y = sink \<and> edge_pl y = comb_edge_init"
proof -
  note c = comb_invD [OF inv]
  have "comb_arc route source sink S N W (length route - 1) (edge_from y) (edge_to y) (edge_pl y)"
    using comb_edge_arc(1) [OF c(1) e] c(10) by blast
  then consider k x' t where "k < length route - 1" "t \<in> cands route (k + 1)" "N k x' = Some (edge_from y)"
      "N (k + 1) t = Some (edge_to y)" "edge_pl y = W k x' t"
    | t where "edge_to y = sink" "edge_pl y = comb_edge_init" "N (length route - 1) t = Some (edge_from y)"
    using node_not_end(1) [OF inv a] unfolding comb_arc_def by blast
  then show ?thesis
  proof cases
    case 1
    then have "k = j \<and> x' = x" using node_unique [OF inv 1(3) a(1)] a(2) by simp
    then show ?thesis using 1 by blast
  next
    case 2
    then have "length route - 1 = j" using node_unique [OF inv 2(3) a(1)] a(2) by blast
    then show ?thesis using 2 by blast
  qed
qed

lemma arc_from_source:
  assumes inv: "comb_inv route source sink S N W i cg" and e: "edge_heap cg e = Some y" "edge_from y = source" and i: "i \<le> length route - 1"
  shows "S (edge_to y) = Some (edge_pl y)"
proof -
  note c = comb_invD [OF inv]
  have "comb_arc route source sink S N W i source (edge_to y) (edge_pl y)"
    using comb_edge_arc(1) [OF c(1) e(1)] c(10) e(2) by metis
  then show ?thesis using node_not_end(1) [OF inv] unfolding comb_arc_def by (metis less_imp_le order_refl)
qed

lemma no_arc_from:
  assumes inv: "comb_inv route source sink S N W (length route - 1) cg" and two: "2 \<le> length route"
    and a: "a = sink \<or> a \<in> dom S \<and> a \<notin> ran (N 0)" and e: "edge_heap cg e = Some y" "edge_from y = a"
  shows False
proof -
  note c = comb_invD [OF inv]
  have "comb_arc route source sink S N W (length route - 1) a (edge_to y) (edge_pl y)"
    using comb_edge_arc(1) [OF c(1) e(1)] c(10) e(2) by metis
  moreover have "a \<noteq> source" using a c(4,5) by blast
  ultimately obtain k x where k: "k \<le> length route - 1" "N k x = Some a" unfolding comb_arc_def by (metis less_imp_le order_refl)
  then have r: "a \<in> ran (N k)" by (auto simp: ran_def)
  then have "a \<in> dom S" "a \<notin> ran (N 0)" using a node_not_end(2) [OF inv k(2,1)] by auto
  then have "0 < k" using r by (cases k) auto
  then show False using c(9) k(1) r \<open>a \<in> dom S\<close> by blast
qed

lemma no_loop:
  assumes inv: "comb_inv route source sink S N W i cg" and e: "edge_heap cg e = Some y" and i: "i \<le> length route - 1"
  shows "edge_from y \<noteq> edge_to y"
proof
  assume l: "edge_from y = edge_to y"
  note c = comb_invD [OF inv]
  have "comb_arc route source sink S N W i (edge_to y) (edge_to y) (edge_pl y)"
    using comb_edge_arc(1) [OF c(1) e] c(10) l by metis
  then consider "edge_to y = source" "edge_to y \<in> dom S"
    | k x t where "k < i" "N k x = Some (edge_to y)" "N (k + 1) t = Some (edge_to y)"
    | t where "edge_to y = sink" "N i t = Some (edge_to y)"
    unfolding comb_arc_def by blast
  then show False
  proof cases
    case 1
    then show ?thesis using c(5) by blast
  next
    case 2
    then show ?thesis using node_unique [OF inv 2(2,3)] by simp
  next
    case 3
    then show ?thesis using node_not_end(2) [OF inv 3(2)] by simp
  qed
qed

section \<open>Paths and choices\<close>

definition top_node :: "(nat \<Rightarrow> comb_nodes) \<Rightarrow> edge_ref list \<Rightarrow> node_ref" where
  "top_node N cs = the (N (length cs - 1) (hd cs))"

lemma top_node_simps [simp]: "top_node N [x] = the (N 0 x)" "top_node N (t # x # xs) = the (N (length (x # xs)) t)"
  by (simp_all add: top_node_def)

lemma choice_ne: "choice route cs \<Longrightarrow> cs \<noteq> []"
  by (cases cs) auto

lemma choice_hd: "choice route cs \<Longrightarrow> hd cs \<in> cands route (length cs - 1)"
  by (induction cs rule: induct_list012) auto

lemma choice_path_hd: "cs \<noteq> [] \<Longrightarrow> \<exists>e es. choice_path cg source N cs = e # es"
  by (induction cs rule: induct_list012) auto

definition known_costs :: "edge_candidate list list \<Rightarrow> (nat \<Rightarrow> edge_ref \<Rightarrow> edge_ref \<Rightarrow> rat) \<Rightarrow> (nat \<Rightarrow> edge_ref \<Rightarrow> edge_ref \<Rightarrow> comb_edge) \<Rightarrow> bool" where
  "known_costs route H W \<longleftrightarrow> (\<forall>j x t. ce_cost (W j x t) = penalty (route ! (j + 1)) t + H j x t)"

text \<open>The last edge of a choice's path leads to the node of its last candidate.\<close>

lemma choice_path_arc:
  assumes inv: "comb_inv route source sink S N W (length route - 1) cg" and two: "2 \<le> length route"
  shows "choice route cs \<Longrightarrow> length cs \<le> length route \<Longrightarrow>
    \<exists>e es y. choice_path cg source N cs = e # es \<and> edge_heap cg e = Some y \<and> edge_to y = top_node N cs \<and>
      (case cs of [] \<Rightarrow> False | [x] \<Rightarrow> edge_from y = source \<and> ce_cost (edge_pl y) = penalty (route ! 0) x
       | t # x # xs \<Rightarrow> edge_from y = top_node N (x # xs) \<and> edge_pl y = W (length xs) x t)"
proof (cases cs rule: remdups_adj.cases)
  case 1
  then show "choice route cs \<Longrightarrow> ?thesis" by simp
next
  case (2 x)
  note c = comb_invD [OF inv]
  assume ch: "choice route cs"
  then obtain n p where n: "N 0 x = Some n" "S n = Some p" "ce_cost p = penalty (route ! 0) x" using c(6) 2 by auto
  then have "arcs cg (source, n) = Some p" using c(10) by (simp add: comb_arc_def)
  then have "is_arc cg (edge_of cg source n) source n p" by (rule arc_edge [OF c(1)])
  then show ?thesis using n 2 by (simp add: is_arc_def)
next
  case (3 t x xs)
  note c = comb_invD [OF inv]
  assume ch: "choice route cs" and len: "length cs \<le> length route"
  let ?j = "length xs"
  have j: "?j < length route - 1" using len 3 by simp
  have t: "t \<in> cands route (?j + 1)" "x \<in> cands route ?j" using ch 3 choice_hd [of route "x # xs"] by auto
  have n: "N ?j x = Some (the (N ?j x))" "N (?j + 1) t = Some (the (N (?j + 1) t))"
    using cand_node [OF inv t(2)] cand_node [OF inv t(1)] j by auto
  then have "comb_arc route source sink S N W (length route - 1) (the (N ?j x)) (the (N (?j + 1) t)) (W ?j x t)"
    using j t unfolding comb_arc_def by blast
  then have "arcs cg (the (N ?j x), the (N (?j + 1) t)) = Some (W ?j x t)" using c(10) by blast
  then have "is_arc cg (edge_of cg (the (N ?j x)) (the (N (?j + 1) t))) (the (N ?j x)) (the (N (?j + 1) t)) (W ?j x t)"
    by (rule arc_edge [OF c(1)])
  then show ?thesis using 3 by (simp add: is_arc_def top_node_def)
qed

text \<open>Every choice has its path.\<close>

lemma choice_is_path:
  assumes inv: "comb_inv route source sink S N W (length route - 1) cg" and two: "2 \<le> length route"
    and costs: "known_costs route H W" and step: "\<And>t x xs. choice route (t # x # xs) \<Longrightarrow> length (t # x # xs) \<le> length route \<Longrightarrow> choice_cost route H (x # xs) \<le> choice_cost route H (t # x # xs)"
  shows "choice route cs \<Longrightarrow> length cs \<le> length route \<Longrightarrow> choice_cost route H cs < infty \<Longrightarrow>
    path (comb_search infty cg) (set (node_getAdjListOut cg source)) (choice_path cg source N cs) (choice_cost route H cs)"
proof (induction cs rule: induct_list012)
  case (2 x)
  note c = comb_invD [OF inv]
  obtain y where y: "edge_heap cg (edge_of cg source (the (N 0 x))) = Some y" "edge_from y = source" "ce_cost (edge_pl y) = penalty (route ! 0) x"
    using choice_path_arc [OF inv two 2(1,2)] by auto
  have "edge_of cg source (the (N 0 x)) \<in> set (node_getAdjListOut cg source)"
    using wf_out_edges [OF c(1,2)] y(1,2) by blast
  then show ?case using path_start [of "edge_of cg source (the (N 0 x))" _ "comb_search infty cg"] y by simp
next
  case (3 t x xs)
  note c = comb_invD [OF inv]
  let ?G = "comb_search infty cg" let ?F = "set (node_getAdjListOut cg source)"
  have ch: "choice route (x # xs)" "length (x # xs) \<le> length route" using 3(3,4) by auto
  have le: "choice_cost route H (x # xs) \<le> choice_cost route H (t # x # xs)" by (rule step [OF 3(3,4)])
  obtain e es y where e: "choice_path cg source N (x # xs) = e # es" "edge_heap cg e = Some y" "edge_to y = top_node N (x # xs)"
    using choice_path_arc [OF inv two ch] by blast
  obtain e' es' y' where e': "choice_path cg source N (t # x # xs) = e' # es'" "edge_heap cg e' = Some y'" "edge_from y' = top_node N (x # xs)"
    "edge_pl y' = W (length xs) x t"
    using choice_path_arc [OF inv two 3(3,4)] by auto
  have p: "path ?G ?F (e # es) (choice_cost route H (x # xs))" using 3(2) [OF ch] le 3(5) e(1) by simp
  have t: "turn ?G e (top_node N (x # xs)) e'"
    using comb_turn [OF c(1) e(2) no_loop [OF inv]] e(3) e'(2,3) by auto
  have k: "choice_cost route H (x # xs) + costFunc ?G (Some e) (Some (top_node N (x # xs))) e' = choice_cost route H (t # x # xs)"
    using e'(2,4) costs by (simp add: known_costs_def)
  have "path ?G ?F (e' # e # es) (choice_cost route H (t # x # xs))"
    using path_step [OF p t] 3(5) unfolding k by simp
  moreover have "es' = e # es" using e'(1) e(1) by simp
  ultimately show ?case using e'(1) by simp
qed simp

text \<open>
  Every path is that of a choice, possibly with the edge to the sink, or a single edge to a node that another candidate for the same edge
  has replaced.
\<close>

definition path_form ::
  "edge_candidate list list \<Rightarrow> (nat \<Rightarrow> edge_ref \<Rightarrow> edge_ref \<Rightarrow> rat) \<Rightarrow> comb_graph \<Rightarrow> node_ref \<Rightarrow> node_ref \<Rightarrow> (node_ref \<rightharpoonup> comb_edge) \<Rightarrow>
     (nat \<Rightarrow> comb_nodes) \<Rightarrow> edge_ref list \<Rightarrow> rat \<Rightarrow> bool" where
  "path_form route H cg source sink S N es d \<longleftrightarrow>
     (\<exists>cs. choice route cs \<and> length cs \<le> length route \<and> es = choice_path cg source N cs \<and> d = choice_cost route H cs) \<or>
     (\<exists>cs. choice route cs \<and> length cs = length route \<and> es = edge_of cg (top_node N cs) sink # choice_path cg source N cs \<and>
        d = choice_cost route H cs) \<or>
     (\<exists>e y. es = [e] \<and> edge_heap cg e = Some y \<and> edge_to y \<in> dom S \<and> edge_to y \<notin> ran (N 0))"

lemma sink_arc:
  assumes inv: "comb_inv route source sink S N W (length route - 1) cg" and cs: "choice route cs" "length cs = length route"
  shows "is_arc cg (edge_of cg (top_node N cs) sink) (top_node N cs) sink comb_edge_init"
proof -
  note c = comb_invD [OF inv]
  have len: "length route - 1 = length cs - 1" using cs(2) by simp
  have "hd cs \<in> cands route (length route - 1)" using choice_hd [OF cs(1)] len by simp
  moreover from this have "N (length route - 1) (hd cs) = Some (top_node N cs)"
    using cand_node [OF inv, of "hd cs" "length route - 1"] len by (simp add: top_node_def)
  ultimately have "comb_arc route source sink S N W (length route - 1) (top_node N cs) sink comb_edge_init"
    unfolding comb_arc_def by blast
  then show ?thesis using arc_edge [OF c(1)] c(10) by blast
qed

lemma path_form_start:
  assumes inv: "comb_inv route source sink S N W (length route - 1) cg" and two: "2 \<le> length route"
    and e: "e \<in> set (node_getAdjListOut cg source)"
  shows "path_form route H cg source sink S N [e] (ce_cost (epl cg e))"
proof -
  note c = comb_invD [OF inv]
  obtain y where y: "edge_heap cg e = Some y" "edge_from y = source" using e wf_out_edges [OF c(1,2)] by blast
  have s: "S (edge_to y) = Some (edge_pl y)" by (rule arc_from_source [OF inv y]) simp
  show ?thesis
  proof (cases "edge_to y \<in> ran (N 0)")
    case True
    then obtain t where t: "N 0 t = Some (edge_to y)" by (auto simp: ran_def)
    have "dom (N 0) = cands route 0" using c(7) by blast
    then have ct: "t \<in> cands route 0" using t by blast
    then have "ce_cost (edge_pl y) = penalty (route ! 0) t" using c(6) t s by force
    then have "choice route [t] \<and> length [t] \<le> length route \<and> [e] = choice_path cg source N [t] \<and> ce_cost (epl cg e) = choice_cost route H [t]"
      using ct two t comb_edge_arc(2) [OF c(1) y(1)] y by simp
    then show ?thesis unfolding path_form_def by blast
  next
    case False
    then show ?thesis using y(1) s unfolding path_form_def by auto
  qed
qed

lemma path_form_step:
  assumes inv: "comb_inv route source sink S N W (length route - 1) cg" and two: "2 \<le> length route"
    and costs: "known_costs route H W" and form: "path_form route H cg source sink S N (e # es) d" and t: "turn (comb_search infty cg) e n e'"
    and heap: "edge_heap cg e \<noteq> None"
  shows "path_form route H cg source sink S N (e' # e # es) (d + ce_cost (epl cg e'))"
proof -
  note c = comb_invD [OF inv]
  obtain y where y: "edge_heap cg e = Some y" using heap by blast
  obtain y' where y': "edge_heap cg e' = Some y'" "edge_from y' = edge_to y"
    using t comb_turn [OF c(1) y no_loop [OF inv]] by auto
  have blocked: False if "edge_to y = sink \<or> edge_to y \<in> dom S \<and> edge_to y \<notin> ran (N 0)"
    using no_arc_from [OF inv two that y'(1)] y'(2) by simp
  consider (choice) cs where "choice route cs" "length cs \<le> length route" "e # es = choice_path cg source N cs" "d = choice_cost route H cs"
    | (sink) cs where "choice route cs" "e = edge_of cg (top_node N cs) sink" "length cs = length route"
    | (orphan) z where "edge_heap cg e = Some z" "edge_to z \<in> dom S" "edge_to z \<notin> ran (N 0)"
    using form unfolding path_form_def by auto
  then show ?thesis
  proof cases
    case choice
    obtain x xs where cs: "cs = x # xs" using choice_ne [OF choice(1)] by (cases cs) auto
    have a: "N (length xs) x = Some (edge_from y')" "length xs \<le> length route - 1"
    proof -
      have "edge_to y = top_node N cs" using choice_path_arc [OF inv two choice(1,2)] choice(3) y by auto
      then show "N (length xs) x = Some (edge_from y')"
        using cand_node [OF inv choice_hd [OF choice(1)]] choice(2) y'(2) cs by (simp add: top_node_def)
      show "length xs \<le> length route - 1" using choice(2) cs by simp
    qed
    have e'of: "e' = edge_of cg (the (N (length xs) x)) (edge_to y')" using comb_edge_arc(2) [OF c(1) y'(1)] a by simp
    consider t where "t \<in> cands route (length xs + 1)" "length xs < length route - 1" "N (length xs + 1) t = Some (edge_to y')"
        "edge_pl y' = W (length xs) x t"
      | "length xs = length route - 1" "edge_to y' = sink" "edge_pl y' = comb_edge_init"
      using arc_from_node [OF inv two y'(1) a] by blast
    then show ?thesis
    proof cases
      case 1
      have "choice route (t # cs)" "length (t # cs) \<le> length route" using choice(1) 1(1,2) cs by auto
      moreover have "e' # e # es = choice_path cg source N (t # cs)" using e'of 1(3) choice(3) cs by simp
      moreover have "d + ce_cost (epl cg e') = choice_cost route H (t # cs)"
        using choice(4) 1(4) y'(1) costs cs by (simp add: known_costs_def)
      ultimately show ?thesis unfolding path_form_def by blast
    next
      case 2
      have "length cs = length route" using 2(1) cs two by simp
      moreover have "e' # e # es = edge_of cg (top_node N cs) sink # choice_path cg source N cs"
        using e'of 2(2) choice(3) cs by (simp add: top_node_def)
      moreover have "d + ce_cost (epl cg e') = choice_cost route H cs" using choice(4) 2(3) y'(1) by (simp add: comb_edge_init_def)
      ultimately show ?thesis using choice(1) unfolding path_form_def by blast
    qed
  next
    case sink
    have "is_arc cg e (top_node N cs) sink comb_edge_init" unfolding sink(2) by (rule sink_arc [OF inv sink(1,3)])
    then have "edge_to y = sink" using y by (simp add: is_arc_def)
    then show ?thesis using blocked by blast
  next
    case orphan
    then show ?thesis using blocked y by simp
  qed
qed

lemma path_has_form:
  assumes inv: "comb_inv route source sink S N W (length route - 1) cg" and two: "2 \<le> length route" and costs: "known_costs route H W"
  shows "path (comb_search infty cg) (set (node_getAdjListOut cg source)) es d \<Longrightarrow>
    path_form route H cg source sink S N es d \<and> edge_heap cg (hd es) \<noteq> None"
proof (induction es d rule: path.induct)
  case (path_start e)
  have "edge_heap cg e \<noteq> None" using path_start wf_out_edges comb_invD(1,2) [OF inv] by blast
  then show ?case using path_form_start [OF inv two path_start] by simp
next
  case (path_step e es d n e')
  have h: "edge_heap cg e \<noteq> None" "path_form route H cg source sink S N (e # es) d" using path_step(4) by auto
  have "edge_heap cg e' \<noteq> None"
    using path_step(2) h(1) comb_turn [OF comb_invD(1) [OF inv] _ no_loop [OF inv]] by fastforce
  then show ?case using path_form_step [OF inv two costs h(2) path_step(2) h(1)] by simp
qed

section \<open>The search\<close>

lemma wf_in_edges:
  assumes "wf_graph g" "live g n"
  shows "e \<in> set (node_getAdjListIn g n) \<longleftrightarrow> (\<exists>x. edge_heap g e = Some x \<and> edge_to x = n)"
proof -
  obtain d where "node_heap g n = Some d" using assms(2) by auto
  then show ?thesis using assms(1) unfolding wf_graph_def node_getAdjListIn_def by simp
qed

lemma comb_closed:
  assumes inv: "comb_inv route source sink S N W (length route - 1) cg"
  shows "closed_edges (comb_search infty cg) (dom (edge_heap cg))"
proof -
  note c = comb_invD [OF inv]
  have "e' \<in> dom (edge_heap cg)" if y: "edge_heap cg e = Some y" and t: "turn (comb_search infty cg) e n e'" for e n e' y
    using comb_turn [OF c(1) y no_loop [OF inv]] t by auto
  moreover have "finite (dom (edge_heap cg))"
    by (rule finite_subset [of _ "{..<next_edge cg}"]) (use c(1) in \<open>auto simp: wf_graph_def\<close>)
  ultimately show ?thesis unfolding closed_edges_def by blast
qed

lemma comb_consistent:
  assumes inv: "comb_inv route source sink S N W (length route - 1) cg" and two: "2 \<le> length route" and costs: "known_costs route H W"
    and pos: "\<And>t x xs. choice route (t # x # xs) \<Longrightarrow> length (t # x # xs) \<le> length route \<Longrightarrow> 0 \<le> penalty (route ! length (x # xs)) t + H (length xs) x t"
  shows "consistent_heur (comb_search infty cg) (set (node_getAdjListOut cg source)) (\<lambda>_. 0)"
  unfolding consistent_heur_def
proof (intro allI impI)
  fix e es d n e'
  assume p: "path (comb_search infty cg) (set (node_getAdjListOut cg source)) (e # es) d" and t: "turn (comb_search infty cg) e n e'"
  note c = comb_invD [OF inv]
  have form: "path_form route H cg source sink S N (e # es) d" "edge_heap cg e \<noteq> None" using path_has_form [OF inv two costs p] by auto
  then obtain y where y: "edge_heap cg e = Some y" by blast
  obtain y' where y': "edge_heap cg e' = Some y'" "edge_from y' = edge_to y"
    using t comb_turn [OF c(1) y no_loop [OF inv]] by auto
  have f': "path_form route H cg source sink S N (e' # e # es) (d + ce_cost (epl cg e'))"
    by (rule path_form_step [OF inv two costs form(1) t form(2)])
  have "0 \<le> ce_cost (epl cg e')"
  proof -
    consider cs where "choice route cs" "length cs \<le> length route" "e' # e # es = choice_path cg source N cs"
      | cs where "choice route cs" "length cs = length route" "e' = edge_of cg (top_node N cs) sink"
      using f' unfolding path_form_def by auto
    then show ?thesis
    proof cases
      case 1
      then obtain t x xs where cs: "cs = t # x # xs" by (cases cs rule: remdups_adj.cases) auto
      then have "edge_pl y' = W (length xs) x t" using choice_path_arc [OF inv two 1(1,2)] 1(3) y'(1) by auto
      then show ?thesis using pos [of t x xs] 1(1,2) cs costs y'(1) by (simp add: known_costs_def)
    next
      case 2
      have "is_arc cg e' (top_node N cs) sink comb_edge_init" unfolding 2(3) by (rule sink_arc [OF inv 2(1,2)])
      then show ?thesis by (simp add: is_arc_def comb_edge_init_def)
    qed
  qed
  then show "0 \<le> costFunc (comb_search infty cg) (Some e) (Some n) e' + 0" by simp
qed

lemma choice_mono:
  assumes "\<And>t x xs. choice route (t # x # xs) \<Longrightarrow> length (t # x # xs) \<le> length route \<Longrightarrow> 0 \<le> penalty (route ! length (x # xs)) t + H (length xs) x t"
  shows "choice route (t # x # xs) \<Longrightarrow> length (t # x # xs) \<le> length route \<Longrightarrow> choice_cost route H (x # xs) \<le> choice_cost route H (t # x # xs)"
  using assms [of t x xs] by simp

lemma full_path:
  assumes inv: "comb_inv route source sink S N W (length route - 1) cg" and two: "2 \<le> length route" and costs: "known_costs route H W"
    and pos: "\<And>t x xs. choice route (t # x # xs) \<Longrightarrow> length (t # x # xs) \<le> length route \<Longrightarrow> 0 \<le> penalty (route ! length (x # xs)) t + H (length xs) x t"
    and cs: "choice route cs" "length cs = length route" "choice_cost route H cs < infty"
  shows "path (comb_search infty cg) (set (node_getAdjListOut cg source))
    (edge_of cg (top_node N cs) sink # choice_path cg source N cs) (choice_cost route H cs)"
proof -
  note c = comb_invD [OF inv]
  let ?G = "comb_search infty cg" let ?F = "set (node_getAdjListOut cg source)" let ?s = "edge_of cg (top_node N cs) sink"
  have p: "path ?G ?F (choice_path cg source N cs) (choice_cost route H cs)"
    using choice_is_path [OF inv two costs choice_mono [OF pos] cs(1)] cs(2,3) by simp
  obtain e es y where e: "choice_path cg source N cs = e # es" "edge_heap cg e = Some y" "edge_to y = top_node N cs"
    using choice_path_arc [OF inv two cs(1)] cs(2) by auto
  have s: "is_arc cg ?s (top_node N cs) sink comb_edge_init" by (rule sink_arc [OF inv cs(1,2)])
  have t: "turn ?G e (top_node N cs) ?s" using comb_turn [OF c(1) e(2) no_loop [OF inv]] e(3) s by (auto simp: is_arc_def)
  have k: "choice_cost route H cs + costFunc ?G (Some e) (Some (top_node N cs)) ?s = choice_cost route H cs"
    using is_arcD(4) [OF s] by (simp add: comb_edge_init_def)
  have "path ?G ?F (?s # e # es) (choice_cost route H cs)" using path_step [OF p [unfolded e(1)] t] cs(3) unfolding k by simp
  then show ?thesis by (simp add: e(1))
qed

lemma comb_optimal:
  assumes inv: "comb_inv route source sink S N W (length route - 1) cg" and two: "2 \<le> length route" and costs: "known_costs route H W"
    and pos: "\<And>t x xs. choice route (t # x # xs) \<Longrightarrow> length (t # x # xs) \<le> length route \<Longrightarrow> 0 \<le> penalty (route ! length (x # xs)) t + H (length xs) x t"
    and tp: "route_queue tp" and bounded: "choice route cs0" "length cs0 = length route" "choice_cost route H cs0 < infty"
  shows "\<exists>v ns cs. shortestPath_node_nodes tp (comb_search infty cg) (\<lambda>_. 0) source {sink} =
      Some (v, ns, edge_of cg (top_node N cs) sink # choice_path cg source N cs) \<and> choice route cs \<and> length cs = length route \<and>
    (\<forall>cs'. choice route cs' \<longrightarrow> length cs' = length route \<longrightarrow> choice_cost route H cs \<le> choice_cost route H cs')"
proof -
  note c = comb_invD [OF inv]
  let ?G = "comb_search infty cg" let ?F = "set (node_getAdjListOut cg source)"
  let ?frm = "remdups (node_getAdjListOut cg source)" let ?to = "set (node_getAdjListIn cg sink)"
  have sub: "set ?frm \<subseteq> dom (edge_heap cg)" using wf_out_edges [OF c(1,2)] by auto
  have cons: "consistent_heur ?G (set ?frm) (\<lambda>_. 0)" using comb_consistent [OF inv two costs pos] by simp
  obtain v ns res where s: "shortestPath tp ?G (\<lambda>_. 0) ?frm ?to = Some (v, ns, res)"
    and r: "res = [] \<and> v = infC ?G \<and> (\<forall>t\<in>?to. \<forall>es d. \<not> path ?G (set ?frm) (t # es) d) \<or>
      (\<exists>t es. res = t # es \<and> t \<in> ?to \<and> path ?G (set ?frm) res v \<and>
        (\<forall>t'\<in>?to. \<forall>es' d. path ?G (set ?frm) (t' # es') d \<longrightarrow> v + 0 \<le> d + 0))"
    using shortestPath_correct [OF tp comb_closed [OF inv] sub cons, of ?to] by (elim exE conjE) (rule that)
  have to: "edge_of cg (top_node N cs) sink \<in> ?to" if "choice route cs" "length cs = length route" for cs
    using sink_arc [OF inv that] wf_in_edges [OF c(1,3)] by (auto simp: is_arc_def)
  obtain t es where t: "res = t # es" "t \<in> ?to" "path ?G ?F res v"
    and least: "\<And>t' es' d. t' \<in> ?to \<Longrightarrow> path ?G ?F (t' # es') d \<Longrightarrow> v \<le> d"
    using r to [OF bounded(1,2)] full_path [OF inv two costs pos bounded] by auto
  obtain y where y: "edge_heap cg t = Some y" "edge_to y = sink" using t(2) wf_in_edges [OF c(1,3)] by blast
  have ends: "top_node N cs \<noteq> sink" if "choice route cs" "length cs \<le> length route" for cs
  proof -
    have l: "length cs - 1 \<le> length route - 1" using that(2) by simp
    show ?thesis using node_not_end(2) [OF inv cand_node [OF inv choice_hd [OF that(1)] l] l] by (simp add: top_node_def)
  qed
  have "path_form route H cg source sink S N res v" using path_has_form [OF inv two costs t(3)] by blast
  then obtain cs where cs: "choice route cs" "length cs = length route"
    "res = edge_of cg (top_node N cs) sink # choice_path cg source N cs" "v = choice_cost route H cs"
  proof -
    assume form: "path_form route H cg source sink S N res v"
    have no1: "\<not> (\<exists>cs. choice route cs \<and> length cs \<le> length route \<and> res = choice_path cg source N cs)"
      using choice_path_arc [OF inv two] ends y t(1) by fastforce
    have no3: "\<not> (\<exists>e z. res = [e] \<and> edge_heap cg e = Some z \<and> edge_to z \<in> dom S)" using y t(1) c(5) by auto
    show ?thesis using form no1 no3 that unfolding path_form_def by blast
  qed
  have "choice_cost route H cs \<le> choice_cost route H cs'" if cs': "choice route cs'" "length cs' = length route" for cs'
  proof (cases "choice_cost route H cs' < infty")
    case True
    then show ?thesis using least [OF to [OF cs'] full_path [OF inv two costs pos cs' True]] cs(4) by simp
  next
    case False
    have "v \<le> choice_cost route H cs0" by (rule least [OF to [OF bounded(1,2)] full_path [OF inv two costs pos bounded]])
    then show ?thesis using False bounded(3) cs(4) by simp
  qed
  moreover have "shortestPath_node_nodes tp ?G (\<lambda>_. 0) source {sink} = Some (v, ns @ [source], res)"
    using s by (simp add: shortestPath_node_nodes_def)
  ultimately show ?thesis using cs(1-3) by blast
qed

text \<open>Reading the hops off the path.\<close>

lemma read_choice:
  assumes inv: "comb_inv route source sink S N (tables R J route H L) (length route - 1) cg" and two: "2 \<le> length route"
  shows "choice route cs \<Longrightarrow> length cs \<le> length route \<Longrightarrow> read_hops cg source sink (choice_path cg source N cs) = choice_hops R J route H L cs"
proof (induction cs rule: induct_list012)
  case (2 x)
  obtain y where "edge_heap cg (edge_of cg source (the (N 0 x))) = Some y" "edge_from y = source"
    using choice_path_arc [OF inv two 2(1,2)] by auto
  then show ?case by (simp add: read_hops_def)
next
  case (3 t x xs)
  have ch: "choice route (x # xs)" "length (x # xs) \<le> length route" using 3(3,4) by auto
  obtain e' es' y where e': "choice_path cg source N (t # x # xs) = e' # es'" "edge_heap cg e' = Some y" "edge_to y = top_node N (t # x # xs)"
    "edge_from y = top_node N (x # xs)" "edge_pl y = tables R J route H L (length xs) x t"
    using choice_path_arc [OF inv two 3(3,4)] by auto
  have es': "es' = choice_path cg source N (x # xs)" using e'(1) by simp
  have l: "length (x # xs) - 1 \<le> length route - 1" "length (t # x # xs) - 1 \<le> length route - 1" using 3(4) by auto
  have "edge_from y \<noteq> source" "edge_to y \<noteq> sink"
    using node_not_end(1) [OF inv cand_node [OF inv choice_hd [OF ch(1)] l(1)] l(1)]
      node_not_end(2) [OF inv cand_node [OF inv choice_hd [OF 3(3)] l(2)] l(2)] e'(3,4) by (simp_all add: top_node_def)
  then have "read_hops cg source sink (e' # es') = read_hops cg source sink es' @ [hop_of (tables R J route H L (length xs) x t)]"
    using e'(2,5) by (simp add: read_hops_def)
  moreover have "hop_of (tables R J route H L (length xs) x t) = choice_hop R J route H L (length xs) x t"
    by (simp add: tables_def hop_table_def hop_payload_def hop_of_def choice_hop_def hop_init_def)
  ultimately show ?case using 3(2) [OF ch] e'(1) es' by simp
qed simp

section \<open>The cheapest route\<close>

definition complete_choice :: "edge_candidate list list \<Rightarrow> edge_ref list \<Rightarrow> bool" where
  "complete_choice route cs \<longleftrightarrow> choice route cs \<and> length cs = length route"

text \<open>\<open>hs\<close> are the hops of the cheapest choice, with the hop costs \<open>H\<close> and edges \<open>L\<close>.\<close>

definition cheapest_hops ::
  "'p router \<Rightarrow> job \<Rightarrow> edge_candidate list list \<Rightarrow> (nat \<Rightarrow> edge_ref \<Rightarrow> edge_ref \<Rightarrow> rat) \<Rightarrow>
     (nat \<Rightarrow> edge_ref \<Rightarrow> edge_ref \<Rightarrow> edge_ref list) \<Rightarrow> edge_list_hop list \<Rightarrow> bool" where
  "cheapest_hops R J route H L hs \<longleftrightarrow>
     (\<exists>cs. complete_choice route cs \<and> hs = choice_hops R J route H L cs \<and>
        (\<forall>cs'. complete_choice route cs' \<longrightarrow> choice_cost route H cs \<le> choice_cost route H cs'))"

lemma hop_nonneg:
  assumes "router_ok R J" "hops_known ex R J tg route H L n" "j < n" "x \<in> cands route j" "t \<in> cands route (j + 1)"
    and x: "x \<in> dom (edge_heap (tm_g (rr_map R)))"
  shows "0 \<le> H j x t"
proof -
  have ok: "wf_graph (tm_g (rr_map R))" "sane (rr_map R) (cf_rOpts (make_cost J (tg t) 0))" using assms(1) by (auto simp: router_ok_def)
  have "0 \<le> hop_inf R J route j" "hop_ok ex R J (cost_to (rr_map R) J tg t) (hop_inf R J route j) x t (H j x t) (L j x t)"
    using assms(2-5) by (simp_all add: hops_known_def hops_found_def)
  then show ?thesis using hop_cost_nonneg [OF ok] x unfolding hop_ok_def best_walk_def cost_to_def by metis
qed

lemma penalty_nonneg:
  assumes "route_ok R tg route" "i < length route" "t \<in> cands route i"
  shows "0 \<le> penalty (route ! i) t"
proof -
  have "filter (\<lambda>to. ec_e to = t) (route ! i) \<noteq> []" using assms(3) by (auto simp: cands_def filter_empty_conv)
  then have "last (filter (\<lambda>to. ec_e to = t) (route ! i)) \<in> set (route ! i)"
    by (metis filter_is_subset last_in_set subsetD)
  then show ?thesis using assms(1) nth_mem [OF assms(2)] by (auto simp: penalty_def route_ok_def)
qed

lemma choice_hops_length: "length (choice_hops R J route H L cs) = length cs - 1"
  by (induction R J route H L cs rule: choice_hops.induct) auto

lemma read_complete:
  assumes inv: "comb_inv route source sink S N (tables R J route H L) (length route - 1) cg" and two: "2 \<le> length route"
    and cs: "choice route cs" "length cs = length route"
  shows "read_hops cg source sink (edge_of cg (top_node N cs) sink # choice_path cg source N cs) = choice_hops R J route H L cs"
proof -
  have "edge_getTo cg (edge_of cg (top_node N cs) sink) = sink" using sink_arc [OF inv cs] by (rule is_arcD)
  then have "read_hops cg source sink (edge_of cg (top_node N cs) sink # choice_path cg source N cs) =
      read_hops cg source sink (choice_path cg source N cs)" by (simp add: read_hops_def)
  then show ?thesis using read_choice [OF inv two cs(1)] cs(2) by simp
qed

lemma fresh_ends:
  obtains source sink cg where "addNd None (snd (addNd None dir_graph_init)) = (sink, cg)" "fst (addNd None (dir_graph_init :: comb_graph)) = source"
    "first_inv source sink [] Map.empty cg Map.empty" "source \<noteq> sink"
proof -
  let ?g0 = "dir_graph_init :: comb_graph"
  let ?g1 = "snd (addNd None ?g0)"
  have wf0: "wf_graph ?g0" by (rule wf_graph_init)
  note a = addNd_facts [OF wf0]
  have wf1: "wf_graph ?g1" using a(2) by (simp add: extends_graph_def)
  note b = addNd_facts [OF wf1]
  have "live ?g1 (next_node ?g0)" using a(4) [of None] by simp
  then have n: "next_node ?g0 \<noteq> next_node ?g1" using b(3) by metis
  have arcs: "arcs (snd (addNd None ?g1)) = Map.empty"
    using a(5) b(5) by (simp add: arcs_def dir_graph_init_def fun_eq_iff)
  have "first_inv (next_node ?g0) (next_node ?g1) [] Map.empty (snd (addNd None ?g1)) Map.empty"
    using a(4) b(2,4) arcs by (simp add: first_inv_def extends_graph_def)
  moreover have "addNd None ?g1 = (next_node ?g1, snd (addNd None ?g1))" using b(1) [of None] by (simp add: prod_eq_iff)
  ultimately show ?thesis using that a(1) [of None] n by blast
qed

text \<open>Every group has a candidate, so there is a complete choice.\<close>

lemma some_choice:
  assumes "route_ok R tg route"
  shows "n < length route \<Longrightarrow> \<exists>cs. choice route cs \<and> length cs = Suc n"
proof (induction n)
  case 0
  then have "route ! 0 \<noteq> []" using assms by (simp add: route_ok_def)
  then obtain t where "t \<in> cands route 0" by (cases "route ! 0") (auto simp: cands_def)
  then show ?case by (intro exI [of _ "[t]"]) simp
next
  case (Suc n)
  then obtain cs where cs: "choice route cs" "length cs = Suc n" by auto
  have "route ! Suc n \<noteq> []" using Suc.prems assms by (simp add: route_ok_def)
  then obtain t where "t \<in> cands route (Suc n)" by (cases "route ! Suc n") (auto simp: cands_def)
  then show ?case using cs by (intro exI [of _ "t # cs"]) (cases cs; simp)
qed

lemma route_fresh_cheapest:
  assumes rok: "router_ok R J" and st: "ex \<longrightarrow> straight_lines R J" and route: "route_ok R tg route" and two: "2 \<le> length route"
    and ok: "cache_ok ex R J tg c"
  shows "\<exists>H L c' B. cache_ok ex R J tg c' \<and> hops_known ex R J tg route H L (length route - 1) \<and>
    (\<forall>infty>B. \<exists>hs. route_fresh R J infty route c = Some (hs, c') \<and> cheapest_hops R J route H L hs)"
proof -
  let ?g = "tm_g (rr_map R)"
  obtain source sink cg where ends: "addNd None (snd (addNd None dir_graph_init)) = (sink, cg)"
    "fst (addNd None (dir_graph_init :: comb_graph)) = source" "first_inv source sink [] Map.empty cg Map.empty" "source \<noteq> sink"
    by (rule fresh_ends)
  obtain nodes cg1 S where first: "fold (first_candidate ?g source) (route ! 0) (Map.empty, cg) = (nodes, cg1)"
    "first_inv source sink (route ! 0) nodes cg1 S" using first_fold [OF ends(3)] by blast
  obtain N H L cg2 c' where steps: "opt_fold (route_step R J route sink) [0..<length route - 1] (nodes, cg1, c) = Some (N (length route - 1), cg2, c')"
    "cache_ok ex R J tg c'" "hops_known ex R J tg route H L (length route - 1)"
    and inv: "comb_inv route source sink S N (tables R J route H L) (length route - 1) cg2"
    using route_steps_ok [OF rok st route first_comb [OF first(2) ends(4) two] ok, of "length route - 1"] by blast
  have costs: "known_costs route H (tables R J route H L)"
    by (simp add: known_costs_def tables_def hop_table_def hop_payload_def)
  have live: "x \<in> dom (edge_heap ?g)" if "x \<in> cands route i" "i < length route" for x i
    using route that nth_mem [OF that(2)] unfolding route_ok_def cands_def by blast
  have pos: "0 \<le> penalty (route ! length (x # xs)) t + H (length xs) x t"
    if "choice route (t # x # xs)" "length (t # x # xs) \<le> length route" for t x xs
    using that live [of x "length xs"] penalty_nonneg [OF route, of "length (x # xs)" t] choice_hd [of route "x # xs"]
      hop_nonneg [OF rok steps(3), of "length xs" x t] by simp
  have tp: "route_queue (rr_top R)" using rok by (simp add: router_ok_def)
  have run: "route_fresh R J infty route c = (let hs = read_hops cg2 source sink res in
      if length hs = length route - 1 then Some (hs, c') else None)"
    if path: "shortestPath_node_nodes (rr_top R) (comb_search infty cg2) (\<lambda>_. 0) source {sink} = Some (v, ns, res)" for infty v ns res
  proof -
    define g1 where "g1 = snd (addNd None (dir_graph_init :: comb_graph))"
    have "addNd None (dir_graph_init :: comb_graph) = (source, g1)" using ends(2) by (simp add: prod_eq_iff g1_def)
    then show ?thesis using path two ends(1) [folded g1_def] first(1) steps(1)
      unfolding route_fresh_def route_edges_def Let_def by (simp del: fold_simps)
  qed
  have "length route - 1 < length route" "Suc (length route - 1) = length route" using two by linarith+
  then obtain cs0 where cs0: "choice route cs0" "length cs0 = length route"
    using some_choice [OF route, of "length route - 1"] by metis
  have "\<exists>hs. route_fresh R J infty route c = Some (hs, c') \<and> cheapest_hops R J route H L hs"
    if infty: "choice_cost route H cs0 < infty" for infty
  proof -
    obtain v ns cs where cs: "shortestPath_node_nodes (rr_top R) (comb_search infty cg2) (\<lambda>_. 0) source {sink} =
        Some (v, ns, edge_of cg2 (top_node N cs) sink # choice_path cg2 source N cs)" "choice route cs"
      "length cs = length route" "\<And>cs'. choice route cs' \<Longrightarrow> length cs' = length route \<Longrightarrow> choice_cost route H cs \<le> choice_cost route H cs'"
      using comb_optimal [OF inv two costs pos tp cs0 infty] by metis
    have "route_fresh R J infty route c = Some (choice_hops R J route H L cs, c')"
      using run [OF cs(1)] read_complete [OF inv two cs(2,3)] cs(3) by (simp add: choice_hops_length)
    moreover have "cheapest_hops R J route H L (choice_hops R J route H L cs)"
      using cs(2-4) unfolding cheapest_hops_def complete_choice_def by blast
    ultimately show ?thesis by blast
  qed
  then show ?thesis using steps(2,3) by blast
qed

section \<open>An example\<close>

text \<open>Options with the level factors that \<^verbatim>\<open>pfaedle.cfg\<close> sets for trains.\<close>

definition default_options :: routing_options where
  "default_options = \<lparr>fullTurnPunishFac = 2000, fullTurnAngle = 45, passThruStationsPunish = 100, oneWayPunishFac = 1, oneWayEdgePunish = 0,
     lineUnmatchedPunishFact = 1 / 2, noLinesPunishFact = 0, platformUnmatchedPen = 0, stationDistPenFactor = 0, nonOsmPen = 0,
     levelPunish = [1, 5 / 4, 3 / 2, 2, 5 / 2, 7 / 2, 5, 7], popReachEdge = True, noSelfHops = True\<rparr>"

definition way :: "3 word \<Rightarrow> nat edge_payload" where
  "way l = \<lparr>ep_length = Finite 5, ep_max_speed = Finite 50, ep_oneWay = 0, ep_hasRestr = False, ep_rev = False, ep_lvl = l,
     ep_geom = [0, 0], ep_lines = []\<rparr>"

definition stop_node :: "nat \<Rightarrow> nat node_payload" where
  "stop_node p = (node_payload_of p)\<lparr>np_component := Some 0\<rparr>"

text \<open>Three ways in a row, five metres each and of the levels 0, 3 and 7, with an example route from the first to the second or the third one.\<close>

definition ways :: "nat tr_graph" where
  "ways = \<lparr>graph_nodes = [0, 1, 2, 3],
     node_heap = [0 \<mapsto> \<lparr>adjListIn = [], adjListOut = [0], node_pl = stop_node 0\<rparr>, 1 \<mapsto> \<lparr>adjListIn = [0], adjListOut = [1], node_pl = stop_node 1\<rparr>,
       2 \<mapsto> \<lparr>adjListIn = [1], adjListOut = [2], node_pl = stop_node 2\<rparr>, 3 \<mapsto> \<lparr>adjListIn = [2], adjListOut = [], node_pl = stop_node 3\<rparr>],
     edge_heap = [0 \<mapsto> \<lparr>edge_from = 0, edge_to = 1, edge_pl = way 0\<rparr>, 1 \<mapsto> \<lparr>edge_from = 1, edge_to = 2, edge_pl = way 3\<rparr>,
       2 \<mapsto> \<lparr>edge_from = 2, edge_to = 3, edge_pl = way 7\<rparr>],
     next_node = 4, next_edge = 3\<rparr>"

definition on_line :: "nat geo_ops" where
  "on_line = flat\<lparr>webMercMeterDist := \<lambda>a b. Finite (5 * \<bar>of_nat a - of_nat b\<bar>)\<rparr>"

definition way_router :: "nat router" where
  "way_router = \<lparr>rr_map = \<lparr>tm_geo = on_line, tm_g = ways, tm_line = (\<lambda>_. \<lparr>fromStr = [], toStr = [], shortName = []\<rparr>), tm_comp = (\<lambda>_. \<lparr>minEdgeLvl = 0\<rparr>)\<rparr>,
     rr_center = hd, rr_top = first_top, rr_caching = True\<rparr>"

definition way_job :: job where
  "way_job = \<lparr>job_attrs = \<lparr>ra_from = [], ra_to = [], ra_short_name = []\<rparr>, job_opts = default_options, job_rest = restrictor_init\<rparr>"

definition way_route :: "edge_candidate list list" where
  "way_route = [[\<lparr>ec_e = 0, ec_pen = 1\<rparr>], [\<lparr>ec_e = 1, ec_pen = 20\<rparr>, \<lparr>ec_e = 2, ec_pen = 2\<rparr>]]"

lemma ways_wf: "wf_graph ways"
  by (auto simp: wf_graph_def ways_def split: if_splits)

lemma ways_sel:
  "tm_g (rr_map way_router) = ways" "rr_top way_router = first_top" "job_opts way_job = default_options" "tm_geo (rr_map way_router) = on_line"
  by (simp_all add: way_router_def way_job_def)

lemma ways_edges:
  "dom (edge_heap ways) = {0, 1, 2}" "e \<in> {0, 1, 2} \<Longrightarrow> edge_getFrom ways e = e" "e \<in> {0, 1, 2} \<Longrightarrow> edge_getTo ways e = e + 1"
  "e \<in> {0, 1, 2} \<Longrightarrow> \<exists>l. epl ways e = way l" "n \<in> {0, 1, 2, 3} \<Longrightarrow> npl ways n = stop_node n" "n \<in> {0, 1, 2} \<Longrightarrow> node_getAdjListOut ways n = [n]"
  by (auto simp: ways_def edge_getFrom_def edge_getTo_def edge_at_def epl_def npl_def node_at_def node_getAdjListOut_def split: if_splits)

lemma ways_node: "n \<in> {0, 1, 2} \<Longrightarrow> np_geom (npl ways n) = n \<and> get_si (npl ways n) = None"
  using ways_edges(5) [of n] by (auto simp: stop_node_def node_payload_of_def get_si_def)

lemma ways_router_ok: "router_ok way_router way_job"
proof -
  have "0 \<le> levelPunish default_options ! i" if "i < 8" for i
    using nth_mem [of i "levelPunish default_options"] that by (auto simp: default_options_def)
  moreover have "metres (ep_length (epl ways e)) = 5" if "e \<in> {0, 1, 2}" for e
    using ways_edges(4) [OF that] by (auto simp: way_def metres_def)
  ultimately have "sane (rr_map way_router) (job_opts way_job)"
    by (simp add: sane_def ways_sel ways_edges(1)) (simp add: default_options_def)
  then show ?thesis by (simp add: router_ok_def ways_sel ways_wf ft.route_queue_axioms)
qed

lemma ways_straight: "straight_lines way_router way_job"
proof -
  have "sorted (levelPunish default_options)" "length (levelPunish default_options) = 8" by (simp_all add: default_options_def)
  then have "rising_levels default_options" by (simp add: rising_levels_def sorted_iff_nth_mono)
  moreover have comp: "np_component (npl ways n) = Some 0" if "n \<in> {0, 1, 2, 3}" for n
    using ways_edges(5) [OF that] by (simp add: stop_node_def)
  have "comp_levels (rr_map way_router)"
    unfolding comp_levels_def
  proof
    fix e assume "e \<in> dom (edge_heap (tm_g (rr_map way_router)))"
    then have e: "e \<in> {0, 1, 2}" by (simp add: ways_sel ways_edges(1))
    then have "e \<in> {0, 1, 2, 3}" "e + 1 \<in> {0, 1, 2, 3}" by auto
    moreover have "component_lvl (rr_map way_router) n = 0" for n by (simp add: component_lvl_def way_router_def)
    ultimately show "np_component (npl (tm_g (rr_map way_router)) (edge_getFrom (tm_g (rr_map way_router)) e)) =
        np_component (npl (tm_g (rr_map way_router)) (edge_getTo (tm_g (rr_map way_router)) e)) \<and>
      (metres (ep_length (epl (tm_g (rr_map way_router)) e)) \<noteq> 0 \<longrightarrow>
        component_lvl (rr_map way_router) (edge_getFrom (tm_g (rr_map way_router)) e) \<le> ep_lvl (epl (tm_g (rr_map way_router)) e))"
      using comp [of e] comp [of "e + 1"] e by (simp add: ways_sel ways_edges(2,3) word_le_nat_alt)
  qed
  moreover have "long_edges (rr_map way_router)"
    unfolding long_edges_def
  proof (intro ballI allI)
    fix e c assume "e \<in> dom (edge_heap (tm_g (rr_map way_router)))"
    then have e: "e \<in> {0, 1, 2}" by (simp add: ways_sel ways_edges(1))
    then have "e + 1 \<in> {0, 1, 2, 3}" "e \<in> {0, 1, 2, 3}" by auto
    then have g: "np_geom (npl ways e) = e" "np_geom (npl ways (e + 1)) = e + 1"
      using ways_edges(5) [of e] ways_edges(5) [of "e + 1"] by (auto simp: stop_node_def node_payload_of_def)
    have d: "dist_to on_line c p = 5 * \<bar>of_nat p - of_nat c\<bar>" for p by (simp add: dist_to_def on_line_def metres_def)
    have len: "metres (ep_length (epl ways e)) = 5" using ways_edges(4) [OF e] by (auto simp: way_def metres_def)
    have "5 * \<bar>of_nat e - of_nat c\<bar> \<le> (5 :: rat) + 5 * \<bar>of_nat (e + 1) - of_nat c\<bar>" unfolding of_nat_add by (simp add: abs_if)
    then show "dist_to (tm_geo (rr_map way_router)) c (np_geom (npl (tm_g (rr_map way_router)) (edge_getFrom (tm_g (rr_map way_router)) e))) \<le>
        metres (ep_length (epl (tm_g (rr_map way_router)) e)) +
        dist_to (tm_geo (rr_map way_router)) c (np_geom (npl (tm_g (rr_map way_router)) (edge_getTo (tm_g (rr_map way_router)) e)))"
      unfolding ways_sel ways_edges(2,3) [OF e] g d len .
  qed
  ultimately show ?thesis by (simp add: straight_lines_def ways_sel)
qed

lemma ways_route_ok: "route_ok way_router (\<lambda>_. None) way_route"
proof -
  have none: "get_si (npl ways n) = None" if "n \<in> {0, 1, 2}" for n
    using ways_node [OF that] by blast
  have tg: "target_group ways grp = None" if grp: "grp \<in> set way_route" for grp
  proof -
    consider "grp = [\<lparr>ec_e = 0, ec_pen = 1\<rparr>]" | "grp = [\<lparr>ec_e = 1, ec_pen = 20\<rparr>, \<lparr>ec_e = 2, ec_pen = 2\<rparr>]"
      using grp by (auto simp: way_route_def)
    then show ?thesis using none [of 0] none [of 1] ways_edges(2) [of 0] ways_edges(2) [of 1] by cases (simp_all add: target_group_def)
  qed
  have "\<forall>grp\<in>set way_route. grp \<noteq> [] \<and> ec_e ` set grp \<subseteq> {0, 1, 2} \<and> (\<forall>c\<in>set grp. 0 \<le> ec_pen c)"
    by (simp add: way_route_def)
  then show ?thesis using tg nth_mem [of _ way_route] unfolding route_ok_def ways_sel ways_edges(1) by metis
qed

section \<open>Properties\<close>

text \<open>
  C5: for at least two groups of candidates that lie on the transit graph, with penalties, lengths and routing options that are not
  negative, where an edge that is a candidate of several groups has the same target group in all of them (\<open>tg\<close>: it is not part of
  the key of the cache), and for a cache of walks with their costs, such as the empty one, routing ends and returns the hops of a cheapest choice of one candidate per group, where the cost of a choice is the sum of its penalties and hop
  costs, provided that the infinity of the costs is beyond the costs of the choices.  Each hop is a walk through the transit graph with
  the cost of its turns, or has the infinite cost of its pilot run and no edges; the cached hops are walks with their costs, too.  With
  \<open>ex\<close>, the hops are exact as well: when straight lines never overestimate, each is a cheapest walk, and a hop has the infinite cost only
  because of a shortcut or since no walk costs less.  Straight lines never overestimate when higher levels are not cheaper, every edge
  lies in one component and, unless it has no length, not below its least level, as \<open>write_components\<close> leaves it, and an edge is at least as long as the straight line gains.
\<close>

theorem route_cheapest:
  assumes "router_ok R J" "ex \<longrightarrow> straight_lines R J" "route_ok R tg route" "2 \<le> length route" "cache_ok ex R J tg c"
  shows "\<exists>H L c' B. cache_ok ex R J tg c' \<and> hops_known ex R J tg route H L (length route - 1) \<and>
    (\<forall>infty>B. \<exists>hs. route_fresh R J infty route c = Some (hs, c') \<and> cheapest_hops R J route H L hs)"
  by (rule route_fresh_cheapest [OF assms])

theorem route_cheapest_witness:
  "\<exists>H L c' B. cache_ok True way_router way_job (\<lambda>_. None) c' \<and> hops_known True way_router way_job (\<lambda>_. None) way_route H L 1 \<and>
    (\<forall>infty>B. \<exists>hs. route_fresh way_router way_job infty way_route Map.empty = Some (hs, c') \<and>
       cheapest_hops way_router way_job way_route H L hs)"
  using route_cheapest [OF ways_router_ok _ ways_route_ok, of True Map.empty] ways_straight by (simp add: way_route_def cache_ok_def)

text \<open>
  C11: the hops from one edge to a set of targets of one group, for lengths and routing options that are not negative, and for a cache of
  walks with their costs towards the groups of their targets, such as the empty one: the search ends, every target gets the cost and the edges of a walk, or the infinite cost without edges, and every hop that is
  cached on the way, contained ones included, is a walk with its cost.  With \<open>ex\<close>, when straight lines never overestimate, the walks
  are cheapest ones, and a target gets the infinite cost only after a shortcut or when no walk costs less.
\<close>

theorem hops_exact:
  assumes "router_ok R J" "ex \<longrightarrow> straight_lines R J" "frm \<in> dom (edge_heap (tm_g (rr_map R)))" "distinct tos" "cache_ok ex R J tg c"
    "\<forall>t\<in>set tos. tg t = tgGrp" "\<forall>t\<in>set tos. els t = Some []"
  shows "\<exists>els' costs' c'. hops R J frm froms tos tgGrp els costs hb c = Some (els', costs', c') \<and> cache_ok ex R J tg c' \<and>
    (\<forall>t\<in>set tos. \<exists>v es. costs' t = Some v \<and> els' t = Some es \<and> hop_ok ex R J (cost_to (rr_map R) J tg t) (maxD hb) frm t v es)"
proof -
  have "route_queue (rr_top R)" "wf_graph (tm_g (rr_map R))" "sane (rr_map R) (job_opts J)" using assms(1) by (auto simp: router_ok_def)
  then show ?thesis using assms(2-7) by (intro hops_ok) assumption+
qed

theorem hops_exact_witness:
  "\<exists>els' costs' c'. hops way_router way_job 0 {0} [1, 2] None (\<lambda>_. Some []) Map.empty \<lparr>minD = 5, maxD = 100, nearest = None, maxInGrpDist = 0\<rparr> Map.empty =
      Some (els', costs', c') \<and> cache_ok True way_router way_job (\<lambda>_. None) c' \<and>
    (\<forall>t\<in>set [1, 2]. \<exists>v es. costs' t = Some v \<and> els' t = Some es \<and>
       hop_ok True way_router way_job (cost_to (rr_map way_router) way_job (\<lambda>_. None) t) 100 0 t v es)"
  using hops_exact [OF ways_router_ok, of True 0 "[1, 2]" "\<lambda>_. None" Map.empty None "\<lambda>_. Some []" "{0}" Map.empty
      "\<lparr>minD = 5, maxD = 100, nearest = None, maxInGrpDist = 0\<rparr>"] ways_straight
  by (simp add: ways_sel ways_edges(1) cache_ok_def)

section \<open>Limits of the cache\<close>

text \<open>
  A cached hop is returned as it is, whatever the options, the turn restrictions and the target group of the job are: they are not part of
  the key, although the costs depend on them, and the shortcuts that would rule the hop out are not tried.
\<close>

lemma cached_hop_wins:
  assumes "rr_caching R" "c (job_attrs J, frm, t) = Some (v, es)"
  shows "hops R J frm froms [t] tgGrp els costs hb c = Some (els(t \<mapsto> es), costs(t \<mapsto> v), c)"
  using assms by (simp add: hops_def getCachedHops_def split_hops_def)

end
