(* ===== verification/Comp_Levels.thy ===== *)
theory Comp_Levels
  imports Router_Hops
begin

text \<open>
  The components of the graph that the router runs on: \<open>write_components\<close> labels them, and the steps of \<^verbatim>\<open>osm/osm_builder.cpp\<close> after it
  (\<open>simplify_geometries\<close>, \<open>writeODirEdgs\<close> and \<open>writeSelfEdgs\<close>) keep what the estimates of the router need: an edge lies in one
  component, and not below its least level unless it has no length.
\<close>

section \<open>The components\<close>

lemma written_comp_levels:
  assumes wf: "wf_graph (tr_g w)" and fresh: "\<And>n. live (tr_g w) n \<Longrightarrow> np_component (npl (tr_g w) n) = None"
    and unused: "\<And>c. next_comp w \<le> c \<Longrightarrow> comps w c = None" and run: "write_components w = Some (cnt, w')"
    and M: "tm_g M = tr_g w'" "\<And>c x. comp_heap w' c = Some x \<Longrightarrow> tm_comp M c = x"
  shows "comp_levels M"
proof -
  let ?g = "tr_g w"
  obtain cnt0 w0 f where written: "write_components w = Some (cnt0, w0)" "tr_g w0 = relabel f ?g"
    "\<forall>n. live ?g n \<longrightarrow> (\<exists>c. f n = Some c \<and> comps w0 c = Some (card (connected ?g n)) \<and>
       comp_heap w0 c = Some \<lparr>minEdgeLvl = least_level ?g (connected ?g n)\<rparr>)"
    "\<forall>n m. live ?g n \<longrightarrow> live ?g m \<longrightarrow> (f n = f m \<longleftrightarrow> m \<in> connected ?g n)"
    by (rule components_written [OF wf, THEN exE]) (use fresh unused that in \<open>blast+\<close>)
  have g': "tr_g w' = relabel f ?g" using written(1,2) run by simp
  have lvl: "\<exists>c. f n = Some c \<and> comp_heap w' c = Some \<lparr>minEdgeLvl = least_level ?g (connected ?g n)\<rparr>" if "live ?g n" for n
    using written(1) written(3) [rule_format, OF that] run by auto
  have eq: "f n = f m \<longleftrightarrow> m \<in> connected ?g n" if "live ?g n" "live ?g m" for n m by (rule written(4) [rule_format, OF that])
  have "np_component (npl (tm_g M) (edge_getFrom (tm_g M) e)) = np_component (npl (tm_g M) (edge_getTo (tm_g M) e)) \<and>
      component_lvl M (edge_getFrom (tm_g M) e) \<le> ep_lvl (epl (tm_g M) e)" if e: "e \<in> dom (edge_heap ?g)" for e
  proof -
    obtain y where y: "edge_heap ?g e = Some y" using e by blast
    let ?a = "edge_from y" let ?b = "edge_to y"
    have ab: "live ?g ?a" "live ?g ?b" "edge_getFrom ?g e = ?a" "edge_getTo ?g e = ?b"
      using wf_edge(2,3) [OF wf y] y by (simp_all add: edge_getFrom_def edge_getTo_def edge_at_def)
    have out: "e \<in> set (node_getAdjListOut ?g ?a)" using wf_out_edges [OF wf ab(1)] y by blast
    have self: "?a \<in> connected ?g ?a" using eq [OF ab(1,1)] by simp
    have "?b \<in> set (nbrs ?g ?a)" using y set_nbrs [OF wf ab(1)] by blast
    then have "?b \<in> connected ?g ?a" using self reach_step [of ?a "nbrs ?g" ?a] by (simp add: connected_def)
    then have "f ?b = f ?a" using eq [OF ab(1,2)] by simp
    moreover obtain c where c: "f ?a = Some c" "tm_comp M c = \<lparr>minEdgeLvl = least_level ?g (connected ?g ?a)\<rparr>"
      using lvl [OF ab(1)] M(2) by blast
    moreover have "least_level ?g (connected ?g ?a) \<le> ep_lvl (epl ?g e)"
    proof -
      have "ep_lvl (epl ?g e) \<in> (\<Union>n\<in>connected ?g ?a. set (levels_at ?g n))" using self out by (fastforce simp: levels_at_def)
      moreover have "finite (connected ?g ?a)" by (rule connected_facts(3) [OF wf ab(1)])
      ultimately show ?thesis unfolding least_level_def by (intro Min_le) simp_all
    qed
    ultimately show ?thesis using ab M(1) g' by (simp add: component_lvl_def c)
  qed
  then show ?thesis using M(1) g' by (simp add: comp_levels_def)
qed

lemma wf_relabel:
  assumes "wf_graph g"
  shows "wf_graph (relabel f g)"
  using assms unfolding wf_graph_def relabel_def by fastforce

section \<open>The steps after the components\<close>

text \<open>The nodes stay, and an edge has the level and the length of an old one between its nodes, or is a dummy edge.\<close>

definition level_step :: "'p tr_graph \<Rightarrow> 'p tr_graph \<Rightarrow> bool" where
  "level_step g g' \<longleftrightarrow> wf_graph g' \<and> node_payloads g' = node_payloads g \<and>
     (\<forall>a b p. arcs g' (a, b) = Some p \<longrightarrow> a = b \<and> ep_length p = Finite 0 \<or>
        (\<exists>q. (arcs g (a, b) = Some q \<or> arcs g (b, a) = Some q) \<and> ep_lvl q = ep_lvl p \<and> ep_length q = ep_length p))"

lemma level_step_refl: "wf_graph g \<Longrightarrow> level_step g g"
  by (auto simp: level_step_def)

lemma level_step_trans:
  assumes "level_step g1 g2" "level_step g2 g3"
  shows "level_step g1 g3"
proof -
  have "a = b \<and> ep_length p = Finite 0 \<or>
      (\<exists>q. (arcs g1 (a, b) = Some q \<or> arcs g1 (b, a) = Some q) \<and> ep_lvl q = ep_lvl p \<and> ep_length q = ep_length p)"
    if p: "arcs g3 (a, b) = Some p" for a b p
  proof -
    consider "a = b" "ep_length p = Finite 0"
      | q where "arcs g2 (a, b) = Some q \<or> arcs g2 (b, a) = Some q" "ep_lvl q = ep_lvl p" "ep_length q = ep_length p"
      using assms(2) p unfolding level_step_def by blast
    then show ?thesis
    proof cases
      case 2
      then show ?thesis using assms(1) unfolding level_step_def by metis
    qed simp
  qed
  then show ?thesis using assms by (simp add: level_step_def)
qed

lemma comp_levels_arcs:
  assumes "wf_graph (tm_g M)"
  shows "comp_levels M \<longleftrightarrow> (\<forall>a b p. arcs (tm_g M) (a, b) = Some p \<longrightarrow>
    np_component (npl (tm_g M) a) = np_component (npl (tm_g M) b) \<and> (metres (ep_length p) \<noteq> 0 \<longrightarrow> component_lvl M a \<le> ep_lvl p))"
proof -
  have "edge_getFrom (tm_g M) e = edge_from y \<and> edge_getTo (tm_g M) e = edge_to y \<and> epl (tm_g M) e = edge_pl y"
    if "edge_heap (tm_g M) e = Some y" for e y
    using that by (simp add: edge_getFrom_def edge_getTo_def edge_at_def epl_def)
  then show ?thesis unfolding comp_levels_def arcs_Some_iff [OF assms] by (auto simp: dom_def) blast+
qed

lemma level_step_levels:
  assumes wf: "wf_graph (tm_g M)" and step: "level_step (tm_g M) g'" and ok: "comp_levels M"
  shows "comp_levels (M\<lparr>tm_g := g'\<rparr>)"
proof -
  let ?g = "tm_g M"
  have wf': "wf_graph g'" and pl: "node_payloads g' = node_payloads ?g" using step by (simp_all add: level_step_def)
  have npl: "npl g' n = npl ?g n" if n: "live ?g n" for n
    using fun_cong [OF pl, of n] n by (auto simp: node_payloads_def npl_def node_at_def)
  have arc: "live ?g a \<and> live ?g b" if "arcs ?g (a, b) = Some p" for a b p
    using that wf_edge(2,3) [OF wf] unfolding arcs_Some_iff [OF wf] by blast
  have ok': "np_component (npl ?g a) = np_component (npl ?g b)" "metres (ep_length p) \<noteq> 0 \<longrightarrow> component_lvl M a \<le> ep_lvl p"
    if "arcs ?g (a, b) = Some p" for a b p
    using ok that unfolding comp_levels_arcs [OF wf] by blast+
  have "np_component (npl g' a) = np_component (npl g' b) \<and> (metres (ep_length p) \<noteq> 0 \<longrightarrow> component_lvl (M\<lparr>tm_g := g'\<rparr>) a \<le> ep_lvl p)"
    if p: "arcs g' (a, b) = Some p" for a b p
  proof -
    consider "a = b" "ep_length p = Finite 0"
      | q where "arcs ?g (a, b) = Some q \<or> arcs ?g (b, a) = Some q" "ep_lvl q = ep_lvl p" "ep_length q = ep_length p"
      using step p unfolding level_step_def by blast
    then show ?thesis
    proof cases
      case 2
      then have "live ?g a" "live ?g b" using arc by blast+
      moreover have "np_component (npl ?g a) = np_component (npl ?g b)" using 2(1) ok'(1) by metis
      moreover from this have "component_lvl M a = component_lvl M b" by (simp only: component_lvl_def)
      moreover have "metres (ep_length p) \<noteq> 0 \<longrightarrow> component_lvl M a \<le> ep_lvl p \<or> component_lvl M b \<le> ep_lvl p"
        using 2 ok'(2) by metis
      ultimately show ?thesis by (simp add: npl component_lvl_def)
    qed (simp add: metres_def)
  qed
  then show ?thesis using wf' by (simp add: comp_levels_arcs)
qed

lemma level_step_fold:
  assumes "\<And>x g. x \<in> set xs \<Longrightarrow> level_step g0 g \<Longrightarrow> level_step g (f x g)" and "level_step g0 g"
  shows "level_step g0 (fold f xs g)"
  using assms
proof (induction xs arbitrary: g)
  case (Cons x xs)
  then have "level_step g0 (f x g)" using level_step_trans by (metis list.set_intros(1))
  then show ?case using Cons by simp
qed simp

text \<open>Simplifying a geometry, which the loops do for the edges that leave a node.\<close>

lemma simplify_step:
  assumes wf: "wf_graph g" and e: "e \<in> dom (edge_heap g)"
  shows "level_step g (simplify_geometry G e g)" "dom (edge_heap (simplify_geometry G e g)) = dom (edge_heap g)"
proof -
  obtain y where y: "edge_heap g e = Some y" using e by blast
  have old: "arcs g (edge_from y, edge_to y) = Some (epl g e)" using y by (auto simp: arcs_Some_iff [OF wf])
  show "level_step g (simplify_geometry G e g)"
    using wf_set_epl [OF wf y] arcs_set_epl [OF wf y] old
    by (fastforce simp: level_step_def simplify_geometry_def node_payloads_def set_epl_def)
  show "dom (edge_heap (simplify_geometry G e g)) = dom (edge_heap g)"
    using y by (auto simp: simplify_geometry_def set_epl_def)
qed

lemma simplify_edges:
  assumes "wf_graph g" "set es \<subseteq> dom (edge_heap g)"
  shows "level_step g (fold (simplify_geometry G) es g)"
  using assms
proof (induction es arbitrary: g)
  case (Cons e es)
  let ?g = "simplify_geometry G e g"
  have "level_step g ?g" "set es \<subseteq> dom (edge_heap ?g)" using simplify_step [OF Cons.prems(1)] Cons.prems(2) by auto
  moreover from this have "level_step ?g (fold (simplify_geometry G) es ?g)" using Cons.IH by (simp add: level_step_def)
  ultimately show ?case using level_step_trans by simp
qed (simp add: level_step_refl)

lemma level_step_live: "level_step g g' \<Longrightarrow> live g' n \<longleftrightarrow> live g n"
  unfolding live_node_payloads by (simp add: level_step_def)

lemma simplify_levels:
  assumes wf: "wf_graph g"
  shows "level_step g (simplify_geometries G g)"
  unfolding simplify_geometries_def
proof (rule level_step_fold [OF _ level_step_refl [OF wf]])
  fix n g'
  assume n: "n \<in> set (graph_nodes g)" and s: "level_step g g'"
  have wf': "wf_graph g'" using s by (simp add: level_step_def)
  have "live g' n" using n wf_nodes [OF wf] level_step_live [OF s] by auto
  then have "set (node_getAdjListOut g' n) \<subseteq> dom (edge_heap g')" using wf_out_edges [OF wf'] by blast
  then show "level_step g' (fold (simplify_geometry G) (node_getAdjListOut g' n) g')" by (rule simplify_edges [OF wf'])
qed

lemma odir_levels:
  assumes wf: "wf_graph g" and run: "writeODirEdgs (g, r) = Some (g', r')"
  shows "level_step g g'"
proof -
  have g': "wf_graph g'" "node_payloads g' = node_payloads g"
    "arcs g' (a, b) = (case arcs g (a, b) of Some p \<Rightarrow> Some p | None \<Rightarrow> map_option revCopy (arcs g (b, a)))" for a b
    using odir_written [OF wf, of r] run by auto
  have "ep_lvl (revCopy p) = ep_lvl p \<and> ep_length (revCopy p) = ep_length p" for p :: "'a edge_payload"
    by (simp add: revCopy_def flip_oneWay_def set_reversed_def setOneWay_dir_def)
  then show ?thesis using g' by (auto simp: level_step_def split: option.splits)
qed

lemma self_levels:
  assumes wf: "wf_graph g"
  shows "level_step g (writeSelfEdgs g)"
  unfolding writeSelfEdgs_def
proof (rule level_step_fold [OF _ level_step_refl [OF wf]])
  fix n g'
  assume n: "n \<in> set (graph_nodes g)" and s: "level_step g g'"
  have wf': "wf_graph g'" using s by (simp add: level_step_def)
  have l: "live g' n" using n wf_nodes [OF wf] level_step_live [OF s] by auto
  have "level_step g' (snd (addEdg n n edge_payload_init g'))"
    using wf_addEdg [OF wf' l l] arcs_addEdg [OF wf' l l] by (auto simp: level_step_def edge_payload_init_def split: if_splits)
  then show "level_step g' (write_self_edge n g')" using level_step_refl [OF wf'] by (simp add: write_self_edge_def)
qed

text \<open>So the graph of the builder, with the components it was given, has what the router needs.\<close>

lemma built_comp_levels:
  assumes wf: "wf_graph (tr_g w)" and fresh: "\<And>n. live (tr_g w) n \<Longrightarrow> np_component (npl (tr_g w) n) = None"
    and unused: "\<And>c. next_comp w \<le> c \<Longrightarrow> comps w c = None" and run: "write_components w = Some (cnt, w')"
    and odir: "writeODirEdgs (simplify_geometries G (tr_g w'), r) = Some (g', r')"
    and M: "tm_g M = writeSelfEdgs g'" "\<And>c x. comp_heap w' c = Some x \<Longrightarrow> tm_comp M c = x"
  shows "comp_levels M"
proof -
  let ?M = "M\<lparr>tm_g := tr_g w'\<rparr>"
  obtain f where "tr_g w' = relabel f (tr_g w)"
    by (rule components_written [OF wf, THEN exE]) (use fresh unused run in auto)
  then have wf': "wf_graph (tr_g w')" using wf_relabel [OF wf] by simp
  have "comp_levels ?M" by (rule written_comp_levels [OF wf fresh unused run]) (use M(2) in auto)
  moreover have "level_step (tr_g w') (writeSelfEdgs g')"
  proof -
    have 1: "level_step (tr_g w') (simplify_geometries G (tr_g w'))" by (rule simplify_levels [OF wf'])
    have 2: "level_step (simplify_geometries G (tr_g w')) g'" by (rule odir_levels [OF _ odir]) (use 1 in \<open>simp add: level_step_def\<close>)
    have 3: "level_step g' (writeSelfEdgs g')" by (rule self_levels) (use 2 in \<open>simp add: level_step_def\<close>)
    show ?thesis by (rule level_step_trans [OF level_step_trans [OF 1 2] 3])
  qed
  ultimately show ?thesis using level_step_levels [of ?M "writeSelfEdgs g'"] wf' by (simp flip: M(1))
qed

end
