(* ===== verification/Osm_Reader.thy ===== *)
theory Osm_Reader
  imports Osm_Filter Osm_Id_Set Tr_Graph "HOL-Library.AList"
begin

text \<open>
  \<^verbatim>\<open>osm/osm_builder.{h,cpp}\<close> and \<^verbatim>\<open>osm/{osm,osm_read_options}.h\<close>: reading the elements of an OpenStreetMap document, and which of
  them are kept.  The parsed document is the tree its elements form; the conversions of attribute texts to numbers by the
  XML library are arguments, and the normalisers of names are functions on strings.  A \<^verbatim>\<open>std::unordered_map\<close> of attributes is an
  association list in the order of first insertion.
\<close>

section \<open>Documents and outcomes\<close>

datatype xml_node = Xml_node (xml_name: string) (xml_attributes: "(string \<times> string) list") (xml_children: "xml_node list")

definition xml_childs :: "string \<Rightarrow> xml_node \<Rightarrow> xml_node list" where
  "xml_childs name x = filter (\<lambda>c. xml_name c = name) (xml_children x)"

definition xml_attr :: "string \<Rightarrow> xml_node \<Rightarrow> string" where
  "xml_attr name x = (case map_of (xml_attributes x) name of None \<Rightarrow> '''' | Some v \<Rightarrow> v)"

record xml_numbers =
  as_ullong :: "string \<Rightarrow> osmid"
  as_double :: "string \<Rightarrow> double"

text \<open>An operation throws, fails an assertion, follows a pointer that was never set, or returns.\<close>

datatype fault = Thrown cpp_exn | Assertion_failed | Undefined_behaviour

definition throwing :: "'a res \<Rightarrow> fault + 'a" where
  "throwing r = (case r of Inl e \<Rightarrow> Inl (Thrown e) | Inr x \<Rightarrow> Inr x)"

definition asserting :: "'a option \<Rightarrow> fault + 'a" where
  "asserting r = (case r of None \<Rightarrow> Inl Assertion_failed | Some x \<Rightarrow> Inr x)"

fun exn_fold :: "('a \<Rightarrow> 's \<Rightarrow> 'e + 's) \<Rightarrow> 'a list \<Rightarrow> 's \<Rightarrow> 'e + 's" where
  "exn_fold f [] s = Inr s"
| "exn_fold f (x # xs) s = exn_bind (f x s) (exn_fold f xs)"

lemma throwing_simps [simp]: "throwing (Inr x) = Inr x" "throwing (Inl e) = Inl (Thrown e)"
  by (simp_all add: throwing_def)

lemma asserting_simps [simp]: "asserting (Some x) = Inr x" "asserting None = Inl Assertion_failed"
  by (simp_all add: asserting_def)

lemma exn_fold_append: "exn_fold f (xs @ ys) s = exn_bind (exn_fold f xs s) (exn_fold f ys)"
  by (induction xs arbitrary: s) (simp_all add: exn_bind_def split: sum.splits)

section \<open>Options\<close>

record deep_attribute_rule =
  da_attr :: string
  da_relKv :: "string \<times> string"
  da_relFlags :: "string set"

record relation_line_rules =
  sNameRule :: "string list"
  fromNameRule :: "string list"
  toNameRule :: "string list"

record station_attribute_rules =
  nameRule :: "deep_attribute_rule list"
  platformRule :: "deep_attribute_rule list"
  idRule :: "deep_attribute_rule list"

record station_group_rule =
  sgr_attr :: deep_attribute_rule
  sgr_maxDist :: double

record osm_build_options = osm_read_options +
  statGroupNAttrRules :: "station_group_rule list"
  statNormzer :: "string \<Rightarrow> string"
  lineNormzer :: "string \<Rightarrow> string"
  trackNormzer :: "string \<Rightarrow> string"
  relLinerules :: relation_line_rules
  statAttrRules :: station_attribute_rules
  edgePlatformRules :: "deep_attribute_rule list"

text \<open>
  \<open>get_kept_attribute_keys\<close>: the attributes that are kept of nodes, ways and relations.  The order in which the keys are inserted
  into the sets does not matter.
\<close>

definition rule_keys :: "multi_attribute_map \<Rightarrow> string set" where
  "rule_keys m = fst ` set m"

definition own_keys :: "deep_attribute_rule list \<Rightarrow> string set" where
  "own_keys rs = {da_attr r |r. r \<in> set rs \<and> fst (da_relKv r) = ''''}"

definition rel_keys :: "deep_attribute_rule list \<Rightarrow> string set" where
  "rel_keys rs = (\<Union>r\<in>set rs. if fst (da_relKv r) = '''' then {} else {fst (da_relKv r), da_attr r})"

definition get_kept_attribute_keys :: "osm_build_options \<Rightarrow> string set \<times> string set \<times> string set" where
  "get_kept_attribute_keys o' =
     (let groupRules = map sgr_attr (statGroupNAttrRules o');
          sa = statAttrRules o'; rl = relLinerules o';
          both = rule_keys (keepFilter o') \<union> rule_keys (dropFilter o')
      in (own_keys groupRules \<union> both \<union> rule_keys (noHupFilter o') \<union> rule_keys (stationFilter o') \<union>
            rule_keys (stationBlockerFilter o') \<union> own_keys (nameRule sa) \<union> own_keys (platformRule sa) \<union> own_keys (idRule sa),
          both \<union> rule_keys (oneWayFilter o') \<union> rule_keys (oneWayFilterRev o') \<union> rule_keys (twoWayFilter o') \<union>
            (\<Union>j\<in>set [0..<7]. rule_keys (levelFilters o' ! j)) \<union> {''maxspeed''} \<union> own_keys (edgePlatformRules o'),
          rel_keys groupRules \<union> both \<union> rule_keys (stationFilter o') \<union> rule_keys (restrPosRestr o') \<union>
            rule_keys (restrNegRestr o') \<union> rule_keys (noRestrFilter o') \<union> {''from'', ''via'', ''to''} \<union>
            set (toNameRule rl) \<union> set (fromNameRule rl) \<union> set (sNameRule rl) \<union> rel_keys (nameRule sa) \<union>
            rel_keys (edgePlatformRules o') \<union> rel_keys (platformRule sa) \<union> rel_keys (idRule sa)))"

section \<open>Elements\<close>

record osm_node =
  on_id :: osmid
  on_attrs :: attribute_map
  on_lat :: double
  on_lng :: double

record osm_way =
  ow_id :: osmid
  ow_attrs :: attribute_map
  ow_nodes :: "osmid list"

record osm_relation =
  or_id :: osmid
  or_attrs :: attribute_map
  or_nodes :: "osmid list"
  or_ways :: "osmid list"
  or_nodeRoles :: "string list"
  or_wayRoles :: "string list"
  or_keepFlags :: u64
  or_dropFlags :: u64

record restriction =
  eFrom :: osmid
  eTo :: osmid

type_synonym restriction_map = "osmid \<rightharpoonup> restriction list"

record restrictions =
  rr_pos :: restriction_map
  rr_neg :: restriction_map

record relation_list =
  rl_rels :: "attribute_map list"
  rl_flat :: "nat set"

type_synonym relation_map = "osmid \<rightharpoonup> nat list"

definition REL_NO_DOWN :: u64 where "REL_NO_DOWN = 2"

text \<open>The tags with a kept key; a key that comes again overwrites its value.\<close>

definition kept_tags :: "string set \<Rightarrow> xml_node \<Rightarrow> attribute_map" where
  "kept_tags keepAttrs x =
     fold (\<lambda>tag m. if xml_attr ''k'' tag \<in> keepAttrs then AList.update (xml_attr ''k'' tag) (xml_attr ''v'' tag) m else m)
       (xml_childs ''tag'' x) []"

definition read_osm_way :: "xml_numbers \<Rightarrow> string set \<Rightarrow> xml_node \<Rightarrow> osm_way" where
  "read_osm_way N keepAttrs x =
     \<lparr>ow_id = as_ullong N (xml_attr ''id'' x), ow_attrs = kept_tags keepAttrs x,
      ow_nodes = map (\<lambda>nd. as_ullong N (xml_attr ''ref'' nd)) (xml_childs ''nd'' x)\<rparr>"

definition read_osm_node :: "xml_numbers \<Rightarrow> string set \<Rightarrow> xml_node \<Rightarrow> osm_node" where
  "read_osm_node N keepAttrs x =
     \<lparr>on_id = as_ullong N (xml_attr ''id'' x), on_attrs = kept_tags keepAttrs x,
      on_lat = as_double N (xml_attr ''lat'' x), on_lng = as_double N (xml_attr ''lon'' x)\<rparr>"

text \<open>The flags of a relation that does not pass the filter are never written: \<open>junk\<close> is what its memory holds.\<close>

definition read_osm_relation :: "xml_numbers \<Rightarrow> osm_filter \<Rightarrow> string set \<Rightarrow> u64 \<times> u64 \<Rightarrow> xml_node \<Rightarrow> osm_relation" where
  "read_osm_relation N f keepAttrs junk x =
     (let rid = as_ullong N (xml_attr ''id'' x);
          attrs = kept_tags keepAttrs x;
          passes = (rid \<noteq> 0 \<and> attrs \<noteq> [] \<and> keep attrs REL_T f \<noteq> 0 \<and> drop_flags attrs REL_T f = 0);
          of_type = (\<lambda>t. filter (\<lambda>m. xml_attr ''type'' m = t) (xml_childs ''member'' x));
          ref = (\<lambda>m. as_ullong N (xml_attr ''ref'' m))
      in \<lparr>or_id = rid, or_attrs = attrs,
          or_nodes = map ref (of_type ''node''), or_ways = map ref (of_type ''way''),
          or_nodeRoles = map (xml_attr ''role'') (of_type ''node''), or_wayRoles = map (xml_attr ''role'') (of_type ''way''),
          or_keepFlags = (if passes then keep attrs REL_T f else fst junk),
          or_dropFlags = (if passes then drop_flags attrs REL_T f else snd junk)\<rparr>)"

section \<open>The first pass: ids\<close>

text \<open>\<^verbatim>\<open>util::atoul\<close>: every character counts as a digit, and the number wraps.  A \<^verbatim>\<open>char\<close> is signed.\<close>

definition signed_char :: "char \<Rightarrow> int" where
  "signed_char c = (let n = of_char c :: int in if 128 \<le> n then n - 256 else n)"

fun atoul :: "string \<Rightarrow> u64 \<Rightarrow> u64" where
  "atoul [] ret = ret"
| "atoul (c # cs) ret = atoul cs (ret * 10 + of_int (signed_char c - 48))"

text \<open>\<open>contains\<close> is the bounding box.\<close>

definition filter_node ::
  "xml_numbers \<Rightarrow> (double \<Rightarrow> double \<Rightarrow> bool) \<Rightarrow> osm_filter \<Rightarrow> xml_node \<Rightarrow> osm_id_set \<times> osm_id_set \<Rightarrow> fault + osm_id_set \<times> osm_id_set" where
  "filter_node N contains f x = (\<lambda>(nodes, nohups).
     (let lat = as_double N (xml_attr ''lat'' x); lon = as_double N (xml_attr ''lon'' x)
      in exn_bind
          (if contains lon lat
           then (let cur_id = atoul (xml_attr ''id'' x) 0
                 in exn_bind (throwing (add_id cur_id nodes)) (\<lambda>nodes. Inr (cur_id, nodes)))
           else Inr (0, nodes))
          (\<lambda>(cur_id, nodes).
             if cur_id = 0 then Inr (nodes, nohups)
             else exn_bind
               (exn_fold (\<lambda>tag s. if nohup (xml_attr ''k'' tag) (xml_attr ''v'' tag) f \<noteq> 0 then throwing (add_id cur_id s) else Inr s)
                 (xml_childs ''tag'' x) nohups)
               (\<lambda>nohups. Inr (nodes, nohups)))))"

definition filter_nodes ::
  "xml_numbers \<Rightarrow> (double \<Rightarrow> double \<Rightarrow> bool) \<Rightarrow> osm_filter \<Rightarrow> xml_node \<Rightarrow> osm_id_set \<times> osm_id_set \<Rightarrow> fault + osm_id_set \<times> osm_id_set" where
  "filter_nodes N contains f osm = exn_fold (filter_node N contains f) (xml_childs ''node'' osm)"

section \<open>The second pass: relations\<close>

text \<open>The loop over the ways of a restriction; a second \<^verbatim>\<open>from\<close> or \<^verbatim>\<open>to\<close> member returns.\<close>

fun from_to :: "(osmid \<times> string) list \<Rightarrow> osmid \<Rightarrow> osmid \<Rightarrow> (osmid \<times> osmid) option" where
  "from_to [] frm to = Some (frm, to)"
| "from_to ((w, role) # ws) frm to =
     (if role = ''from'' \<and> frm \<noteq> 0 then None
      else (let frm = (if role = ''from'' then w else frm)
            in if role = ''to'' \<and> to \<noteq> 0 then None
               else from_to ws frm (if role = ''to'' then w else to)))"

definition read_restrictions :: "osm_relation \<Rightarrow> osm_filter \<Rightarrow> restrictions \<Rightarrow> restrictions" where
  "read_restrictions rel f rests =
     (if map_of (or_attrs rel) ''type'' \<noteq> Some ''restriction'' then rests
      else
        (let pos = posRestr (or_attrs rel) f \<noteq> 0; neg = negRestr (or_attrs rel) f \<noteq> 0
         in if \<not> pos \<and> \<not> neg then rests
            else (case from_to (zip (or_ways rel) (or_wayRoles rel)) 0 0 of
                    None \<Rightarrow> rests
                  | Some (frm, to) \<Rightarrow>
                      (let via = (case List.find (\<lambda>(n, role). role = ''via'') (zip (or_nodes rel) (or_nodeRoles rel)) of
                                    None \<Rightarrow> 0 | Some (n, _) \<Rightarrow> n);
                           r = \<lparr>eFrom = frm, eTo = to\<rparr>
                       in if frm \<noteq> 0 \<and> to \<noteq> 0 \<and> via \<noteq> 0
                          then (if pos then rests\<lparr>rr_pos := (rr_pos rests)(via \<mapsto> entry (rr_pos rests) via @ [r])\<rparr>
                                else rests\<lparr>rr_neg := (rr_neg rests)(via \<mapsto> entry (rr_neg rests) via @ [r])\<rparr>)
                          else rests))))"

record relation_data =
  rd_rels :: relation_list
  rd_nodeRels :: relation_map
  rd_wayRels :: relation_map
  rd_rests :: restrictions

definition relation_data_init :: relation_data where
  "relation_data_init = \<lparr>rd_rels = \<lparr>rl_rels = [], rl_flat = {}\<rparr>, rd_nodeRels = Map.empty, rd_wayRels = Map.empty,
     rd_rests = \<lparr>rr_pos = Map.empty, rr_neg = Map.empty\<rparr>\<rparr>"

definition note_members :: "nat \<Rightarrow> osmid list \<Rightarrow> relation_map \<Rightarrow> relation_map" where
  "note_members i ids = fold (\<lambda>x m. m(x \<mapsto> entry m x @ [i])) ids"

definition read_relation ::
  "xml_numbers \<Rightarrow> osm_filter \<Rightarrow> string set \<Rightarrow> (nat \<Rightarrow> u64 \<times> u64) \<Rightarrow> xml_node \<Rightarrow> relation_data \<Rightarrow> relation_data" where
  "read_relation N f keepAttrs junk x d =
     (let i = length (rl_rels (rd_rels d));
          rel = read_osm_relation N f keepAttrs (junk i) x
      in \<lparr>rd_rels = \<lparr>rl_rels = rl_rels (rd_rels d) @ [or_attrs rel],
                     rl_flat = (if or_keepFlags rel AND REL_NO_DOWN \<noteq> 0 then insert i (rl_flat (rd_rels d)) else rl_flat (rd_rels d))\<rparr>,
          rd_nodeRels = note_members i (or_nodes rel) (rd_nodeRels d),
          rd_wayRels = note_members i (or_ways rel) (rd_wayRels d),
          rd_rests = read_restrictions rel f (rd_rests d)\<rparr>)"

definition read_relations ::
  "xml_numbers \<Rightarrow> osm_filter \<Rightarrow> string set \<Rightarrow> (nat \<Rightarrow> u64 \<times> u64) \<Rightarrow> xml_node \<Rightarrow> relation_data \<Rightarrow> relation_data" where
  "read_relations N f keepAttrs junk osm = fold (read_relation N f keepAttrs junk) (xml_childs ''relation'' osm)"

section \<open>What is kept\<close>

definition should_keep_relation :: "osmid \<Rightarrow> relation_map \<Rightarrow> nat set \<Rightarrow> bool" where
  "should_keep_relation oid rels fl =
     (case rels oid of None \<Rightarrow> False | Some rs \<Rightarrow> list_ex (\<lambda>r. r \<notin> fl) rs)"

fun has_any :: "osmid list \<Rightarrow> osm_id_set \<Rightarrow> (bool \<times> osm_id_set) option" where
  "has_any [] s = Some (False, s)"
| "has_any (nid # nids) s =
     (case has_id nid s of None \<Rightarrow> None | Some (b, s) \<Rightarrow> if b then Some (True, s) else has_any nids s)"

definition keep_way :: "osm_way \<Rightarrow> relation_map \<Rightarrow> osm_filter \<Rightarrow> nat set \<Rightarrow> osm_id_set \<Rightarrow> (bool \<times> osm_id_set) option" where
  "keep_way w wayRels f fl bBoxNodes =
     (if ow_id w \<noteq> 0 \<and> 1 < length (ow_nodes w) \<and>
         (should_keep_relation (ow_id w) wayRels fl \<or> keep (ow_attrs w) WAY_T f \<noteq> 0) \<and> drop_flags (ow_attrs w) WAY_T f = 0
      then has_any (ow_nodes w) bBoxNodes
      else Some (False, bBoxNodes))"

definition keep_node ::
  "osm_node \<Rightarrow> (osmid \<Rightarrow> bool) \<Rightarrow> (osmid \<Rightarrow> bool) \<Rightarrow> relation_map \<Rightarrow> osm_filter \<Rightarrow> nat set \<Rightarrow> osm_id_set \<Rightarrow> (bool \<times> osm_id_set) option" where
  "keep_node n nodes multNodes nodeRels f fl bBoxNodes =
     (let i = on_id n in
      if i \<noteq> 0 \<and> (nodes i \<or> multNodes i \<or> should_keep_relation i nodeRels fl \<or> keep (on_attrs n) NODE_T f \<noteq> 0)
      then (case (if nodes i then Some (True, bBoxNodes) else has_id i bBoxNodes) of
              None \<Rightarrow> None
            | Some (inside, s) \<Rightarrow> Some (inside \<and> (nodes i \<or> multNodes i \<or> drop_flags (on_attrs n) NODE_T f = 0), s))
      else Some (False, bBoxNodes))"

section \<open>Attributes of elements and of their relations\<close>

fun rel_attribute :: "deep_attribute_rule \<Rightarrow> relation_list \<Rightarrow> nat list \<Rightarrow> string" where
  "rel_attribute s rels [] = ''''"
| "rel_attribute s rels (i # is) =
     (if contained_attr (rl_rels rels ! i) (da_relKv s) \<noteq> 0
      then (case map_of (rl_rels rels ! i) (da_attr s) of Some v \<Rightarrow> v | None \<Rightarrow> rel_attribute s rels is)
      else rel_attribute s rels is)"

definition get_attribute :: "deep_attribute_rule \<Rightarrow> osmid \<Rightarrow> attribute_map \<Rightarrow> relation_map \<Rightarrow> relation_list \<Rightarrow> string" where
  "get_attribute s oid attrs entRels rels =
     (if fst (da_relKv s) = '''' then (case map_of attrs (da_attr s) of Some v \<Rightarrow> v | None \<Rightarrow> '''')
      else (case entRels oid of Some is \<Rightarrow> rel_attribute s rels is | None \<Rightarrow> ''''))"

fun getAttrByFirstMatch ::
  "deep_attribute_rule list \<Rightarrow> osmid \<Rightarrow> attribute_map \<Rightarrow> relation_map \<Rightarrow> relation_list \<Rightarrow> (string \<Rightarrow> string) \<Rightarrow> string \<Rightarrow> string" where
  "getAttrByFirstMatch [] oid attrs entRels rels normzer ret = ret"
| "getAttrByFirstMatch (s # rule) oid attrs entRels rels normzer ret =
     (let ret = normzer (get_attribute s oid attrs entRels rels)
      in if ret \<noteq> '''' then ret else getAttrByFirstMatch rule oid attrs entRels rels normzer ret)"

definition getAttrMatchRanked ::
  "deep_attribute_rule list \<Rightarrow> osmid \<Rightarrow> attribute_map \<Rightarrow> relation_map \<Rightarrow> relation_list \<Rightarrow> (string \<Rightarrow> string) \<Rightarrow> string list" where
  "getAttrMatchRanked rule oid attrs entRels rels normzer =
     filter (\<lambda>t. t \<noteq> '''') (map (\<lambda>s. normzer (get_attribute s oid attrs entRels rels)) rule)"

section \<open>Speeds\<close>

text \<open>Kilometres per hour; the literals are the decimals they are written as, and the product is exact.\<close>

definition speed_text :: "string \<Rightarrow> string \<times> rat" where
  "speed_text str =
     (let cut = (\<lambda>i. trim (take i str)) in
      case find_str ''mp'' str of
        Some i \<Rightarrow> (cut i, 1609344 / 1000000)
      | None \<Rightarrow> (case find_str ''knots'' str of
          Some i \<Rightarrow> (cut i, 1852 / 1000)
        | None \<Rightarrow> (case find_str ''km'' str of
            Some i \<Rightarrow> (cut i, 1)
          | None \<Rightarrow> (case find_str ''kph'' str of Some i \<Rightarrow> (cut i, 1) | None \<Rightarrow> (str, 1)))))"

definition string_to_kmh :: "string \<Rightarrow> rat res" where
  "string_to_kmh str =
     (if str = '''' \<or> trim str = '''' then Inr 50
      else if str = ''none'' then Inr 150
      else if ends_with str '':rural'' \<or> ends_with str '':trunk'' then Inr 80
      else if ends_with str '':urban'' then Inr 50
      else if str = ''walk'' \<or> ends_with str '':living_street'' then Inr 6
      else (let (str, factor) = speed_text str
            in exn_bind (stoi str) (\<lambda>v. let value = of_int v * factor in Inr (if value \<le> 0 then 50 else value))))"

section \<open>Which ids the first pass collects\<close>

text \<open>A set of ids that is being filled or was asked already.\<close>

definition holds_ids :: "osmid set \<Rightarrow> osm_id_set \<Rightarrow> bool" where
  "holds_ids X s \<longleftrightarrow> (\<exists>xs. open_inv xs s \<and> set xs = X) \<or> closed_inv X s"

lemma has_id_holds: "holds_ids X s \<Longrightarrow> \<exists>s'. has_id q s = Some (q \<in> X, s') \<and> holds_ids X s'"
  using has_id_open has_id_closed unfolding holds_ids_def by blast

lemma has_any_holds: "holds_ids X s \<Longrightarrow> \<exists>s'. has_any qs s = Some (\<exists>q\<in>set qs. q \<in> X, s') \<and> holds_ids X s'"
proof (induction qs arbitrary: s)
  case (Cons q qs)
  obtain s1 where s1: "has_id q s = Some (q \<in> X, s1)" "holds_ids X s1" using has_id_holds [OF Cons.prems] by blast
  then show ?case using Cons.IH [OF s1(2)] by auto
qed simp

definition way_wanted :: "osm_way \<Rightarrow> relation_map \<Rightarrow> osm_filter \<Rightarrow> nat set \<Rightarrow> osmid set \<Rightarrow> bool" where
  "way_wanted w wayRels f fl B \<longleftrightarrow> ow_id w \<noteq> 0 \<and> 1 < length (ow_nodes w) \<and>
     (should_keep_relation (ow_id w) wayRels fl \<or> keep (ow_attrs w) WAY_T f \<noteq> 0) \<and>
     drop_flags (ow_attrs w) WAY_T f = 0 \<and> (\<exists>x\<in>set (ow_nodes w). x \<in> B)"

lemma keep_way_holds:
  assumes "holds_ids B s"
  shows "\<exists>s'. keep_way w wayRels f fl s = Some (way_wanted w wayRels f fl B, s') \<and> holds_ids B s'"
  using has_any_holds [OF assms, of "ow_nodes w"] assms by (auto simp: keep_way_def way_wanted_def)

text \<open>The ids of the first pass: the nodes inside the box, and those of them with a tag that ends a line.\<close>

definition inside_id :: "xml_numbers \<Rightarrow> (double \<Rightarrow> double \<Rightarrow> bool) \<Rightarrow> xml_node \<Rightarrow> osmid option" where
  "inside_id N contains x =
     (if contains (as_double N (xml_attr ''lon'' x)) (as_double N (xml_attr ''lat'' x)) then Some (atoul (xml_attr ''id'' x) 0) else None)"

definition nohup_tag :: "osm_filter \<Rightarrow> xml_node \<Rightarrow> bool" where
  "nohup_tag f tag \<longleftrightarrow> nohup (xml_attr ''k'' tag) (xml_attr ''v'' tag) f \<noteq> 0"

definition inside_ids :: "xml_numbers \<Rightarrow> (double \<Rightarrow> double \<Rightarrow> bool) \<Rightarrow> xml_node list \<Rightarrow> osmid set" where
  "inside_ids N contains xs = {i. \<exists>x\<in>set xs. inside_id N contains x = Some i}"

definition nohup_ids :: "xml_numbers \<Rightarrow> (double \<Rightarrow> double \<Rightarrow> bool) \<Rightarrow> osm_filter \<Rightarrow> xml_node list \<Rightarrow> osmid set" where
  "nohup_ids N contains f xs =
     {i. i \<noteq> 0 \<and> (\<exists>x\<in>set xs. inside_id N contains x = Some i \<and> (\<exists>tag\<in>set (xml_childs ''tag'' x). nohup_tag f tag))}"

lemma add_ids_when:
  "open_inv xs s \<Longrightarrow>
   \<exists>ys s'. exn_fold (\<lambda>tag s. if P tag then throwing (add_id i s) else Inr s) tags s = Inr s' \<and> open_inv (xs @ ys) s' \<and>
     set ys = (if \<exists>tag\<in>set tags. P tag then {i} else {})"
proof (induction tags arbitrary: xs s)
  case (Cons tag tags)
  show ?case
  proof (cases "P tag")
    case True
    obtain s1 where s1: "add_id i s = Inr s1" "open_inv (xs @ [i]) s1" using add_id_open [OF Cons.prems] by blast
    obtain ys s' where "exn_fold (\<lambda>tag s. if P tag then throwing (add_id i s) else Inr s) tags s1 = Inr s'"
      "open_inv ((xs @ [i]) @ ys) s'" "set ys = (if \<exists>tag\<in>set tags. P tag then {i} else {})"
      using Cons.IH [OF s1(2)] by blast
    then show ?thesis using True s1(1) by (intro exI [of _ "i # ys"] exI [of _ s']) auto
  next
    case False
    then show ?thesis using Cons.IH [OF Cons.prems] by simp
  qed
qed simp

lemma filter_node_ids:
  assumes "open_inv xs s" "open_inv ys t"
  shows "\<exists>xs' ys' s' t'. filter_node N contains f x (s, t) = Inr (s', t') \<and> open_inv (xs @ xs') s' \<and> open_inv (ys @ ys') t' \<and>
    set xs' = inside_ids N contains [x] \<and> set ys' = nohup_ids N contains f [x]"
proof (cases "inside_id N contains x")
  case None
  then show ?thesis using assms
    by (intro exI [of _ "[]"] exI [of _ s] exI [of _ t])
      (auto simp: filter_node_def inside_id_def inside_ids_def nohup_ids_def split: if_splits)
next
  case (Some i)
  then have i: "contains (as_double N (xml_attr ''lon'' x)) (as_double N (xml_attr ''lat'' x))" "i = atoul (xml_attr ''id'' x) 0"
    by (auto simp: inside_id_def split: if_splits)
  obtain s1 where s1: "add_id i s = Inr s1" "open_inv (xs @ [i]) s1" using add_id_open [OF assms(1)] by blast
  obtain zs t1 where t1: "exn_fold (\<lambda>tag s. if nohup_tag f tag then throwing (add_id i s) else Inr s) (xml_childs ''tag'' x) t = Inr t1"
    "open_inv (ys @ zs) t1" "set zs = (if \<exists>tag\<in>set (xml_childs ''tag'' x). nohup_tag f tag then {i} else {})"
    using add_ids_when [OF assms(2)] by blast
  have ins: "set [i] = inside_ids N contains [x]" using Some by (auto simp: inside_ids_def)
  show ?thesis
  proof (cases "i = 0")
    case True
    then have "filter_node N contains f x (s, t) = Inr (s1, t)" using i s1(1) by (simp add: filter_node_def Let_def)
    moreover have "set [] = nohup_ids N contains f [x]" using Some True by (auto simp: nohup_ids_def)
    ultimately show ?thesis using s1(2) assms(2) ins by (metis append_Nil2)
  next
    case False
    then have "filter_node N contains f x (s, t) = Inr (s1, t1)"
      using i(1) s1(1) t1(1) False by (simp add: filter_node_def Let_def nohup_tag_def flip: i(2))
    moreover have "set zs = nohup_ids N contains f [x]" using Some False t1(3) by (auto simp: nohup_ids_def)
    ultimately show ?thesis using s1(2) t1(2) ins by blast
  qed
qed

lemma ids_Cons:
  "inside_ids N contains (x # els) = inside_ids N contains [x] \<union> inside_ids N contains els"
  "nohup_ids N contains f (x # els) = nohup_ids N contains f [x] \<union> nohup_ids N contains f els"
  by (auto simp: inside_ids_def nohup_ids_def)

lemma filter_nodes_ids:
  assumes "open_inv xs s" "open_inv ys t"
  shows "\<exists>xs' ys' s' t'. exn_fold (filter_node N contains f) els (s, t) = Inr (s', t') \<and>
    open_inv (xs @ xs') s' \<and> open_inv (ys @ ys') t' \<and> set xs' = inside_ids N contains els \<and> set ys' = nohup_ids N contains f els"
  using assms
proof (induction els arbitrary: xs ys s t)
  case Nil
  then show ?case by (intro exI [of _ "[]"] exI [of _ s] exI [of _ t]) (simp add: inside_ids_def nohup_ids_def)
next
  case (Cons x els)
  obtain xs1 ys1 s1 t1 where a: "filter_node N contains f x (s, t) = Inr (s1, t1)" "open_inv (xs @ xs1) s1" "open_inv (ys @ ys1) t1"
    "set xs1 = inside_ids N contains [x]" "set ys1 = nohup_ids N contains f [x]"
    using filter_node_ids [OF Cons.prems] by metis
  obtain xs2 ys2 s2 t2 where b: "exn_fold (filter_node N contains f) els (s1, t1) = Inr (s2, t2)"
    "open_inv ((xs @ xs1) @ xs2) s2" "open_inv ((ys @ ys1) @ ys2) t2"
    "set xs2 = inside_ids N contains els" "set ys2 = nohup_ids N contains f els"
    using Cons.IH [OF a(2,3)] by metis
  show ?case
    by (intro exI [of _ "xs1 @ xs2"] exI [of _ "ys1 @ ys2"] exI [of _ s2] exI [of _ t2])
      (use a b in \<open>simp add: ids_Cons(1) [of N contains x els] ids_Cons(2) [of N contains f x els]\<close>)
qed

text \<open>
  C16: the first pass ends without an exception and fills the two sets on disk: whatever is asked later, one answers membership among the ids
  of the nodes inside the box, the other among those of them, except id 0, with a tag that ends a line.
\<close>

theorem filter_nodes_answers:
  "\<exists>bbox nohups. filter_nodes N contains f osm (osm_id_set_init, osm_id_set_init) = Inr (bbox, nohups) \<and>
     (\<exists>s. run_asks has_id qs bbox = Some (map (\<lambda>q. q \<in> inside_ids N contains (xml_childs ''node'' osm)) qs, s)) \<and>
     (\<exists>s. run_asks has_id qs nohups = Some (map (\<lambda>q. q \<in> nohup_ids N contains f (xml_childs ''node'' osm)) qs, s))"
proof -
  have ask: "\<exists>s'. run_asks has_id qs s = Some (map (\<lambda>q. q \<in> X) qs, s')" if "holds_ids X s" for X s
    using that
  proof (induction qs arbitrary: s)
    case (Cons q qs)
    obtain s1 where s1: "has_id q s = Some (q \<in> X, s1)" "holds_ids X s1" using has_id_holds [OF Cons.prems] by blast
    from Cons.IH [OF s1(2)] show ?case by (auto simp: s1(1))
  qed simp
  obtain xs ys s t where r: "filter_nodes N contains f osm (osm_id_set_init, osm_id_set_init) = Inr (s, t)"
    "open_inv xs s" "open_inv ys t" "set xs = inside_ids N contains (xml_childs ''node'' osm)"
    "set ys = nohup_ids N contains f (xml_childs ''node'' osm)"
    using filter_nodes_ids [OF open_inv_init open_inv_init] unfolding filter_nodes_def by fastforce
  then have "holds_ids (inside_ids N contains (xml_childs ''node'' osm)) s"
    "holds_ids (nohup_ids N contains f (xml_childs ''node'' osm)) t" unfolding holds_ids_def by blast+
  then show ?thesis using r(1) ask by auto
qed

section \<open>What the second pass collects\<close>

lemma entry_note_members: "entry (note_members i ids m) x = entry m x @ replicate (count_list ids x) i"
  unfolding note_members_def
  by (induction ids arbitrary: m) (auto simp: entry_def)

text \<open>The relations of a document, each with what its unwritten flags hold.\<close>

definition relation_at ::
  "xml_numbers \<Rightarrow> osm_filter \<Rightarrow> string set \<Rightarrow> (nat \<Rightarrow> u64 \<times> u64) \<Rightarrow> xml_node list \<Rightarrow> nat \<Rightarrow> osm_relation" where
  "relation_at N f K junk xs i = read_osm_relation N f K (junk i) (xs ! i)"

definition relations_read ::
  "xml_numbers \<Rightarrow> osm_filter \<Rightarrow> string set \<Rightarrow> (nat \<Rightarrow> u64 \<times> u64) \<Rightarrow> xml_node list \<Rightarrow> nat \<Rightarrow> relation_data \<Rightarrow> bool" where
  "relations_read N f K junk xs n d \<longleftrightarrow>
     rl_rels (rd_rels d) = map (\<lambda>i. or_attrs (relation_at N f K junk xs i)) [0..<n] \<and>
     rl_flat (rd_rels d) = {i. i < n \<and> or_keepFlags (relation_at N f K junk xs i) AND REL_NO_DOWN \<noteq> 0} \<and>
     (\<forall>x. entry (rd_nodeRels d) x = concat (map (\<lambda>i. replicate (count_list (or_nodes (relation_at N f K junk xs i)) x) i) [0..<n])) \<and>
     (\<forall>x. entry (rd_wayRels d) x = concat (map (\<lambda>i. replicate (count_list (or_ways (relation_at N f K junk xs i)) x) i) [0..<n])) \<and>
     rd_rests d = fold (\<lambda>i. read_restrictions (relation_at N f K junk xs i) f) [0..<n] (rd_rests relation_data_init)"

lemma read_relations_prefix:
  assumes "n \<le> length xs"
  shows "relations_read N f K junk xs n (fold (read_relation N f K junk) (take n xs) relation_data_init)"
  using assms
proof (induction n)
  case 0
  then show ?case by (simp add: relations_read_def relation_data_init_def entry_def)
next
  case (Suc n)
  define d where "d = fold (read_relation N f K junk) (take n xs) relation_data_init"
  have r: "relations_read N f K junk xs n d" unfolding d_def using Suc by simp
  then have len: "length (rl_rels (rd_rels d)) = n" by (simp add: relations_read_def)
  have d': "fold (read_relation N f K junk) (take (Suc n) xs) relation_data_init = read_relation N f K junk (xs ! n) d"
    using Suc.prems by (simp add: take_Suc_conv_app_nth d_def)
  note r' = r [unfolded relations_read_def]
  show ?case
    unfolding d'
    unfolding relations_read_def read_relation_def Let_def len relation_at_def [symmetric]
    using r' by (simp only: relation_data.select_convs relation_list.select_convs entry_note_members upt_Suc_append le0
        map_append list.map concat_append concat.simps append_Nil2 fold_append fold_simps comp_apply simp_thms)
      (auto simp: less_Suc_eq)
qed

lemma set_members: "set (concat (map (\<lambda>i. replicate (count_list (L i) x) i) [0..<n])) = {i. i < n \<and> x \<in> set (L i)}"
  by (auto simp: count_list_0_iff)

lemma read_relations_correct:
  "relations_read N f K junk (xml_childs ''relation'' osm) (length (xml_childs ''relation'' osm)) (read_relations N f K junk osm relation_data_init)"
  using read_relations_prefix [of "length (xml_childs ''relation'' osm)" "xml_childs ''relation'' osm"] by (simp add: read_relations_def)

text \<open>The meaning of a restriction: exactly one way in each of the two roles, and the first node in the role \<^verbatim>\<open>via\<close>.\<close>

definition in_role :: "string \<Rightarrow> osmid list \<Rightarrow> string list \<Rightarrow> osmid list" where
  "in_role role ids roles = map fst (filter (\<lambda>m. snd m = role) (zip ids roles))"

definition restricts :: "osm_filter \<Rightarrow> osm_relation \<Rightarrow> bool \<Rightarrow> osmid \<Rightarrow> restriction \<Rightarrow> bool" where
  "restricts f rel pos via r \<longleftrightarrow>
     map_of (or_attrs rel) ''type'' = Some ''restriction'' \<and>
     (if pos then posRestr (or_attrs rel) f \<noteq> 0 else posRestr (or_attrs rel) f = 0 \<and> negRestr (or_attrs rel) f \<noteq> 0) \<and>
     in_role ''from'' (or_ways rel) (or_wayRoles rel) = [eFrom r] \<and> in_role ''to'' (or_ways rel) (or_wayRoles rel) = [eTo r] \<and>
     via \<noteq> 0 \<and> (\<exists>vs. in_role ''via'' (or_nodes rel) (or_nodeRoles rel) = via # vs)"

definition seen :: "osmid \<Rightarrow> osmid list" where
  "seen x = (if x = 0 then [] else [x])"

lemma from_to_members:
  assumes "0 \<notin> fst ` set ws"
  shows "from_to ws frm to = Some (a, b) \<and> a \<noteq> 0 \<and> b \<noteq> 0 \<longleftrightarrow>
    seen frm @ map fst (filter (\<lambda>m. snd m = ''from'') ws) = [a] \<and> seen to @ map fst (filter (\<lambda>m. snd m = ''to'') ws) = [b] \<and> a \<noteq> 0 \<and> b \<noteq> 0"
  using assms
proof (induction ws frm to rule: from_to.induct)
  case (1 frm to)
  then show ?case by (auto simp: seen_def)
next
  case (2 w role ws frm to)
  have w: "w \<noteq> 0" "0 \<notin> fst ` set ws" using "2.prems" by auto
  have ih: "\<not> (role = ''from'' \<and> frm \<noteq> 0) \<Longrightarrow> \<not> (role = ''to'' \<and> to \<noteq> 0) \<Longrightarrow>
    from_to ws (if role = ''from'' then w else frm) (if role = ''to'' then w else to) = Some (a, b) \<and> a \<noteq> 0 \<and> b \<noteq> 0 \<longleftrightarrow>
    seen (if role = ''from'' then w else frm) @ map fst (filter (\<lambda>m. snd m = ''from'') ws) = [a] \<and>
    seen (if role = ''to'' then w else to) @ map fst (filter (\<lambda>m. snd m = ''to'') ws) = [b] \<and> a \<noteq> 0 \<and> b \<noteq> 0"
    using "2.IH" w(2) by blast
  show ?case
  proof (cases "role = ''from'' \<and> frm \<noteq> 0 \<or> role = ''to'' \<and> to \<noteq> 0")
    case True
    then show ?thesis by (auto simp: seen_def)
  next
    case False
    then have "from_to ((w, role) # ws) frm to = from_to ws (if role = ''from'' then w else frm) (if role = ''to'' then w else to)"
      by (auto simp: Let_def)
    then show ?thesis using ih False w(1) by (auto simp: seen_def)
  qed
qed

lemma find_role: "List.find (\<lambda>(n, r). r = role) ms =
    (case filter (\<lambda>m. snd m = role) ms of [] \<Rightarrow> None | m # _ \<Rightarrow> Some m)"
  by (induction ms) auto

lemma restricts_iff:
  assumes "0 \<notin> set (or_ways rel)"
  shows "restricts f rel pos via r \<longleftrightarrow>
     map_of (or_attrs rel) ''type'' = Some ''restriction'' \<and>
     (if pos then posRestr (or_attrs rel) f \<noteq> 0 else posRestr (or_attrs rel) f = 0 \<and> negRestr (or_attrs rel) f \<noteq> 0) \<and>
     (from_to (zip (or_ways rel) (or_wayRoles rel)) 0 0 = Some (eFrom r, eTo r) \<and> eFrom r \<noteq> 0 \<and> eTo r \<noteq> 0) \<and>
     via \<noteq> 0 \<and> (\<exists>role. List.find (\<lambda>(n, role). role = ''via'') (zip (or_nodes rel) (or_nodeRoles rel)) = Some (via, role))"
proof -
  let ?ws = "zip (or_ways rel) (or_wayRoles rel)"
  have z: "0 \<notin> fst ` set ?ws" using assms by (auto dest: set_zip_leftD)
  have nz: "x \<noteq> 0" if "in_role role (or_ways rel) (or_wayRoles rel) = [x]" for x role
  proof -
    have "x \<in> fst ` set ?ws" using that by (force simp: in_role_def map_eq_Cons_conv filter_eq_Cons_iff)
    then show ?thesis using z by auto
  qed
  have v: "(\<exists>vs. in_role ''via'' (or_nodes rel) (or_nodeRoles rel) = via # vs) \<longleftrightarrow>
      (\<exists>role. List.find (\<lambda>(n, role). role = ''via'') (zip (or_nodes rel) (or_nodeRoles rel)) = Some (via, role))"
    unfolding find_role in_role_def by (auto split: list.split)
  have ft: "from_to ?ws 0 0 = Some (a, b) \<and> a \<noteq> 0 \<and> b \<noteq> 0 \<longleftrightarrow>
      in_role ''from'' (or_ways rel) (or_wayRoles rel) = [a] \<and> in_role ''to'' (or_ways rel) (or_wayRoles rel) = [b]" for a b
    using from_to_members [OF z, of 0 0 a b] nz by (auto simp: seen_def simp flip: in_role_def)
  show ?thesis unfolding restricts_def v ft by blast
qed

lemma entry_upd_if: "entry (m(k \<mapsto> xs)) j = (if j = k then xs else entry m j)"
  by (simp add: entry_def)

lemma read_restrictions_adds:
  assumes "0 \<notin> set (or_ways rel)"
  shows "set (entry (rr_pos (read_restrictions rel f rests)) via) = set (entry (rr_pos rests) via) \<union> {r. restricts f rel True via r}"
    "set (entry (rr_neg (read_restrictions rel f rests)) via) = set (entry (rr_neg rests) via) \<union> {r. restricts f rel False via r}"
proof -
  let ?ft = "from_to (zip (or_ways rel) (or_wayRoles rel)) 0 0"
  let ?v = "List.find (\<lambda>(n, role). role = ''via'') (zip (or_nodes rel) (or_nodeRoles rel))"
  let ?read = "read_restrictions rel f rests"
  note iff = restricts_iff [OF assms, of f]
  have eta: "r = \<lparr>eFrom = a, eTo = b\<rparr> \<longleftrightarrow> eFrom r = a \<and> eTo r = b" for r :: restriction and a b by (cases r) simp
  show "set (entry (rr_pos ?read) via) = set (entry (rr_pos rests) via) \<union> {r. restricts f rel True via r}"
    by (auto simp: read_restrictions_def iff Let_def entry_upd_if eta split: option.splits if_splits)
  show "set (entry (rr_neg ?read) via) = set (entry (rr_neg rests) via) \<union> {r. restricts f rel False via r}"
    by (auto simp: read_restrictions_def iff Let_def entry_upd_if eta split: option.splits if_splits)
qed
lemma fold_restrictions:
  assumes "\<forall>i<n. 0 \<notin> set (or_ways (rel i))"
  shows "set (entry (rr_pos (fold (\<lambda>i. read_restrictions (rel i) f) [0..<n] (rd_rests relation_data_init))) via) =
      {r. \<exists>i<n. restricts f (rel i) True via r}"
    "set (entry (rr_neg (fold (\<lambda>i. read_restrictions (rel i) f) [0..<n] (rd_rests relation_data_init))) via) =
      {r. \<exists>i<n. restricts f (rel i) False via r}"
  using assms
proof (induction n)
  case (Suc n)
  {
    case 1
    then show ?case using Suc.IH(1) read_restrictions_adds(1) [of "rel n" f] by (auto simp: less_Suc_eq)
  next
    case 2
    then show ?case using Suc.IH(2) read_restrictions_adds(2) [of "rel n" f] by (auto simp: less_Suc_eq)
  }
qed (simp_all add: relation_data_init_def entry_def)

text \<open>
  C7: after the relations of a document are read, position \<open>i\<close> of the list holds the kept tags of relation \<open>i\<close>, a node or way is
  indexed under exactly the relations it is a member of, and a turn restriction is stored for a node exactly when some
  relation means it: of type restriction, passing the rules of its sign, with exactly one way in each role and that node
  as its first \<^verbatim>\<open>via\<close>.
\<close>

theorem relations_indexed:
  fixes N :: xml_numbers and f :: osm_filter and K :: "string set" and junk osm
  defines "rel \<equiv> relation_at N f K junk (xml_childs ''relation'' osm)" and "n \<equiv> length (xml_childs ''relation'' osm)"
    and "d \<equiv> read_relations N f K junk osm relation_data_init"
  assumes "\<forall>i<n. 0 \<notin> set (or_ways (rel i))"
  shows "rl_rels (rd_rels d) = map (\<lambda>i. or_attrs (rel i)) [0..<n] \<and>
    (\<forall>x. set (entry (rd_nodeRels d) x) = {i. i < n \<and> x \<in> set (or_nodes (rel i))}) \<and>
    (\<forall>x. set (entry (rd_wayRels d) x) = {i. i < n \<and> x \<in> set (or_ways (rel i))}) \<and>
    (\<forall>via. set (entry (rr_pos (rd_rests d)) via) = {r. \<exists>i<n. restricts f (rel i) True via r}) \<and>
    (\<forall>via. set (entry (rr_neg (rd_rests d)) via) = {r. \<exists>i<n. restricts f (rel i) False via r})"
proof -
  have "relations_read N f K junk (xml_childs ''relation'' osm) n d"
    unfolding n_def d_def by (rule read_relations_correct)
  note r = this [unfolded relations_read_def, folded rel_def]
  have "rl_rels (rd_rels d) = map (\<lambda>i. or_attrs (rel i)) [0..<n]" using r by blast
  moreover have "set (entry (rd_nodeRels d) x) = {i. i < n \<and> x \<in> set (or_nodes (rel i))}" for x
    using r set_members [of "\<lambda>i. or_nodes (rel i)" x n] by simp
  moreover have "set (entry (rd_wayRels d) x) = {i. i < n \<and> x \<in> set (or_ways (rel i))}" for x
    using r set_members [of "\<lambda>i. or_ways (rel i)" x n] by simp
  moreover have "rd_rests d = fold (\<lambda>i. read_restrictions (rel i) f) [0..<n] (rd_rests relation_data_init)" using r by blast
  ultimately show ?thesis using fold_restrictions [OF assms(4), of f] by simp
qed

definition turn_relation :: xml_node where
  "turn_relation = Xml_node ''relation'' [(''id'', ''9'')]
     [Xml_node ''member'' [(''type'', ''way''), (''ref'', ''1''), (''role'', ''from'')] [],
      Xml_node ''member'' [(''type'', ''node''), (''ref'', ''3''), (''role'', ''via'')] [],
      Xml_node ''member'' [(''type'', ''way''), (''ref'', ''2''), (''role'', ''to'')] [],
      Xml_node ''tag'' [(''k'', ''type''), (''v'', ''restriction'')] [],
      Xml_node ''tag'' [(''k'', ''restriction''), (''v'', ''no_left_turn'')] []]"

definition digit_numbers :: xml_numbers where
  "digit_numbers = \<lparr>as_ullong = (\<lambda>s. atoul s 0), as_double = (\<lambda>s. Finite (of_nat (unat (atoul s 0))))\<rparr>"

definition turn_filter :: osm_filter where
  "turn_filter = (osm_filter_of_rules [] [])\<lparr>f_negRestr := [(''restriction'', [(''no_left_turn'', 1)])]\<rparr>"

theorem relations_indexed_witness:
  "\<lparr>eFrom = 1, eTo = 2\<rparr> \<in> set (entry (rr_neg (rd_rests (read_relations digit_numbers turn_filter UNIV (\<lambda>_. (0, 0))
     (Xml_node ''osm'' [] [turn_relation]) relation_data_init))) 3)"
proof -
  let ?doc = "Xml_node ''osm'' [] [turn_relation]"
  have xs: "xml_childs ''relation'' ?doc = [turn_relation]" by (simp add: xml_childs_def turn_relation_def)
  have rel: "relation_at digit_numbers turn_filter UNIV (\<lambda>_. (0, 0)) [turn_relation] 0 =
      \<lparr>or_id = 9, or_attrs = [(''type'', ''restriction''), (''restriction'', ''no_left_turn'')], or_nodes = [3], or_ways = [1, 2],
       or_nodeRoles = [''via''], or_wayRoles = [''from'', ''to''], or_keepFlags = 0, or_dropFlags = 0\<rparr>"
    by code_simp
  have "restricts turn_filter (relation_at digit_numbers turn_filter UNIV (\<lambda>_. (0, 0)) [turn_relation] 0) False 3 \<lparr>eFrom = 1, eTo = 2\<rparr>"
    unfolding rel
    by (simp add: restricts_def in_role_def posRestr_def negRestr_def turn_filter_def osm_filter_of_rules_def ALL_T_def MULT_VAL_MATCH_def
        valMatches_mult_def)
  then show ?thesis
    using relations_indexed [where N = digit_numbers and f = turn_filter and K = UNIV and junk = "\<lambda>_. (0, 0)" and osm = ?doc]
    by (simp add: xs rel)
qed

section \<open>The keys that are kept\<close>

lemma update_filter:
  "filter (\<lambda>(k, _). k \<in> K) (AList.update k v m) =
    (if k \<in> K then AList.update k v (filter (\<lambda>(k, _). k \<in> K) m) else filter (\<lambda>(k, _). k \<in> K) m)"
  by (induction m) auto

lemma kept_tags_filter: "kept_tags K x = filter (\<lambda>(k, _). k \<in> K) (kept_tags UNIV x)"
proof -
  have "fold (\<lambda>tag m. if xml_attr ''k'' tag \<in> K then AList.update (xml_attr ''k'' tag) (xml_attr ''v'' tag) m else m) tags
      (filter (\<lambda>(k, _). k \<in> K) m) =
    filter (\<lambda>(k, _). k \<in> K) (fold (\<lambda>tag. AList.update (xml_attr ''k'' tag) (xml_attr ''v'' tag)) tags m)" for tags m
  proof (induction tags arbitrary: m)
    case (Cons tag tags)
    from this [of "AList.update (xml_attr ''k'' tag) (xml_attr ''v'' tag) m"] this [of m]
    show ?case by (cases "xml_attr ''k'' tag \<in> K") (simp_all add: update_filter)
  qed simp
  from this [of "xml_childs ''tag'' x" "[]"] show ?thesis by (simp add: kept_tags_def)
qed

lemma map_of_kept: "k \<in> K \<Longrightarrow> map_of (filter (\<lambda>(k, _). k \<in> K) m) k = map_of m k"
  by (induction m) auto

lemma contained_kept: "rule_keys rules \<subseteq> K \<Longrightarrow> contained (filter (\<lambda>(k, _). k \<in> K) attrs) rules t = contained attrs rules t"
proof (induction attrs rules t rule: contained.induct)
  case (2 k v attrs rules t)
  have "map_of rules k = None" if "k \<notin> K"
    using 2(3) that unfolding rule_keys_def map_of_eq_None_iff by blast
  then show ?case using 2 by (auto split: option.split)
qed simp

lemma level_matches_kept: "rule_keys rules \<subseteq> K \<Longrightarrow> level_matches (filter (\<lambda>(k, _). k \<in> K) attrs) rules = level_matches attrs rules"
proof (induction attrs)
  case (Cons kv attrs)
  have "map_of rules (fst kv) = None" if "fst kv \<notin> K"
    using Cons.prems that unfolding rule_keys_def map_of_eq_None_iff by blast
  then show ?case using Cons by (auto simp: level_matches_def split: option.split)
qed simp

lemma level_kept:
  assumes "\<forall>i<8. rule_keys (levelFilters o' ! i) \<subseteq> K"
  shows "level (filter (\<lambda>(k, _). k \<in> K) attrs) (osm_filter_of_options o') = level attrs (osm_filter_of_options o')"
proof -
  have "List.find (\<lambda>i. level_matches (filter (\<lambda>(k, _). k \<in> K) attrs) (levelFilters o' ! i)) [0..<8] =
      List.find (\<lambda>i. level_matches attrs (levelFilters o' ! i)) [0..<8]"
    using assms by (intro find_cong) (auto simp: level_matches_kept)
  then show ?thesis by (simp add: level_def osm_filter_of_options_def)
qed

text \<open>
  C17: reading only the tags whose keys the options name changes no decision: the filters, the level and the direction of a way, the
  role of a node, and the sign of a restriction come out as on the full set of tags.  For the level this needs the eighth
  level filter to be empty.
\<close>

theorem kept_keys_suffice:
  assumes "get_kept_attribute_keys o' = (Kn, Kw, Kr)" "levelFilters o' ! 7 = []"
  defines "f \<equiv> osm_filter_of_options o'"
  shows "(keep (kept_tags Kw x) WAY_T f = keep (kept_tags UNIV x) WAY_T f \<and> drop_flags (kept_tags Kw x) WAY_T f = drop_flags (kept_tags UNIV x) WAY_T f \<and>
      oneway (kept_tags Kw x) f = oneway (kept_tags UNIV x) f \<and> onewayrev (kept_tags Kw x) f = onewayrev (kept_tags UNIV x) f \<and>
      level (kept_tags Kw x) f = level (kept_tags UNIV x) f \<and> map_of (kept_tags Kw x) ''maxspeed'' = map_of (kept_tags UNIV x) ''maxspeed'') \<and>
    (keep (kept_tags Kn x) NODE_T f = keep (kept_tags UNIV x) NODE_T f \<and> drop_flags (kept_tags Kn x) NODE_T f = drop_flags (kept_tags UNIV x) NODE_T f \<and>
      station (kept_tags Kn x) f = station (kept_tags UNIV x) f \<and> blocker (kept_tags Kn x) f = blocker (kept_tags UNIV x) f) \<and>
    (keep (kept_tags Kr x) REL_T f = keep (kept_tags UNIV x) REL_T f \<and> drop_flags (kept_tags Kr x) REL_T f = drop_flags (kept_tags UNIV x) REL_T f \<and>
      posRestr (kept_tags Kr x) f = posRestr (kept_tags UNIV x) f \<and> negRestr (kept_tags Kr x) f = negRestr (kept_tags UNIV x) f)"
proof -
  note sel = keep_def drop_flags_def oneway_def onewayrev_def station_def blocker_def posRestr_def negRestr_def f_def osm_filter_of_options_def
  have w: "rule_keys (keepFilter o') \<subseteq> Kw" "rule_keys (dropFilter o') \<subseteq> Kw" "rule_keys (oneWayFilter o') \<subseteq> Kw"
    "rule_keys (oneWayFilterRev o') \<subseteq> Kw" "rule_keys (twoWayFilter o') \<subseteq> Kw" "''maxspeed'' \<in> Kw"
    and n: "rule_keys (keepFilter o') \<subseteq> Kn" "rule_keys (dropFilter o') \<subseteq> Kn" "rule_keys (stationFilter o') \<subseteq> Kn"
    "rule_keys (stationBlockerFilter o') \<subseteq> Kn"
    and r: "rule_keys (keepFilter o') \<subseteq> Kr" "rule_keys (dropFilter o') \<subseteq> Kr" "rule_keys (restrPosRestr o') \<subseteq> Kr"
    "rule_keys (restrNegRestr o') \<subseteq> Kr" "rule_keys (noRestrFilter o') \<subseteq> Kr"
    and l: "\<forall>i<7. rule_keys (levelFilters o' ! i) \<subseteq> Kw"
    using assms(1) by (auto simp: get_kept_attribute_keys_def Let_def)
  have "rule_keys (levelFilters o' ! i) \<subseteq> Kw" if "i < 8" for i
    using that l assms(2) by (cases "i = 7") (auto simp: rule_keys_def)
  then have lev: "level (kept_tags Kw x) f = level (kept_tags UNIV x) f"
    unfolding f_def kept_tags_filter [of Kw] by (intro level_kept) simp
  have way: "keep (kept_tags Kw x) WAY_T f = keep (kept_tags UNIV x) WAY_T f" "drop_flags (kept_tags Kw x) WAY_T f = drop_flags (kept_tags UNIV x) WAY_T f"
    "oneway (kept_tags Kw x) f = oneway (kept_tags UNIV x) f" "onewayrev (kept_tags Kw x) f = onewayrev (kept_tags UNIV x) f"
    "map_of (kept_tags Kw x) ''maxspeed'' = map_of (kept_tags UNIV x) ''maxspeed''"
    unfolding kept_tags_filter [of Kw] sel using w by (simp_all add: contained_kept map_of_kept)
  have node: "keep (kept_tags Kn x) NODE_T f = keep (kept_tags UNIV x) NODE_T f" "drop_flags (kept_tags Kn x) NODE_T f = drop_flags (kept_tags UNIV x) NODE_T f"
    "station (kept_tags Kn x) f = station (kept_tags UNIV x) f" "blocker (kept_tags Kn x) f = blocker (kept_tags UNIV x) f"
    unfolding kept_tags_filter [of Kn] sel using n by (simp_all add: contained_kept)
  have rel: "keep (kept_tags Kr x) REL_T f = keep (kept_tags UNIV x) REL_T f" "drop_flags (kept_tags Kr x) REL_T f = drop_flags (kept_tags UNIV x) REL_T f"
    "posRestr (kept_tags Kr x) f = posRestr (kept_tags UNIV x) f" "negRestr (kept_tags Kr x) f = negRestr (kept_tags UNIV x) f"
    unfolding kept_tags_filter [of Kr] sel using r by (simp_all add: contained_kept)
  show ?thesis using way node rel lev by blast
qed

definition plain_options :: osm_build_options where
  "plain_options =
    \<lparr>noHupFilter = [], keepFilter = [(''railway'', [(''rail'', 1), (''yard'', 1)])], levelFilters = replicate 7 [] @ [[(''usage'', [(''industrial'', 1)])]],
     dropFilter = [], oneWayFilter = [], oneWayFilterRev = [], twoWayFilter = [], stationFilter = [], stationBlockerFilter = [],
     restrPosRestr = [], restrNegRestr = [], noRestrFilter = [], statGroupNAttrRules = [], statNormzer = (\<lambda>s. s), lineNormzer = (\<lambda>s. s),
     trackNormzer = (\<lambda>s. s), relLinerules = \<lparr>sNameRule = [], fromNameRule = [], toNameRule = []\<rparr>,
     statAttrRules = \<lparr>nameRule = [], platformRule = [], idRule = []\<rparr>, edgePlatformRules = []\<rparr>"

definition industrial_way :: xml_node where
  "industrial_way = Xml_node ''way'' [(''id'', ''1'')]
     [Xml_node ''tag'' [(''k'', ''railway''), (''v'', ''rail'')] [], Xml_node ''tag'' [(''k'', ''usage''), (''v'', ''industrial'')] []]"

lemma plain_keys: "get_kept_attribute_keys plain_options =
    ({''railway''}, {''railway'', ''maxspeed''}, {''railway'', ''from'', ''via'', ''to''})"
  unfolding get_kept_attribute_keys_def plain_options_def rule_keys_def own_keys_def rel_keys_def by (auto simp: nth_append)

theorem kept_keys_suffice_witness:
  defines "o' \<equiv> plain_options\<lparr>levelFilters := replicate 8 []\<rparr>"
  shows "keep (kept_tags {''railway'', ''maxspeed''} industrial_way) WAY_T (osm_filter_of_options o') \<noteq> 0"
proof -
  have "get_kept_attribute_keys o' = ({''railway''}, {''railway'', ''maxspeed''}, {''railway'', ''from'', ''via'', ''to''})"
    unfolding o'_def get_kept_attribute_keys_def plain_options_def rule_keys_def own_keys_def rel_keys_def by auto
  then have "keep (kept_tags {''railway'', ''maxspeed''} industrial_way) WAY_T (osm_filter_of_options o') =
      keep (kept_tags UNIV industrial_way) WAY_T (osm_filter_of_options o')"
    using kept_keys_suffice [of o'] by (simp add: o'_def)
  also have "\<dots> \<noteq> 0"
    by (simp add: o'_def plain_options_def osm_filter_of_options_def keep_def kept_tags_def industrial_way_def xml_childs_def xml_attr_def
        WAY_T_def MULT_VAL_MATCH_def valMatches_mult_def)
  finally show ?thesis .
qed

text \<open>
  The keys of the eighth level filter are not kept, so a way that it should put on level seven ends up on level zero.
\<close>

lemma level_seven_lost:
  "level (kept_tags UNIV industrial_way) (osm_filter_of_options plain_options) = Some 7 \<and>
   level (kept_tags (fst (snd (get_kept_attribute_keys plain_options))) industrial_way) (osm_filter_of_options plain_options) = Some 0"
  unfolding plain_keys by code_simp

section \<open>Relations that fail the filter\<close>

text \<open>
  A relation that does not pass the filter is stored and indexed like any other; its members are kept, unless the memory of its flags
  happens to hold the flag of flat relations.
\<close>

lemma dropped_relation_keeps_members:
  fixes x :: osmid
  assumes "keep (kept_tags K r) REL_T f = 0" "x \<in> set (or_ways (read_osm_relation N f K (junk 0) r))"
  defines "d \<equiv> read_relation N f K junk r relation_data_init"
  shows "should_keep_relation x (rd_wayRels d) (rl_flat (rd_rels d)) \<longleftrightarrow> fst (junk 0) AND REL_NO_DOWN = 0"
proof -
  have flags: "or_keepFlags (read_osm_relation N f K (junk 0) r) = fst (junk 0)"
    using assms(1) by (simp add: read_osm_relation_def Let_def)
  have "entry (note_members 0 (or_ways (read_osm_relation N f K (junk 0) r)) Map.empty) x \<noteq> []"
    unfolding entry_note_members using assms(2) by (simp add: count_list_0_iff)
  then obtain rs where "note_members 0 (or_ways (read_osm_relation N f K (junk 0) r)) Map.empty x = Some rs" "rs \<noteq> []" "set rs \<subseteq> {0}"
    using entry_note_members [of 0 "or_ways (read_osm_relation N f K (junk 0) r)" Map.empty x]
    by (cases "note_members 0 (or_ways (read_osm_relation N f K (junk 0) r)) Map.empty x") (auto simp: entry_def)
  then show ?thesis
    by (cases rs) (auto simp: d_def read_relation_def relation_data_init_def should_keep_relation_def flags list_ex_iff Let_def)
qed

section \<open>Speeds\<close>

lemma string_to_kmh_positive: "string_to_kmh s = Inr v \<Longrightarrow> 0 < v"
  by (auto simp: string_to_kmh_def exn_bind_eq_Inr_iff Let_def split: if_splits prod.splits)

lemma string_to_kmh_throws: "string_to_kmh s = Inl e \<Longrightarrow> e = Invalid_argument ''stoi'' \<or> e = Out_of_range ''stoi''"
  by (auto simp: string_to_kmh_def exn_bind_eq_Inl_iff Let_def dest: stoi_exn split: if_splits prod.splits)

text \<open>A limit that is no number, which is a usual value of the tag, throws; nothing on the way up to \<open>read\<close> catches it.\<close>

lemma string_to_kmh_signals: "string_to_kmh ''signals'' = Inl (Invalid_argument ''stoi'')"
  by code_simp

end
