(* ===== verification/Osm_Edges.thy ===== *)
theory Osm_Edges
  imports Osm_Reader Graph_Steps
begin

text \<open>
  \<^verbatim>\<open>osm/osm_builder.cpp\<close>, the third pass: the kept ways become edges of the transit graph, with the lines that use them, their turn
  restrictions, levels, speeds and directions.
\<close>

section \<open>Lines\<close>

text \<open>
  The builder's two maps from line values and from relations to line objects, and the next free object.
\<close>

record line_cache =
  lc_lines :: "transit_edge_line \<rightharpoonup> line_ref"
  lc_relLines :: "nat \<rightharpoonup> line_ref"
  lc_next :: line_ref

definition line_cache_init :: line_cache where
  "line_cache_init = \<lparr>lc_lines = Map.empty, lc_relLines = Map.empty, lc_next = 0\<rparr>"

text \<open>One of the three loops over the rules for a part of the line; the last value assigned stays.\<close>

fun rel_name :: "(string \<Rightarrow> string) \<Rightarrow> string list \<Rightarrow> attribute_map \<Rightarrow> string \<Rightarrow> string" where
  "rel_name normzer [] attrs cur = cur"
| "rel_name normzer (r # rs) attrs cur =
     (let cur = fold (\<lambda>(k, v) cur. if k = r then normzer v else cur) attrs cur
      in if list_ex (\<lambda>(k, v). k = r \<and> normzer v \<noteq> '''') attrs then cur else rel_name normzer rs attrs cur)"

definition relation_line :: "osm_build_options \<Rightarrow> attribute_map \<Rightarrow> transit_edge_line" where
  "relation_line o' attrs =
     (let name = (\<lambda>rules. rel_name (lineNormzer o') rules attrs '''')
      in \<lparr>fromStr = name (fromNameRule (relLinerules o')), toStr = name (toNameRule (relLinerules o')),
          shortName = name (sNameRule (relLinerules o'))\<rparr>)"

definition blank_line :: "transit_edge_line \<Rightarrow> bool" where
  "blank_line el \<longleftrightarrow> shortName el = '''' \<and> fromStr el = '''' \<and> toStr el = ''''"

definition get_line ::
  "osm_build_options \<Rightarrow> relation_list \<Rightarrow> nat \<Rightarrow> line_ref list \<times> line_cache \<times> line_statics \<Rightarrow> line_ref list \<times> line_cache \<times> line_statics" where
  "get_line o' rels rel_id = (\<lambda>(ret, lc, st).
     (case lc_relLines lc rel_id of
        Some elp \<Rightarrow> (ret @ [elp], lc, st)
      | None \<Rightarrow>
          (let el = relation_line o' (rl_rels rels ! rel_id)
           in if blank_line el then (ret, lc, st)
              else (case lc_lines lc el of
                      Some elp \<Rightarrow> (ret @ [elp], lc\<lparr>lc_relLines := (lc_relLines lc)(rel_id \<mapsto> elp)\<rparr>, st)
                    | None \<Rightarrow>
                        (let elp = lc_next lc
                         in (ret @ [elp],
                             lc\<lparr>lc_lines := (lc_lines lc)(el \<mapsto> elp), lc_relLines := (lc_relLines lc)(rel_id \<mapsto> elp), lc_next := elp + 1\<rparr>,
                             st\<lparr>line_heap := (line_heap st)(elp \<mapsto> el)\<rparr>))))))"

definition get_lines ::
  "osm_build_options \<Rightarrow> relation_list \<Rightarrow> nat list \<Rightarrow> line_cache \<Rightarrow> line_statics \<Rightarrow> line_ref list \<times> line_cache \<times> line_statics" where
  "get_lines o' rels edgeRels lc st = fold (get_line o' rels) edgeRels ([], lc, st)"

section \<open>Restrictions\<close>

definition process_restriction ::
  "bool \<Rightarrow> osmid \<Rightarrow> edge_ref \<Rightarrow> node_ref \<Rightarrow> restriction \<Rightarrow> 'p tr_graph \<times> (node_ref, edge_ref) restrictor \<Rightarrow>
     ('p tr_graph \<times> (node_ref, edge_ref) restrictor) option" where
  "process_restriction pos wid e n kv = (\<lambda>(g, restor).
     if eFrom kv = wid then Some (set_epl e (set_restricted (epl g e)) g, add_restr e (eTo kv) n pos restor)
     else if eTo kv = wid
     then (let g = set_epl e (set_restricted (epl g e)) g
           in map_option (\<lambda>restor. (g, restor)) (relax (edge_getFrom g) (edge_getTo g) wid n e restor))
     else Some (g, restor))"

definition process_restrictions ::
  "osmid \<Rightarrow> osmid \<Rightarrow> restrictions \<Rightarrow> edge_ref \<Rightarrow> node_ref \<Rightarrow> 'p tr_graph \<times> (node_ref, edge_ref) restrictor \<Rightarrow>
     ('p tr_graph \<times> (node_ref, edge_ref) restrictor) option" where
  "process_restrictions nid wid rawRests e n s =
     Option.bind (opt_fold (process_restriction True wid e n) (entry (rr_pos rawRests) nid) s)
       (opt_fold (process_restriction False wid e n) (entry (rr_neg rawRests) nid))"

section \<open>Ways\<close>

text \<open>What the pass only reads: \<open>ei_origin\<close> is the point of a new node.\<close>

record 'p edge_input =
  ei_numbers :: xml_numbers
  ei_origin :: 'p
  ei_opts :: osm_build_options
  ei_filter :: osm_filter
  ei_keys :: "string set"
  ei_data :: relation_data

text \<open>What it changes.\<close>

record 'p edge_state =
  es_g :: "'p tr_graph"
  es_nodes :: "osmid \<rightharpoonup> node_ref"
  es_multNodes :: "osmid \<rightharpoonup> node_ref list"
  es_restor :: "(node_ref, edge_ref) restrictor"
  es_etracks :: "edge_ref \<rightharpoonup> string"
  es_lc :: line_cache
  es_lines :: line_statics
  es_bbox :: osm_id_set
  es_nohup :: osm_id_set

text \<open>
  The node of one \<^verbatim>\<open>nd\<close> of a way: a new one at every passage of a node that ends lines, otherwise the node of that id, or none when
  the node lies outside.
\<close>

definition way_node :: "'p edge_input \<Rightarrow> osmid \<Rightarrow> 'p edge_state \<Rightarrow> fault + node_ref option \<times> 'p edge_state" where
  "way_node I nid st =
     exn_bind (asserting (has_id nid (es_nohup st))) (\<lambda>(ends_line, s).
       let st = st\<lparr>es_nohup := s\<rparr> in
       if ends_line
       then (let (n, g) = addNd (node_payload_of (ei_origin I)) (es_g st)
             in Inr (Some n, st\<lparr>es_g := g, es_multNodes := (es_multNodes st)(nid \<mapsto> insort n (entry (es_multNodes st) nid))\<rparr>))
       else (case es_nodes st nid of
               Some n \<Rightarrow> Inr (Some n, st)
             | None \<Rightarrow>
                 exn_bind (asserting (has_id nid (es_bbox st))) (\<lambda>(inside, s).
                   let st = st\<lparr>es_bbox := s\<rparr> in
                   if \<not> inside then Inr (None, st)
                   else (let (n, g) = addNd (node_payload_of (ei_origin I)) (es_g st)
                         in Inr (Some n, st\<lparr>es_g := g, es_nodes := (es_nodes st)(nid \<mapsto> n)\<rparr>)))))"

text \<open>
  The edge from one node of a way to the next.  Reading \<^verbatim>\<open>attrs["maxspeed"]\<close> makes an empty entry when there is none; \<open>attrs\<close> is
  handed on.
\<close>

definition way_edge ::
  "'p edge_input \<Rightarrow> osmid \<Rightarrow> line_ref list \<Rightarrow> string \<Rightarrow> osmid \<times> node_ref \<Rightarrow> osmid \<times> node_ref \<Rightarrow> attribute_map \<times> 'p edge_state \<Rightarrow>
     fault + attribute_map \<times> 'p edge_state" where
  "way_edge I wid ls track = (\<lambda>(lastnid, last) (nid, n) (attrs, st).
     (let f = ei_filter I; rests = rd_rests (ei_data I);
          (e, g) = addEdg last n edge_payload_init (es_g st)
      in exn_bind (asserting (process_restrictions nid wid rests e n (g, es_restor st))) (\<lambda>s.
         exn_bind (asserting (process_restrictions lastnid wid rests e last s)) (\<lambda>(g, restor).
           let (pl, lst) = add_lines ls (epl g e, es_lines st)
           in case level attrs f of
                None \<Rightarrow> Inl Undefined_behaviour
              | Some l \<Rightarrow>
                  (let speed = (case map_of attrs ''maxspeed'' of None \<Rightarrow> '''' | Some v \<Rightarrow> v);
                       attrs = (if map_of attrs ''maxspeed'' = None then attrs @ [(''maxspeed'', '''')] else attrs)
                   in exn_bind (throwing (string_to_kmh speed)) (\<lambda>v.
                        let pl = set_max_speed (Finite v) (set_level (of_nat l) pl);
                            pl = (if oneway attrs f \<noteq> 0 then setOneWay_dir 1 pl else pl);
                            pl = (if onewayrev attrs f \<noteq> 0 then setOneWay_dir 2 pl else pl)
                        in Inr (attrs, st\<lparr>es_g := set_epl e pl g, es_restor := restor, es_lines := lst,
                                          es_etracks := (if track \<noteq> '''' then (es_etracks st)(e \<mapsto> track) else es_etracks st)\<rparr>)))))))"

fun way_nodes ::
  "'p edge_input \<Rightarrow> osmid \<Rightarrow> line_ref list \<Rightarrow> string \<Rightarrow> osmid list \<Rightarrow> (osmid \<times> node_ref) option \<Rightarrow> attribute_map \<times> 'p edge_state \<Rightarrow>
     fault + attribute_map \<times> 'p edge_state" where
  "way_nodes I wid ls track [] prev s = Inr s"
| "way_nodes I wid ls track (nid # nids) prev (attrs, st) =
     exn_bind (way_node I nid st) (\<lambda>(n, st).
       case n of
         None \<Rightarrow> way_nodes I wid ls track nids prev (attrs, st)
       | Some n \<Rightarrow>
           exn_bind (case prev of None \<Rightarrow> Inr (attrs, st) | Some p \<Rightarrow> way_edge I wid ls track p (nid, n) (attrs, st))
             (way_nodes I wid ls track nids (Some (nid, n))))"

definition read_way :: "'p edge_input \<Rightarrow> xml_node \<Rightarrow> 'p edge_state \<Rightarrow> fault + 'p edge_state" where
  "read_way I x st =
     (let w = read_osm_way (ei_numbers I) (ei_keys I) x; d = ei_data I; o' = ei_opts I
      in exn_bind (asserting (keep_way w (rd_wayRels d) (ei_filter I) (rl_flat (rd_rels d)) (es_bbox st))) (\<lambda>(kept, s).
         let st = st\<lparr>es_bbox := s\<rparr> in
         if \<not> kept then Inr st
         else
           (let (ls, lc, lst) = (case rd_wayRels d (ow_id w) of
                   Some edgeRels \<Rightarrow> get_lines o' (rd_rels d) edgeRels (es_lc st) (es_lines st)
                 | None \<Rightarrow> ([], es_lc st, es_lines st));
                track = getAttrByFirstMatch (edgePlatformRules o') (ow_id w) (ow_attrs w) (rd_wayRels d) (rd_rels d) (trackNormzer o') ''''
            in exn_bind (way_nodes I (ow_id w) ls track (ow_nodes w) None (ow_attrs w, st\<lparr>es_lc := lc, es_lines := lst\<rparr>))
                 (\<lambda>(attrs, st). Inr st))))"

definition read_edges :: "'p edge_input \<Rightarrow> xml_node \<Rightarrow> 'p edge_state \<Rightarrow> fault + 'p edge_state" where
  "read_edges I osm = exn_fold (read_way I) (xml_childs ''way'' osm)"

section \<open>Lines are shared\<close>

definition interned :: "osm_build_options \<Rightarrow> relation_list \<Rightarrow> line_cache \<Rightarrow> line_statics \<Rightarrow> bool" where
  "interned o' rels lc st \<longleftrightarrow>
     (\<forall>el l. lc_lines lc el = Some l \<longrightarrow> line_heap st l = Some el \<and> l < lc_next lc) \<and>
     (\<forall>i l. lc_relLines lc i = Some l \<longrightarrow>
        \<not> blank_line (relation_line o' (rl_rels rels ! i)) \<and> lc_lines lc (relation_line o' (rl_rels rels ! i)) = Some l)"

lemma get_line_interned:
  fixes i :: nat
  assumes "interned o' rels lc st"
  defines "el \<equiv> relation_line o' (rl_rels rels ! i)"
  shows "\<exists>lc' st' ls. get_line o' rels i (ret, lc, st) = (ret @ ls, lc', st') \<and> interned o' rels lc' st' \<and>
    lc_lines lc \<subseteq>\<^sub>m lc_lines lc' \<and> map Some ls = (if blank_line el then [] else [lc_lines lc' el])"
proof (cases "lc_relLines lc i")
  case (Some l)
  then have "\<not> blank_line el" "lc_lines lc el = Some l" using assms(1) by (auto simp: interned_def el_def)
  then show ?thesis using Some assms(1) by (simp add: get_line_def)
next
  case None
  show ?thesis
  proof (cases "blank_line el")
    case True
    then show ?thesis using None assms(1) by (simp add: get_line_def el_def)
  next
    case False
    show ?thesis
    proof (cases "lc_lines lc el")
      case (Some l)
      then have "interned o' rels (lc\<lparr>lc_relLines := (lc_relLines lc)(i \<mapsto> l)\<rparr>) st"
        using assms(1) False by (auto simp: interned_def el_def)
      then show ?thesis using None False Some by (simp add: get_line_def el_def)
    next
      case fresh: None
      let ?l = "lc_next lc"
      let ?lc = "lc\<lparr>lc_lines := (lc_lines lc)(el \<mapsto> ?l), lc_relLines := (lc_relLines lc)(i \<mapsto> ?l), lc_next := ?l + 1\<rparr>"
      have "interned o' rels ?lc (st\<lparr>line_heap := (line_heap st)(?l \<mapsto> el)\<rparr>)"
        using assms(1) False fresh unfolding interned_def el_def by (auto dest: less_imp_neq intro: less_SucI) (metis option.distinct(1))
      moreover have "lc_lines lc \<subseteq>\<^sub>m lc_lines ?lc" using fresh by (auto simp: map_le_def)
      ultimately show ?thesis using None False fresh by (simp add: get_line_def el_def Let_def)
    qed
  qed
qed

text \<open>
  C18: the lines of a way's relations are interned: a relation without any name contributes nothing, every other one contributes the
  object that stands for its line, so two relations share an object exactly when their lines are equal, and the objects of
  earlier calls stay.
\<close>

theorem get_lines_interned:
  assumes "interned o' rels lc st"
  shows "\<exists>ls lc' st'. get_lines o' rels edgeRels lc st = (ls, lc', st') \<and> interned o' rels lc' st' \<and> lc_lines lc \<subseteq>\<^sub>m lc_lines lc' \<and>
    map Some ls = map (\<lambda>i. lc_lines lc' (relation_line o' (rl_rels rels ! i)))
      (filter (\<lambda>i. \<not> blank_line (relation_line o' (rl_rels rels ! i))) edgeRels) \<and>
    (\<forall>a b. a \<in> dom (lc_lines lc') \<longrightarrow> lc_lines lc' a = lc_lines lc' b \<longrightarrow> a = b)"
proof -
  have "\<exists>ls lc' st'. fold (get_line o' rels) edgeRels (ret, lc, st) = (ret @ ls, lc', st') \<and> interned o' rels lc' st' \<and>
      lc_lines lc \<subseteq>\<^sub>m lc_lines lc' \<and> map Some ls = map (\<lambda>i. lc_lines lc' (relation_line o' (rl_rels rels ! i)))
        (filter (\<lambda>i. \<not> blank_line (relation_line o' (rl_rels rels ! i))) edgeRels)" for ret
    using assms
  proof (induction edgeRels arbitrary: ret lc st)
    case (Cons i rs)
    obtain lc1 st1 ls where a: "get_line o' rels i (ret, lc, st) = (ret @ ls, lc1, st1)" "interned o' rels lc1 st1"
      "lc_lines lc \<subseteq>\<^sub>m lc_lines lc1"
      "map Some ls = (if blank_line (relation_line o' (rl_rels rels ! i)) then [] else [lc_lines lc1 (relation_line o' (rl_rels rels ! i))])"
      using get_line_interned [OF Cons.prems] by metis
    obtain ls2 lc2 st2 where b: "fold (get_line o' rels) rs (ret @ ls, lc1, st1) = ((ret @ ls) @ ls2, lc2, st2)" "interned o' rels lc2 st2"
      "lc_lines lc1 \<subseteq>\<^sub>m lc_lines lc2" "map Some ls2 = map (\<lambda>i. lc_lines lc2 (relation_line o' (rl_rels rels ! i)))
        (filter (\<lambda>i. \<not> blank_line (relation_line o' (rl_rels rels ! i))) rs)"
      using Cons.IH [OF a(2)] by metis
    have keep: "lc_lines lc2 el = Some l" if "lc_lines lc1 el = Some l" for el l
      using b(3) that unfolding map_le_def by (metis domI)
    then have "map Some (ls @ ls2) = map (\<lambda>i. lc_lines lc2 (relation_line o' (rl_rels rels ! i)))
        (filter (\<lambda>i. \<not> blank_line (relation_line o' (rl_rels rels ! i))) (i # rs))"
      using a(4) b(4) keep by (auto split: if_splits) metis
    then show ?case using a(1) b(1,2) map_le_trans [OF a(3) b(3)] by auto
  qed simp
  then obtain ls lc' st' where r: "get_lines o' rels edgeRels lc st = (ls, lc', st')" "interned o' rels lc' st'"
      "lc_lines lc \<subseteq>\<^sub>m lc_lines lc'" "map Some ls = map (\<lambda>i. lc_lines lc' (relation_line o' (rl_rels rels ! i)))
        (filter (\<lambda>i. \<not> blank_line (relation_line o' (rl_rels rels ! i))) edgeRels)"
    unfolding get_lines_def by (metis append_Nil)
  have "a = b" if "a \<in> dom (lc_lines lc')" "lc_lines lc' a = lc_lines lc' b" for a b
    using r(2) that unfolding interned_def by (metis domD option.inject)
  then show ?thesis using r by blast
qed

definition one_line_options :: osm_build_options where
  "one_line_options = plain_options\<lparr>relLinerules := \<lparr>sNameRule = [''ref''], fromNameRule = [], toNameRule = []\<rparr>\<rparr>"

theorem get_lines_interned_witness:
  defines "rels \<equiv> \<lparr>rl_rels = [[(''ref'', ''S1'')], [], [(''name'', ''x''), (''ref'', ''S1'')]], rl_flat = {}\<rparr>"
  shows "\<exists>l lc' st'. get_lines one_line_options rels [0, 1, 2] line_cache_init \<lparr>tlines = Map.empty, line_heap = Map.empty\<rparr> = ([l, l], lc', st')"
proof -
  let ?st = "\<lparr>tlines = Map.empty, line_heap = Map.empty\<rparr> :: line_statics"
  have "interned one_line_options rels line_cache_init ?st" by (simp add: interned_def line_cache_init_def)
  then obtain ls lc' st' where r: "get_lines one_line_options rels [0, 1, 2] line_cache_init ?st = (ls, lc', st')"
    "map Some ls = map (\<lambda>i. lc_lines lc' (relation_line one_line_options (rl_rels rels ! i)))
      (filter (\<lambda>i. \<not> blank_line (relation_line one_line_options (rl_rels rels ! i))) [0, 1, 2])"
    using get_lines_interned [of one_line_options rels line_cache_init ?st "[0, 1, 2]"] by blast
  have "map (\<lambda>i. relation_line one_line_options (rl_rels rels ! i)) [0, 1, 2] =
      [\<lparr>fromStr = '''', toStr = '''', shortName = ''S1''\<rparr>, \<lparr>fromStr = '''', toStr = '''', shortName = ''''\<rparr>,
       \<lparr>fromStr = '''', toStr = '''', shortName = ''S1''\<rparr>]"
    unfolding rels_def by code_simp
  then have "map Some ls = replicate 2 (lc_lines lc' \<lparr>fromStr = '''', toStr = '''', shortName = ''S1''\<rparr>)"
    using r(2) by (simp add: blank_line_def numeral_2_eq_2)
  then obtain l where "ls = [l, l]" by (auto simp: numeral_2_eq_2) (metis option.inject)
  then show ?thesis using r(1) by blast
qed

section \<open>Restrictions always fit\<close>

text \<open>The dangling entries of a restrictor point into the rules of their own node.\<close>

definition dangling_ok :: "('n, 'e) restrictor \<Rightarrow> bool" where
  "dangling_ok r \<longleftrightarrow>
     (\<forall>via wid n i. (n, i) \<in> set (entry (posDangling r) (via, wid)) \<longrightarrow> n = via \<and> i < length (entry (pos_rules r) via)) \<and>
     (\<forall>via wid n i. (n, i) \<in> set (entry (negDangling r) (via, wid)) \<longrightarrow> n = via \<and> i < length (entry (neg_rules r) via))"

lemma dangling_okI:
  assumes "\<And>via wid n i. (n, i) \<in> set (entry (posDangling r) (via, wid)) \<Longrightarrow> n = via \<and> i < length (entry (pos_rules r) via)"
    and "\<And>via wid n i. (n, i) \<in> set (entry (negDangling r) (via, wid)) \<Longrightarrow> n = via \<and> i < length (entry (neg_rules r) via)"
  shows "dangling_ok r"
  unfolding dangling_ok_def by (intro conjI allI impI assms; assumption)

lemma dangling_okD:
  assumes "dangling_ok r"
  shows "(n, i) \<in> set (entry (posDangling r) (via, wid)) \<Longrightarrow> n = via \<and> i < length (entry (pos_rules r) via)"
    "(n, i) \<in> set (entry (negDangling r) (via, wid)) \<Longrightarrow> n = via \<and> i < length (entry (neg_rules r) via)"
  using assms [unfolded dangling_ok_def] by blast+

lemma resolve_paths_fits:
  assumes "\<And>n i. (n, i) \<in> set ps \<Longrightarrow> n = via \<and> i < length (entry m via)" "Restrictor.node_hasEdge fr to via e"
  shows "\<exists>m'. resolve_paths fr to e ps m = Some m' \<and> (\<forall>v. length (entry m' v) = length (entry m v))"
  using assms(1)
proof (induction ps arbitrary: m)
  case (Cons p ps)
  define i where "i = snd p"
  have p: "p = (via, i)" "i < length (entry m via)" using Cons.prems [of "fst p" "snd p"] by (auto simp: i_def prod_eq_iff)
  let ?m = "m(via \<mapsto> (entry m via)[i := (fst (entry m via ! i), Some e)])"
  have len: "length (entry ?m v) = length (entry m v)" for v by (simp add: entry_upd_if)
  have "n = via \<and> i < length (entry ?m via)" if "(n, i) \<in> set ps" for n i
    using Cons.prems [of n i] that unfolding len by simp
  from Cons.IH [OF this] obtain m' where "resolve_paths fr to e ps ?m = Some m'" "\<forall>v. length (entry m' v) = length (entry ?m v)"
    by blast
  then show ?case using p assms(2) len by (simp add: Let_def)
qed simp

lemma relax_fits:
  fixes r :: "('n, 'e) restrictor" and n :: 'n
  assumes ok: "dangling_ok r" and e: "Restrictor.node_hasEdge fr to n e"
  shows "\<exists>r'. relax fr to wid n e r = Some r' \<and> dangling_ok r'"
proof -
  have res: "\<exists>m'. (case d of None \<Rightarrow> Some m | Some ps \<Rightarrow> resolve_paths fr to e ps m) = Some m' \<and> (\<forall>v. length (entry m' v) = length (entry m v))"
    if "\<And>k i. (k, i) \<in> set (case d of None \<Rightarrow> [] | Some ps \<Rightarrow> ps) \<Longrightarrow> k = n \<and> i < length (entry m n)" for d and m :: "('n, 'e) Rules"
  proof (cases d)
    case (Some ps)
    show ?thesis unfolding Some option.case by (rule resolve_paths_fits [OF _ e], rule that) (simp add: Some)
  qed simp
  obtain p where p: "(case posDangling r (n, wid) of None \<Rightarrow> Some (pos_rules r) | Some ps \<Rightarrow> resolve_paths fr to e ps (pos_rules r)) = Some p"
    "\<forall>v. length (entry p v) = length (entry (pos_rules r) v)"
    using res [of "posDangling r (n, wid)" "pos_rules r"] dangling_okD(1) [OF ok, of _ _ n wid] unfolding entry_def [of "posDangling r"] by blast
  obtain q where q: "(case negDangling r (n, wid) of None \<Rightarrow> Some (neg_rules r) | Some ps \<Rightarrow> resolve_paths fr to e ps (neg_rules r)) = Some q"
    "\<forall>v. length (entry q v) = length (entry (neg_rules r) v)"
    using res [of "negDangling r (n, wid)" "neg_rules r"] dangling_okD(2) [OF ok, of _ _ n wid] unfolding entry_def [of "negDangling r"] by blast
  have "relax fr to wid n e r = Some (r\<lparr>rlx := (rlx r)((n, wid) \<mapsto> e), pos_rules := p, neg_rules := q\<rparr>)"
    using p(1) q(1) by (simp add: relax_def Let_def cong: option.case_cong)
  moreover have "dangling_ok (r\<lparr>rlx := (rlx r)((n, wid) \<mapsto> e), pos_rules := p, neg_rules := q\<rparr>)"
    using ok p(2) q(2) by (simp add: dangling_ok_def)
  ultimately show ?thesis by blast
qed

lemma add_restr_fits:
  assumes "dangling_ok r"
  shows "dangling_ok (add_restr frm wid via pos r)"
proof (rule dangling_okI)
  fix v w n i
  note d = dangling_okD [OF assms]
  assume "(n, i) \<in> set (entry (posDangling (add_restr frm wid via pos r)) (v, w))"
  then show "n = v \<and> i < length (entry (pos_rules (add_restr frm wid via pos r)) v)"
    using d(1) [of n i v w] by (auto simp: add_restr_def Let_def entry_upd_if split: if_splits)
next
  fix v w n i
  note d = dangling_okD [OF assms]
  assume "(n, i) \<in> set (entry (negDangling (add_restr frm wid via pos r)) (v, w))"
  then show "n = v \<and> i < length (entry (neg_rules (add_restr frm wid via pos r)) v)"
    using d(2) [of n i v w] by (auto simp: add_restr_def Let_def entry_upd_if split: if_splits)
qed

text \<open>Writing payloads changes no node and no edge.\<close>

definition same_shape :: "('n, 'e) dir_graph \<Rightarrow> ('n, 'e) dir_graph \<Rightarrow> bool" where
  "same_shape g g' \<longleftrightarrow> extends_graph g g' \<and> dom (node_heap g') = dom (node_heap g) \<and> dom (arcs g') = dom (arcs g)"

lemma same_shape_refl: "wf_graph g \<Longrightarrow> same_shape g g"
  by (simp add: same_shape_def extends_refl)

lemma same_shape_trans: "same_shape a b \<Longrightarrow> same_shape b c \<Longrightarrow> same_shape a c"
  unfolding same_shape_def using extends_trans by metis

lemma same_shape_edge:
  assumes "same_shape g g'" "edge_heap g e = Some x"
  obtains y where "edge_heap g' e = Some y" "edge_from y = edge_from x" "edge_to y = edge_to x"
  using assms unfolding same_shape_def extends_graph_def by blast

lemma same_shape_wf: "same_shape g g' \<Longrightarrow> wf_graph g'"
  by (simp add: same_shape_def extends_graph_def)

lemma same_shape_set_epl:
  assumes "wf_graph g" "edge_heap g e = Some x"
  shows "same_shape g (set_epl e p g)"
proof -
  have "arcs g (edge_from x, edge_to x) = Some (edge_pl x)" using arcs_Some_iff [OF assms(1)] assms(2) by blast
  then show ?thesis using set_epl_facts [OF assms] by (auto simp: same_shape_def)
qed

lemma process_restriction_fits:
  assumes wf: "wf_graph g" and x: "edge_heap g e = Some x" and n: "n = edge_from x \<or> n = edge_to x" and r: "dangling_ok r"
  shows "\<exists>g' r'. process_restriction pos wid e n kv (g, r) = Some (g', r') \<and> same_shape g g' \<and> dangling_ok r'"
proof -
  let ?g = "set_epl e (set_restricted (epl g e)) g"
  note shape = same_shape_set_epl [OF wf x, of "set_restricted (epl g e)"]
  obtain y where y: "edge_heap ?g e = Some y" "edge_from y = edge_from x" "edge_to y = edge_to x" by (rule same_shape_edge [OF shape x])
  have "edge_getFrom ?g e = edge_from x" "edge_getTo ?g e = edge_to x" using y by (simp_all add: edge_getFrom_def edge_getTo_def edge_at_def)
  then have "Restrictor.node_hasEdge (edge_getFrom ?g) (edge_getTo ?g) n e" using n by (auto simp: Restrictor.node_hasEdge_def)
  then obtain r' where "relax (edge_getFrom ?g) (edge_getTo ?g) wid n e r = Some r'" "dangling_ok r'" using relax_fits [OF r] by blast
  then show ?thesis using shape add_restr_fits [OF r] same_shape_refl [OF wf] r by (simp add: process_restriction_def Let_def)
qed

lemma process_restriction_fold_fits:
  assumes "wf_graph g" "edge_heap g e = Some x" "n = edge_from x \<or> n = edge_to x" "dangling_ok r"
  shows "\<exists>g' r'. opt_fold (process_restriction pos wid e n) kvs (g, r) = Some (g', r') \<and> same_shape g g' \<and> dangling_ok r'"
  using assms
proof (induction kvs arbitrary: g r x)
  case Nil
  then show ?case using same_shape_refl by auto
next
  case (Cons kv kvs)
  obtain g1 r1 where a: "process_restriction pos wid e n kv (g, r) = Some (g1, r1)" "same_shape g g1" "dangling_ok r1"
    using process_restriction_fits [OF Cons.prems] by blast
  obtain y where y: "edge_heap g1 e = Some y" "edge_from y = edge_from x" "edge_to y = edge_to x"
    by (rule same_shape_edge [OF a(2) Cons.prems(2)])
  obtain g2 r2 where "opt_fold (process_restriction pos wid e n) kvs (g1, r1) = Some (g2, r2)" "same_shape g1 g2" "dangling_ok r2"
    using Cons.IH [OF same_shape_wf [OF a(2)] y(1) _ a(3)] Cons.prems(3) y(2,3) by auto
  then show ?case using a same_shape_trans by auto
qed

lemma process_restrictions_fit:
  assumes "wf_graph g" "edge_heap g e = Some x" "n = edge_from x \<or> n = edge_to x" "dangling_ok r"
  shows "\<exists>g' r'. process_restrictions nid wid rests e n (g, r) = Some (g', r') \<and> same_shape g g' \<and> dangling_ok r'"
proof -
  obtain g1 r1 where a: "opt_fold (process_restriction True wid e n) (entry (rr_pos rests) nid) (g, r) = Some (g1, r1)" "same_shape g g1" "dangling_ok r1"
    using process_restriction_fold_fits [OF assms] by blast
  obtain y where y: "edge_heap g1 e = Some y" "edge_from y = edge_from x" "edge_to y = edge_to x" by (rule same_shape_edge [OF a(2) assms(2)])
  obtain g2 r2 where "opt_fold (process_restriction False wid e n) (entry (rr_neg rests) nid) (g1, r1) = Some (g2, r2)" "same_shape g1 g2" "dangling_ok r2"
    using process_restriction_fold_fits [OF same_shape_wf [OF a(2)] y(1) _ a(3)] assms(3) y(2,3) by fastforce
  then show ?thesis using a same_shape_trans by (auto simp: process_restrictions_def)
qed

section \<open>Nodes stand for ids\<close>

definition stands_for :: "'p edge_state \<Rightarrow> node_ref \<Rightarrow> osmid \<Rightarrow> bool" where
  "stands_for st n x \<longleftrightarrow> es_nodes st x = Some n \<or> n \<in> set (entry (es_multNodes st) x)"

definition node_inv :: "osmid set \<Rightarrow> osmid set \<Rightarrow> 'p edge_state \<Rightarrow> bool" where
  "node_inv B H st \<longleftrightarrow> wf_graph (es_g st) \<and> holds_ids B (es_bbox st) \<and> holds_ids H (es_nohup st) \<and> dangling_ok (es_restor st) \<and>
     (\<forall>x n. es_nodes st x = Some n \<longrightarrow> x \<in> B \<and> x \<notin> H) \<and> (\<forall>x n. n \<in> set (entry (es_multNodes st) x) \<longrightarrow> x \<in> H) \<and>
     (\<forall>n. live (es_g st) n \<longleftrightarrow> (\<exists>x. stands_for st n x)) \<and> (\<forall>n x y. stands_for st n x \<longrightarrow> stands_for st n y \<longrightarrow> x = y)"

lemma node_invD:
  assumes "node_inv B H st"
  shows "wf_graph (es_g st)" "holds_ids B (es_bbox st)" "holds_ids H (es_nohup st)" "dangling_ok (es_restor st)"
    "\<And>x n. es_nodes st x = Some n \<Longrightarrow> x \<in> B \<and> x \<notin> H" "\<And>x n. n \<in> set (entry (es_multNodes st) x) \<Longrightarrow> x \<in> H"
    "\<And>n. live (es_g st) n \<longleftrightarrow> (\<exists>x. stands_for st n x)" "\<And>n x y. stands_for st n x \<Longrightarrow> stands_for st n y \<Longrightarrow> x = y"
  using assms unfolding node_inv_def by blast+

text \<open>Between two states the nodes keep their ids.\<close>

definition keeps_nodes :: "'p edge_state \<Rightarrow> 'p edge_state \<Rightarrow> bool" where
  "keeps_nodes st st' \<longleftrightarrow> (\<forall>n x. stands_for st n x \<longrightarrow> stands_for st' n x)"

lemma new_node:
  assumes inv: "node_inv B H st"
    and st': "wf_graph (es_g st')" "holds_ids B (es_bbox st')" "holds_ids H (es_nohup st')" "dangling_ok (es_restor st')"
      "\<And>n. live (es_g st') n \<longleftrightarrow> n = k \<or> live (es_g st) n"
    and fresh: "\<not> live (es_g st) k" and x: "\<And>n y. stands_for st' n y \<longleftrightarrow> n = k \<and> y = x \<or> stands_for st n y"
      "\<And>y n. es_nodes st' y = Some n \<Longrightarrow> y \<in> B \<and> y \<notin> H" "\<And>y n. n \<in> set (entry (es_multNodes st') y) \<Longrightarrow> y \<in> H"
  shows "node_inv B H st' \<and> stands_for st' k x \<and> keeps_nodes st st'"
proof -
  note d = node_invD [OF inv]
  have "\<not> stands_for st k y" for y using fresh d(7) by blast
  then have uniq: "y = z" if "stands_for st' n y" "stands_for st' n z" for n y z using that d(8) unfolding x(1) by blast
  have lives: "live (es_g st') n \<longleftrightarrow> (\<exists>y. stands_for st' n y)" for n unfolding st'(5) d(7) x(1) by blast
  have "node_inv B H st'" unfolding node_inv_def
    by (intro conjI allI impI st'(1-4) lives) (use x(2,3) uniq in \<open>simp_all\<close>)
  then show ?thesis unfolding keeps_nodes_def x(1) by blast
qed

lemma way_node_step:
  assumes inv: "node_inv B H st" and sub: "H \<subseteq> B"
  shows "\<exists>r st'. way_node I nid st = Inr (r, st') \<and> node_inv B H st' \<and> keeps_nodes st st' \<and> arcs (es_g st') = arcs (es_g st) \<and>
    (if nid \<in> B then \<exists>n. r = Some n \<and> stands_for st' n nid else r = None)"
proof -
  note d = node_invD [OF inv]
  obtain s where s: "has_id nid (es_nohup st) = Some (nid \<in> H, s)" "holds_ids H s" using has_id_holds [OF d(3)] by blast
  let ?st1 = "st\<lparr>es_nohup := s\<rparr>"
  have same: "stands_for ?st1 = stands_for st" by (simp add: stands_for_def fun_eq_iff)
  have inv1: "node_inv B H ?st1" using inv s(2) unfolding node_inv_def same by simp
  note a = addNd_facts [OF d(1)]
  let ?n = "next_node (es_g st)"
  define g' where "g' = snd (addNd (node_payload_of (ei_origin I)) (es_g st))"
  have add: "addNd (node_payload_of (ei_origin I)) (es_g st) = (?n, g')" using a(1) unfolding g'_def by (metis prod.collapse)
  have wf: "wf_graph g'" using a(2) by (simp add: extends_graph_def g'_def)
  have lv: "live g' m \<longleftrightarrow> m = ?n \<or> live (es_g st) m" for m using a(4) unfolding g'_def by blast
  have arcs: "arcs g' = arcs (es_g st)" unfolding g'_def by (rule a(5))
  show ?thesis
  proof (cases "nid \<in> H")
    case True
    let ?st' = "?st1\<lparr>es_g := g', es_multNodes := (es_multNodes st)(nid \<mapsto> insort ?n (entry (es_multNodes st) nid))\<rparr>"
    have "way_node I nid st = Inr (Some ?n, ?st')" using s(1) True by (simp add: way_node_def add)
    moreover have "node_inv B H ?st' \<and> stands_for ?st' ?n nid \<and> keeps_nodes st ?st'"
    proof (rule new_node [OF inv])
      show "stands_for ?st' m y \<longleftrightarrow> m = ?n \<and> y = nid \<or> stands_for st m y" for m y
        by (auto simp: stands_for_def entry_upd_if set_insort_key)
      show "m \<in> set (entry (es_multNodes ?st') y) \<Longrightarrow> y \<in> H" for y m
        using d(6) [of m y] True by (auto simp: entry_upd_if split: if_splits)
      show "es_nodes ?st' y = Some m \<Longrightarrow> y \<in> B \<and> y \<notin> H" for y m using d(5) [of y m] by simp
    qed (use d(2,4) s(2) wf lv a(3) in simp_all)
    ultimately show ?thesis using True sub arcs by auto
  next
    case nohup: False
    show ?thesis
    proof (cases "es_nodes st nid")
      case (Some n)
      then have "way_node I nid st = Inr (Some n, ?st1)" using s(1) nohup by (simp add: way_node_def)
      then show ?thesis using inv1 Some d(5) [OF Some] by (simp add: keeps_nodes_def same stands_for_def [of st])
    next
      case None
      obtain t where t: "has_id nid (es_bbox st) = Some (nid \<in> B, t)" "holds_ids B t" using has_id_holds [OF d(2)] by blast
      let ?st2 = "?st1\<lparr>es_bbox := t\<rparr>"
      have same2: "stands_for ?st2 = stands_for st" by (simp add: stands_for_def fun_eq_iff)
      have inv2: "node_inv B H ?st2" using inv s(2) t(2) unfolding node_inv_def same2 by simp
      show ?thesis
      proof (cases "nid \<in> B")
        case True
        let ?st' = "?st2\<lparr>es_g := g', es_nodes := (es_nodes st)(nid \<mapsto> ?n)\<rparr>"
        have "way_node I nid st = Inr (Some ?n, ?st')" using s(1) t(1) nohup None True by (simp add: way_node_def add)
        moreover have "node_inv B H ?st' \<and> stands_for ?st' ?n nid \<and> keeps_nodes st ?st'"
        proof (rule new_node [OF inv])
          show "stands_for ?st' m y \<longleftrightarrow> m = ?n \<and> y = nid \<or> stands_for st m y" for m y
            using None by (auto simp: stands_for_def)
          show "es_nodes ?st' y = Some m \<Longrightarrow> y \<in> B \<and> y \<notin> H" for y m
            using d(5) [of y m] True nohup by (simp split: if_splits)
          show "m \<in> set (entry (es_multNodes ?st') y) \<Longrightarrow> y \<in> H" for y m using d(6) [of m y] by simp
        qed (use d(4) s(2) t(2) wf lv a(3) in simp_all)
        ultimately show ?thesis using True arcs by auto
      next
        case False
        then have "way_node I nid st = Inr (None, ?st2)" using s(1) t(1) nohup None by (simp add: way_node_def)
        then show ?thesis using inv2 False by (simp add: keeps_nodes_def same2)
      qed
    qed
  qed
qed

definition speed_ok :: "attribute_map \<Rightarrow> bool" where
  "speed_ok attrs \<longleftrightarrow> (\<exists>v. string_to_kmh (case map_of attrs ''maxspeed'' of None \<Rightarrow> '''' | Some v \<Rightarrow> v) = Inr v)"

lemma add_lines_fst: "\<exists>pl' st'. add_lines ls (pl, st) = (pl', st')"
  by (metis surj_pair)

lemma way_edge_step:
  assumes inv: "node_inv B H st" and lev: "f_levels (ei_filter I) \<noteq> None" and speed: "speed_ok attrs"
    and ends: "stands_for st prv lastnid" "stands_for st n nid"
  shows "\<exists>attrs' st'. way_edge I wid ls track (lastnid, prv) (nid, n) (attrs, st) = Inr (attrs', st') \<and> node_inv B H st' \<and>
    stands_for st' = stands_for st \<and> speed_ok attrs' \<and> dom (arcs (es_g st')) = insert (prv, n) (dom (arcs (es_g st)))"
proof -
  note d = node_invD [OF inv]
  let ?f = "ei_filter I" let ?rests = "rd_rests (ei_data I)"
  have lv: "live (es_g st) prv" "live (es_g st) n" using d(7) ends by blast+
  define e g where "e = fst (addEdg prv n edge_payload_init (es_g st))" and "g = snd (addEdg prv n edge_payload_init (es_g st))"
  have add: "addEdg prv n edge_payload_init (es_g st) = (e, g)" by (simp add: e_def g_def)
  note a = addEdg_facts [OF d(1) lv, of edge_payload_init, folded e_def g_def]
  obtain x where x: "edge_heap g e = Some x" "edge_from x = prv" "edge_to x = n" using a(3) by blast
  have wf: "wf_graph g" using a(1) by (simp add: extends_graph_def)
  have arcs: "dom (arcs g) = insert (prv, n) (dom (arcs (es_g st)))"
    using arcs_addEdg(1) [OF d(1) lv, of edge_payload_init] by (auto simp: g_def)
  obtain g1 r1 where p: "process_restrictions nid wid ?rests e n (g, es_restor st) = Some (g1, r1)" "same_shape g g1" "dangling_ok r1"
    using process_restrictions_fit [OF wf x(1) _ d(4)] x(2,3) by blast
  obtain y where y: "edge_heap g1 e = Some y" "edge_from y = prv" "edge_to y = n" using same_shape_edge [OF p(2) x(1)] x(2,3) by metis
  obtain g2 r2 where q: "process_restrictions lastnid wid ?rests e prv (g1, r1) = Some (g2, r2)" "same_shape g1 g2" "dangling_ok r2"
    using process_restrictions_fit [OF same_shape_wf [OF p(2)] y(1) _ p(3)] y(2,3) by blast
  obtain z where z: "edge_heap g2 e = Some z" using same_shape_edge [OF q(2) y(1)] by metis
  have "level attrs ?f \<noteq> None" using lev by (auto simp: level_def split: option.splits)
  then obtain l where l: "level attrs ?f = Some l" by blast
  obtain v where v: "string_to_kmh (case map_of attrs ''maxspeed'' of None \<Rightarrow> '''' | Some v \<Rightarrow> v) = Inr v" using speed by (auto simp: speed_ok_def)
  define attrs' where "attrs' = (if map_of attrs ''maxspeed'' = None then attrs @ [(''maxspeed'', '''')] else attrs)"
  have speed': "speed_ok attrs'"
    using v by (auto simp: attrs'_def speed_ok_def map_add_def split: option.splits)
  obtain pl lst where al: "add_lines ls (epl g2 e, es_lines st) = (pl, lst)" using add_lines_fst by blast
  define pl' where "pl' = (let pl = set_max_speed (Finite v) (set_level (of_nat l) pl);
       pl = (if oneway attrs' ?f \<noteq> 0 then setOneWay_dir 1 pl else pl) in if onewayrev attrs' ?f \<noteq> 0 then setOneWay_dir 2 pl else pl)"
  let ?st' = "st\<lparr>es_g := set_epl e pl' g2, es_restor := r2, es_lines := lst,
      es_etracks := (if track \<noteq> '''' then (es_etracks st)(e \<mapsto> track) else es_etracks st)\<rparr>"
  have r: "way_edge I wid ls track (lastnid, prv) (nid, n) (attrs, st) = Inr (attrs', ?st')"
    by (simp add: way_edge_def add p(1) q(1) al l v Let_def pl'_def attrs'_def)
  have shape: "same_shape g (set_epl e pl' g2)"
    using same_shape_trans [OF p(2) same_shape_trans [OF q(2) same_shape_set_epl [OF same_shape_wf [OF q(2)] z]]] by blast
  have same: "stands_for ?st' = stands_for st" by (simp add: stands_for_def fun_eq_iff)
  have lives: "live (set_epl e pl' g2) m \<longleftrightarrow> live (es_g st) m" for m
    using shape a(2) by (simp add: same_shape_def)
  have "node_inv B H ?st'" using inv shape q(3) lives unfolding node_inv_def same by (simp add: same_shape_wf)
  moreover have "dom (arcs (es_g ?st')) = insert (prv, n) (dom (arcs (es_g st)))" using shape arcs by (simp add: same_shape_def)
  ultimately show ?thesis using r same speed' by blast
qed

section \<open>The graph of the kept ways\<close>

text \<open>The steps of a way: pairs of ids that follow each other.\<close>

fun steps :: "osmid list \<Rightarrow> (osmid \<times> osmid) set" where
  "steps (x # y # zs) = insert (x, y) (steps (y # zs))"
| "steps _ = {}"

text \<open>The arcs of the graph join nodes for the pairs of ids in \<open>P\<close>, and every pair is joined.\<close>

definition joins :: "(osmid \<times> osmid) set \<Rightarrow> 'p edge_state \<Rightarrow> bool" where
  "joins P st \<longleftrightarrow>
     (\<forall>a b. (a, b) \<in> dom (arcs (es_g st)) \<longrightarrow> (\<exists>x y. (x, y) \<in> P \<and> stands_for st a x \<and> stands_for st b y)) \<and>
     (\<forall>x y. (x, y) \<in> P \<longrightarrow> (\<exists>a b. (a, b) \<in> dom (arcs (es_g st)) \<and> stands_for st a x \<and> stands_for st b y))"

lemma joinsD:
  assumes "joins P st"
  shows "(a, b) \<in> dom (arcs (es_g st)) \<Longrightarrow> \<exists>x y. (x, y) \<in> P \<and> stands_for st a x \<and> stands_for st b y"
    "(x, y) \<in> P \<Longrightarrow> \<exists>a b. (a, b) \<in> dom (arcs (es_g st)) \<and> stands_for st a x \<and> stands_for st b y"
  using assms unfolding joins_def by blast+

lemma joinsI:
  assumes "\<And>a b. (a, b) \<in> dom (arcs (es_g st)) \<Longrightarrow> \<exists>x y. (x, y) \<in> P \<and> stands_for st a x \<and> stands_for st b y"
    and "\<And>x y. (x, y) \<in> P \<Longrightarrow> \<exists>a b. (a, b) \<in> dom (arcs (es_g st)) \<and> stands_for st a x \<and> stands_for st b y"
  shows "joins P st"
  unfolding joins_def by (intro conjI allI impI assms; assumption)

lemma joins_keep:
  assumes "joins P st" "keeps_nodes st st'" "arcs (es_g st') = arcs (es_g st)"
  shows "joins P st'"
proof -
  have keep: "stands_for st a x \<Longrightarrow> stands_for st' a x" for a x using assms(2) unfolding keeps_nodes_def by blast
  show ?thesis
    by (rule joinsI; unfold assms(3)) (use joinsD [OF assms(1)] keep in blast)+
qed

lemma joins_step:
  assumes "joins P st" "stands_for st' = stands_for st" "dom (arcs (es_g st')) = insert (a, b) (dom (arcs (es_g st)))"
    "stands_for st a x" "stands_for st b y"
  shows "joins (insert (x, y) P) st'"
proof (rule joinsI; unfold assms(2,3))
  fix c d assume "(c, d) \<in> insert (a, b) (dom (arcs (es_g st)))"
  then show "\<exists>x' y'. (x', y') \<in> insert (x, y) P \<and> stands_for st c x' \<and> stands_for st d y'"
    using joinsD(1) [OF assms(1), of c d] assms(4,5) by blast
next
  fix x' y' assume "(x', y') \<in> insert (x, y) P"
  then show "\<exists>c d. (c, d) \<in> insert (a, b) (dom (arcs (es_g st))) \<and> stands_for st c x' \<and> stands_for st d y'"
    using joinsD(2) [OF assms(1), of x' y'] assms(4,5) by blast
qed

lemma way_nodes_step:
  assumes "node_inv B H st" "H \<subseteq> B" "f_levels (ei_filter I) \<noteq> None" "speed_ok attrs" "joins P st"
    "\<forall>x n. prev = Some (x, n) \<longrightarrow> stands_for st n x"
  shows "\<exists>attrs' st'. way_nodes I wid ls track nids prev (attrs, st) = Inr (attrs', st') \<and> node_inv B H st' \<and>
    joins (P \<union> steps ((case prev of None \<Rightarrow> [] | Some (x, n) \<Rightarrow> [x]) @ filter (\<lambda>x. x \<in> B) nids)) st'"
  using assms
proof (induction nids arbitrary: prev attrs st P)
  case Nil
  then show ?case by (auto split: option.split)
next
  case (Cons nid nids)
  obtain r st1 where r: "way_node I nid st = Inr (r, st1)" "node_inv B H st1" "keeps_nodes st st1" "arcs (es_g st1) = arcs (es_g st)"
    "if nid \<in> B then \<exists>n. r = Some n \<and> stands_for st1 n nid else r = None"
    using way_node_step [OF Cons.prems(1,2)] by metis
  have j1: "joins P st1" by (rule joins_keep [OF Cons.prems(5) r(3,4)])
  have prev1: "\<forall>x n. prev = Some (x, n) \<longrightarrow> stands_for st1 n x" using Cons.prems(6) r(3) by (auto simp: keeps_nodes_def)
  show ?case
  proof (cases "nid \<in> B")
    case False
    then show ?thesis using Cons.IH [OF r(2) Cons.prems(2-4) j1 prev1] r(1,5) by simp
  next
    case True
    then obtain n where n: "r = Some n" "stands_for st1 n nid" using r(5) by auto
    show ?thesis
    proof (cases prev)
      case None
      have "\<forall>x m. Some (nid, n) = Some (x, m) \<longrightarrow> stands_for st1 m x" using n(2) by simp
      from Cons.IH [OF r(2) Cons.prems(2-4) j1 this] show ?thesis using None n(1) r(1) True by simp
    next
      case (Some p)
      obtain x m where p: "p = (x, m)" by fastforce
      have m: "stands_for st1 m x" using prev1 Some p by simp
      obtain attrs2 st2 where e: "way_edge I wid ls track (x, m) (nid, n) (attrs, st1) = Inr (attrs2, st2)" "node_inv B H st2"
        "stands_for st2 = stands_for st1" "speed_ok attrs2" "dom (arcs (es_g st2)) = insert (m, n) (dom (arcs (es_g st1)))"
        using way_edge_step [OF r(2) Cons.prems(3,4) m n(2)] by metis
      have j2: "joins (insert (x, nid) P) st2" by (rule joins_step [OF j1 e(3,5) m n(2)])
      have "\<forall>x m. Some (nid, n) = Some (x, m) \<longrightarrow> stands_for st2 m x" using n(2) e(3) by simp
      from Cons.IH [OF e(2) Cons.prems(2,3) e(4) j2 this] show ?thesis
        using Some p n(1) r(1) e(1) True by simp
    qed
  qed
qed

definition way_of :: "'p edge_input \<Rightarrow> xml_node \<Rightarrow> osm_way" where
  "way_of I x = read_osm_way (ei_numbers I) (ei_keys I) x"

definition wanted :: "'p edge_input \<Rightarrow> osmid set \<Rightarrow> xml_node \<Rightarrow> bool" where
  "wanted I B x \<longleftrightarrow> way_wanted (way_of I x) (rd_wayRels (ei_data I)) (ei_filter I) (rl_flat (rd_rels (ei_data I))) B"

definition way_steps :: "'p edge_input \<Rightarrow> osmid set \<Rightarrow> xml_node list \<Rightarrow> (osmid \<times> osmid) set" where
  "way_steps I B xs = (\<Union>x\<in>{x \<in> set xs. wanted I B x}. steps (filter (\<lambda>i. i \<in> B) (ow_nodes (way_of I x))))"

lemma node_inv_sets:
  "node_inv B H st \<Longrightarrow> holds_ids B s \<Longrightarrow> node_inv B H (st\<lparr>es_bbox := s, es_lc := lc, es_lines := lst\<rparr>)"
  "node_inv B H st \<Longrightarrow> holds_ids B s \<Longrightarrow> node_inv B H (st\<lparr>es_bbox := s\<rparr>)"
  by (simp_all add: node_inv_def stands_for_def)

lemma joins_sets: "joins P (st\<lparr>es_bbox := s, es_lc := lc, es_lines := lst\<rparr>) = joins P st" "joins P (st\<lparr>es_bbox := s\<rparr>) = joins P st"
  by (simp_all add: joins_def stands_for_def)

lemma read_way_step:
  assumes "node_inv B H st" "H \<subseteq> B" "f_levels (ei_filter I) \<noteq> None" "wanted I B x \<longrightarrow> speed_ok (ow_attrs (way_of I x))" "joins P st"
  shows "\<exists>st'. read_way I x st = Inr st' \<and> node_inv B H st' \<and> joins (P \<union> way_steps I B [x]) st'"
proof -
  let ?w = "way_of I x" let ?d = "ei_data I"
  obtain s where s: "keep_way ?w (rd_wayRels ?d) (ei_filter I) (rl_flat (rd_rels ?d)) (es_bbox st) = Some (wanted I B x, s)" "holds_ids B s"
    using keep_way_holds [OF node_invD(2) [OF assms(1)]] unfolding wanted_def by metis
  show ?thesis
  proof (cases "wanted I B x")
    case False
    then have "read_way I x st = Inr (st\<lparr>es_bbox := s\<rparr>)" using s(1) by (simp add: read_way_def way_of_def Let_def)
    moreover have "way_steps I B [x] = {}" using False by (simp add: way_steps_def)
    ultimately show ?thesis using node_inv_sets(2) [OF assms(1) s(2)] assms(5) by (simp add: joins_sets)
  next
    case True
    obtain ls lc lst where l: "(case rd_wayRels ?d (ow_id ?w) of
        Some edgeRels \<Rightarrow> get_lines (ei_opts I) (rd_rels ?d) edgeRels (es_lc st) (es_lines st)
      | None \<Rightarrow> ([], es_lc st, es_lines st)) = (ls, lc, lst)"
      by (rule prod_cases3)
    define track where "track = getAttrByFirstMatch (edgePlatformRules (ei_opts I)) (ow_id ?w) (ow_attrs ?w) (rd_wayRels ?d) (rd_rels ?d)
        (trackNormzer (ei_opts I)) ''''"
    let ?st = "st\<lparr>es_bbox := s, es_lc := lc, es_lines := lst\<rparr>"
    have speed: "speed_ok (ow_attrs ?w)" using assms(4) True by blast
    have "joins P ?st" using assms(5) by (simp only: joins_sets)
    from way_nodes_step [OF node_inv_sets(1) [OF assms(1) s(2)] assms(2,3) speed this, of None "ow_id ?w" ls track "ow_nodes ?w"]
    obtain attrs' st' where w: "way_nodes I (ow_id ?w) ls track (ow_nodes ?w) None (ow_attrs ?w, ?st) = Inr (attrs', st')" "node_inv B H st'"
      "joins (P \<union> steps (filter (\<lambda>x. x \<in> B) (ow_nodes ?w))) st'" by auto
    have "read_way I x st = Inr st'"
      using s(1) True l w(1) by (simp add: read_way_def way_of_def Let_def track_def cong: option.case_cong)
    moreover have "way_steps I B [x] = steps (filter (\<lambda>x. x \<in> B) (ow_nodes ?w))" using True unfolding way_steps_def by auto
    ultimately show ?thesis using w(2,3) by auto
  qed
qed

lemma read_ways_step:
  assumes "node_inv B H st" "H \<subseteq> B" "f_levels (ei_filter I) \<noteq> None" "\<forall>x\<in>set xs. wanted I B x \<longrightarrow> speed_ok (ow_attrs (way_of I x))" "joins P st"
  shows "\<exists>st'. exn_fold (read_way I) xs st = Inr st' \<and> node_inv B H st' \<and> joins (P \<union> way_steps I B xs) st'"
  using assms
proof (induction xs arbitrary: st P)
  case Nil
  then show ?case by (simp add: way_steps_def)
next
  case (Cons x xs)
  obtain st1 where a: "read_way I x st = Inr st1" "node_inv B H st1" "joins (P \<union> way_steps I B [x]) st1"
    using read_way_step [OF Cons.prems(1-3) _ Cons.prems(5), of x] Cons.prems(4) by auto
  have "(P \<union> way_steps I B [x]) \<union> way_steps I B xs = P \<union> way_steps I B (x # xs)" by (auto simp: way_steps_def)
  then show ?case using Cons.IH [OF a(2) Cons.prems(2,3) _ a(3)] Cons.prems(4) a(1) by auto
qed

definition edge_state_init :: "osm_id_set \<Rightarrow> osm_id_set \<Rightarrow> 'p edge_state" where
  "edge_state_init bbox nohups =
     \<lparr>es_g = dir_graph_init, es_nodes = Map.empty, es_multNodes = Map.empty, es_restor = restrictor_init, es_etracks = Map.empty,
      es_lc = line_cache_init, es_lines = \<lparr>tlines = Map.empty, line_heap = Map.empty\<rparr>, es_bbox = bbox, es_nohup = nohups\<rparr>"

lemma edge_state_init_inv:
  assumes "holds_ids B bbox" "holds_ids H nohups"
  shows "node_inv B H (edge_state_init bbox nohups :: 'a edge_state)" "joins {} (edge_state_init bbox nohups :: 'a edge_state)"
proof -
  let ?st = "edge_state_init bbox nohups :: 'a edge_state"
  have none: "\<not> stands_for ?st n x" for n x by (simp add: stands_for_def edge_state_init_def entry_def)
  have empty: "node_heap (es_g ?st) n = None" for n by (simp add: edge_state_init_def dir_graph_init_def)
  have "arcs (dir_graph_init :: 'a tr_graph) (a, b) \<noteq> Some v" for a b v
    unfolding arcs_Some_iff [OF wf_graph_init] by (simp add: dir_graph_init_def)
  then have "arcs (dir_graph_init :: 'a tr_graph) ab = None" for ab by (metis not_Some_eq surj_pair)
  then have "arcs (es_g ?st) = Map.empty" by (simp add: edge_state_init_def fun_eq_iff)
  then show "joins {} ?st" by (simp add: joins_def)
  have "dangling_ok (es_restor ?st)" by (simp add: dangling_ok_def edge_state_init_def restrictor_init_def entry_def)
  then show "node_inv B H ?st" using assms wf_graph_init none empty unfolding node_inv_def
    by (simp add: edge_state_init_def dom_def entry_def)
qed

text \<open>
  C6: when the speed limits of the kept ways are readable, the third pass ends without an exception, a failed assertion or a wrong access, and
  the graph it builds is well formed; every node stands for exactly one id; an id inside the box that does not end lines has at
  most one node; two nodes are joined only if their ids follow each other on a kept way, after the ids outside the box are left out, and
  all ids that do are joined.
\<close>

theorem read_edges_graph:
  assumes "holds_ids B bbox" "holds_ids H nohups" "H \<subseteq> B" "f_levels (ei_filter I) \<noteq> None"
    and "\<forall>x\<in>set (xml_childs ''way'' osm). wanted I B x \<longrightarrow> speed_ok (ow_attrs (way_of I x))"
  shows "\<exists>st'. read_edges I osm (edge_state_init bbox nohups) = Inr st' \<and> wf_graph (es_g st') \<and>
    (\<forall>n. live (es_g st') n \<longleftrightarrow> (\<exists>!x. stands_for st' n x)) \<and>
    (\<forall>x m n. x \<in> B - H \<longrightarrow> stands_for st' m x \<longrightarrow> stands_for st' n x \<longrightarrow> m = n) \<and>
    joins (way_steps I B (xml_childs ''way'' osm)) st'"
proof -
  obtain st' where r: "read_edges I osm (edge_state_init bbox nohups) = Inr st'" "node_inv B H st'" "joins ({} \<union> way_steps I B (xml_childs ''way'' osm)) st'"
    using read_ways_step [OF edge_state_init_inv(1) [OF assms(1,2)] assms(3-5) edge_state_init_inv(2) [OF assms(1,2)]]
    unfolding read_edges_def by blast
  note d = node_invD [OF r(2)]
  have "m = n" if "x \<in> B - H" "stands_for st' m x" "stands_for st' n x" for x m n
    using that d(6) by (auto simp: stands_for_def)
  then show ?thesis using r d(1,7,8) by auto
qed

text \<open>A way through the nodes 1, 5 and 2, of which 5 lies outside: the graph has an edge between the nodes of 1 and 2.\<close>

definition rail_way :: xml_node where
  "rail_way = Xml_node ''way'' [(''id'', ''4'')]
     [Xml_node ''nd'' [(''ref'', ''1'')] [], Xml_node ''nd'' [(''ref'', ''5'')] [], Xml_node ''nd'' [(''ref'', ''2'')] [],
      Xml_node ''tag'' [(''k'', ''railway''), (''v'', ''rail'')] []]"

definition rail_input :: "unit edge_input" where
  "rail_input = \<lparr>ei_numbers = digit_numbers, ei_origin = (), ei_opts = plain_options, ei_filter = osm_filter_of_options plain_options,
     ei_keys = {''railway'', ''maxspeed''}, ei_data = relation_data_init\<rparr>"

theorem read_edges_graph_witness:
  "\<exists>st' a b bbox. holds_ids {1, 2} bbox \<and> read_edges rail_input (Xml_node ''osm'' [] [rail_way]) (edge_state_init bbox osm_id_set_init) = Inr st' \<and>
     (a, b) \<in> dom (arcs (es_g st')) \<and> stands_for st' a 1 \<and> stands_for st' b 2"
proof -
  let ?osm = "Xml_node ''osm'' [] [rail_way]"
  obtain s1 where "add_id 1 osm_id_set_init = Inr s1" "open_inv [1] s1" using add_id_open [OF open_inv_init] by fastforce
  moreover obtain bbox where "open_inv [1, 2] bbox" using add_id_open [OF calculation(2), of 2] by fastforce
  ultimately have B: "holds_ids {1, 2} bbox" unfolding holds_ids_def by force
  have H: "holds_ids {} osm_id_set_init" unfolding holds_ids_def using open_inv_init by fastforce
  have xs: "xml_childs ''way'' ?osm = [rail_way]" by (simp add: xml_childs_def rail_way_def)
  have way: "ow_attrs (way_of rail_input rail_way) = [(''railway'', ''rail'')]" "ow_nodes (way_of rail_input rail_way) = [1, 5, 2]"
    "ow_id (way_of rail_input rail_way) = 4"
    by (simp_all add: way_of_def rail_input_def read_osm_way_def rail_way_def xml_childs_def xml_attr_def kept_tags_def) code_simp+
  have wanted: "wanted rail_input {1, 2} rail_way"
    by (simp add: wanted_def way_wanted_def way) code_simp
  have speed: "speed_ok [(''railway'', ''rail'')]" unfolding speed_ok_def by (simp add: string_to_kmh_def)
  have "(1, 2) \<in> way_steps rail_input {1, 2} [rail_way]" using wanted by (simp add: way_steps_def way)
  moreover have "f_levels (ei_filter rail_input) \<noteq> None" by (simp add: rail_input_def osm_filter_of_options_def)
  moreover have "\<forall>x\<in>set (xml_childs ''way'' ?osm). wanted rail_input {1, 2} x \<longrightarrow> speed_ok (ow_attrs (way_of rail_input x))"
    using speed by (simp add: xs way)
  ultimately obtain st' where "read_edges rail_input ?osm (edge_state_init bbox osm_id_set_init) = Inr st'"
    "joins (way_steps rail_input {1, 2} [rail_way]) st'" "(1, 2) \<in> way_steps rail_input {1, 2} [rail_way]"
    using read_edges_graph [OF B H, of rail_input ?osm] unfolding xs by auto
  then show ?thesis using B joinsD(2) by blast
qed

end
