(* ===== verification/Osm_Extract.thy ===== *)
theory Osm_Extract
  imports Osm_Edges
begin

text \<open>
  \<^verbatim>\<open>osm/osm_builder.cpp\<close>, \<^verbatim>\<open>filter_write\<close>: writing the part of an OpenStreetMap document that the reader would use.  The text of a
  number is an argument for floating-point numbers and decimal for ids.
\<close>

section \<open>The passes\<close>

text \<open>The ids of the kept ways in the order of the document, and the ids of their nodes.\<close>

definition read_keep_way ::
  "xml_numbers \<Rightarrow> osm_filter \<Rightarrow> string set \<Rightarrow> relation_data \<Rightarrow> xml_node \<Rightarrow> osmid list \<times> osmid set \<times> osm_id_set \<Rightarrow>
     fault + osmid list \<times> osmid set \<times> osm_id_set" where
  "read_keep_way N f keepAttrs d x = (\<lambda>(ret, nodes, bbox).
     (let w = read_osm_way N keepAttrs x
      in exn_bind (asserting (keep_way w (rd_wayRels d) f (rl_flat (rd_rels d)) bbox)) (\<lambda>(kept, bbox).
           if kept then Inr (ret @ [ow_id w], nodes \<union> set (ow_nodes w), bbox) else Inr (ret, nodes, bbox))))"

definition read_ways ::
  "xml_numbers \<Rightarrow> osm_filter \<Rightarrow> string set \<Rightarrow> relation_data \<Rightarrow> xml_node \<Rightarrow> osmid list \<times> osmid set \<times> osm_id_set \<Rightarrow>
     fault + osmid list \<times> osmid set \<times> osm_id_set" where
  "read_ways N f keepAttrs d osm = exn_fold (read_keep_way N f keepAttrs d) (xml_childs ''way'' osm)"

definition tag_elements :: "attribute_map \<Rightarrow> xml_node list" where
  "tag_elements attrs = map (\<lambda>(k, v). Xml_node ''tag'' [(''k'', k), (''v'', v)] []) attrs"

definition node_element :: "(double \<Rightarrow> string) \<Rightarrow> osm_node \<Rightarrow> xml_node" where
  "node_element show_double nd =
     Xml_node ''node'' [(''id'', to_string (unat (on_id nd))), (''lat'', show_double (on_lat nd)), (''lon'', show_double (on_lng nd))]
       (tag_elements (on_attrs nd))"

definition read_write_node ::
  "xml_numbers \<Rightarrow> (double \<Rightarrow> string) \<Rightarrow> osm_filter \<Rightarrow> string set \<Rightarrow> relation_data \<Rightarrow> xml_node \<Rightarrow>
     xml_node list \<times> osmid set \<times> osm_id_set \<Rightarrow> fault + xml_node list \<times> osmid set \<times> osm_id_set" where
  "read_write_node N show_double f keepAttrs d x = (\<lambda>(out, nds, bbox).
     (let nd = read_osm_node N keepAttrs x
      in exn_bind (asserting (keep_node nd (\<lambda>i. i \<in> nds) (\<lambda>_. False) (rd_nodeRels d) f (rl_flat (rd_rels d)) bbox)) (\<lambda>(kept, bbox).
           if kept then Inr (out @ [node_element show_double nd], insert (on_id nd) nds, bbox) else Inr (out, nds, bbox))))"

definition read_write_nodes ::
  "xml_numbers \<Rightarrow> (double \<Rightarrow> string) \<Rightarrow> osm_filter \<Rightarrow> string set \<Rightarrow> relation_data \<Rightarrow> xml_node \<Rightarrow>
     xml_node list \<times> osmid set \<times> osm_id_set \<Rightarrow> fault + xml_node list \<times> osmid set \<times> osm_id_set" where
  "read_write_nodes N show_double f keepAttrs d osm = exn_fold (read_write_node N show_double f keepAttrs d) (xml_childs ''node'' osm)"

definition way_element :: "osm_way \<Rightarrow> xml_node" where
  "way_element w =
     Xml_node ''way'' [(''id'', to_string (unat (ow_id w)))]
       (map (\<lambda>nid. Xml_node ''nd'' [(''ref'', to_string (unat nid))] []) (ow_nodes w) @ tag_elements (ow_attrs w))"

text \<open>The loop visits every element of the document.\<close>

definition read_write_ways :: "xml_numbers \<Rightarrow> string set \<Rightarrow> osmid list \<Rightarrow> xml_node \<Rightarrow> xml_node list" where
  "read_write_ways N keepAttrs ways osm =
     map (\<lambda>x. way_element (read_osm_way N keepAttrs x))
       (filter (\<lambda>x. as_ullong N (xml_attr ''id'' x) \<in> set ways) (xml_children osm))"

text \<open>\<^verbatim>\<open>std::lower_bound\<close> on the sorted ids, and the test of what it found.\<close>

definition sorted_has :: "osmid list \<Rightarrow> osmid \<Rightarrow> bool" where
  "sorted_has ways wid = (case dropWhile (\<lambda>w. w < wid) ways of [] \<Rightarrow> False | w # _ \<Rightarrow> w = wid)"

definition member_elements :: "string \<Rightarrow> (osmid \<times> string) list \<Rightarrow> xml_node list" where
  "member_elements ty ms =
     map (\<lambda>(i, role). Xml_node ''member'' ([(''type'', ty), (''ref'', to_string (unat i))] @ (if role \<noteq> '''' then [(''role'', role)] else [])) []) ms"

definition relation_element :: "osmid \<Rightarrow> attribute_map \<Rightarrow> (osmid \<times> string) list \<Rightarrow> (osmid \<times> string) list \<Rightarrow> xml_node" where
  "relation_element rid attrs realNodes realWays =
     Xml_node ''relation'' [(''id'', to_string (unat rid))]
       (member_elements ''node'' realNodes @ member_elements ''way'' realWays @ tag_elements attrs)"

text \<open>The flags of a relation are not looked at here.\<close>

definition read_write_relation ::
  "xml_numbers \<Rightarrow> osm_filter \<Rightarrow> string set \<Rightarrow> osmid list \<Rightarrow> osmid set \<Rightarrow> xml_node \<Rightarrow> xml_node list" where
  "read_write_relation N f keepAttrs ways nodes x =
     (let rel = read_osm_relation N f keepAttrs (0, 0) x;
          realWays = filter (\<lambda>(i, role). sorted_has ways i) (zip (or_ways rel) (or_wayRoles rel));
          realNodes = filter (\<lambda>(i, role). i \<in> nodes) (zip (or_nodes rel) (or_nodeRoles rel))
      in if realNodes \<noteq> [] \<or> realWays \<noteq> [] then [relation_element (or_id rel) (or_attrs rel) realNodes realWays] else [])"

definition read_write_relations ::
  "xml_numbers \<Rightarrow> osm_filter \<Rightarrow> string set \<Rightarrow> osmid list \<Rightarrow> osmid set \<Rightarrow> xml_node \<Rightarrow> xml_node list" where
  "read_write_relations N f keepAttrs ways nodes osm =
     concat (map (read_write_relation N f keepAttrs ways nodes) (xml_childs ''relation'' osm))"

text \<open>The kept keys of all options together, and the merged filter.\<close>

definition extract_keys :: "osm_build_options list \<Rightarrow> string set \<times> string set \<times> string set" where
  "extract_keys opts = fold (\<lambda>o' (a, b, c). (case get_kept_attribute_keys o' of (a', b', c') \<Rightarrow> (a \<union> a', b \<union> b', c \<union> c'))) opts ({}, {}, {})"

definition extract_filter :: "osm_build_options list \<Rightarrow> osm_filter" where
  "extract_filter opts = fold (\<lambda>o' f. merge_filter f (osm_filter_of_rules (keepFilter o') (dropFilter o'))) opts (osm_filter_of_rules [] [])"

text \<open>\<open>bounds\<close> are the least and greatest latitude and longitude of the full box.\<close>

definition bounds_element :: "(double \<Rightarrow> string) \<Rightarrow> double \<times> double \<times> double \<times> double \<Rightarrow> xml_node" where
  "bounds_element show_double = (\<lambda>(minlat, minlon, maxlat, maxlon).
     Xml_node ''bounds'' [(''minlat'', show_double minlat), (''minlon'', show_double minlon), (''maxlat'', show_double maxlat),
       (''maxlon'', show_double maxlon)] [])"

definition filter_write ::
  "xml_numbers \<Rightarrow> (double \<Rightarrow> string) \<Rightarrow> (double \<Rightarrow> double \<Rightarrow> bool) \<Rightarrow> double \<times> double \<times> double \<times> double \<Rightarrow> (nat \<Rightarrow> u64 \<times> u64) \<Rightarrow>
     osm_build_options list \<Rightarrow> xml_node \<Rightarrow> fault + xml_node" where
  "filter_write N show_double contains bounds junk opts osm =
     (let (nodeKeys, wayKeys, relKeys) = extract_keys opts; f = extract_filter opts
      in exn_bind (filter_nodes N contains f osm (osm_id_set_init, osm_id_set_init)) (\<lambda>(bbox, _).
         let d = read_relations N f relKeys junk osm relation_data_init
         in exn_bind (read_ways N f wayKeys d osm ([], {}, bbox)) (\<lambda>(ways, nodes, bbox).
            exn_bind (read_write_nodes N show_double f nodeKeys d osm ([], nodes, bbox)) (\<lambda>(out, nodes, bbox).
              Inr (Xml_node ''osm'' [] (bounds_element show_double bounds # out @ read_write_ways N wayKeys ways osm @
                read_write_relations N f relKeys (sort ways) nodes osm))))))"

section \<open>Written elements read back\<close>

lemma tag_elements_append: "tag_elements (xs @ ys) = tag_elements xs @ tag_elements ys"
  by (simp add: tag_elements_def)

lemma childs_append [simp]: "xml_childs n (Xml_node m as (xs @ ys)) = xml_childs n (Xml_node m as xs) @ xml_childs n (Xml_node m as ys)"
  by (simp add: xml_childs_def)

lemma childs_of_tags [simp]:
  "xml_childs n (Xml_node m as (tag_elements attrs)) = (if n = ''tag'' then tag_elements attrs else [])"
  by (induction attrs) (auto simp: xml_childs_def tag_elements_def)

lemma childs_of_members [simp]:
  "xml_childs n (Xml_node m as (member_elements ty ms)) = (if n = ''member'' then member_elements ty ms else [])"
  by (induction ms) (auto simp: xml_childs_def member_elements_def)

lemma childs_of_nds [simp]:
  "xml_childs n (Xml_node m as (map (\<lambda>i. Xml_node ''nd'' [(''ref'', g i)] []) is)) =
     (if n = ''nd'' then map (\<lambda>i. Xml_node ''nd'' [(''ref'', g i)] []) is else [])"
  by (induction "is") (auto simp: xml_childs_def)

lemma update_fresh: "k \<notin> fst ` set m \<Longrightarrow> AList.update k v m = m @ [(k, v)]"
  by (induction m) auto

lemma kept_tags_keys: "fst ` set (kept_tags K x) \<subseteq> K" "distinct (map fst (kept_tags K x))"
proof -
  have "fst ` set m \<subseteq> K \<Longrightarrow> distinct (map fst m) \<Longrightarrow>
      fst ` set (fold (\<lambda>tag m. if xml_attr ''k'' tag \<in> K then AList.update (xml_attr ''k'' tag) (xml_attr ''v'' tag) m else m) ts m) \<subseteq> K \<and>
      distinct (map fst (fold (\<lambda>tag m. if xml_attr ''k'' tag \<in> K then AList.update (xml_attr ''k'' tag) (xml_attr ''v'' tag) m else m) ts m))"
    for ts m
    by (induction ts arbitrary: m) (auto simp: dom_update distinct_update)
  then show "fst ` set (kept_tags K x) \<subseteq> K" "distinct (map fst (kept_tags K x))" unfolding kept_tags_def by simp_all
qed

lemma kept_tags_written:
  assumes "fst ` set attrs \<subseteq> K" "distinct (map fst attrs)" "xml_childs ''tag'' x = tag_elements attrs"
  shows "kept_tags K x = attrs"
proof -
  have "fst ` set (m @ attrs) \<subseteq> K \<Longrightarrow> distinct (map fst (m @ attrs)) \<Longrightarrow>
      fold (\<lambda>tag m. if xml_attr ''k'' tag \<in> K then AList.update (xml_attr ''k'' tag) (xml_attr ''v'' tag) m else m)
        (tag_elements attrs) m = m @ attrs" for m
  proof (induction attrs arbitrary: m)
    case (Cons a as)
    have "fst a \<in> K" "fst a \<notin> fst ` set m" using Cons.prems by auto
    then show ?case using Cons.IH [of "m @ [a]"] Cons.prems
      by (simp add: tag_elements_def update_fresh xml_attr_def split_beta)
  qed (simp add: tag_elements_def)
  then show ?thesis using assms by (simp add: kept_tags_def)
qed

definition ids_read_back :: "xml_numbers \<Rightarrow> bool" where
  "ids_read_back N \<longleftrightarrow> (\<forall>i. as_ullong N (to_string (unat i)) = i)"

lemma read_way_element:
  assumes "ids_read_back N" "fst ` set (ow_attrs w) \<subseteq> K" "distinct (map fst (ow_attrs w))"
  shows "read_osm_way N K (way_element w) = w"
proof -
  have "kept_tags K (way_element w) = ow_attrs w"
    by (rule kept_tags_written [OF assms(2,3)]) (simp add: way_element_def)
  then show ?thesis using assms(1)
    by (simp add: read_osm_way_def ids_read_back_def) (simp add: way_element_def xml_attr_def comp_def)
qed

lemma read_node_element:
  assumes "ids_read_back N" "fst ` set (on_attrs nd) \<subseteq> K" "distinct (map fst (on_attrs nd))"
    "as_double N (show_double (on_lat nd)) = on_lat nd" "as_double N (show_double (on_lng nd)) = on_lng nd"
  shows "read_osm_node N K (node_element show_double nd) = nd"
proof -
  have "kept_tags K (node_element show_double nd) = on_attrs nd"
    by (rule kept_tags_written [OF assms(2,3)]) (simp add: node_element_def)
  then show ?thesis using assms(1,4,5)
    by (simp add: read_osm_node_def ids_read_back_def) (simp add: node_element_def xml_attr_def)
qed

text \<open>A relation with only the members of two sets.\<close>

definition restrict_members :: "osmid set \<Rightarrow> osmid set \<Rightarrow> osm_relation \<Rightarrow> osm_relation" where
  "restrict_members W V r =
     (let ns = filter (\<lambda>(i, role). i \<in> V) (zip (or_nodes r) (or_nodeRoles r)); ws = filter (\<lambda>(i, role). i \<in> W) (zip (or_ways r) (or_wayRoles r))
      in r\<lparr>or_nodes := map fst ns, or_nodeRoles := map snd ns, or_ways := map fst ws, or_wayRoles := map snd ws\<rparr>)"

lemma member_elements_type:
  "filter (\<lambda>m. xml_attr ''type'' m = t) (member_elements ty ms) = (if t = ty then member_elements ty ms else [])"
  by (induction ms) (auto simp: member_elements_def xml_attr_def)

lemma member_elements_read:
  assumes "ids_read_back N"
  shows "map (\<lambda>m. as_ullong N (xml_attr ''ref'' m)) (member_elements ty ms) = map fst ms"
    "map (xml_attr ''role'') (member_elements ty ms) = map snd ms"
  using assms by (induction ms) (auto simp: member_elements_def xml_attr_def ids_read_back_def)

lemma sorted_has_sort: "sorted_has (sort ws) i \<longleftrightarrow> i \<in> set ws"
proof -
  have "sorted_has xs i \<longleftrightarrow> i \<in> set xs" if "sorted xs" for xs :: "osmid list"
    using that by (induction xs) (auto simp: sorted_has_def)
  then show ?thesis by simp
qed

lemma read_relation_element:
  fixes x f and K :: "string set"
  assumes "ids_read_back N"
  defines "r \<equiv> read_osm_relation N f K (0, 0) x"
  shows "map (read_osm_relation N f K (0, 0)) (read_write_relation N f K (sort ws) V x) =
    (let r' = restrict_members (set ws) V r in if or_nodes r' \<noteq> [] \<or> or_ways r' \<noteq> [] then [r'] else [])"
proof -
  let ?ns = "filter (\<lambda>(i, role). i \<in> V) (zip (or_nodes r) (or_nodeRoles r))"
  let ?ws = "filter (\<lambda>(i, role). i \<in> set ws) (zip (or_ways r) (or_wayRoles r))"
  let ?e = "relation_element (or_id r) (or_attrs r) ?ns ?ws"
  have attrs: "or_attrs r = kept_tags K x" by (simp add: r_def read_osm_relation_def Let_def)
  have tags: "kept_tags K ?e = or_attrs r"
    unfolding attrs by (rule kept_tags_written [OF kept_tags_keys]) (simp add: relation_element_def)
  have members: "xml_childs ''member'' ?e = member_elements ''node'' ?ns @ member_elements ''way'' ?ws"
    by (simp add: relation_element_def)
  have rid: "as_ullong N (xml_attr ''id'' ?e) = or_id r"
    using assms(1) by (simp add: ids_read_back_def relation_element_def xml_attr_def)
  have "read_osm_relation N f K (0, 0) ?e = restrict_members (set ws) V r"
    using member_elements_read [OF assms(1)]
    unfolding read_osm_relation_def [of N f K _ ?e] Let_def tags members rid filter_append member_elements_type
    by (simp add: restrict_members_def Let_def) (simp add: r_def read_osm_relation_def Let_def)
  then show ?thesis
    by (simp add: read_write_relation_def sorted_has_sort Let_def flip: r_def) (simp add: restrict_members_def Let_def)
qed

section \<open>What the passes select\<close>

lemma read_ways_kept:
  fixes d :: relation_data and f :: osm_filter
  assumes "holds_ids B bbox"
  defines "want \<equiv> \<lambda>w. way_wanted w (rd_wayRels d) f (rl_flat (rd_rels d)) B"
  shows "\<exists>bbox'. exn_fold (read_keep_way N f K d) xs (ret, nodes, bbox) =
      Inr (ret @ map ow_id (filter want (map (read_osm_way N K) xs)),
           nodes \<union> (\<Union>w\<in>{w \<in> read_osm_way N K ` set xs. want w}. set (ow_nodes w)), bbox') \<and> holds_ids B bbox'"
  using assms(1)
proof (induction xs arbitrary: ret nodes bbox)
  case (Cons x xs)
  let ?w = "read_osm_way N K x"
  obtain s where s: "keep_way ?w (rd_wayRels d) f (rl_flat (rd_rels d)) bbox = Some (want ?w, s)" "holds_ids B s"
    using keep_way_holds [OF Cons.prems] unfolding want_def by metis
  let ?ret = "if want ?w then ret @ [ow_id ?w] else ret" and ?nodes = "if want ?w then nodes \<union> set (ow_nodes ?w) else nodes"
  have "read_keep_way N f K d x (ret, nodes, bbox) = Inr (?ret, ?nodes, s)" by (simp add: read_keep_way_def Let_def s(1))
  moreover obtain s' where "exn_fold (read_keep_way N f K d) xs (?ret, ?nodes, s) =
      Inr (?ret @ map ow_id (filter want (map (read_osm_way N K) xs)),
           ?nodes \<union> (\<Union>w\<in>{w \<in> read_osm_way N K ` set xs. want w}. set (ow_nodes w)), s')" "holds_ids B s'"
    using Cons.IH [OF s(2)] by blast
  moreover have "{w \<in> read_osm_way N K ` set (x # xs). want w} =
      (if want ?w then {?w} else {}) \<union> {w \<in> read_osm_way N K ` set xs. want w}" by auto
  ultimately show ?case by (auto simp: Un_assoc)
qed simp

definition node_wanted :: "osm_node \<Rightarrow> osmid set \<Rightarrow> relation_map \<Rightarrow> osm_filter \<Rightarrow> nat set \<Rightarrow> osmid set \<Rightarrow> bool" where
  "node_wanted nd V nodeRels f fl B \<longleftrightarrow> on_id nd \<noteq> 0 \<and>
     (on_id nd \<in> V \<or> (should_keep_relation (on_id nd) nodeRels fl \<or> keep (on_attrs nd) NODE_T f \<noteq> 0) \<and> on_id nd \<in> B \<and>
        drop_flags (on_attrs nd) NODE_T f = 0)"

lemma keep_node_holds:
  assumes "holds_ids B s"
  shows "\<exists>s'. keep_node nd (\<lambda>i. i \<in> V) (\<lambda>_. False) nodeRels f fl s = Some (node_wanted nd V nodeRels f fl B, s') \<and> holds_ids B s'"
  using has_id_holds [OF assms, of "on_id nd"] assms by (auto simp: keep_node_def node_wanted_def Let_def)

lemma node_wanted_other: "on_id nd \<notin> S \<Longrightarrow> node_wanted nd (V \<union> S) nodeRels f fl B = node_wanted nd V nodeRels f fl B"
  by (simp add: node_wanted_def)

lemma read_write_nodes_kept:
  fixes d :: relation_data and f :: osm_filter and V :: "osmid set"
  assumes "holds_ids B bbox" "distinct (map (\<lambda>x. on_id (read_osm_node N K x)) xs)" "S \<inter> (\<lambda>x. on_id (read_osm_node N K x)) ` set xs = {}"
  defines "want \<equiv> \<lambda>nd. node_wanted nd V (rd_nodeRels d) f (rl_flat (rd_rels d)) B"
  shows "\<exists>bbox'. exn_fold (read_write_node N show_double f K d) xs (out, V \<union> S, bbox) =
      Inr (out @ map (node_element show_double) (filter want (map (read_osm_node N K) xs)),
           V \<union> S \<union> on_id ` {nd \<in> read_osm_node N K ` set xs. want nd}, bbox')"
  using assms(1-3)
proof (induction xs arbitrary: out S bbox)
  case (Cons x xs)
  let ?nd = "read_osm_node N K x"
  obtain s where s: "keep_node ?nd (\<lambda>i. i \<in> V \<union> S) (\<lambda>_. False) (rd_nodeRels d) f (rl_flat (rd_rels d)) bbox =
      Some (node_wanted ?nd (V \<union> S) (rd_nodeRels d) f (rl_flat (rd_rels d)) B, s)" "holds_ids B s"
    using keep_node_holds [OF Cons.prems(1)] by metis
  have w: "node_wanted ?nd (V \<union> S) (rd_nodeRels d) f (rl_flat (rd_rels d)) B = want ?nd"
    using Cons.prems(3) unfolding want_def by (intro node_wanted_other) auto
  let ?out = "if want ?nd then out @ [node_element show_double ?nd] else out" and ?S = "if want ?nd then insert (on_id ?nd) S else S"
  have step: "read_write_node N show_double f K d x (out, V \<union> S, bbox) = Inr (?out, V \<union> ?S, s)"
    by (simp add: read_write_node_def Let_def s(1) [unfolded w] del: Un_iff)
  have "?S \<inter> (\<lambda>x. on_id (read_osm_node N K x)) ` set xs = {}" "distinct (map (\<lambda>x. on_id (read_osm_node N K x)) xs)"
    using Cons.prems(2,3) by auto
  from Cons.IH [OF s(2) this(2,1), of ?out] step
  obtain s' where "exn_fold (read_write_node N show_double f K d) (x # xs) (out, V \<union> S, bbox) =
      Inr (?out @ map (node_element show_double) (filter want (map (read_osm_node N K) xs)),
           V \<union> ?S \<union> on_id ` {nd \<in> read_osm_node N K ` set xs. want nd}, s')"
    by auto
  moreover have "{nd \<in> read_osm_node N K ` set (x # xs). want nd} =
      (if want ?nd then {?nd} else {}) \<union> {nd \<in> read_osm_node N K ` set xs. want nd}" by auto
  ultimately show ?case by (auto simp: image_Un)
qed simp

section \<open>The extract\<close>

definition kept_ways :: "xml_numbers \<Rightarrow> osm_filter \<Rightarrow> string set \<Rightarrow> relation_data \<Rightarrow> osmid set \<Rightarrow> xml_node \<Rightarrow> osm_way list" where
  "kept_ways N f K d B osm =
     filter (\<lambda>w. way_wanted w (rd_wayRels d) f (rl_flat (rd_rels d)) B) (map (read_osm_way N K) (xml_childs ''way'' osm))"

definition kept_nodes :: "xml_numbers \<Rightarrow> osm_filter \<Rightarrow> string set \<Rightarrow> relation_data \<Rightarrow> osmid set \<Rightarrow> osmid set \<Rightarrow> xml_node \<Rightarrow> osm_node list" where
  "kept_nodes N f K d B V osm =
     filter (\<lambda>nd. node_wanted nd V (rd_nodeRels d) f (rl_flat (rd_rels d)) B) (map (read_osm_node N K) (xml_childs ''node'' osm))"

lemma read_osm_way_id: "as_ullong N (xml_attr ''id'' x) = ow_id (read_osm_way N K x)"
  by (simp add: read_osm_way_def)

lemma written_ways:
  fixes ws :: "osm_way list"
  assumes "ids_read_back N" "ws = kept_ways N f K d B osm"
    "\<forall>x\<in>set (xml_children osm). as_ullong N (xml_attr ''id'' x) \<in> ow_id ` set ws \<longrightarrow> xml_name x = ''way'' \<and> read_osm_way N K x \<in> set ws"
  shows "map (read_osm_way N K) (read_write_ways N K (map ow_id ws) osm) = ws"
proof -
  have "filter (\<lambda>x. as_ullong N (xml_attr ''id'' x) \<in> set (map ow_id ws)) (xml_children osm) =
      filter (\<lambda>x. xml_name x = ''way'' \<and> way_wanted (read_osm_way N K x) (rd_wayRels d) f (rl_flat (rd_rels d)) B) (xml_children osm)"
  proof (rule filter_cong [OF refl])
    fix x assume x: "x \<in> set (xml_children osm)"
    let ?w = "read_osm_way N K x"
    have w: "?w \<in> set ws \<Longrightarrow> way_wanted ?w (rd_wayRels d) f (rl_flat (rd_rels d)) B" by (simp add: assms(2) kept_ways_def)
    have "xml_name x = ''way'' \<Longrightarrow> way_wanted ?w (rd_wayRels d) f (rl_flat (rd_rels d)) B \<Longrightarrow> ?w \<in> set ws"
      using x by (simp add: assms(2) kept_ways_def xml_childs_def)
    then show "as_ullong N (xml_attr ''id'' x) \<in> set (map ow_id ws) \<longleftrightarrow>
        xml_name x = ''way'' \<and> way_wanted ?w (rd_wayRels d) f (rl_flat (rd_rels d)) B"
      using assms(3) x w by (metis read_osm_way_id set_map imageI)
  qed
  moreover have "ws = map (read_osm_way N K)
      (filter (\<lambda>x. xml_name x = ''way'' \<and> way_wanted (read_osm_way N K x) (rd_wayRels d) f (rl_flat (rd_rels d)) B) (xml_children osm))"
    unfolding assms(2) kept_ways_def xml_childs_def filter_map comp_def filter_filter ..
  ultimately have "map (read_osm_way N K) (filter (\<lambda>x. as_ullong N (xml_attr ''id'' x) \<in> set (map ow_id ws)) (xml_children osm)) = ws"
    by simp
  moreover have "read_osm_way N K (way_element (read_osm_way N K x)) = read_osm_way N K x" for x
    by (intro read_way_element assms(1)) (simp_all add: read_osm_way_def kept_tags_keys)
  ultimately show ?thesis by (simp add: read_write_ways_def comp_def)
qed

lemma read_back_nodes:
  assumes "ids_read_back N" "\<forall>nd\<in>set ns. as_double N (show_double (on_lat nd)) = on_lat nd \<and> as_double N (show_double (on_lng nd)) = on_lng nd"
    "set ns \<subseteq> range (read_osm_node N K)"
  shows "map (read_osm_node N K) (map (node_element show_double) ns) = ns"
proof -
  have "read_osm_node N K (node_element show_double nd) = nd" if nd: "nd \<in> set ns" for nd
  proof -
    obtain x where "nd = read_osm_node N K x" using assms(3) nd by blast
    then show ?thesis using assms(2) nd by (intro read_node_element assms(1)) (auto simp: read_osm_node_def kept_tags_keys)
  qed
  then show ?thesis by (simp add: map_idI)
qed

lemma read_back_relations:
  assumes "ids_read_back N"
  shows "map (read_osm_relation N f K (0, 0)) (read_write_relations N f K (sort ws) V osm) =
    filter (\<lambda>r. or_nodes r \<noteq> [] \<or> or_ways r \<noteq> [])
      (map (\<lambda>x. restrict_members (set ws) V (read_osm_relation N f K (0, 0) x)) (xml_childs ''relation'' osm))"
proof -
  have "map (read_osm_relation N f K (0, 0)) (concat (map (read_write_relation N f K (sort ws) V) xs)) =
    filter (\<lambda>r. or_nodes r \<noteq> [] \<or> or_ways r \<noteq> []) (map (\<lambda>x. restrict_members (set ws) V (read_osm_relation N f K (0, 0) x)) xs)" for xs
    by (induction xs) (simp_all add: read_relation_element [OF assms] Let_def)
  then show ?thesis by (simp add: read_write_relations_def)
qed

lemma childs_of_extract:
  "xml_childs ''node'' (Xml_node ''osm'' [] (bounds_element g b # map (node_element g) ns @ read_write_ways N K ws osm @
     read_write_relations N f K' ws' V osm)) = map (node_element g) ns"
  "xml_childs ''way'' (Xml_node ''osm'' [] (bounds_element g b # map (node_element g) ns @ read_write_ways N K ws osm @
     read_write_relations N f K' ws' V osm)) = read_write_ways N K ws osm"
  "xml_childs ''relation'' (Xml_node ''osm'' [] (bounds_element g b # map (node_element g) ns @ read_write_ways N K ws osm @
     read_write_relations N f K' ws' V osm)) = read_write_relations N f K' ws' V osm"
proof -
  have n: "xml_name x = ''node''" if "x \<in> set (map (node_element g) ns)" for x using that by (auto simp: node_element_def)
  have w: "xml_name x = ''way''" if "x \<in> set (read_write_ways N K ws osm)" for x using that by (auto simp: read_write_ways_def way_element_def)
  have r: "xml_name x = ''relation''" if "x \<in> set (read_write_relations N f K' ws' V osm)" for x
    using that by (auto simp: read_write_relations_def read_write_relation_def relation_element_def Let_def split: if_splits)
  have b: "xml_name (bounds_element g b) = ''bounds''" by (simp add: bounds_element_def split: prod.split)
  have all: "filter (\<lambda>c. xml_name c = t) xs = (if t = t' then xs else [])" if "\<And>x. x \<in> set xs \<Longrightarrow> xml_name x = t'" for t t' and xs :: "xml_node list"
    using that by (induction xs) auto
  have parts: "filter (\<lambda>c. xml_name c = t) (map (node_element g) ns) = (if t = ''node'' then map (node_element g) ns else [])"
    "filter (\<lambda>c. xml_name c = t) (read_write_ways N K ws osm) = (if t = ''way'' then read_write_ways N K ws osm else [])"
    "filter (\<lambda>c. xml_name c = t) (read_write_relations N f K' ws' V osm) = (if t = ''relation'' then read_write_relations N f K' ws' V osm else [])"
    for t
    using all [of "map (node_element g) ns", OF n] all [of "read_write_ways N K ws osm", OF w] all [of "read_write_relations N f K' ws' V osm", OF r]
    by blast+
  show "xml_childs ''node'' (Xml_node ''osm'' [] (bounds_element g b # map (node_element g) ns @ read_write_ways N K ws osm @
     read_write_relations N f K' ws' V osm)) = map (node_element g) ns"
    and "xml_childs ''way'' (Xml_node ''osm'' [] (bounds_element g b # map (node_element g) ns @ read_write_ways N K ws osm @
     read_write_relations N f K' ws' V osm)) = read_write_ways N K ws osm"
    and "xml_childs ''relation'' (Xml_node ''osm'' [] (bounds_element g b # map (node_element g) ns @ read_write_ways N K ws osm @
     read_write_relations N f K' ws' V osm)) = read_write_relations N f K' ws' V osm"
    unfolding xml_childs_def xml_node.sel filter_append filter.simps parts b by simp_all
qed

text \<open>
  C8: writing an extract ends without an exception, and reading the extract with the same keys gives back exactly the kept ways and the kept
  nodes of the document with their ids, positions, node lists and kept tags in their order, and every relation that has a member
  among them, with just those members and their roles.  This needs node ids that differ, no other element with the id of a kept way,
  and numbers that are read as they were written.
\<close>

theorem filter_write_reads_back:
  fixes N contains opts junk and osm :: xml_node
  defines "f \<equiv> extract_filter opts" and "Kn \<equiv> fst (extract_keys opts)" and "Kw \<equiv> fst (snd (extract_keys opts))"
    and "Kr \<equiv> snd (snd (extract_keys opts))"
  defines "d \<equiv> read_relations N f Kr junk osm relation_data_init" and "B \<equiv> inside_ids N contains (xml_childs ''node'' osm)"
  defines "ws \<equiv> kept_ways N f Kw d B osm"
  defines "V \<equiv> \<Union>w\<in>set ws. set (ow_nodes w)"
  defines "ns \<equiv> kept_nodes N f Kn d B V osm"
  assumes "ids_read_back N"
    and "\<forall>nd\<in>set ns. as_double N (show_double (on_lat nd)) = on_lat nd \<and> as_double N (show_double (on_lng nd)) = on_lng nd"
    and "distinct (map (\<lambda>x. as_ullong N (xml_attr ''id'' x)) (xml_childs ''node'' osm))"
    and "\<forall>x\<in>set (xml_children osm). as_ullong N (xml_attr ''id'' x) \<in> ow_id ` set ws \<longrightarrow> xml_name x = ''way'' \<and> read_osm_way N Kw x \<in> set ws"
  shows "\<exists>doc. filter_write N show_double contains bounds junk opts osm = Inr doc \<and>
    map (read_osm_way N Kw) (xml_childs ''way'' doc) = ws \<and>
    map (read_osm_node N Kn) (xml_childs ''node'' doc) = ns \<and>
    map (read_osm_relation N f Kr (0, 0)) (xml_childs ''relation'' doc) =
      filter (\<lambda>r. or_nodes r \<noteq> [] \<or> or_ways r \<noteq> [])
        (map (\<lambda>x. restrict_members (ow_id ` set ws) (V \<union> on_id ` set ns) (read_osm_relation N f Kr (0, 0) x)) (xml_childs ''relation'' osm))"
proof -
  obtain xs ys s t where s: "filter_nodes N contains f osm (osm_id_set_init, osm_id_set_init) = Inr (s, t)" "open_inv xs s" "set xs = B"
    using filter_nodes_ids [OF open_inv_init open_inv_init] unfolding filter_nodes_def B_def by fastforce
  then have "holds_ids B s" unfolding holds_ids_def by blast
  from read_ways_kept [OF this, of N f Kw d "xml_childs ''way'' osm" "[]" "{}"]
  obtain s1 where s1: "read_ways N f Kw d osm ([], {}, s) = Inr (map ow_id ws, V, s1)" "holds_ids B s1"
    by (auto simp: read_ways_def ws_def V_def kept_ways_def)
  have "distinct (map (\<lambda>x. on_id (read_osm_node N Kn x)) (xml_childs ''node'' osm))" using assms(12) by (simp add: read_osm_node_def)
  from read_write_nodes_kept [OF s1(2) this, of "{}" show_double f d "[]" V]
  obtain s2 where s2: "read_write_nodes N show_double f Kn d osm ([], V, s1) = Inr (map (node_element show_double) ns, V \<union> on_id ` set ns, s2)"
    by (auto simp: read_write_nodes_def ns_def kept_nodes_def)
  have keys: "extract_keys opts = (Kn, Kw, Kr)" by (simp add: Kn_def Kw_def Kr_def)
  define doc where "doc = Xml_node ''osm'' [] (bounds_element show_double bounds # map (node_element show_double) ns @
      read_write_ways N Kw (map ow_id ws) osm @ read_write_relations N f Kr (sort (map ow_id ws)) (V \<union> on_id ` set ns) osm)"
  have "filter_write N show_double contains bounds junk opts osm = Inr doc"
    by (simp add: filter_write_def keys s(1) s1(1) s2 doc_def Let_def flip: f_def d_def)
  moreover have "map (read_osm_way N Kw) (xml_childs ''way'' doc) = ws"
    unfolding doc_def childs_of_extract by (rule written_ways [OF assms(10) _ assms(13)]) (simp add: ws_def)
  moreover have "set ns \<subseteq> range (read_osm_node N Kn)" by (auto simp: ns_def kept_nodes_def)
  then have "map (read_osm_node N Kn) (xml_childs ''node'' doc) = ns"
    unfolding doc_def childs_of_extract by (rule read_back_nodes [OF assms(10,11)])
  moreover have "map (read_osm_relation N f Kr (0, 0)) (xml_childs ''relation'' doc) = filter (\<lambda>r. or_nodes r \<noteq> [] \<or> or_ways r \<noteq> [])
      (map (\<lambda>x. restrict_members (ow_id ` set ws) (V \<union> on_id ` set ns) (read_osm_relation N f Kr (0, 0) x)) (xml_childs ''relation'' osm))"
    unfolding doc_def childs_of_extract read_back_relations [OF assms(10)] set_map ..
  ultimately show ?thesis by blast
qed

lemma atoul_append: "atoul (xs @ ys) r = atoul ys (atoul xs r)"
  by (induction xs arbitrary: r) simp_all

lemma atoul_to_string: "atoul (to_string n) 0 = of_nat n"
proof (induction n rule: to_string.induct)
  case (1 n)
  have digit: "(of_int (signed_char (digit_char m) - 48) :: u64) = of_nat m" if "m < 10" for m
  proof -
    have "of_char (digit_char m) = int (of_char (digit_char m))" by (simp only: of_nat_of_char)
    also have "\<dots> = int m + 48" using that by (simp add: digit_char_def)
    finally have "signed_char (digit_char m) = int m + 48" using that by (simp add: signed_char_def)
    then show ?thesis by simp
  qed
  show ?case
  proof (cases "n < 10")
    case True
    then show ?thesis using digit [OF True] by (simp add: to_string_small)
  next
    case False
    have "(of_nat n :: u64) = of_nat (n div 10) * 10 + of_nat (n mod 10)"
      by (metis of_nat_add of_nat_mult of_nat_numeral div_mult_mod_eq)
    then show ?thesis using False 1 [OF False] digit [of "n mod 10"] by (simp add: to_string_big atoul_append)
  qed
qed

lemma digit_numbers_read_back: "ids_read_back digit_numbers"
  by (simp add: ids_read_back_def digit_numbers_def atoul_to_string)

definition digit_text :: "double \<Rightarrow> string" where
  "digit_text d = (case d of Finite r \<Rightarrow> to_string (nat \<lfloor>r\<rfloor>) | _ \<Rightarrow> '''')"

definition town :: xml_node where
  "town = Xml_node ''osm'' []
     [Xml_node ''node'' [(''id'', ''1''), (''lat'', ''47''), (''lon'', ''8'')] [],
      Xml_node ''node'' [(''id'', ''2''), (''lat'', ''48''), (''lon'', ''8'')] [],
      Xml_node ''node'' [(''id'', ''7''), (''lat'', ''48''), (''lon'', ''9'')] [], rail_way]"

theorem filter_write_reads_back_witness:
  "\<exists>doc. filter_write digit_numbers digit_text (\<lambda>_ _. True) (Finite 0, Finite 0, Finite 1, Finite 1) (\<lambda>_. (0, 0)) [plain_options] town = Inr doc \<and>
     map (read_osm_way digit_numbers {''railway'', ''maxspeed''}) (xml_childs ''way'' doc) =
       [\<lparr>ow_id = 4, ow_attrs = [(''railway'', ''rail'')], ow_nodes = [1, 5, 2]\<rparr>] \<and>
     map (read_osm_node digit_numbers {''railway''}) (xml_childs ''node'' doc) =
       [\<lparr>on_id = 1, on_attrs = [], on_lat = Finite 47, on_lng = Finite 8\<rparr>, \<lparr>on_id = 2, on_attrs = [], on_lat = Finite 48, on_lng = Finite 8\<rparr>]"
proof -
  let ?N = digit_numbers and ?f = "osm_filter_of_rules [(''railway'', [(''rail'', 1), (''yard'', 1)])] []" and ?d = relation_data_init
  have keys: "extract_keys [plain_options] = ({''railway''}, {''railway'', ''maxspeed''}, {''railway'', ''from'', ''via'', ''to''})"
    by (simp add: extract_keys_def plain_keys)
  have filt: "extract_filter [plain_options] = ?f" by code_simp
  have d: "read_relations ?N ?f K junk town relation_data_init = ?d" for K junk
    by (simp add: read_relations_def town_def xml_childs_def rail_way_def)
  have nodes: "map (read_osm_node ?N {''railway''}) (xml_childs ''node'' town) =
      [\<lparr>on_id = 1, on_attrs = [], on_lat = Finite 47, on_lng = Finite 8\<rparr>, \<lparr>on_id = 2, on_attrs = [], on_lat = Finite 48, on_lng = Finite 8\<rparr>,
       \<lparr>on_id = 7, on_attrs = [], on_lat = Finite 48, on_lng = Finite 9\<rparr>]"
    by code_simp
  have way: "read_osm_way ?N {''railway'', ''maxspeed''} rail_way = \<lparr>ow_id = 4, ow_attrs = [(''railway'', ''rail'')], ow_nodes = [1, 5, 2]\<rparr>"
    by code_simp
  define B where "B = inside_ids ?N (\<lambda>_ _. True) (xml_childs ''node'' town)"
  have "map (\<lambda>x. atoul (xml_attr ''id'' x) 0) (xml_childs ''node'' town) = [1, 2, 7]" by code_simp
  from arg_cong [OF this, of set] have "(\<lambda>x. atoul (xml_attr ''id'' x) 0) ` set (xml_childs ''node'' town) = {1, 2, 7}" by simp
  moreover have "B = (\<lambda>x. atoul (xml_attr ''id'' x) 0) ` set (xml_childs ''node'' town)" by (auto simp: B_def inside_ids_def inside_id_def)
  ultimately have B: "B = {1, 2, 7}" by simp
  have "xml_childs ''way'' town = [rail_way]" by (simp add: xml_childs_def town_def rail_way_def)
  moreover have "way_wanted \<lparr>ow_id = 4, ow_attrs = [(''railway'', ''rail'')], ow_nodes = [1, 5, 2]\<rparr> (rd_wayRels ?d) ?f (rl_flat (rd_rels ?d)) {1, 2, 7}"
    by code_simp
  ultimately have ws: "kept_ways ?N ?f {''railway'', ''maxspeed''} ?d {1, 2, 7} town =
      [\<lparr>ow_id = 4, ow_attrs = [(''railway'', ''rail'')], ow_nodes = [1, 5, 2]\<rparr>]"
    by (simp add: kept_ways_def way)
  have ns: "kept_nodes ?N ?f {''railway''} ?d {1, 2, 7} {1, 5, 2} town =
      [\<lparr>on_id = 1, on_attrs = [], on_lat = Finite 47, on_lng = Finite 8\<rparr>, \<lparr>on_id = 2, on_attrs = [], on_lat = Finite 48, on_lng = Finite 8\<rparr>]"
    unfolding kept_nodes_def nodes by code_simp
  have texts: "as_double ?N (digit_text (Finite 47)) = Finite 47" "as_double ?N (digit_text (Finite 48)) = Finite 48"
    "as_double ?N (digit_text (Finite 8)) = Finite 8" by code_simp+
  have ids: "distinct (map (\<lambda>x. as_ullong ?N (xml_attr ''id'' x)) (xml_childs ''node'' town))" by code_simp
  have once: "\<forall>x\<in>set (xml_children town). as_ullong ?N (xml_attr ''id'' x) = 4 \<longrightarrow> xml_name x = ''way'' \<and>
      read_osm_way ?N {''railway'', ''maxspeed''} x = \<lparr>ow_id = 4, ow_attrs = [(''railway'', ''rail'')], ow_nodes = [1, 5, 2]\<rparr>"
    by code_simp
  have V: "(\<Union>w\<in>set [\<lparr>ow_id = 4, ow_attrs = [(''railway'', ''rail'')], ow_nodes = [1, 5, 2]\<rparr>]. set (ow_nodes w)) = {1, 5, 2}" by simp
  note r = filter_write_reads_back [where opts = "[plain_options]" and osm = town and N = ?N and contains = "\<lambda>_ _. True" and junk = "\<lambda>_. (0, 0)",
        unfolded keys filt d fst_conv snd_conv B_def [symmetric] B ws V ns, OF digit_numbers_read_back _ ids]
  have "\<forall>x\<in>set (xml_children town). as_ullong ?N (xml_attr ''id'' x) \<in> ow_id ` set [\<lparr>ow_id = 4, ow_attrs = [(''railway'', ''rail'')], ow_nodes = [1, 5, 2]\<rparr>] \<longrightarrow>
      xml_name x = ''way'' \<and> read_osm_way ?N {''railway'', ''maxspeed''} x \<in> set [\<lparr>ow_id = 4, ow_attrs = [(''railway'', ''rail'')], ow_nodes = [1, 5, 2]\<rparr>]"
    using once by simp
  from r [OF _ this, of digit_text "(Finite 0, Finite 0, Finite 1, Finite 1)"] texts show ?thesis by fastforce
qed

text \<open>
  The ids of nodes, ways and relations are counted apart, but the loop that writes the ways visits every element: a node with the
  id of a kept way becomes a second way, without nodes.
\<close>

lemma node_written_as_way:
  "map xml_name (read_write_ways digit_numbers {''railway''} [4]
     (Xml_node ''osm'' [] [Xml_node ''node'' [(''id'', ''4''), (''lat'', ''47''), (''lon'', ''8'')] [], rail_way])) = [''way'', ''way''] \<and>
   map (xml_childs ''nd'') (read_write_ways digit_numbers {''railway''} [4]
     (Xml_node ''osm'' [] [Xml_node ''node'' [(''id'', ''4''), (''lat'', ''47''), (''lon'', ''8'')] [], rail_way])) =
     [[], [Xml_node ''nd'' [(''ref'', ''1'')] [], Xml_node ''nd'' [(''ref'', ''5'')] [], Xml_node ''nd'' [(''ref'', ''2'')] []]]"
  by code_simp

end
