(* ===== verification/Geo.thy ===== *)
theory Geo
  imports Prelude
begin

text \<open>
  \<^verbatim>\<open>util/geo/{Geo,Box,Point,Line,Polygon}.h\<close>: points, boxes, line segments and the predicates on them.  Coordinates are exact rationals, the
  templates at \<^verbatim>\<open>double\<close> without rounding.
\<close>

section \<open>Points and boxes\<close>

type_synonym point = "rat \<times> rat"
type_synonym segment = "point \<times> point"

abbreviation getX :: "point \<Rightarrow> rat" where "getX \<equiv> fst"
abbreviation getY :: "point \<Rightarrow> rat" where "getY \<equiv> snd"

record box =
  getLowerLeft :: point
  getUpperRight :: point

definition EPSILON :: rat where "EPSILON = 1 / 100000"

text \<open>\<^verbatim>\<open>std::numeric_limits<double>::max()\<close>.\<close>

definition max_double :: rat where "max_double = (2 ^ 53 - 1) * 2 ^ 971"

definition Box :: "point \<Rightarrow> point \<Rightarrow> box" where
  "Box ll ur = \<lparr>getLowerLeft = ll, getUpperRight = ur\<rparr>"

definition minbox :: box where
  "minbox = Box (max_double, max_double) (- max_double, - max_double)"

definition pad :: "box \<Rightarrow> rat \<Rightarrow> box" where
  "pad b padding =
     Box (getX (getLowerLeft b) - padding, getY (getLowerLeft b) - padding)
       (getX (getUpperRight b) + padding, getY (getUpperRight b) + padding)"

definition extendBox_point :: "point \<Rightarrow> box \<Rightarrow> box" where
  "extendBox_point p b =
     (let b = (if getX p < getX (getLowerLeft b) then b\<lparr>getLowerLeft := (getX p, getY (getLowerLeft b))\<rparr> else b);
          b = (if getY p < getY (getLowerLeft b) then b\<lparr>getLowerLeft := (getX (getLowerLeft b), getY p)\<rparr> else b);
          b = (if getX p > getX (getUpperRight b) then b\<lparr>getUpperRight := (getX p, getY (getUpperRight b))\<rparr> else b)
      in if getY p > getY (getUpperRight b) then b\<lparr>getUpperRight := (getX (getUpperRight b), getY p)\<rparr> else b)"

definition extendBox_box :: "box \<Rightarrow> box \<Rightarrow> box" where
  "extendBox_box a b = extendBox_point (getUpperRight a) (extendBox_point (getLowerLeft a) b)"

definition extendBox_line :: "point list \<Rightarrow> box \<Rightarrow> box" where
  "extendBox_line l b = fold extendBox_point l b"

definition getBoundingBox_point :: "point \<Rightarrow> box" where
  "getBoundingBox_point p = Box p p"

definition getBoundingBox :: "point list \<Rightarrow> box" where
  "getBoundingBox l = fold extendBox_point l minbox"

definition getBoundingBox_seg :: "segment \<Rightarrow> box" where
  "getBoundingBox_seg ls = extendBox_point (snd ls) (extendBox_point (fst ls) minbox)"

definition area :: "box \<Rightarrow> rat" where
  "area b = (getX (getUpperRight b) - getX (getLowerLeft b)) * (getY (getUpperRight b) - getY (getLowerLeft b))"

definition commonArea :: "box \<Rightarrow> box \<Rightarrow> rat" where
  "commonArea ba bb =
     (let l = max (getX (getLowerLeft ba)) (getX (getLowerLeft bb)); r = min (getX (getUpperRight ba)) (getX (getUpperRight bb));
          b = max (getY (getLowerLeft ba)) (getY (getLowerLeft bb)); t = min (getY (getUpperRight ba)) (getY (getUpperRight bb))
      in if l > r \<or> b > t then 0 else (r - l) * (t - b))"

definition centroid_seg :: "segment \<Rightarrow> point" where
  "centroid_seg ls = ((getX (fst ls) + getX (snd ls)) / 2, (getY (fst ls) + getY (snd ls)) / 2)"

definition centroid_box :: "box \<Rightarrow> point" where
  "centroid_box b = centroid_seg (getLowerLeft b, getUpperRight b)"

text \<open>An empty line divides by zero.\<close>

definition centroid_line :: "point list \<Rightarrow> point option" where
  "centroid_line ls =
     (if ls = [] then None
      else (let (x, y) = fold (\<lambda>p (x, y). (x + getX p, y + getY p)) ls (0, 0)
            in Some (x / of_nat (length ls), y / of_nat (length ls))))"

section \<open>What contains what\<close>

definition contains_point :: "point \<Rightarrow> box \<Rightarrow> bool" where
  "contains_point p b \<longleftrightarrow>
     (\<bar>getX p - getX (getLowerLeft b)\<bar> < EPSILON \<or> getX p > getX (getLowerLeft b)) \<and>
     (\<bar>getX p - getX (getUpperRight b)\<bar> < EPSILON \<or> getX p < getX (getUpperRight b)) \<and>
     (\<bar>getY p - getY (getLowerLeft b)\<bar> < EPSILON \<or> getY p > getY (getLowerLeft b)) \<and>
     (\<bar>getY p - getY (getUpperRight b)\<bar> < EPSILON \<or> getY p < getY (getUpperRight b))"

definition contains_line :: "point list \<Rightarrow> box \<Rightarrow> bool" where
  "contains_line l b \<longleftrightarrow> list_all (\<lambda>p. contains_point p b) l"

definition contains_seg :: "segment \<Rightarrow> box \<Rightarrow> bool" where
  "contains_seg l b \<longleftrightarrow> contains_point (fst l) b \<and> contains_point (snd l) b"

definition contains_box :: "box \<Rightarrow> box \<Rightarrow> bool" where
  "contains_box a b \<longleftrightarrow> contains_point (getLowerLeft a) b \<and> contains_point (getUpperRight a) b"

definition crossProd :: "point \<Rightarrow> point \<Rightarrow> rat" where
  "crossProd a b = getX a * getY b - getX b * getY a"

definition crossProd_seg :: "point \<Rightarrow> segment \<Rightarrow> rat" where
  "crossProd_seg p ls =
     crossProd (getX (snd ls) - getX (fst ls), getY (snd ls) - getY (fst ls)) (getX p - getX (fst ls), getY p - getY (fst ls))"

definition on_seg :: "point \<Rightarrow> segment \<Rightarrow> bool" where
  "on_seg p ls \<longleftrightarrow> \<bar>crossProd_seg p ls\<bar> < EPSILON \<and> contains_point p (getBoundingBox_seg ls)"

definition seg_on_seg :: "segment \<Rightarrow> segment \<Rightarrow> bool" where
  "seg_on_seg a b \<longleftrightarrow> on_seg (fst a) b \<and> on_seg (snd a) b"

fun on_line :: "point \<Rightarrow> point list \<Rightarrow> bool" where
  "on_line p (a # b # l) \<longleftrightarrow> on_seg p (a, b) \<or> on_line p (b # l)"
| "on_line p _ \<longleftrightarrow> False"

section \<open>What intersects what\<close>

definition intersects_box :: "box \<Rightarrow> box \<Rightarrow> bool" where
  "intersects_box b1 b2 \<longleftrightarrow>
     getX (getLowerLeft b1) \<le> getX (getUpperRight b2) \<and> getX (getUpperRight b1) \<ge> getX (getLowerLeft b2) \<and>
     getY (getLowerLeft b1) \<le> getY (getUpperRight b2) \<and> getY (getUpperRight b1) \<ge> getY (getLowerLeft b2)"

definition intersects_seg :: "segment \<Rightarrow> segment \<Rightarrow> bool" where
  "intersects_seg ls1 ls2 \<longleftrightarrow>
     intersects_box (getBoundingBox_seg ls1) (getBoundingBox_seg ls2) \<and>
     (((on_seg (fst ls1) ls2 \<noteq> on_seg (snd ls1) ls2) \<noteq> (on_seg (fst ls2) ls1 \<noteq> on_seg (snd ls2) ls1)) \<or>
      (((crossProd_seg (fst ls1) ls2 < 0) \<noteq> (crossProd_seg (snd ls1) ls2 < 0)) \<and>
       ((crossProd_seg (fst ls2) ls1 < 0) \<noteq> (crossProd_seg (snd ls2) ls1 < 0))))"

definition intersects_seg_box :: "segment \<Rightarrow> box \<Rightarrow> bool" where
  "intersects_seg_box ls b \<longleftrightarrow>
     (let ll = getLowerLeft b; ur = getUpperRight b
      in intersects_seg ls (ll, (getX ur, getY ll)) \<or> intersects_seg ls (ll, (getX ll, getY ur)) \<or>
         intersects_seg ls (ur, (getX ll, getY ur)) \<or> intersects_seg ls (ur, (getX ur, getY ll)) \<or> contains_seg ls b)"

fun intersects_line_box :: "point list \<Rightarrow> box \<Rightarrow> bool" where
  "intersects_line_box (p # q # l) b \<longleftrightarrow> intersects_seg_box (p, q) b \<or> intersects_line_box (q # l) b"
| "intersects_line_box _ b \<longleftrightarrow> False"

fun intersects_seg_line :: "segment \<Rightarrow> point list \<Rightarrow> bool" where
  "intersects_seg_line ls (p # q # l) \<longleftrightarrow> intersects_seg ls (p, q) \<or> intersects_seg_line ls (q # l)"
| "intersects_seg_line ls _ \<longleftrightarrow> False"

fun intersects_line :: "point list \<Rightarrow> point list \<Rightarrow> bool" where
  "intersects_line (p # q # l) l2 \<longleftrightarrow> intersects_seg_line (p, q) l2 \<or> intersects_line (q # l) l2"
| "intersects_line _ l2 \<longleftrightarrow> False"

definition doubleEq :: "rat \<Rightarrow> rat \<Rightarrow> bool" where
  "doubleEq a b \<longleftrightarrow> \<bar>a - b\<bar> < EPSILON"

text \<open>The point where two segments meet; parallel ones divide by zero.\<close>

definition intersection :: "point \<Rightarrow> point \<Rightarrow> point \<Rightarrow> point \<Rightarrow> point option" where
  "intersection p1 q1 p2 q2 =
     (if doubleEq (getX p1) (getX q1) \<and> doubleEq (getY p1) (getY q1) then Some p1
      else if doubleEq (getX p2) (getX q1) \<and> doubleEq (getY p2) (getY q1) then Some p2
      else if doubleEq (getX p2) (getX q2) \<and> doubleEq (getY p2) (getY q2) then Some p2
      else if doubleEq (getX p1) (getX q2) \<and> doubleEq (getY p1) (getY q2) then Some p1
      else
        (let a = (getY q2 - getY p2) * (getX q1 - getX p1) - (getX q2 - getX p2) * (getY q1 - getY p1);
             u = ((getX q2 - getX p2) * (getY p1 - getY p2) - (getY q2 - getY p2) * (getX p1 - getX p2)) / a
         in if a = 0 then None else Some (getX p1 + (getX q1 - getX p1) * u, getY p1 + (getY q1 - getY p1) * u)))"

definition lineIntersects :: "point \<Rightarrow> point \<Rightarrow> point \<Rightarrow> point \<Rightarrow> bool" where
  "lineIntersects p1 q1 p2 q2 \<longleftrightarrow>
     (let a = (getY q2 - getY p2) * (getX q1 - getX p1) - (getX q2 - getX p2) * (getY q1 - getY p1) in a > EPSILON \<or> a < - EPSILON)"

section \<open>Boxes as sets of points\<close>

definition inside :: "point \<Rightarrow> box \<Rightarrow> bool" where
  "inside p b \<longleftrightarrow> getX (getLowerLeft b) \<le> getX p \<and> getX p \<le> getX (getUpperRight b) \<and>
     getY (getLowerLeft b) \<le> getY p \<and> getY p \<le> getY (getUpperRight b)"

definition box_le :: "box \<Rightarrow> box \<Rightarrow> bool" where
  "box_le a b \<longleftrightarrow> getX (getLowerLeft b) \<le> getX (getLowerLeft a) \<and> getY (getLowerLeft b) \<le> getY (getLowerLeft a) \<and>
     getX (getUpperRight a) \<le> getX (getUpperRight b) \<and> getY (getUpperRight a) \<le> getY (getUpperRight b)"

lemma Box_simps [simp]: "getLowerLeft (Box ll ur) = ll" "getUpperRight (Box ll ur) = ur"
  by (simp_all add: Box_def)

lemma box_eq: "b = Box (getLowerLeft b) (getUpperRight b)"
  by (simp add: Box_def)

lemma extendBox_point_eq:
  "extendBox_point p b =
     Box (min (getX p) (getX (getLowerLeft b)), min (getY p) (getY (getLowerLeft b)))
       (max (getX p) (getX (getUpperRight b)), max (getY p) (getY (getUpperRight b)))"
  by (cases b, cases "getLowerLeft b", cases "getUpperRight b") (auto simp: extendBox_point_def Box_def min_def max_def Let_def)

lemma box_le_refl [simp]: "box_le b b"
  by (simp add: box_le_def)

lemma box_le_trans: "box_le a b \<Longrightarrow> box_le b c \<Longrightarrow> box_le a c"
  by (auto simp: box_le_def)

lemma inside_mono: "inside p a \<Longrightarrow> box_le a b \<Longrightarrow> inside p b"
  by (auto simp: inside_def box_le_def)

text \<open>The tolerance widens a box on all sides.\<close>

lemma EPSILON_pos: "0 < EPSILON"
  by (simp add: EPSILON_def)

lemma near_above: "\<bar>a - b\<bar> < EPSILON \<or> b < a \<longleftrightarrow> b - EPSILON < a" for a b :: rat
  using EPSILON_pos by (auto simp: abs_if split: if_splits)

lemma near_below: "\<bar>a - b\<bar> < EPSILON \<or> a < b \<longleftrightarrow> a < b + EPSILON" for a b :: rat
  using EPSILON_pos by (auto simp: abs_if split: if_splits)

lemma contains_point_eq:
  "contains_point p b \<longleftrightarrow>
     getX (getLowerLeft b) - EPSILON < getX p \<and> getX p < getX (getUpperRight b) + EPSILON \<and>
     getY (getLowerLeft b) - EPSILON < getY p \<and> getY p < getY (getUpperRight b) + EPSILON"
  unfolding contains_point_def near_above near_below ..

lemma inside_contains: "inside p b \<Longrightarrow> contains_point p b"
  using EPSILON_pos by (auto simp: inside_def contains_point_eq)

lemma contains_point_mono: "contains_point p a \<Longrightarrow> box_le a b \<Longrightarrow> contains_point p b"
  by (auto simp: contains_point_eq box_le_def)

lemma extendBox_point_le: "box_le b (extendBox_point p b)" "inside p (extendBox_point p b) \<longleftrightarrow> True"
  by (auto simp: extendBox_point_eq box_le_def inside_def)

lemma extendBox_point_least: "box_le (extendBox_point p b) c \<longleftrightarrow> box_le b c \<and> inside p c"
  by (auto simp: extendBox_point_eq box_le_def inside_def)

lemma extendBox_box_least: "box_le (extendBox_box a b) c \<longleftrightarrow> box_le b c \<and> inside (getLowerLeft a) c \<and> inside (getUpperRight a) c"
  by (simp add: extendBox_box_def extendBox_point_least)

lemma extendBox_box_le: "box_le b (extendBox_box a b)" "box_le a (extendBox_box a b)"
  using extendBox_box_least [of a b "extendBox_box a b"] by (auto simp: box_le_def inside_def)

lemma extendBox_line_least: "box_le (extendBox_line l b) c \<longleftrightarrow> box_le b c \<and> (\<forall>p\<in>set l. inside p c)"
  unfolding extendBox_line_def by (induction l arbitrary: b) (auto simp: extendBox_point_least)

lemma getBoundingBox_extend: "getBoundingBox l = extendBox_line l minbox"
  by (simp add: getBoundingBox_def extendBox_line_def)

definition representable :: "point \<Rightarrow> bool" where
  "representable p \<longleftrightarrow> \<bar>getX p\<bar> \<le> max_double \<and> \<bar>getY p\<bar> \<le> max_double"

lemma minbox_le: "inside p b \<Longrightarrow> representable p \<Longrightarrow> box_le minbox b"
  by (auto simp: minbox_def box_le_def inside_def representable_def abs_le_iff)

text \<open>
  The bounding box of a line is the least box that holds all its points: each point lies in it, and every box that holds them all,
  when there are any and their coordinates are representable, includes it.
\<close>

theorem getBoundingBox_least:
  "(\<forall>p\<in>set l. inside p (getBoundingBox l)) \<and>
   (\<forall>b. l \<noteq> [] \<longrightarrow> (\<forall>p\<in>set l. representable p \<and> inside p b) \<longrightarrow> box_le (getBoundingBox l) b)"
proof (intro conjI allI impI)
  show "\<forall>p\<in>set l. inside p (getBoundingBox l)"
    using extendBox_line_least [of l minbox "getBoundingBox l"] by (simp add: getBoundingBox_extend)
next
  fix b assume "l \<noteq> []" "\<forall>p\<in>set l. representable p \<and> inside p b"
  moreover obtain p where "p \<in> set l" using \<open>l \<noteq> []\<close> by (cases l) auto
  ultimately show "box_le (getBoundingBox l) b"
    unfolding getBoundingBox_extend extendBox_line_least using minbox_le by blast
qed

theorem getBoundingBox_least_witness:
  "box_le (getBoundingBox [(1, 5), (3, 2)]) (Box (0, 2) (3, 6)) \<and> inside (1, 5) (getBoundingBox [(1, 5), (3, 2)])"
proof -
  have "(1 :: rat) \<le> 2 ^ 971" by (rule one_le_power) simp
  then have m: "(5 :: rat) \<le> max_double" unfolding max_double_def by simp
  have "\<forall>p\<in>set [(1, 5), (3, 2)]. representable p \<and> inside p (Box (0, 2) (3, 6))"
    using m by (auto simp: representable_def inside_def)
  then show ?thesis using getBoundingBox_least [of "[(1, 5), (3, 2)]"] by auto
qed

text \<open>Overlapping boxes have a common area, and only they.\<close>

lemma commonArea_pos:
  "0 < commonArea a b \<longleftrightarrow>
     max (getX (getLowerLeft a)) (getX (getLowerLeft b)) < min (getX (getUpperRight a)) (getX (getUpperRight b)) \<and>
     max (getY (getLowerLeft a)) (getY (getLowerLeft b)) < min (getY (getUpperRight a)) (getY (getUpperRight b))"
  unfolding commonArea_def Let_def by (auto simp: zero_less_mult_iff)

end
