(* ===== verification/Bounding_Box.thy ===== *)
theory Bounding_Box
  imports Geo
begin

text \<open>
  \<^verbatim>\<open>osm/bounding_box.{h,cpp}\<close>: the tree of boxes that says which points belong to the area of a feed.
\<close>

section \<open>The tree\<close>

datatype bnode = Bnode (bn_box: box) (childs: "bnode list")

record bounding_box =
  bb_padding :: rat
  bb_size :: nat
  bb_root :: bnode

definition MAX_LVL :: nat where "MAX_LVL = 5"

definition MIN_COM_AREA :: rat where "MIN_COM_AREA = 0"

definition bounding_box_init :: "rat \<Rightarrow> bounding_box" where
  "bounding_box_init padding = \<lparr>bb_padding = padding, bb_size = 0, bb_root = Bnode minbox []\<rparr>"

text \<open>The child with the largest common area, the first one of several.\<close>

definition best_child :: "box \<Rightarrow> bnode list \<Rightarrow> nat option" where
  "best_child b cs =
     fst (fold (\<lambda>i (best, best_common_area).
            (let cur = commonArea b (bn_box (cs ! i))
             in if cur > MIN_COM_AREA \<and> cur > best_common_area then (Some i, cur) else (best, best_common_area)))
       [0..<length cs] (None, 0))"

text \<open>The argument counts the levels down to the last one.\<close>

fun add_levels :: "nat \<Rightarrow> box \<Rightarrow> bnode \<Rightarrow> bnode" where
  "add_levels 0 b nd = Bnode (extendBox_box b (bn_box nd)) (childs nd)"
| "add_levels (Suc n) b nd =
     (case best_child b (childs nd) of
        None \<Rightarrow> Bnode (extendBox_box b (bn_box nd)) (childs nd @ [add_levels n b (Bnode b [])])
      | Some i \<Rightarrow> Bnode (extendBox_box b (bn_box nd)) ((childs nd)[i := add_levels n b (childs nd ! i)]))"

definition add_to_tree :: "box \<Rightarrow> bnode \<Rightarrow> nat \<Rightarrow> bnode" where
  "add_to_tree b nd lvl = add_levels (MAX_LVL - lvl) b nd"

definition add_box :: "box \<Rightarrow> bounding_box \<Rightarrow> bounding_box" where
  "add_box b bb =
     bb\<lparr>bb_root := add_to_tree (pad b (bb_padding bb / 83000)) (bb_root bb) 0, bb_size := bb_size bb + 1\<rparr>"

fun tree_has :: "point \<Rightarrow> bnode \<Rightarrow> bool" and first_child_has :: "point \<Rightarrow> bnode list \<Rightarrow> bool" where
  "tree_has p (Bnode b cs) = (if cs = [] then contains_point p b else first_child_has p cs)"
| "first_child_has p [] = False"
| "first_child_has p (c # cs) = (if contains_point p (bn_box c) then tree_has p c else first_child_has p cs)"

definition bbox_contains :: "point \<Rightarrow> bounding_box \<Rightarrow> bool" where
  "bbox_contains p bb = tree_has p (bb_root bb)"

fun get_leafs_rec :: "bnode \<Rightarrow> box list" where
  "get_leafs_rec (Bnode b cs) = (if cs = [] then [b] else concat (map get_leafs_rec cs))"

definition get_leafs :: "bounding_box \<Rightarrow> box list" where
  "get_leafs bb = get_leafs_rec (bb_root bb)"

definition get_full_box :: "bounding_box \<Rightarrow> box" where
  "get_full_box bb = bn_box (bb_root bb)"

section \<open>Below the root the tree is a chain\<close>

text \<open>Every level below a child of the root has one node with the same box.\<close>

fun box_chain :: "nat \<Rightarrow> bnode \<Rightarrow> bool" where
  "box_chain 0 nd \<longleftrightarrow> childs nd = []"
| "box_chain (Suc n) nd \<longleftrightarrow> (\<exists>c. childs nd = [c] \<and> bn_box c = bn_box nd \<and> box_chain n c)"

lemma bn_box_add [simp]: "bn_box (add_levels n b nd) = extendBox_box b (bn_box nd)"
  by (cases n) (simp_all split: option.split)

lemma best_child_single: "best_child b [c] = (if commonArea b (bn_box c) > 0 then Some 0 else None)"
  by (simp add: best_child_def MIN_COM_AREA_def Let_def)

lemma best_child_spec:
  "case best_child b cs of None \<Rightarrow> \<forall>c\<in>set cs. \<not> 0 < commonArea b (bn_box c)
     | Some i \<Rightarrow> i < length cs \<and> 0 < commonArea b (bn_box (cs ! i)) \<and> (\<forall>c\<in>set cs. commonArea b (bn_box c) \<le> commonArea b (bn_box (cs ! i)))"
proof -
  let ?f = "\<lambda>i (best, best_common_area).
     (let cur = commonArea b (bn_box (cs ! i))
      in if cur > MIN_COM_AREA \<and> cur > best_common_area then (Some i, cur) else (best, best_common_area))"
  have "k \<le> length cs \<Longrightarrow>
      (case fold ?f [0..<k] (None, 0) of
         (None, a) \<Rightarrow> a = 0 \<and> (\<forall>i<k. \<not> 0 < commonArea b (bn_box (cs ! i)))
       | (Some i, a) \<Rightarrow> i < k \<and> 0 < a \<and> a = commonArea b (bn_box (cs ! i)) \<and> (\<forall>j<k. commonArea b (bn_box (cs ! j)) \<le> a))" for k
  proof (induction k)
    case (Suc k)
    obtain best a where r: "fold ?f [0..<k] (None, 0) = (best, a)" by fastforce
    show ?case
      using Suc r by (cases best) (auto simp: MIN_COM_AREA_def Let_def less_Suc_eq not_less)
  qed simp
  from this [of "length cs"] show ?thesis
    unfolding best_child_def by (auto simp: all_set_conv_all_nth split: prod.splits option.splits)
qed

lemma chain_new: "bn_box nd = b \<or> bn_box nd = extendBox_box b b \<Longrightarrow> childs nd = [] \<Longrightarrow> box_chain n (add_levels n b nd)"
proof (induction n arbitrary: nd)
  case (Suc n)
  have idem: "extendBox_box b (extendBox_box b b) = extendBox_box b b"
    by (simp add: extendBox_box_def extendBox_point_eq min.assoc max.assoc min.left_commute max.left_commute)
  have "best_child b [] = None" by (simp add: best_child_def)
  then show ?case using Suc.IH [of "Bnode b []"] Suc.prems idem by auto
qed simp

lemma chain_add: "box_chain n nd \<Longrightarrow> 0 < commonArea b (bn_box nd) \<Longrightarrow> box_chain n (add_levels n b nd)"
proof (induction n arbitrary: nd)
  case (Suc n)
  then obtain c where c: "childs nd = [c]" "bn_box c = bn_box nd" "box_chain n c" by auto
  then show ?case using Suc.IH [of c] Suc.prems(2) by (simp add: best_child_single)
qed simp

lemma chain_has: "box_chain n nd \<Longrightarrow> contains_point p (bn_box nd) \<Longrightarrow> tree_has p nd"
proof (induction n arbitrary: nd)
  case 0
  then show ?case by (cases nd) simp
next
  case (Suc n)
  then obtain c where "childs nd = [c]" "bn_box c = bn_box nd" "box_chain n c" by auto
  then show ?case using Suc.IH [of c] Suc.prems(2) by (cases nd) simp
qed

lemma chain_leafs: "box_chain n nd \<Longrightarrow> get_leafs_rec nd = [bn_box nd]"
proof (induction n arbitrary: nd)
  case 0
  then show ?case by (cases nd) simp
next
  case (Suc n)
  then obtain c where "childs nd = [c]" "bn_box c = bn_box nd" "box_chain n c" by auto
  then show ?case using Suc.IH [of c] by (cases nd) simp
qed

lemma first_child_chains:
  "\<forall>c\<in>set cs. box_chain n c \<Longrightarrow> first_child_has p cs \<longleftrightarrow> (\<exists>c\<in>set cs. contains_point p (bn_box c))"
  by (induction cs) (auto simp: chain_has)

section \<open>What the tree contains\<close>

definition tree_ok :: "box set \<Rightarrow> bnode \<Rightarrow> bool" where
  "tree_ok bs nd \<longleftrightarrow> (\<forall>c\<in>set (childs nd). box_chain 4 c \<and> box_le (bn_box c) (bn_box nd)) \<and>
     (\<forall>b\<in>bs. \<exists>c\<in>set (childs nd). box_le b (bn_box c)) \<and> (childs nd = [] \<longrightarrow> bs = {})"

lemma tree_ok_add:
  assumes "tree_ok bs nd"
  shows "tree_ok (insert b bs) (add_levels 5 b nd)"
proof -
  have five: "(5 :: nat) = Suc 4" by simp
  have root: "box_le (bn_box nd) (extendBox_box b (bn_box nd))" by (rule extendBox_box_le)
  note ok = assms [unfolded tree_ok_def]
  show ?thesis
  proof (cases "best_child b (childs nd)")
    case None
    let ?c = "add_levels 4 b (Bnode b [])"
    have t: "add_levels 5 b nd = Bnode (extendBox_box b (bn_box nd)) (childs nd @ [?c])" unfolding five by (simp only: add_levels.simps None option.case)
    have "box_chain 4 ?c" by (rule chain_new) simp_all
    moreover have "box_le (bn_box ?c) (extendBox_box b (bn_box nd))"
      by (auto simp: extendBox_box_least box_le_def inside_def extendBox_box_def extendBox_point_eq)
    moreover have "box_le b (bn_box ?c)" by (simp add: extendBox_box_le)
    ultimately show ?thesis using ok root unfolding t tree_ok_def by (auto intro: box_le_trans)
  next
    case (Some i)
    let ?c = "add_levels 4 b (childs nd ! i)"
    have t: "add_levels 5 b nd = Bnode (extendBox_box b (bn_box nd)) ((childs nd)[i := ?c])" unfolding five by (simp only: add_levels.simps Some option.case)
    have i: "i < length (childs nd)" "0 < commonArea b (bn_box (childs nd ! i))" using best_child_spec [of "childs nd" b] Some by auto
    then have c: "box_chain 4 (childs nd ! i)" "box_le (bn_box (childs nd ! i)) (bn_box nd)" using ok by auto
    have "box_chain 4 ?c" by (rule chain_add [OF c(1) i(2)])
    moreover have "box_le (bn_box ?c) (extendBox_box b (bn_box nd))"
      using c(2) by (auto simp: box_le_def extendBox_box_def extendBox_point_eq)
    moreover have "box_le b (bn_box ?c)" by (simp add: extendBox_box_le)
    moreover have "box_le (bn_box (childs nd ! i)) (bn_box ?c)" by (simp add: extendBox_box_le)
    moreover have "?c \<in> set ((childs nd)[i := ?c])" using i(1) by (rule set_update_memI)
    moreover have "\<exists>c'\<in>set ((childs nd)[i := ?c]). box_le (bn_box c) (bn_box c')" if c: "c \<in> set (childs nd)" for c
    proof -
      obtain j where j: "j < length (childs nd)" "childs nd ! j = c" using c unfolding in_set_conv_nth by blast
      show ?thesis
      proof (cases "j = i")
        case True
        then show ?thesis using calculation(4,5) j(2) by blast
      next
        case False
        then have "c \<in> set ((childs nd)[i := ?c])" using j by (metis length_list_update nth_list_update_neq nth_mem)
        then show ?thesis by (meson box_le_refl)
      qed
    qed
    moreover have "c \<in> set (childs nd) \<or> c = ?c" if "c \<in> set ((childs nd)[i := ?c])" for c
      using that set_update_subset_insert [of "childs nd" i ?c] by blast
    note new = calculation this
    have nonempty: "childs nd \<noteq> []" using i(1) by auto
    have "box_chain 4 c \<and> box_le (bn_box c) (extendBox_box b (bn_box nd))" if c: "c \<in> set ((childs nd)[i := ?c])" for c
      using new(7) [OF c] new(1,2) ok box_le_trans [OF _ root] by blast
    moreover have "\<exists>c\<in>set ((childs nd)[i := ?c]). box_le b' (bn_box c)" if b': "b' \<in> insert b bs" for b'
    proof (cases "b' = b")
      case True
      then show ?thesis using new(3,5) by blast
    next
      case False
      then obtain c where "c \<in> set (childs nd)" "box_le b' (bn_box c)" using ok b' by blast
      then show ?thesis using new(6) [of c] box_le_trans by blast
    qed
    ultimately show ?thesis using nonempty unfolding t tree_ok_def by simp
  qed
qed

lemma add_box_ok:
  assumes "tree_ok bs (bb_root bb)"
  shows "tree_ok (insert (pad b (bb_padding bb / 83000)) bs) (bb_root (add_box b bb))"
  using tree_ok_add [OF assms] by (simp add: add_box_def add_to_tree_def MAX_LVL_def)

lemma fold_add_box:
  "bb_padding (fold add_box bs bb) = bb_padding bb \<and> bb_size (fold add_box bs bb) = bb_size bb + length bs \<and>
   (tree_ok B (bb_root bb) \<longrightarrow> tree_ok (B \<union> (\<lambda>b. pad b (bb_padding bb / 83000)) ` set bs) (bb_root (fold add_box bs bb)))"
proof (induction bs arbitrary: bb B)
  case (Cons b bs)
  have "bb_padding (add_box b bb) = bb_padding bb" "bb_size (add_box b bb) = bb_size bb + 1" by (simp_all add: add_box_def)
  with Cons.IH [of "add_box b bb" "insert (pad b (bb_padding bb / 83000)) B"] add_box_ok [of B bb b] show ?case by auto
qed simp

lemma tree_ok_contains:
  assumes "tree_ok bs nd"
  shows "tree_has p nd \<longleftrightarrow> (\<exists>l\<in>set (get_leafs_rec nd). contains_point p l)"
    and "\<And>b. b \<in> bs \<Longrightarrow> \<exists>l\<in>set (get_leafs_rec nd). box_le b l"
    and "\<And>l. l \<in> set (get_leafs_rec nd) \<Longrightarrow> box_le l (bn_box nd)"
proof -
  obtain r cs where nd: "nd = Bnode r cs" by (cases nd)
  note ok = assms [unfolded tree_ok_def nd bnode.sel]
  have chains: "\<forall>c\<in>set cs. box_chain 4 c" using ok by blast
  then have leafs: "cs \<noteq> [] \<Longrightarrow> set (get_leafs_rec nd) = bn_box ` set cs" by (auto simp: nd chain_leafs [of 4])
  show "tree_has p nd \<longleftrightarrow> (\<exists>l\<in>set (get_leafs_rec nd). contains_point p l)"
    using leafs first_child_chains [OF chains] by (cases "cs = []") (auto simp: nd)
  show "\<exists>l\<in>set (get_leafs_rec nd). box_le b l" if "b \<in> bs" for b
    using leafs ok that by (cases "cs = []") auto
  show "box_le l (bn_box nd)" if "l \<in> set (get_leafs_rec nd)" for l
    using leafs ok that by (cases "cs = []") (auto simp: nd)
qed

text \<open>
  C20: after boxes are added, the tree contains a point exactly when one of its leafs does, although the search follows only the first
  child that holds the point; it contains every point of every padded box, and no point outside the full box.
\<close>

theorem bounding_box_contains:
  fixes padding bs
  defines "bb \<equiv> fold add_box bs (bounding_box_init padding)"
  shows "bb_size bb = length bs \<and>
    (bbox_contains p bb \<longleftrightarrow> (\<exists>l\<in>set (get_leafs bb). contains_point p l)) \<and>
    (\<forall>b\<in>set bs. inside p (pad b (padding / 83000)) \<longrightarrow> bbox_contains p bb) \<and>
    (bbox_contains p bb \<longrightarrow> contains_point p (get_full_box bb))"
proof -
  have "tree_ok {} (bb_root (bounding_box_init padding))" by (simp add: bounding_box_init_def tree_ok_def)
  then have ok: "tree_ok ((\<lambda>b. pad b (padding / 83000)) ` set bs) (bb_root bb)" and size: "bb_size bb = length bs"
    using fold_add_box [of bs "bounding_box_init padding" "{}"] by (auto simp: bb_def bounding_box_init_def)
  note t = tree_ok_contains [OF ok]
  have "bbox_contains p bb" if b: "b \<in> set bs" "inside p (pad b (padding / 83000))" for b
  proof -
    have "pad b (padding / 83000) \<in> (\<lambda>b. pad b (padding / 83000)) ` set bs" using b(1) by simp
    then obtain l where l: "l \<in> set (get_leafs_rec (bb_root bb))" "box_le (pad b (padding / 83000)) l" using t(2) by metis
    have "contains_point p l" by (rule inside_contains [OF inside_mono [OF b(2) l(2)]])
    then show ?thesis using l(1) t(1) [of p] unfolding bbox_contains_def by blast
  qed
  moreover have "contains_point p (get_full_box bb)" if p: "bbox_contains p bb"
  proof -
    obtain l where l: "l \<in> set (get_leafs_rec (bb_root bb))" "contains_point p l" using p t(1) [of p] unfolding bbox_contains_def by blast
    show ?thesis unfolding get_full_box_def by (rule contains_point_mono [OF l(2) t(3) [OF l(1)]])
  qed
  moreover have "bbox_contains p bb \<longleftrightarrow> (\<exists>l\<in>set (get_leafs bb). contains_point p l)"
    unfolding bbox_contains_def get_leafs_def by (rule t(1))
  ultimately show ?thesis using size by blast
qed

theorem bounding_box_contains_witness:
  "bbox_contains (2, 2) (fold add_box [Box (0, 0) (3, 1), Box (0, 0) (1, 3), Box (5, 5) (6, 6), Box (2, 2) (2, 2)] (bounding_box_init 0))"
proof -
  let ?bs = "[Box (0, 0) (3, 1), Box (0, 0) (1, 3), Box (5, 5) (6, 6), Box (2, 2) (2, 2)]"
  have "\<forall>b\<in>set ?bs. inside (2, 2) (pad b (0 / 83000)) \<longrightarrow> bbox_contains (2, 2) (fold add_box ?bs (bounding_box_init 0))"
    using bounding_box_contains [of ?bs 0 "(2, 2)"] by blast
  then show ?thesis by (simp add: inside_def pad_def)
qed

end
