(* ===== verification/Geo_Grid.thy ===== *)
theory Geo_Grid
  imports Geo
begin

text \<open>
  \<^verbatim>\<open>util/geo/Grid.h\<close>: the grid of cells that indexes nodes and edges by their place.  A geometry is given by its bounding box and the boxes
  it meets; \<open>flt\<close> is the rounding of a distance to \<^verbatim>\<open>float\<close> before it is divided by the size of a cell.
\<close>

section \<open>The grid\<close>

record 'v grid =
  gr_cellWidth :: rat
  gr_cellHeight :: rat
  gr_bb :: box
  gr_xWidth :: nat
  gr_yHeight :: nat
  gr_hasValIdx :: bool
  gr_cells :: "nat \<times> nat \<Rightarrow> 'v set"
  gr_index :: "'v \<rightharpoonup> (nat \<times> nat) set"
  gr_removed :: "'v set"

text \<open>A box with a negative extent makes a grid without cells.  The sizes of a cell are not zero.\<close>

definition grid_init :: "rat \<Rightarrow> rat \<Rightarrow> box \<Rightarrow> bool \<Rightarrow> 'v grid" where
  "grid_init w h bb buildValIdx =
     (let width = getX (getUpperRight bb) - getX (getLowerLeft bb); height = getY (getUpperRight bb) - getY (getLowerLeft bb);
          negative = (width < 0 \<or> height < 0)
      in \<lparr>gr_cellWidth = \<bar>w\<bar>, gr_cellHeight = \<bar>h\<bar>, gr_bb = bb,
          gr_xWidth = (if negative then 0 else nat \<lceil>width / \<bar>w\<bar>\<rceil>), gr_yHeight = (if negative then 0 else nat \<lceil>height / \<bar>h\<bar>\<rceil>),
          gr_hasValIdx = buildValIdx, gr_cells = (\<lambda>_. {}), gr_index = Map.empty, gr_removed = {}\<rparr>)"

definition getCellXFromX :: "(rat \<Rightarrow> rat) \<Rightarrow> 'v grid \<Rightarrow> rat \<Rightarrow> nat" where
  "getCellXFromX flt g lon =
     (let d = flt (lon - getX (getLowerLeft (gr_bb g))); d = (if d < 0 then 0 else d) in nat \<lfloor>d / gr_cellWidth g\<rfloor>)"

definition getCellYFromY :: "(rat \<Rightarrow> rat) \<Rightarrow> 'v grid \<Rightarrow> rat \<Rightarrow> nat" where
  "getCellYFromY flt g lat =
     (let d = flt (lat - getY (getLowerLeft (gr_bb g))); d = (if d < 0 then 0 else d) in nat \<lfloor>d / gr_cellHeight g\<rfloor>)"

definition cell_box :: "'v grid \<Rightarrow> nat \<Rightarrow> nat \<Rightarrow> box" where
  "cell_box g x y =
     (let ll = getLowerLeft (gr_bb g)
      in Box (getX ll + of_nat x * gr_cellWidth g, getY ll + of_nat y * gr_cellHeight g)
           (getX ll + of_nat (x + 1) * gr_cellWidth g, getY ll + of_nat (y + 1) * gr_cellHeight g))"

text \<open>The cells a box covers, as the two nested loops visit them.\<close>

definition box_cells :: "(rat \<Rightarrow> rat) \<Rightarrow> 'v grid \<Rightarrow> box \<Rightarrow> (nat \<times> nat) list" where
  "box_cells flt g b =
     concat (map (\<lambda>x. map (\<lambda>y. (x, y))
         [getCellYFromY flt g (getY (getLowerLeft b))..<min (getCellYFromY flt g (getY (getUpperRight b)) + 1) (gr_yHeight g)])
       [getCellXFromX flt g (getX (getLowerLeft b))..<min (getCellXFromX flt g (getX (getUpperRight b)) + 1) (gr_xWidth g)])"

definition add_cell :: "nat \<times> nat \<Rightarrow> 'v \<Rightarrow> 'v grid \<Rightarrow> 'v grid" where
  "add_cell xy val g =
     (let g = g\<lparr>gr_cells := (gr_cells g)(xy := insert val (gr_cells g xy))\<rparr>
      in if gr_hasValIdx g
         then g\<lparr>gr_index := (gr_index g)(val \<mapsto> insert xy (case gr_index g val of None \<Rightarrow> {} | Some s \<Rightarrow> s))\<rparr>
         else g)"

definition grid_add :: "(rat \<Rightarrow> rat) \<Rightarrow> box \<Rightarrow> (box \<Rightarrow> bool) \<Rightarrow> 'v \<Rightarrow> 'v grid \<Rightarrow> 'v grid" where
  "grid_add flt b hits val g =
     fold (\<lambda>(x, y) g. if hits (cell_box g x y) then add_cell (x, y) val g else g) (box_cells flt g b) g"

definition grid_add_point :: "(rat \<Rightarrow> rat) \<Rightarrow> point \<Rightarrow> 'v \<Rightarrow> 'v grid \<Rightarrow> 'v grid" where
  "grid_add_point flt p = grid_add flt (getBoundingBox_point p) (contains_point p)"

definition grid_add_line :: "(rat \<Rightarrow> rat) \<Rightarrow> point list \<Rightarrow> 'v \<Rightarrow> 'v grid \<Rightarrow> 'v grid" where
  "grid_add_line flt l = grid_add flt (getBoundingBox l) (intersects_line_box l)"

definition get_cell :: "nat \<times> nat \<Rightarrow> 'v grid \<Rightarrow> 'v set" where
  "get_cell xy g = (if gr_hasValIdx g then gr_cells g xy else gr_cells g xy - gr_removed g)"

definition grid_get :: "(rat \<Rightarrow> rat) \<Rightarrow> box \<Rightarrow> 'v grid \<Rightarrow> 'v set" where
  "grid_get flt b g = (\<Union>xy\<in>set (box_cells flt g b). get_cell xy g)"

definition get_around :: "(rat \<Rightarrow> rat) \<Rightarrow> box \<Rightarrow> rat \<Rightarrow> 'v grid \<Rightarrow> 'v set" where
  "get_around flt a d g =
     grid_get flt (Box (getX (getLowerLeft a) - d, getY (getLowerLeft a) - d) (getX (getUpperRight a) + d, getY (getUpperRight a) + d)) g"

definition grid_remove :: "'v \<Rightarrow> 'v grid \<Rightarrow> 'v grid" where
  "grid_remove val g =
     (if gr_hasValIdx g
      then (case gr_index g val of
              None \<Rightarrow> g
            | Some cs \<Rightarrow> g\<lparr>gr_cells := (\<lambda>xy. if xy \<in> cs then gr_cells g xy - {val} else gr_cells g xy), gr_index := (gr_index g)(val := None)\<rparr>)
      else g\<lparr>gr_removed := insert val (gr_removed g)\<rparr>)"

text \<open>Neighbours need the index: without it an exception is thrown.\<close>

definition cell_neighbors :: "nat \<times> nat \<Rightarrow> nat \<Rightarrow> nat \<Rightarrow> 'v grid \<Rightarrow> 'v set" where
  "cell_neighbors = (\<lambda>(cx, cy) xPerm yPerm g.
     (let swX = (if xPerm > cx then 0 else cx - xPerm); swY = (if yPerm > cy then 0 else cy - yPerm);
          neX = (if xPerm + cx + 1 > gr_xWidth g then gr_xWidth g else cx + xPerm + 1);
          neY = (if yPerm + cy + 1 > gr_yHeight g then gr_yHeight g else cy + yPerm + 1)
      in \<Union>x\<in>set [swX..<neX]. \<Union>y\<in>set [swY..<neY]. gr_cells g (x, y)))"

definition getCellNeighbors :: "'v \<Rightarrow> nat \<Rightarrow> nat \<Rightarrow> 'v grid \<Rightarrow> 'v set option" where
  "getCellNeighbors val xPerm yPerm g =
     (if \<not> gr_hasValIdx g then None
      else Some (case gr_index g val of None \<Rightarrow> {} | Some cs \<Rightarrow> \<Union>xy\<in>cs. cell_neighbors xy xPerm yPerm g))"

definition getNeighbors :: "'v \<Rightarrow> rat \<Rightarrow> 'v grid \<Rightarrow> 'v set option" where
  "getNeighbors val d g = getCellNeighbors val (nat \<lceil>d / gr_cellWidth g\<rceil>) (nat \<lceil>d / gr_cellHeight g\<rceil>) g"

section \<open>What the cells hold\<close>

lemma add_cell_frame [simp]:
  "gr_cellWidth (add_cell xy v g) = gr_cellWidth g" "gr_cellHeight (add_cell xy v g) = gr_cellHeight g" "gr_bb (add_cell xy v g) = gr_bb g"
  "gr_xWidth (add_cell xy v g) = gr_xWidth g" "gr_yHeight (add_cell xy v g) = gr_yHeight g" "gr_hasValIdx (add_cell xy v g) = gr_hasValIdx g"
  "gr_removed (add_cell xy v g) = gr_removed g"
  by (simp_all add: add_cell_def Let_def)

text \<open>Two grids of the same shape.\<close>

definition same_cells :: "'v grid \<Rightarrow> 'v grid \<Rightarrow> bool" where
  "same_cells a b \<longleftrightarrow> gr_cellWidth a = gr_cellWidth b \<and> gr_cellHeight a = gr_cellHeight b \<and> gr_bb a = gr_bb b \<and>
     gr_xWidth a = gr_xWidth b \<and> gr_yHeight a = gr_yHeight b"

lemma same_cells_refl [simp]: "same_cells g g"
  by (simp add: same_cells_def)

lemma same_cells_trans: "same_cells a b \<Longrightarrow> same_cells b c \<Longrightarrow> same_cells a c"
  by (simp add: same_cells_def)

lemma same_cells_add_cell: "same_cells (add_cell xy v g) g"
  by (simp add: same_cells_def)

lemma box_cells_same: "same_cells a b \<Longrightarrow> box_cells flt a = box_cells flt b"
  by (simp add: same_cells_def box_cells_def getCellXFromX_def getCellYFromY_def fun_eq_iff)

lemma cell_box_same: "same_cells a b \<Longrightarrow> cell_box a = cell_box b"
  by (simp add: same_cells_def cell_box_def fun_eq_iff)

lemma set_box_cells:
  "(x, y) \<in> set (box_cells flt g b) \<longleftrightarrow>
     getCellXFromX flt g (getX (getLowerLeft b)) \<le> x \<and> x \<le> getCellXFromX flt g (getX (getUpperRight b)) \<and> x < gr_xWidth g \<and>
     getCellYFromY flt g (getY (getLowerLeft b)) \<le> y \<and> y \<le> getCellYFromY flt g (getY (getUpperRight b)) \<and> y < gr_yHeight g"
  by (auto simp: box_cells_def image_iff)

text \<open>The cells a geometry is put into.\<close>

definition placed :: "(rat \<Rightarrow> rat) \<Rightarrow> 'v grid \<Rightarrow> box \<Rightarrow> (box \<Rightarrow> bool) \<Rightarrow> (nat \<times> nat) set" where
  "placed flt g b hits = {xy \<in> set (box_cells flt g b). hits (cell_box g (fst xy) (snd xy))}"

lemma placed_same: "same_cells a b \<Longrightarrow> placed flt a = placed flt b"
  using box_cells_same [of a b flt] cell_box_same [of a b] by (simp add: placed_def fun_eq_iff)

lemma grid_add_cells:
  "same_cells (grid_add flt b hits v g) g \<and> gr_hasValIdx (grid_add flt b hits v g) = gr_hasValIdx g \<and>
   gr_removed (grid_add flt b hits v g) = gr_removed g \<and>
   (\<forall>xy. gr_cells (grid_add flt b hits v g) xy = gr_cells g xy \<union> (if xy \<in> placed flt g b hits then {v} else {})) \<and>
   (gr_hasValIdx g \<longrightarrow> (\<forall>u. (case gr_index (grid_add flt b hits v g) u of None \<Rightarrow> {} | Some s \<Rightarrow> s) =
      (case gr_index g u of None \<Rightarrow> {} | Some s \<Rightarrow> s) \<union> (if u = v then placed flt g b hits else {})))"
proof -
  let ?step = "\<lambda>(x, y) g. if hits (cell_box g x y) then add_cell (x, y) v g else g"
  have "same_cells (fold ?step cs a) a \<and> gr_hasValIdx (fold ?step cs a) = gr_hasValIdx a \<and> gr_removed (fold ?step cs a) = gr_removed a \<and>
      (\<forall>xy. gr_cells (fold ?step cs a) xy = gr_cells a xy \<union> (if xy \<in> set cs \<and> hits (cell_box a (fst xy) (snd xy)) then {v} else {})) \<and>
      (gr_hasValIdx a \<longrightarrow> (\<forall>u. (case gr_index (fold ?step cs a) u of None \<Rightarrow> {} | Some s \<Rightarrow> s) =
        (case gr_index a u of None \<Rightarrow> {} | Some s \<Rightarrow> s) \<union> (if u = v then {xy \<in> set cs. hits (cell_box a (fst xy) (snd xy))} else {})))" for cs a
  proof (induction cs arbitrary: a)
    case (Cons c cs)
    obtain x y where c: "c = (x, y)" by fastforce
    let ?a = "?step c a"
    have same: "same_cells ?a a" by (simp add: c same_cells_add_cell)
    then have boxes: "cell_box ?a = cell_box a" by (rule cell_box_same)
    have step: "gr_hasValIdx ?a = gr_hasValIdx a" "gr_removed ?a = gr_removed a"
      "gr_cells ?a xy = gr_cells a xy \<union> (if xy = c \<and> hits (cell_box a (fst xy) (snd xy)) then {v} else {})"
      "gr_hasValIdx a \<longrightarrow> (case gr_index ?a u of None \<Rightarrow> {} | Some s \<Rightarrow> s) =
        (case gr_index a u of None \<Rightarrow> {} | Some s \<Rightarrow> s) \<union> (if u = v \<and> hits (cell_box a x y) then {c} else {})" for xy u
      by (auto simp: c add_cell_def Let_def split: option.splits)
    show ?case
      using Cons.IH [of ?a] same_cells_trans [OF _ same, of "fold ?step cs ?a"] step unfolding boxes by (auto simp: c)
  qed simp
  from this [of "box_cells flt g b" g] show ?thesis unfolding grid_add_def placed_def by simp
qed

section \<open>What a query returns\<close>

datatype 'v grid_op = Grid_add (op_box: box) (op_hits: "box \<Rightarrow> bool") (op_val: 'v) | Grid_remove (op_val: 'v)

fun run_op :: "(rat \<Rightarrow> rat) \<Rightarrow> 'v grid_op \<Rightarrow> 'v grid \<Rightarrow> 'v grid" where
  "run_op flt (Grid_add b hits v) g = grid_add flt b hits v g"
| "run_op flt (Grid_remove v) g = grid_remove v g"

text \<open>
  The value \<open>v\<close> was added with a box and a geometry test and is still there: with an index, it was not removed since; with a
  set of removed values, it is never removed at all.
\<close>

definition kept :: "bool \<Rightarrow> 'v grid_op list \<Rightarrow> box \<Rightarrow> (box \<Rightarrow> bool) \<Rightarrow> 'v \<Rightarrow> bool" where
  "kept idx ops b hits v \<longleftrightarrow>
     (\<exists>before after. ops = before @ Grid_add b hits v # after \<and> Grid_remove v \<notin> set (if idx then after else ops))"

lemma split_op: "xs @ [x] = ys @ z # zs \<longleftrightarrow> (\<exists>ws. zs = ws @ [x] \<and> xs = ys @ z # ws) \<or> zs = [] \<and> ys = xs \<and> z = x"
  by (cases zs rule: rev_cases) auto

lemma kept_add: "kept True (ops @ [Grid_add b' hits' u]) b hits v \<longleftrightarrow> kept True ops b hits v \<or> b' = b \<and> hits' = hits \<and> u = v"
proof
  assume "kept True (ops @ [Grid_add b' hits' u]) b hits v"
  then show "kept True ops b hits v \<or> b' = b \<and> hits' = hits \<and> u = v" by (auto simp: kept_def split_op)
next
  assume "kept True ops b hits v \<or> b' = b \<and> hits' = hits \<and> u = v"
  then show "kept True (ops @ [Grid_add b' hits' u]) b hits v"
  proof
    assume "kept True ops b hits v"
    then obtain before after where "ops = before @ Grid_add b hits v # after" "Grid_remove v \<notin> set after" by (auto simp: kept_def)
    then have "ops @ [Grid_add b' hits' u] = before @ Grid_add b hits v # (after @ [Grid_add b' hits' u])"
      "Grid_remove v \<notin> set (after @ [Grid_add b' hits' u])" by auto
    then show ?thesis unfolding kept_def if_True by blast
  qed (fastforce simp: kept_def)
qed

lemma kept_remove: "kept True (ops @ [Grid_remove u]) b hits v \<longleftrightarrow> u \<noteq> v \<and> kept True ops b hits v"
proof
  assume "kept True (ops @ [Grid_remove u]) b hits v"
  then obtain before after where "ops @ [Grid_remove u] = before @ Grid_add b hits v # after" "Grid_remove v \<notin> set after"
    by (auto simp: kept_def)
  then obtain rest where "after = rest @ [Grid_remove u]" "ops = before @ Grid_add b hits v # rest" unfolding split_op by blast
  then show "u \<noteq> v \<and> kept True ops b hits v" using \<open>Grid_remove v \<notin> set after\<close> unfolding kept_def if_True by auto
next
  assume k: "u \<noteq> v \<and> kept True ops b hits v"
  then obtain before after where "ops = before @ Grid_add b hits v # after" "Grid_remove v \<notin> set after" by (auto simp: kept_def)
  then have "ops @ [Grid_remove u] = before @ Grid_add b hits v # (after @ [Grid_remove u])"
    "Grid_remove v \<notin> set (after @ [Grid_remove u])" using k by auto
  then show "kept True (ops @ [Grid_remove u]) b hits v" unfolding kept_def if_True by blast
qed

lemma kept_always: "kept False ops b hits v \<longleftrightarrow> Grid_add b hits v \<in> set ops \<and> Grid_remove v \<notin> set ops"
  unfolding kept_def by (simp add: in_set_conv_decomp)

lemma kept_adds:
  assumes "\<And>v. Grid_remove v \<notin> set ops"
  shows "kept idx ops b hits v \<longleftrightarrow> Grid_add b hits v \<in> set ops"
proof
  assume "Grid_add b hits v \<in> set ops"
  then obtain before after where "ops = before @ Grid_add b hits v # after" by (meson split_list)
  moreover from this have "Grid_remove v \<notin> set (if idx then after else ops)" using assms [of v] by (cases idx) simp_all
  ultimately show "kept idx ops b hits v" unfolding kept_def by blast
qed (auto simp: kept_def)

text \<open>The cells that a value was put into, and the state of a grid with these cells and a set of removed values.\<close>

definition cells_of :: "(rat \<Rightarrow> rat) \<Rightarrow> 'v grid \<Rightarrow> bool \<Rightarrow> 'v grid_op list \<Rightarrow> 'v \<Rightarrow> (nat \<times> nat) set" where
  "cells_of flt g idx ops v =
     {xy. \<exists>b hits. (if idx then kept True ops b hits v else Grid_add b hits v \<in> set ops) \<and> xy \<in> placed flt g b hits}"

definition tracks :: "'v grid \<Rightarrow> ('v \<Rightarrow> (nat \<times> nat) set) \<Rightarrow> 'v set \<Rightarrow> bool" where
  "tracks g P R \<longleftrightarrow> (\<forall>xy. gr_cells g xy = {v. xy \<in> P v}) \<and>
     (if gr_hasValIdx g then \<forall>v. (case gr_index g v of None \<Rightarrow> {} | Some s \<Rightarrow> s) = P v else gr_removed g = R)"

lemma tracks_add: "tracks g P R \<Longrightarrow> tracks (grid_add flt b hits v g) (P(v := P v \<union> placed flt g b hits)) R"
  using grid_add_cells [of flt b hits v g] unfolding tracks_def by (cases "gr_hasValIdx g") auto

lemma tracks_remove:
  assumes "tracks g P R"
  shows "tracks (grid_remove v g) (if gr_hasValIdx g then P(v := {}) else P) (insert v R)" "same_cells (grid_remove v g) g"
    "gr_hasValIdx (grid_remove v g) = gr_hasValIdx g"
proof -
  have cells: "gr_cells g xy = {v. xy \<in> P v}" for xy using assms unfolding tracks_def by blast
  show "same_cells (grid_remove v g) g" "gr_hasValIdx (grid_remove v g) = gr_hasValIdx g"
    by (simp_all add: grid_remove_def same_cells_def split: option.split)
  show "tracks (grid_remove v g) (if gr_hasValIdx g then P(v := {}) else P) (insert v R)"
  proof (cases "gr_hasValIdx g")
    case False
    then show ?thesis using assms by (simp add: tracks_def grid_remove_def)
  next
    case True
    then have idx: "(case gr_index g u of None \<Rightarrow> {} | Some s \<Rightarrow> s) = P u" for u using assms by (simp add: tracks_def)
    show ?thesis
    proof (cases "gr_index g v")
      case None
      then have "P(v := {}) = P" using idx [of v] by (intro fun_upd_idem) simp
      then show ?thesis using assms None True by (simp add: grid_remove_def tracks_def)
    next
      case (Some s)
      then have s: "s = P v" using idx [of v] by simp
      have "(if xy \<in> s then gr_cells g xy - {v} else gr_cells g xy) = {u. xy \<in> (P(v := {})) u}" for xy
        unfolding cells s by auto
      then show ?thesis using Some True idx by (simp add: grid_remove_def tracks_def)
    qed
  qed
qed

lemma tracks_run:
  assumes "tracks g (\<lambda>_. {}) {}"
  shows "tracks (fold (run_op flt) ops g) (cells_of flt g (gr_hasValIdx g) ops) {v. Grid_remove v \<in> set ops} \<and>
    same_cells (fold (run_op flt) ops g) g \<and> gr_hasValIdx (fold (run_op flt) ops g) = gr_hasValIdx g"
proof (induction ops rule: rev_induct)
  case Nil
  then show ?case using assms by (simp add: cells_of_def kept_def)
next
  case (snoc a ops)
  let ?g = "fold (run_op flt) ops g" and ?idx = "gr_hasValIdx g"
  have t: "tracks ?g (cells_of flt g ?idx ops) {v. Grid_remove v \<in> set ops}" "same_cells ?g g" "gr_hasValIdx ?g = ?idx" using snoc by blast+
  have run: "fold (run_op flt) (ops @ [a]) g = run_op flt a ?g" by simp
  show ?case
  proof (cases a)
    case (Grid_add b hits v)
    have "(cells_of flt g ?idx ops)(v := cells_of flt g ?idx ops v \<union> placed flt ?g b hits) = cells_of flt g ?idx (ops @ [a])"
      unfolding placed_same [OF t(2)] Grid_add by (rule ext) (auto simp: cells_of_def kept_add)
    moreover have "{v. Grid_remove v \<in> set (ops @ [a])} = {v. Grid_remove v \<in> set ops}" by (simp add: Grid_add)
    ultimately show ?thesis
      using tracks_add [OF t(1), of flt b hits v] grid_add_cells [of flt b hits v ?g] t(2,3) same_cells_trans [OF _ t(2)]
      unfolding run by (simp add: Grid_add)
  next
    case (Grid_remove v)
    have "(if ?idx then (cells_of flt g ?idx ops)(v := {}) else cells_of flt g ?idx ops) = cells_of flt g ?idx (ops @ [a])"
      by (rule ext) (auto simp: cells_of_def kept_remove Grid_remove)
    moreover have "{v. Grid_remove v \<in> set (ops @ [a])} = insert v {v. Grid_remove v \<in> set ops}" by (auto simp: Grid_remove)
    ultimately show ?thesis
      using tracks_remove [OF t(1), of v] t(3) same_cells_trans [OF _ t(2)] unfolding run by (simp add: Grid_remove)
  qed
qed

lemma grid_get_ops:
  fixes ops :: "'v grid_op list"
  shows "grid_get flt b (fold (run_op flt) ops (grid_init w h bb idx)) =
    {v. \<exists>gb hits. kept idx ops gb hits v \<and>
       placed flt (grid_init w h bb True :: 'v grid) gb hits \<inter> set (box_cells flt (grid_init w h bb True :: 'v grid) b) \<noteq> {}}"
proof -
  let ?g = "grid_init w h bb idx :: 'v grid" and ?init = "grid_init w h bb True :: 'v grid"
  have idx: "gr_hasValIdx ?g = idx" by (simp add: grid_init_def Let_def)
  have "tracks ?g (\<lambda>_. {}) {}" by (simp add: tracks_def grid_init_def Let_def)
  from tracks_run [OF this, of flt ops]
  have t: "tracks (fold (run_op flt) ops ?g) (cells_of flt ?g idx ops) {v. Grid_remove v \<in> set ops}" "same_cells (fold (run_op flt) ops ?g) ?g"
    "gr_hasValIdx (fold (run_op flt) ops ?g) = idx"
    unfolding idx by blast+
  have same: "same_cells ?g ?init" by (simp add: same_cells_def grid_init_def Let_def)
  have cell: "get_cell xy (fold (run_op flt) ops ?g) = {v. \<exists>gb hits. kept idx ops gb hits v \<and> xy \<in> placed flt ?init gb hits}" for xy
  proof -
    have cells: "gr_cells (fold (run_op flt) ops ?g) xy = {v. xy \<in> cells_of flt ?g idx ops v}" using t(1) unfolding tracks_def by blast
    have "\<not> idx \<Longrightarrow> gr_removed (fold (run_op flt) ops ?g) = {v. Grid_remove v \<in> set ops}" using t(1,3) by (simp add: tracks_def)
    then show ?thesis
      using t(3) placed_same [OF same, of flt] unfolding get_cell_def cells by (cases idx) (auto simp: cells_of_def kept_always)
  qed
  show ?thesis
    using box_cells_same [OF same_cells_trans [OF t(2) same], of flt] unfolding grid_get_def cell by auto
qed

text \<open>
  C21: whatever was added and removed in whatever order, a query returns exactly the values that were put into some cell that the box
  covers and are still there: with an index of values, those that were not removed since; with a set of removed ones, those that
  are never removed.
\<close>

theorem grid_get_exact:
  fixes ops :: "'v grid_op list"
  shows "grid_get flt b (fold (run_op flt) ops (grid_init w h bb idx)) =
    {v. \<exists>gb hits. kept idx ops gb hits v \<and>
       placed flt (grid_init w h bb True :: 'v grid) gb hits \<inter> set (box_cells flt (grid_init w h bb True :: 'v grid) b) \<noteq> {}}"
  by (rule grid_get_ops)

section \<open>Points are found\<close>

lemma cell_mono:
  assumes "mono flt" "0 < gr_cellWidth g" "0 < gr_cellHeight g"
  shows "x \<le> x' \<Longrightarrow> getCellXFromX flt g x \<le> getCellXFromX flt g x'" "y \<le> y' \<Longrightarrow> getCellYFromY flt g y \<le> getCellYFromY flt g y'"
proof -
  have step: "nat \<lfloor>(if flt a < 0 then 0 else flt a) / c\<rfloor> \<le> nat \<lfloor>(if flt b < 0 then 0 else flt b) / c\<rfloor>" if "a \<le> b" "0 < c" for a b c :: rat
    using monoD [OF assms(1) that(1)] that(2) by (intro nat_mono floor_mono divide_right_mono) auto
  show "x \<le> x' \<Longrightarrow> getCellXFromX flt g x \<le> getCellXFromX flt g x'"
    using step [of "x - getX (getLowerLeft (gr_bb g))" "x' - getX (getLowerLeft (gr_bb g))" "gr_cellWidth g"] assms(2) by (simp add: getCellXFromX_def Let_def)
  show "y \<le> y' \<Longrightarrow> getCellYFromY flt g y \<le> getCellYFromY flt g y'"
    using step [of "y - getY (getLowerLeft (gr_bb g))" "y' - getY (getLowerLeft (gr_bb g))" "gr_cellHeight g"] assms(3) by (simp add: getCellYFromY_def Let_def)
qed

text \<open>One axis: the cell of an offset lies in the grid and around the offset.\<close>

lemma axis_cell:
  fixes d c width fd :: rat
  assumes "0 < c" "0 \<le> d" "d < width" "\<lfloor>fd / c\<rfloor> = \<lfloor>d / c\<rfloor>"
  defines "i \<equiv> nat \<lfloor>(if fd < 0 then 0 else fd) / c\<rfloor>"
  shows "i < nat \<lceil>width / c\<rceil>" "of_nat i * c \<le> d" "d \<le> of_nat (i + 1) * c"
proof -
  have pos: "0 \<le> \<lfloor>d / c\<rfloor>" using assms(1,2) by simp
  have "0 \<le> fd" using pos assms(1) unfolding assms(4) [symmetric] by (simp add: zero_le_divide_iff)
  then have i: "i = nat \<lfloor>d / c\<rfloor>" by (simp add: i_def assms(4))
  have "d / c < width / c" using assms(1,3) by (simp add: divide_strict_right_mono)
  then have "\<lfloor>d / c\<rfloor> < \<lceil>width / c\<rceil>" by linarith
  then show "i < nat \<lceil>width / c\<rceil>" using pos unfolding i by linarith
  have "of_nat i = (of_int \<lfloor>d / c\<rfloor> :: rat)" using pos by (simp add: i)
  then show "of_nat i * c \<le> d" "d \<le> of_nat (i + 1) * c"
    using floor_divide_lower [OF assms(1), of d] floor_divide_upper [OF assms(1), of d] by (simp_all add: add.commute)
qed

lemma grid_finds:
  fixes ps :: "(point \<times> 'v) list" and bb q :: box
  assumes "0 < w" "0 < h" "mono flt" "(p, v) \<in> set ps" "inside p q"
    and "inside p bb" "getX p < getX (getUpperRight bb)" "getY p < getY (getUpperRight bb)"
    and "\<lfloor>flt (getX p - getX (getLowerLeft bb)) / w\<rfloor> = \<lfloor>(getX p - getX (getLowerLeft bb)) / w\<rfloor>"
    and "\<lfloor>flt (getY p - getY (getLowerLeft bb)) / h\<rfloor> = \<lfloor>(getY p - getY (getLowerLeft bb)) / h\<rfloor>"
  shows "v \<in> grid_get flt q (fold (\<lambda>(p, v). grid_add_point flt p v) ps (grid_init w h bb idx))"
proof -
  let ?g = "grid_init w h bb True :: 'v grid" and ?ops = "map (\<lambda>(p, v). Grid_add (getBoundingBox_point p) (contains_point p) v) ps"
  let ?x = "getCellXFromX flt ?g (getX p)" and ?y = "getCellYFromY flt ?g (getY p)"
  have init: "gr_cellWidth ?g = w" "gr_cellHeight ?g = h" "gr_bb ?g = bb"
    "gr_xWidth ?g = nat \<lceil>(getX (getUpperRight bb) - getX (getLowerLeft bb)) / w\<rceil>"
    "gr_yHeight ?g = nat \<lceil>(getY (getUpperRight bb) - getY (getLowerLeft bb)) / h\<rceil>"
    using assms(1,2,6) by (auto simp: grid_init_def Let_def inside_def)
  have d: "0 \<le> getX p - getX (getLowerLeft bb)" "getX p - getX (getLowerLeft bb) < getX (getUpperRight bb) - getX (getLowerLeft bb)"
    "0 \<le> getY p - getY (getLowerLeft bb)" "getY p - getY (getLowerLeft bb) < getY (getUpperRight bb) - getY (getLowerLeft bb)"
    using assms(6-8) by (auto simp: inside_def)
  have x: "?x < gr_xWidth ?g" "of_nat ?x * w \<le> getX p - getX (getLowerLeft bb)" "getX p - getX (getLowerLeft bb) \<le> of_nat (?x + 1) * w"
    using axis_cell [OF assms(1) d(1,2) assms(9)] unfolding getCellXFromX_def Let_def init by blast+
  have y: "?y < gr_yHeight ?g" "of_nat ?y * h \<le> getY p - getY (getLowerLeft bb)" "getY p - getY (getLowerLeft bb) \<le> of_nat (?y + 1) * h"
    using axis_cell [OF assms(2) d(3,4) assms(10)] unfolding getCellYFromY_def Let_def init by blast+
  have "inside p (cell_box ?g ?x ?y)" using x(2,3) y(2,3) unfolding inside_def cell_box_def Let_def init by simp
  then have "(?x, ?y) \<in> placed flt ?g (getBoundingBox_point p) (contains_point p)"
    using x(1) y(1) inside_contains by (simp add: placed_def set_box_cells getBoundingBox_point_def)
  moreover have "(?x, ?y) \<in> set (box_cells flt ?g q)"
    using assms(1,2,5) x(1) y(1) cell_mono [OF assms(3), of ?g, unfolded init] by (simp add: set_box_cells inside_def)
  moreover have "Grid_add (getBoundingBox_point p) (contains_point p) v \<in> set ?ops" using assms(4) by force
  moreover have "Grid_remove u \<notin> set ?ops" for u by auto
  ultimately have "v \<in> grid_get flt q (fold (run_op flt) ?ops (grid_init w h bb idx))"
    unfolding grid_get_ops by (simp add: kept_adds) blast
  moreover have "fold (run_op flt) ?ops a = fold (\<lambda>(p, v). grid_add_point flt p v) ps a" for a
    by (induction ps arbitrary: a) (auto simp: grid_add_point_def)
  ultimately show ?thesis by simp
qed

text \<open>
  A query finds every point it covers: a point that lies in the area of the grid, not on its upper or right border, is found by every
  box that holds it, if the rounding to \<^verbatim>\<open>float\<close> is monotone and does not carry the point into another cell.
\<close>

theorem grid_finds_points:
  fixes ps :: "(point \<times> 'v) list" and bb q :: box
  assumes "0 < w" "0 < h" "mono flt" "(p, v) \<in> set ps" "inside p q"
    and "inside p bb" "getX p < getX (getUpperRight bb)" "getY p < getY (getUpperRight bb)"
    and "\<lfloor>flt (getX p - getX (getLowerLeft bb)) / w\<rfloor> = \<lfloor>(getX p - getX (getLowerLeft bb)) / w\<rfloor>"
    and "\<lfloor>flt (getY p - getY (getLowerLeft bb)) / h\<rfloor> = \<lfloor>(getY p - getY (getLowerLeft bb)) / h\<rfloor>"
  shows "v \<in> grid_get flt q (fold (\<lambda>(p, v). grid_add_point flt p v) ps (grid_init w h bb idx))"
  using assms by (rule grid_finds)

theorem grid_finds_points_witness:
  "(7 :: nat) \<in> grid_get (\<lambda>x. x) (Box (0, 0) (3, 2)) (fold (\<lambda>(p, v). grid_add_point (\<lambda>x. x) p v) [((1, 1), 6), ((2, 2), 7)] (grid_init 3 2 (Box (0, 0) (6, 6)) False))"
  using grid_finds_points [of 3 2 "\<lambda>x. x" "(2, 2)" 7 "[((1, 1), 6), ((2, 2), 7)]" "Box (0, 0) (3, 2)" "Box (0, 0) (6, 6)" False]
  by (simp add: inside_def mono_def)

text \<open>A point on the upper or right border of the area falls behind the last cell when the cells fill the area exactly.\<close>

lemma border_point_lost:
  "grid_get (\<lambda>x. x) (Box (0, 0) (6, 6)) (grid_add_point (\<lambda>x. x) (6, 1) (7 :: nat) (grid_init 3 3 (Box (0, 0) (6, 6)) False)) = {}"
  by code_simp

text \<open>
  From 524288 to 1048576 a \<^verbatim>\<open>float\<close> keeps sixteenths: a point just left of a cell border is put behind the border, where its cell does not
  contain it, and is in no cell at all.
\<close>

lemma rounded_point_lost:
  "grid_get (\<lambda>x. of_int \<lfloor>x * 16 + 1 / 2\<rfloor> / 16) (Box (0, 0) (1048576, 1048576))
     (grid_add_point (\<lambda>x. of_int \<lfloor>x * 16 + 1 / 2\<rfloor> / 16) (999999 + 98 / 100, 1) (7 :: nat) (grid_init 500000 500000 (Box (0, 0) (1048576, 1048576)) False)) = {}"
  by code_simp

text \<open>Without the index a value that was removed stays hidden when it is added again; with the index it comes back.\<close>

lemma removed_value_stays_hidden:
  defines "ops \<equiv> [Grid_add (getBoundingBox_point (1, 1)) (contains_point (1, 1)) (7 :: nat), Grid_remove 7,
    Grid_add (getBoundingBox_point (2, 2)) (contains_point (2, 2)) 7]"
  shows "grid_get (\<lambda>x. x) (Box (0, 0) (3, 3)) (fold (run_op (\<lambda>x. x)) ops (grid_init 3 3 (Box (0, 0) (6, 6)) False)) = {} \<and>
    grid_get (\<lambda>x. x) (Box (0, 0) (3, 3)) (fold (run_op (\<lambda>x. x)) ops (grid_init 3 3 (Box (0, 0) (6, 6)) True)) = {7}"
  unfolding ops_def by code_simp

end
