(* ===== verification/Node_Grid.thy ===== *)
theory Node_Grid
  imports Geo_Grid Tr_Graph
begin

text \<open>
  \<^verbatim>\<open>trgraph/{node_grid,edge_grid}\<close>: the spatial indexes of the transit graph and their queries.  \<open>mdist\<close> is the distance in meters,
  \<open>factor\<close> the scale of the projection at a point, \<open>dseg\<close> the distance of a point to a segment.
\<close>

section \<open>Nodes\<close>

type_synonym node_grid = "node_ref grid"
type_synonym edge_grid = "edge_ref grid"

definition geom_of :: "point tr_graph \<Rightarrow> node_ref \<Rightarrow> point" where
  "geom_of g n = np_geom (npl g n)"

definition build_node_grid :: "(rat \<Rightarrow> rat) \<Rightarrow> point tr_graph \<Rightarrow> nat \<Rightarrow> box \<Rightarrow> bool \<Rightarrow> node_grid" where
  "build_node_grid flt g sz webMercBox which =
     fold (\<lambda>n ret.
         if \<not> which \<and> getInDeg g n + getOutDeg g n = 1 then grid_add_point flt (geom_of g n) n ret
         else if which \<and> get_si (npl g n) \<noteq> None then grid_add_point flt (geom_of g n) n ret
         else ret)
       (graph_nodes g) (grid_init (of_nat sz) (of_nat sz) webMercBox False)"

text \<open>The box around a point that a query asks the grid for; the nodes come in the order of their addresses.\<close>

definition neighbours :: "(rat \<Rightarrow> rat) \<Rightarrow> (point \<Rightarrow> rat) \<Rightarrow> point \<Rightarrow> rat \<Rightarrow> nat grid \<Rightarrow> nat list" where
  "neighbours flt factor p d ng =
     sorted_list_of_set (grid_get flt (pad (getBoundingBox_point p) (d / factor p)) ng)"

text \<open>The loop that keeps the nearest of the accepted nodes.\<close>

definition nearest :: "(node_ref \<Rightarrow> bool) \<Rightarrow> (node_ref \<Rightarrow> rat) \<Rightarrow> rat \<Rightarrow> node_ref list \<Rightarrow> node_ref option" where
  "nearest accept dst d ns =
     fst (fold (\<lambda>n (ret, best_d).
         if accept n \<and> dst n < d \<and> dst n < best_d then (Some n, dst n) else (ret, best_d))
       ns (None, max_double))"

definition similar :: "point tr_graph \<Rightarrow> point node_payload \<Rightarrow> node_ref \<Rightarrow> bool" where
  "similar g s n \<longleftrightarrow> (case get_si (npl g n) of None \<Rightarrow> False | Some si \<Rightarrow> simi si (get_si s) = 1)"

definition get_matching_node ::
  "(rat \<Rightarrow> rat) \<Rightarrow> (point \<Rightarrow> rat) \<Rightarrow> (point \<Rightarrow> point \<Rightarrow> rat) \<Rightarrow> point tr_graph \<Rightarrow> node_grid \<Rightarrow> point node_payload \<Rightarrow> rat \<Rightarrow> node_ref option" where
  "get_matching_node flt factor mdist g ng s d =
     nearest (similar g s) (\<lambda>n. mdist (geom_of g n) (np_geom s)) d (neighbours flt factor (np_geom s) d ng)"

definition get_distance_matching_node ::
  "(rat \<Rightarrow> rat) \<Rightarrow> (point \<Rightarrow> rat) \<Rightarrow> (point \<Rightarrow> point \<Rightarrow> rat) \<Rightarrow> point tr_graph \<Rightarrow> node_grid \<Rightarrow> point node_payload \<Rightarrow> rat \<Rightarrow> node_ref option" where
  "get_distance_matching_node flt factor mdist g ng s d =
     nearest (\<lambda>n. get_si (npl g n) \<noteq> None) (\<lambda>n. mdist (geom_of g n) (np_geom s)) d (neighbours flt factor (np_geom s) d ng)"

definition get_matching_nodes ::
  "(rat \<Rightarrow> rat) \<Rightarrow> (point \<Rightarrow> rat) \<Rightarrow> (point \<Rightarrow> point \<Rightarrow> rat) \<Rightarrow> point tr_graph \<Rightarrow> node_grid \<Rightarrow> point node_payload \<Rightarrow> rat \<Rightarrow> node_ref set" where
  "get_matching_nodes flt factor mdist g ng s d =
     {n \<in> set (neighbours flt factor (np_geom s) d ng). similar g s n \<and> mdist (geom_of g n) (np_geom s) < d}"

section \<open>Edges\<close>

definition build_edge_grid :: "(rat \<Rightarrow> rat) \<Rightarrow> point tr_graph \<Rightarrow> nat \<Rightarrow> box \<Rightarrow> edge_grid" where
  "build_edge_grid flt g sz webMercBox =
     fold (\<lambda>n ret. fold (\<lambda>e ret. grid_add_line flt (ep_geom (epl g e)) e ret) (node_getAdjListOut g n) ret)
       (graph_nodes g) (grid_init (of_nat sz) (of_nat sz) webMercBox False)"

text \<open>The candidates in the order the queue yields them: the nearest first, of equally near ones the greatest address.\<close>

definition get_edge_candidates ::
  "(rat \<Rightarrow> rat) \<Rightarrow> (point \<Rightarrow> rat) \<Rightarrow> (point \<Rightarrow> point \<Rightarrow> point \<Rightarrow> rat) \<Rightarrow> point tr_graph \<Rightarrow> edge_grid \<Rightarrow> point \<Rightarrow> rat \<Rightarrow> (rat \<times> edge_ref) list" where
  "get_edge_candidates flt factor dseg g eg s d =
     (let dst = (\<lambda>e. dseg (geom_of g (edge_getFrom g e)) (geom_of g (edge_getTo g e)) s)
      in map (\<lambda>e. (- dst e, e)) (sort_key dst (rev (filter (\<lambda>e. dst e * factor s \<le> d) (neighbours flt factor s d eg)))))"

section \<open>The nearest matching node\<close>

lemma nearest_spec:
  "case nearest accept dst d ns of
     None \<Rightarrow> \<forall>n\<in>set ns. accept n \<and> dst n < d \<longrightarrow> max_double \<le> dst n
   | Some n \<Rightarrow> n \<in> set ns \<and> accept n \<and> dst n < d \<and> (\<forall>m\<in>set ns. accept m \<and> dst m < d \<longrightarrow> dst n \<le> dst m)"
proof -
  let ?step = "\<lambda>n (ret, best_d). if accept n \<and> dst n < d \<and> dst n < best_d then (Some n, dst n) else (ret, best_d)"
  have "case fold ?step ns (None, max_double) of
      (None, b) \<Rightarrow> b = max_double \<and> (\<forall>n\<in>set ns. accept n \<and> dst n < d \<longrightarrow> max_double \<le> dst n)
    | (Some n, b) \<Rightarrow> b = dst n \<and> dst n < max_double \<and> n \<in> set ns \<and> accept n \<and> dst n < d \<and> (\<forall>m\<in>set ns. accept m \<and> dst m < d \<longrightarrow> dst n \<le> dst m)"
  proof (induction ns rule: rev_induct)
    case (snoc n ns)
    obtain ret b where "fold ?step ns (None, max_double) = (ret, b)" by fastforce
    with snoc show ?case by (cases ret) (auto simp: not_less intro: order_trans less_imp_le)
  qed simp
  then show ?thesis unfolding nearest_def by (auto split: prod.splits option.splits)
qed

lemma build_node_grid_points:
  "build_node_grid flt g sz bb True =
     fold (\<lambda>(p, n). grid_add_point flt p n) (map (\<lambda>n. (geom_of g n, n)) (filter (\<lambda>n. get_si (npl g n) \<noteq> None) (graph_nodes g)))
       (grid_init (of_nat sz) (of_nat sz) bb False)"
proof -
  have "fold (\<lambda>n ret.
         if \<not> True \<and> getInDeg g n + getOutDeg g n = 1 then grid_add_point flt (geom_of g n) n ret
         else if True \<and> get_si (npl g n) \<noteq> None then grid_add_point flt (geom_of g n) n ret else ret) ns a =
      fold (\<lambda>(p, n). grid_add_point flt p n) (map (\<lambda>n. (geom_of g n, n)) (filter (\<lambda>n. get_si (npl g n) \<noteq> None) ns)) a" for ns a
    by (induction ns arbitrary: a) auto
  then show ?thesis unfolding build_node_grid_def .
qed

lemma grid_add_point_cells:
  "gr_cells (grid_add_point flt p v g) xy =
     gr_cells g xy \<union> (if xy \<in> placed flt g (getBoundingBox_point p) (contains_point p) then {v} else {})"
  using grid_add_cells [of flt "getBoundingBox_point p" "contains_point p" v g] unfolding grid_add_point_def by blast

lemma finite_grid_get: "(\<And>xy. finite (gr_cells g xy)) \<Longrightarrow> finite (grid_get flt b g)"
  unfolding grid_get_def get_cell_def by auto

lemma finite_cells_fold:
  assumes "\<And>xy. finite (gr_cells g xy)"
  shows "finite (gr_cells (fold (\<lambda>(p, n). grid_add_point flt p n) ps g) xy)"
  using assms
proof (induction ps arbitrary: g)
  case (Cons a ps)
  have "finite (gr_cells (grid_add_point flt (fst a) (snd a) g) xy)" for xy
    using Cons.prems by (simp add: grid_add_point_cells)
  from Cons.IH [OF this] show ?case by (simp add: split_beta)
qed simp

lemma cells_only_added:
  assumes "\<And>xy. gr_cells g xy \<subseteq> V"
  shows "gr_cells (fold (\<lambda>(p, n). grid_add_point flt p n) ps g) xy \<subseteq> V \<union> snd ` set ps"
  using assms
proof (induction ps arbitrary: g V)
  case (Cons a ps)
  have "gr_cells (grid_add_point flt (fst a) (snd a) g) xy \<subseteq> insert (snd a) V" for xy
    unfolding grid_add_point_cells using Cons.prems [of xy] by auto
  from Cons.IH [OF this] show ?case by (simp add: split_beta)
qed simp

lemma set_neighbours:
  fixes g :: "point tr_graph" and flt sz bb
  defines "ng \<equiv> build_node_grid flt g sz bb True"
  shows "set (neighbours flt factor p d ng) = grid_get flt (pad (getBoundingBox_point p) (d / factor p)) ng"
    and "set (neighbours flt factor p d ng) \<subseteq> {n \<in> set (graph_nodes g). get_si (npl g n) \<noteq> None}"
proof -
  have empty: "gr_cells (grid_init w h bb False) xy = {}" for w h and xy :: "nat \<times> nat" by (simp add: grid_init_def Let_def)
  let ?ps = "map (\<lambda>n. (geom_of g n, n)) (filter (\<lambda>n. get_si (npl g n) \<noteq> None) (graph_nodes g))"
  have "finite (gr_cells ng xy)" for xy unfolding ng_def build_node_grid_points by (rule finite_cells_fold) (simp add: empty)
  then show s: "set (neighbours flt factor p d ng) = grid_get flt (pad (getBoundingBox_point p) (d / factor p)) ng"
    using finite_grid_get [of ng] by (simp add: neighbours_def)
  have "gr_cells ng xy \<subseteq> {} \<union> snd ` set ?ps" for xy
    unfolding ng_def build_node_grid_points by (rule cells_only_added) (simp add: empty)
  then have "gr_cells ng xy \<subseteq> {n \<in> set (graph_nodes g). get_si (npl g n) \<noteq> None}" for xy by (auto simp: image_image)
  then show "set (neighbours flt factor p d ng) \<subseteq> {n \<in> set (graph_nodes g). get_si (npl g n) \<noteq> None}"
    unfolding s grid_get_def get_cell_def by auto
qed

text \<open>
  C22: for every station that is similar, nearer than the limit and inside the box of the query, that lies in the area of the grid and
  strictly left of its right and below its upper border, and that the rounding to \<^verbatim>\<open>float\<close> leaves in its cell, the query for a matching node returns a node of the graph that is similar, nearer than the limit, and at most as far away.
\<close>

theorem matching_node_nearest:
  fixes g :: "point tr_graph" and bb :: box and factor :: "point \<Rightarrow> rat"
  defines "q \<equiv> \<lambda>s d. pad (getBoundingBox_point (np_geom s)) (d / factor (np_geom s))"
  assumes "0 < sz" "mono flt" "d \<le> max_double"
    and "m \<in> set (graph_nodes g)" "similar g s m" "mdist (geom_of g m) (np_geom s) < d" "inside (geom_of g m) (q s d)"
    and "inside (geom_of g m) bb" "getX (geom_of g m) < getX (getUpperRight bb)" "getY (geom_of g m) < getY (getUpperRight bb)"
    and "\<lfloor>flt (getX (geom_of g m) - getX (getLowerLeft bb)) / of_nat sz\<rfloor> = \<lfloor>(getX (geom_of g m) - getX (getLowerLeft bb)) / of_nat sz\<rfloor>"
    and "\<lfloor>flt (getY (geom_of g m) - getY (getLowerLeft bb)) / of_nat sz\<rfloor> = \<lfloor>(getY (geom_of g m) - getY (getLowerLeft bb)) / of_nat sz\<rfloor>"
  shows "\<exists>n. get_matching_node flt factor mdist g (build_node_grid flt g sz bb True) s d = Some n \<and> n \<in> set (graph_nodes g) \<and> similar g s n \<and>
    mdist (geom_of g n) (np_geom s) < d \<and> mdist (geom_of g n) (np_geom s) \<le> mdist (geom_of g m) (np_geom s)"
proof -
  let ?ng = "build_node_grid flt g sz bb True" and ?dst = "\<lambda>n. mdist (geom_of g n) (np_geom s)"
  let ?ns = "neighbours flt factor (np_geom s) d ?ng"
  let ?ps = "map (\<lambda>n. (geom_of g n, n)) (filter (\<lambda>n. get_si (npl g n) \<noteq> None) (graph_nodes g))"
  have "get_si (npl g m) \<noteq> None" using assms(6) unfolding similar_def by (metis option.case(1))
  then have "(geom_of g m, m) \<in> set ?ps" using assms(5) by auto
  then have "m \<in> grid_get flt (q s d) ?ng"
    unfolding build_node_grid_points using assms(2,3,8-13) by (intro grid_finds [where p = "geom_of g m"]) simp_all
  then have m: "m \<in> set ?ns" unfolding set_neighbours(1) q_def .
  note spec = nearest_spec [where accept = "similar g s" and dst = ?dst and d = d and ns = ?ns]
  show ?thesis
  proof (cases "nearest (similar g s) ?dst d ?ns")
    case None
    then have "max_double \<le> ?dst m" using spec m assms(6,7) by simp
    then show ?thesis using assms(4,7) by simp
  next
    case (Some n)
    then have n: "n \<in> set ?ns" "similar g s n" "?dst n < d" "?dst n \<le> ?dst m" using spec m assms(6,7) by auto
    then have "n \<in> set (graph_nodes g)" using set_neighbours(2) by blast
    then show ?thesis using Some n unfolding get_matching_node_def by blast
  qed
qed

definition two_stations :: "point tr_graph" where
  "two_stations = snd (addNd (\<lparr>np_geom = (3, 3), np_si = Si (station_info_of ''Freiburg'' '''' True), np_component = None\<rparr>)
     (snd (addNd (\<lparr>np_geom = (1, 1), np_si = Si (station_info_of ''Freiburg'' '''' True), np_component = None\<rparr>) dir_graph_init)))"

theorem matching_node_nearest_witness:
  "\<exists>n. get_matching_node (\<lambda>x. x) (\<lambda>_. 1) (\<lambda>p q. \<bar>getX p - getX q\<bar> + \<bar>getY p - getY q\<bar>) two_stations
     (build_node_grid (\<lambda>x. x) two_stations 2 (Box (0, 0) (6, 6)) True)
     \<lparr>np_geom = (2, 2), np_si = Si (station_info_of ''Freiburg'' '''' False), np_component = None\<rparr> 3 = Some n"
proof -
  let ?s = "\<lparr>np_geom = (2, 2), np_si = Si (station_info_of ''Freiburg'' '''' False), np_component = None\<rparr> :: point node_payload"
  have "(1 :: rat) \<le> 2 ^ 971" by (rule one_le_power) simp
  then have max: "(3 :: rat) \<le> max_double" unfolding max_double_def by simp
  have facts: "1 \<in> set (graph_nodes two_stations)" "similar two_stations ?s 1" "geom_of two_stations 1 = (3, 3)" by code_simp+
  show ?thesis
    using matching_node_nearest [of 2 "\<lambda>x. x" 3 1 two_stations ?s "\<lambda>p q. \<bar>getX p - getX q\<bar> + \<bar>getY p - getY q\<bar>" "\<lambda>_. 1" "Box (0, 0) (6, 6)"]
      facts max by (auto simp: mono_def inside_def pad_def getBoundingBox_point_def)
qed

end
