(* ===== verification/Geo_Line.thy ===== *)
theory Geo_Line
  imports Geo "HOL-Library.Sublist"
begin

text \<open>
  \<^verbatim>\<open>util/geo/Geo.h\<close>: simplifying and densifying lines, and the distances of Frechet between two lines.  \<open>dst\<close> is the distance of two points and
  \<open>dseg\<close> that of a point to a segment.  The value \<^const>\<open>None\<close> is a call that does not return or that reads an empty line.
\<close>

section \<open>Simplification\<close>

definition farthest :: "(point \<Rightarrow> point \<Rightarrow> point \<Rightarrow> rat) \<Rightarrow> point list \<Rightarrow> rat \<times> nat" where
  "farthest dseg g =
     fold (\<lambda>i (maxd, maxi). (let dt = dseg (hd g) (last g) (g ! i) in if dt > maxd then (dt, i) else (maxd, maxi)))
       [1..<length g - 1] (0, 0)"

text \<open>The algorithm of Douglas and Peucker.  With a negative tolerance it calls itself on the whole line for ever.\<close>

partial_function (option) simplify :: "(point \<Rightarrow> point \<Rightarrow> point \<Rightarrow> rat) \<Rightarrow> rat \<Rightarrow> point list \<Rightarrow> point list option" where
  "simplify dseg d g =
     (if g = [] then None
      else if fst (farthest dseg g) > d
      then Option.bind (simplify dseg d (take (snd (farthest dseg g) + 1) g)) (\<lambda>a.
           Option.bind (simplify dseg d (drop (snd (farthest dseg g)) g)) (\<lambda>b. Some (a @ tl b)))
      else Some [hd g, last g])"

lemma farthest_spec:
  assumes "farthest dseg g = (maxd, maxi)"
  shows "0 \<le> maxd" "0 < maxd \<Longrightarrow> 1 \<le> maxi \<and> maxi < length g - 1"
    "\<And>i. 1 \<le> i \<Longrightarrow> i < length g - 1 \<Longrightarrow> dseg (hd g) (last g) (g ! i) \<le> maxd"
proof -
  let ?f = "\<lambda>i (maxd, maxi). (let dt = dseg (hd g) (last g) (g ! i) in if dt > maxd then (dt, i) else (maxd, maxi))"
  have "case fold ?f is (0, 0) of (maxd, maxi) \<Rightarrow> 0 \<le> maxd \<and> (0 < maxd \<longrightarrow> maxi \<in> set is) \<and> (\<forall>i\<in>set is. dseg (hd g) (last g) (g ! i) \<le> maxd)" for "is"
  proof (induction "is" rule: rev_induct)
    case (snoc i "is")
    obtain maxd maxi where "fold ?f is (0, 0) = (maxd, maxi)" by fastforce
    with snoc show ?case by (auto simp: Let_def)
  qed simp
  from this [of "[1..<length g - 1]"] show "0 \<le> maxd" "0 < maxd \<Longrightarrow> 1 \<le> maxi \<and> maxi < length g - 1"
    "\<And>i. 1 \<le> i \<Longrightarrow> i < length g - 1 \<Longrightarrow> dseg (hd g) (last g) (g ! i) \<le> maxd"
    using assms by (auto simp: farthest_def)
qed

text \<open>A point lies along a line within a tolerance.\<close>

fun along :: "(point \<Rightarrow> point \<Rightarrow> point \<Rightarrow> rat) \<Rightarrow> rat \<Rightarrow> point list \<Rightarrow> point \<Rightarrow> bool" where
  "along dseg d (a # b # l) p \<longleftrightarrow> p = a \<or> p = b \<or> dseg a b p \<le> d \<or> along dseg d (b # l) p"
| "along dseg d _ p \<longleftrightarrow> False"

lemma along_append1: "along dseg d a p \<Longrightarrow> along dseg d (a @ b) p"
  by (induction dseg d a p rule: along.induct) auto

lemma along_append2: "along dseg d b p \<Longrightarrow> along dseg d (a @ b) p"
proof (induction a)
  case (Cons x a)
  then show ?case by (cases "a @ b") auto
qed simp

lemma along_join:
  assumes "a \<noteq> []" "b \<noteq> []" "last a = hd b" "along dseg d a p \<or> along dseg d b p"
  shows "along dseg d (a @ tl b) p"
proof -
  have "a @ tl b = butlast a @ b" using assms(1-3) by (metis append.assoc append_Cons append_Nil append_butlast_last_id list.collapse)
  then show ?thesis using assms(4) along_append1 along_append2 by metis
qed

definition simplified :: "(point \<Rightarrow> point \<Rightarrow> point \<Rightarrow> rat) \<Rightarrow> rat \<Rightarrow> point list \<Rightarrow> point list \<Rightarrow> bool" where
  "simplified dseg d g r \<longleftrightarrow> 2 \<le> length r \<and> hd r = hd g \<and> last r = last g \<and> (2 \<le> length g \<longrightarrow> subseq r g) \<and> (\<forall>p\<in>set g. along dseg d r p)"

lemma simplify_simplified:
  assumes "0 \<le> d" "g \<noteq> []"
  shows "\<exists>r. simplify dseg d g = Some r \<and> simplified dseg d g r"
  using assms(2)
proof (induction g rule: length_induct)
  case (1 g)
  obtain maxd m where f: "farthest dseg g = (maxd, m)" by fastforce
  note spec = farthest_spec [OF f]
  show ?case
  proof (cases "maxd > d")
    case True
    then have m: "1 \<le> m" "m < length g - 1" using spec(2) assms(1) by auto
    let ?l = "take (m + 1) g" and ?r = "drop m g"
    have lens: "length ?l < length g" "length ?r < length g" "2 \<le> length ?l" "2 \<le> length ?r" "?l \<noteq> []" "?r \<noteq> []" using m by auto
    obtain a where a: "simplify dseg d ?l = Some a" "simplified dseg d ?l a" using "1.IH" lens(1,5) by blast
    obtain b where b: "simplify dseg d ?r = Some b" "simplified dseg d ?r b" using "1.IH" lens(2,6) by blast
    have mid: "last ?l = g ! m" "hd ?r = g ! m" using m by (simp_all add: take_Suc_conv_app_nth hd_drop_conv_nth)
    note sa = a(2) [unfolded simplified_def] and sb = b(2) [unfolded simplified_def]
    have ne: "a \<noteq> []" "b \<noteq> []" "tl b \<noteq> []" using sa sb by (auto simp: tl_Nil)
    have "simplify dseg d g = Some (a @ tl b)" using "1.prems" f True a(1) b(1) by (subst simplify.simps) simp
    moreover have "hd (a @ tl b) = hd g" "last (a @ tl b) = last g"
      using sa sb ne m by (simp_all add: last_tl)
    moreover have "subseq (a @ tl b) g"
    proof -
      have "?r = g ! m # drop (Suc m) g" using m by (simp add: Cons_nth_drop_Suc)
      moreover have "b = g ! m # tl b" using sb mid ne(2) by (metis list.collapse)
      ultimately have "subseq (tl b) (drop (Suc m) g)" using sb lens(4) by (metis subseq_Cons2')
      then have "subseq (a @ tl b) (take (m + 1) g @ drop (m + 1) g)" using sa lens(3) by (intro list_emb_append_mono) simp_all
      then show ?thesis by simp
    qed
    moreover have "along dseg d (a @ tl b) p" if "p \<in> set g" for p
    proof -
      have "p \<in> set ?l \<or> p \<in> set ?r" using that set_append [of "take m g" ?r] set_take_subset_set_take [of m "m + 1" g] by auto
      then have "along dseg d a p \<or> along dseg d b p" using sa sb by blast
      moreover have "last a = hd b" using sa sb mid by simp
      ultimately show ?thesis using along_join [OF ne(1,2)] by blast
    qed
    moreover have "2 \<le> length (a @ tl b)" using sa by simp
    ultimately show ?thesis unfolding simplified_def by blast
  next
    case False
    have "simplify dseg d g = Some [hd g, last g]" using "1.prems" f False by (subst simplify.simps) simp
    moreover have "along dseg d [hd g, last g] p" if p: "p \<in> set g" for p
    proof -
      obtain i where "i < length g \<and> g ! i = p" using p unfolding in_set_conv_nth by blast
      then have i: "i < length g" "p = g ! i" by auto
      consider "i = 0" | "i = length g - 1" | "1 \<le> i" "i < length g - 1" using i(1) by linarith
      then show ?thesis
      proof cases
        case 1
        then show ?thesis using i "1.prems" by (simp add: hd_conv_nth)
      next
        case 2
        then show ?thesis using i "1.prems" by (simp add: last_conv_nth)
      next
        case 3
        then show ?thesis using spec(3) [of i] False i(2) by auto
      qed
    qed
    moreover have "subseq [hd g, last g] g" if "2 \<le> length g"
    proof -
      have "g = hd g # butlast (tl g) @ [last g]" using that by (cases g) (auto simp: append_butlast_last_id)
      then show ?thesis by (metis subseq_Cons2 list_emb_append2 subseq_order.refl)
    qed
    ultimately show ?thesis unfolding simplified_def by simp
  qed
qed

text \<open>
  C23: simplifying a line that is not empty with a tolerance that is not negative returns; the result begins and ends as the line, is a
  subsequence of it when the line has two points or more, and every point of the line is one of its points or within the tolerance of one of its segments.
\<close>

theorem simplify_within:
  assumes "0 \<le> d" "g \<noteq> []"
  shows "\<exists>r. simplify dseg d g = Some r \<and> hd r = hd g \<and> last r = last g \<and> (2 \<le> length g \<longrightarrow> subseq r g) \<and> (\<forall>p\<in>set g. along dseg d r p)"
  using simplify_simplified [OF assms] unfolding simplified_def by blast

theorem simplify_within_witness:
  "\<exists>r. simplify (\<lambda>a b p. \<bar>getY p - getY a\<bar>) 1 [(0, 0), (1, 1 / 2), (2, 5), (3, 0)] = Some r \<and> subseq r [(0, 0), (1, 1 / 2), (2, 5), (3, 0)]"
  using simplify_within [of 1 "[(0, 0), (1, 1 / 2), (2, 5), (3, 0)]" "\<lambda>a b p. \<bar>getY p - getY a\<bar>"] by auto

section \<open>Densifying\<close>

text \<open>The points put between two points at the distances \<open>curd\<close>, \<open>curd + d\<close>, ...\<close>

partial_function (option) densify_seg :: "point \<Rightarrow> point \<Rightarrow> rat \<Rightarrow> rat \<Rightarrow> rat \<Rightarrow> point list option" where
  "densify_seg a b segd d curd =
     (if curd < segd
      then Option.bind (densify_seg a b segd d (curd + d))
        (\<lambda>r. Some ((getX a + (getX b - getX a) / segd * curd, getY a + (getY b - getY a) / segd * curd) # r))
      else Some [])"

fun densify_from :: "(point \<Rightarrow> point \<Rightarrow> rat) \<Rightarrow> rat \<Rightarrow> point list \<Rightarrow> point list option" where
  "densify_from dst d (a # b # l) =
     Option.bind (densify_seg a b (dst a b) d d) (\<lambda>s. Option.bind (densify_from dst d (b # l)) (\<lambda>r. Some (s @ b # r)))"
| "densify_from dst d _ = Some []"

definition densify :: "(point \<Rightarrow> point \<Rightarrow> rat) \<Rightarrow> rat \<Rightarrow> point list \<Rightarrow> point list option" where
  "densify dst d l = (if l = [] then Some [] else map_option (Cons (hd l)) (densify_from dst d l))"

lemma densify_seg_returns:
  assumes "0 < d"
  shows "\<exists>r. densify_seg a b segd d curd = Some r"
proof (induction "nat \<lceil>(segd - curd) / d\<rceil>" arbitrary: curd rule: less_induct)
  case less
  show ?case
  proof (cases "curd < segd")
    case True
    have "(segd - (curd + d)) / d = (segd - curd) / d - 1" using assms by (simp add: field_simps)
    moreover have "0 < (segd - curd) / d" using True assms by simp
    ultimately have "nat \<lceil>(segd - (curd + d)) / d\<rceil> < nat \<lceil>(segd - curd) / d\<rceil>" by simp
    then show ?thesis using less True by (subst densify_seg.simps) fastforce
  next
    case False
    then show ?thesis by (subst densify_seg.simps) simp
  qed
qed

lemma densify_from_returns:
  assumes "0 < d"
  shows "\<exists>r. densify_from dst d l = Some r \<and> subseq (tl l) r"
proof (induction l rule: induct_list012)
  case (3 a b l)
  obtain s where s: "densify_seg a b (dst a b) d d = Some s" using densify_seg_returns [OF assms] by blast
  obtain r where r: "densify_from dst d (b # l) = Some r" "subseq l r" using 3(2) by auto
  then have "subseq (b # l) (s @ b # r)" by (simp add: list_emb_append2)
  then show ?case using s r(1) by simp
qed simp_all

lemma densify_returns:
  assumes "0 < d"
  shows "\<exists>r. densify dst d l = Some r \<and> subseq l r \<and> (l \<noteq> [] \<longrightarrow> r \<noteq> [])"
  using densify_from_returns [OF assms, of dst l] by (cases l) (auto simp: densify_def)

section \<open>The discrete distance of Frechet\<close>

text \<open>
  The recursion fills a table of the values it has computed; an entry that is not greater than -1 counts as empty.  In what order
  the arguments of \<^verbatim>\<open>min\<close> are computed changes no value.
\<close>

function frechetDistC ::
  "(point \<Rightarrow> point \<Rightarrow> rat) \<Rightarrow> point list \<Rightarrow> point list \<Rightarrow> nat \<Rightarrow> nat \<Rightarrow> (nat \<times> nat \<Rightarrow> rat) \<Rightarrow> rat \<times> (nat \<times> nat \<Rightarrow> rat)" where
  "frechetDistC dst p q i j ca =
     (if ca (i, j) > -1 then (ca (i, j), ca)
      else if i = 0 \<and> j = 0 then (let v = dst (p ! 0) (q ! 0) in (v, ca((i, j) := v)))
      else if i > 0 \<and> j = 0
      then (let (a, ca) = frechetDistC dst p q (i - 1) 0 ca; v = max a (dst (p ! i) (q ! 0)) in (v, ca((i, j) := v)))
      else if i = 0 \<and> j > 0
      then (let (a, ca) = frechetDistC dst p q 0 (j - 1) ca; v = max a (dst (p ! 0) (q ! j)) in (v, ca((i, j) := v)))
      else
        (let (a, ca) = frechetDistC dst p q (i - 1) j ca; (b, ca) = frechetDistC dst p q (i - 1) (j - 1) ca;
             (c, ca) = frechetDistC dst p q i (j - 1) ca; v = max (min (min a b) c) (dst (p ! i) (q ! j))
         in (v, ca((i, j) := v))))"
  by pat_completeness auto
termination by (relation "measure (\<lambda>(dst, p, q, i, j, ca). i + j)") auto

declare frechetDistC.simps [simp del]

definition frechet_distance :: "(point \<Rightarrow> point \<Rightarrow> rat) \<Rightarrow> point list \<Rightarrow> point list \<Rightarrow> rat \<Rightarrow> rat option" where
  "frechet_distance dst a b d =
     Option.bind (densify dst d a) (\<lambda>p. Option.bind (densify dst d b) (\<lambda>q.
       if p = [] \<or> q = [] then None
       else Some (fst (frechetDistC dst p q (length p - 1) (length q - 1) (\<lambda>_. -1)))))"

text \<open>The recursion without the table.\<close>

fun frechet_rec :: "(point \<Rightarrow> point \<Rightarrow> rat) \<Rightarrow> point list \<Rightarrow> point list \<Rightarrow> nat \<Rightarrow> nat \<Rightarrow> rat" where
  "frechet_rec dst p q 0 0 = dst (p ! 0) (q ! 0)"
| "frechet_rec dst p q (Suc i) 0 = max (frechet_rec dst p q i 0) (dst (p ! Suc i) (q ! 0))"
| "frechet_rec dst p q 0 (Suc j) = max (frechet_rec dst p q 0 j) (dst (p ! 0) (q ! Suc j))"
| "frechet_rec dst p q (Suc i) (Suc j) =
     max (min (min (frechet_rec dst p q i (Suc j)) (frechet_rec dst p q i j)) (frechet_rec dst p q (Suc i) j)) (dst (p ! Suc i) (q ! Suc j))"

definition coherent :: "(point \<Rightarrow> point \<Rightarrow> rat) \<Rightarrow> point list \<Rightarrow> point list \<Rightarrow> (nat \<times> nat \<Rightarrow> rat) \<Rightarrow> bool" where
  "coherent dst p q ca \<longleftrightarrow> (\<forall>i j. ca (i, j) > -1 \<longrightarrow> ca (i, j) = frechet_rec dst p q i j)"

lemma coherent_upd: "coherent dst p q ca \<Longrightarrow> v = frechet_rec dst p q i j \<Longrightarrow> coherent dst p q (ca((i, j) := v))"
  by (auto simp: coherent_def)

lemma frechetDistC_coherent:
  assumes "coherent dst p q ca"
  shows "fst (frechetDistC dst p q i j ca) = frechet_rec dst p q i j \<and> coherent dst p q (snd (frechetDistC dst p q i j ca))"
  using assms
proof (induction "i + j" arbitrary: i j ca rule: less_induct)
  case less
  show ?case
  proof (cases "ca (i, j) > -1")
    case True
    then show ?thesis using less.prems by (subst (1 2) frechetDistC.simps) (simp add: coherent_def)
  next
    case False
    have IH: "\<exists>ca'. frechetDistC dst p q i' j' ca = (frechet_rec dst p q i' j', ca') \<and> coherent dst p q ca'"
      if "i' + j' < i + j" "coherent dst p q ca" for i' j' ca
      using less.hyps [OF that(1,2)] by (metis prod.collapse)
    consider "i = 0" "j = 0" | i' where "i = Suc i'" "j = 0" | j' where "i = 0" "j = Suc j'" | i' j' where "i = Suc i'" "j = Suc j'"
      by (cases i; cases j) auto
    then show ?thesis
    proof cases
      case 1
      then show ?thesis using False less.prems by (subst (1 2) frechetDistC.simps) (simp add: Let_def coherent_upd)
    next
      case 2
      obtain ca1 where "frechetDistC dst p q i' 0 ca = (frechet_rec dst p q i' 0, ca1)" "coherent dst p q ca1" using IH [of i' 0 ca] 2 less.prems by auto
      then show ?thesis using False 2 by (subst (1 2) frechetDistC.simps) (simp add: Let_def coherent_upd)
    next
      case 3
      obtain ca1 where "frechetDistC dst p q 0 j' ca = (frechet_rec dst p q 0 j', ca1)" "coherent dst p q ca1" using IH [of 0 j' ca] 3 less.prems by auto
      then show ?thesis using False 3 by (subst (1 2) frechetDistC.simps) (simp add: Let_def coherent_upd)
    next
      case 4
      obtain ca1 where a: "frechetDistC dst p q i' j ca = (frechet_rec dst p q i' j, ca1)" "coherent dst p q ca1" using IH [of i' j ca] 4 less.prems by auto
      obtain ca2 where b: "frechetDistC dst p q i' j' ca1 = (frechet_rec dst p q i' j', ca2)" "coherent dst p q ca2" using IH [of i' j' ca1] 4 a(2) by auto
      obtain ca3 where c: "frechetDistC dst p q i j' ca2 = (frechet_rec dst p q i j', ca3)" "coherent dst p q ca3" using IH [of i j' ca2] 4 b(2) by auto
      show ?thesis using False 4 a(1) b(1) c by (subst (1 2) frechetDistC.simps) (simp add: Let_def coherent_upd)
    qed
  qed
qed

text \<open>Walking both lines from their first points in steps of at most one point, the two never being farther apart than \<open>r\<close>.\<close>

inductive coupled :: "(point \<Rightarrow> point \<Rightarrow> rat) \<Rightarrow> point list \<Rightarrow> point list \<Rightarrow> rat \<Rightarrow> nat \<Rightarrow> nat \<Rightarrow> bool" for dst p q r where
  coupled_start: "dst (p ! 0) (q ! 0) \<le> r \<Longrightarrow> coupled dst p q r 0 0"
| coupled_first: "coupled dst p q r i j \<Longrightarrow> dst (p ! Suc i) (q ! j) \<le> r \<Longrightarrow> coupled dst p q r (Suc i) j"
| coupled_second: "coupled dst p q r i j \<Longrightarrow> dst (p ! i) (q ! Suc j) \<le> r \<Longrightarrow> coupled dst p q r i (Suc j)"
| coupled_both: "coupled dst p q r i j \<Longrightarrow> dst (p ! Suc i) (q ! Suc j) \<le> r \<Longrightarrow> coupled dst p q r (Suc i) (Suc j)"

inductive_simps coupled_00: "coupled dst p q r 0 0"
inductive_simps coupled_S0: "coupled dst p q r (Suc i) 0"
inductive_simps coupled_0S: "coupled dst p q r 0 (Suc j)"
inductive_simps coupled_SS: "coupled dst p q r (Suc i) (Suc j)"

lemmas coupled_simps = coupled_00 coupled_S0 coupled_0S coupled_SS

lemma frechet_rec_coupled: "frechet_rec dst p q i j \<le> r \<longleftrightarrow> coupled dst p q r i j"
  by (induction dst p q i j rule: frechet_rec.induct) (auto simp: coupled_simps min_le_iff_disj)

text \<open>
  C24: for a positive step and lines that are not empty, the computation of the distance of two lines returns; it densifies both lines without losing
  a point, and its value is the least distance that suffices to walk along both from end to end.  The table changes no value.
\<close>

theorem frechet_distance_least:
  assumes "0 < d" "a \<noteq> []" "b \<noteq> []"
  shows "\<exists>p q v. densify dst d a = Some p \<and> subseq a p \<and> densify dst d b = Some q \<and> subseq b q \<and> frechet_distance dst a b d = Some v \<and>
    (\<forall>r. v \<le> r \<longleftrightarrow> coupled dst p q r (length p - 1) (length q - 1))"
proof -
  obtain p q where pq: "densify dst d a = Some p" "subseq a p" "p \<noteq> []" "densify dst d b = Some q" "subseq b q" "q \<noteq> []"
    using densify_returns [OF assms(1), of dst a] densify_returns [OF assms(1), of dst b] assms(2,3) by blast
  let ?v = "frechet_rec dst p q (length p - 1) (length q - 1)"
  have "coherent dst p q (\<lambda>_. -1)" by (simp add: coherent_def)
  then have "frechet_distance dst a b d = Some ?v"
    using frechetDistC_coherent [of dst p q] pq by (simp add: frechet_distance_def)
  then show ?thesis using pq frechet_rec_coupled by blast
qed

theorem frechet_distance_least_witness:
  "\<exists>v. frechet_distance (\<lambda>p q. \<bar>getX p - getX q\<bar> + \<bar>getY p - getY q\<bar>) [(0, 0), (2, 0)] [(0, 1), (2, 1)] 1 = Some v"
  using frechet_distance_least [of 1 "[(0, 0), (2, 0)]" "[(0, 1), (2, 1)]" "\<lambda>p q. \<bar>getX p - getX q\<bar> + \<bar>getY p - getY q\<bar>"] by auto

section \<open>The accumulated distance\<close>

text \<open>Infinity is \<^const>\<open>None\<close>.\<close>

fun omin :: "rat option \<Rightarrow> rat option \<Rightarrow> rat option" where
  "omin None b = b"
| "omin (Some a) None = Some a"
| "omin (Some a) (Some b) = Some (min a b)"

definition acc_weight :: "(point \<Rightarrow> point \<Rightarrow> rat) \<Rightarrow> point list \<Rightarrow> point list \<Rightarrow> nat \<Rightarrow> nat \<Rightarrow> rat" where
  "acc_weight dst p q i j = dst (p ! i) (q ! j) * dst (p ! i) (p ! (i - 1))"

definition acc_cell ::
  "(point \<Rightarrow> point \<Rightarrow> rat) \<Rightarrow> point list \<Rightarrow> point list \<Rightarrow> nat \<Rightarrow> nat \<Rightarrow> (nat \<times> nat \<Rightarrow> rat option) \<Rightarrow> nat \<times> nat \<Rightarrow> rat option" where
  "acc_cell dst p q i j ca =
     ca((i, j) := map_option ((+) (acc_weight dst p q i j)) (omin (ca (i - 1, j)) (omin (ca (i, j - 1)) (ca (i - 1, j - 1)))))"

definition acc_init :: "nat \<times> nat \<Rightarrow> rat option" where
  "acc_init = (\<lambda>(i, j). if i = 0 \<and> j = 0 then Some 0 else if i = 0 \<or> j = 0 then None else Some 0)"

definition acc_table :: "(point \<Rightarrow> point \<Rightarrow> rat) \<Rightarrow> point list \<Rightarrow> point list \<Rightarrow> nat \<times> nat \<Rightarrow> rat option" where
  "acc_table dst p q =
     fold (\<lambda>i. fold (\<lambda>j. acc_cell dst p q i j) [1..<length q]) [1..<length p] acc_init"

definition accFrechetDistC :: "(point \<Rightarrow> point \<Rightarrow> rat) \<Rightarrow> point list \<Rightarrow> point list \<Rightarrow> rat \<Rightarrow> rat option option" where
  "accFrechetDistC dst a b d =
     Option.bind (densify dst d a) (\<lambda>p. Option.bind (densify dst d b) (\<lambda>q.
       if p = [] \<or> q = [] then None else Some (acc_table dst p q (length p - 1, length q - 1))))"

text \<open>Walking both lines, paying for every pair of points after the first; no pair but the first uses a first point.\<close>

inductive warp :: "(point \<Rightarrow> point \<Rightarrow> rat) \<Rightarrow> point list \<Rightarrow> point list \<Rightarrow> rat \<Rightarrow> nat \<Rightarrow> nat \<Rightarrow> bool" for dst p q where
  warp_start: "warp dst p q 0 0 0"
| warp_first: "warp dst p q c i (Suc j) \<Longrightarrow> warp dst p q (acc_weight dst p q (Suc i) (Suc j) + c) (Suc i) (Suc j)"
| warp_second: "warp dst p q c (Suc i) j \<Longrightarrow> warp dst p q (acc_weight dst p q (Suc i) (Suc j) + c) (Suc i) (Suc j)"
| warp_both: "warp dst p q c i j \<Longrightarrow> warp dst p q (acc_weight dst p q (Suc i) (Suc j) + c) (Suc i) (Suc j)"

inductive_cases warp_00: "warp dst p q c 0 0"
inductive_cases warp_S0: "warp dst p q c (Suc i) 0"
inductive_cases warp_0S: "warp dst p q c 0 (Suc j)"
inductive_cases warp_SS: "warp dst p q c (Suc i) (Suc j)"

definition least_warp :: "(point \<Rightarrow> point \<Rightarrow> rat) \<Rightarrow> point list \<Rightarrow> point list \<Rightarrow> nat \<Rightarrow> nat \<Rightarrow> rat option \<Rightarrow> bool" where
  "least_warp dst p q i j v \<longleftrightarrow>
     (case v of None \<Rightarrow> \<forall>c. \<not> warp dst p q c i j | Some v \<Rightarrow> warp dst p q v i j \<and> (\<forall>c. warp dst p q c i j \<longrightarrow> v \<le> c))"

lemma least_warp_border: "i = 0 \<or> j = 0 \<Longrightarrow> least_warp dst p q i j (acc_init (i, j))"
  by (cases i; cases j) (auto simp: least_warp_def acc_init_def intro: warp_start elim: warp_00 warp_S0 warp_0S)

lemma omin_least:
  assumes "case a of None \<Rightarrow> \<forall>c. \<not> P c | Some v \<Rightarrow> P v \<and> (\<forall>c. P c \<longrightarrow> v \<le> c)"
    and "case b of None \<Rightarrow> \<forall>c. \<not> Q c | Some v \<Rightarrow> Q v \<and> (\<forall>c. Q c \<longrightarrow> v \<le> c)"
  shows "case omin a b of None \<Rightarrow> \<forall>c. \<not> (P c \<or> Q c) | Some v \<Rightarrow> (P v \<or> Q v) \<and> (\<forall>c. P c \<or> Q c \<longrightarrow> v \<le> (c :: rat))"
  using assms by (cases a; cases b) (auto simp: min_def dest: order_trans split: if_splits)

lemma least_warp_step:
  assumes "least_warp dst p q i (Suc j) a" "least_warp dst p q (Suc i) j b" "least_warp dst p q i j c"
  shows "least_warp dst p q (Suc i) (Suc j) (map_option ((+) (acc_weight dst p q (Suc i) (Suc j))) (omin a (omin b c)))"
proof -
  let ?P = "\<lambda>x. warp dst p q x i (Suc j) \<or> warp dst p q x (Suc i) j \<or> warp dst p q x i j"
  have o': "case omin a (omin b c) of None \<Rightarrow> \<forall>x. \<not> ?P x | Some v \<Rightarrow> ?P v \<and> (\<forall>x. ?P x \<longrightarrow> v \<le> x)"
    using omin_least [OF assms(1) [unfolded least_warp_def] omin_least [OF assms(2,3) [unfolded least_warp_def]]] .
  have w: "warp dst p q x (Suc i) (Suc j) \<longleftrightarrow> (\<exists>y. x = acc_weight dst p q (Suc i) (Suc j) + y \<and> ?P y)" for x
    by (auto intro: warp_first warp_second warp_both elim!: warp_SS)
  show ?thesis unfolding least_warp_def w using o' by (cases "omin a (omin b c)") auto
qed

lemma acc_table_least:
  assumes "i < length p" "j < length q"
  shows "least_warp dst p q i j (acc_table dst p q (i, j))"
proof -
  define ok where "ok = (\<lambda>k l ca. \<forall>i j. (i = 0 \<or> j = 0 \<or> i < k \<or> i = k \<and> j < l) \<longrightarrow> i < length p \<longrightarrow> j < length q \<longrightarrow> least_warp dst p q i j (ca (i, j)))"
  have cell: "ok k (Suc l) (acc_cell dst p q k l ca)" if h: "ok k l ca" "1 \<le> k" "1 \<le> l" "k < length p" "l < length q" for k l ca
  proof -
    obtain k' l' where kl: "k = Suc k'" "l = Suc l'" using h(2,3) by (cases k; cases l) auto
    have "least_warp dst p q k' l (ca (k', l))" "least_warp dst p q k l' (ca (k, l'))" "least_warp dst p q k' l' (ca (k', l'))"
      using h(1,4,5) unfolding ok_def kl by auto
    then have "least_warp dst p q k l (acc_cell dst p q k l ca (k, l))"
      using least_warp_step [of dst p q k' l'] unfolding kl by (simp add: acc_cell_def)
    then show ?thesis using h(1) unfolding ok_def by (auto simp: acc_cell_def less_Suc_eq)
  qed
  have row: "ok k (Suc l) (fold (\<lambda>j. acc_cell dst p q k j) [1..<Suc l] ca)" if h: "ok k 1 ca" "1 \<le> k" "k < length p" "l < length q" for k l ca
    using h(4)
  proof (induction l)
    case 0
    then show ?case using h(1) by simp
  next
    case (Suc l)
    then show ?case using cell [of k "Suc l"] h(2,3) by simp
  qed
  have shift: "ok (Suc k) 1 ca" if h: "ok k (length q) ca" for k ca
    unfolding ok_def
  proof (intro allI impI)
    fix i j
    assume ij: "i = 0 \<or> j = 0 \<or> i < Suc k \<or> i = Suc k \<and> j < 1" "i < length p" "j < length q"
    then have "i = 0 \<or> j = 0 \<or> i < k \<or> i = k \<and> j < length q" by linarith
    then show "least_warp dst p q i j (ca (i, j))" using h [unfolded ok_def, rule_format] ij(2,3) by blast
  qed
  have next_row: "ok (Suc k) 1 (fold (\<lambda>j. acc_cell dst p q k j) [1..<length q] ca)" if "ok k 1 ca" "1 \<le> k" "k < length p" for k ca
  proof (cases "length q")
    case 0
    then show ?thesis by (simp add: ok_def)
  next
    case (Suc m)
    then have "ok k (length q) (fold (\<lambda>j. acc_cell dst p q k j) [1..<length q] ca)" using row [OF that, of m] by simp
    then show ?thesis by (rule shift)
  qed
  have start: "ok 1 1 acc_init" using least_warp_border by (auto simp: ok_def less_Suc_eq)
  have "ok (Suc n) 1 (fold (\<lambda>i. fold (\<lambda>j. acc_cell dst p q i j) [1..<length q]) [1..<Suc n] acc_init)" if "n < length p" for n
    using that
  proof (induction n)
    case 0
    then show ?case using start by simp
  next
    case (Suc n)
    then show ?case using next_row [of "Suc n"] by simp
  qed
  from this [of "length p - 1"] assms show ?thesis unfolding acc_table_def ok_def by (cases "length p") auto
qed

text \<open>
  For a positive step and lines that are not empty, the computation of the accumulated distance returns the least total of a walk
  along both densified lines from end to end, or infinity when there is no such walk.
\<close>

theorem accFrechetDistC_least:
  assumes "0 < d" "a \<noteq> []" "b \<noteq> []"
  shows "\<exists>p q v. densify dst d a = Some p \<and> densify dst d b = Some q \<and> accFrechetDistC dst a b d = Some v \<and>
    least_warp dst p q (length p - 1) (length q - 1) v"
proof -
  obtain p q where pq: "densify dst d a = Some p" "p \<noteq> []" "densify dst d b = Some q" "q \<noteq> []"
    using densify_returns [OF assms(1), of dst a] densify_returns [OF assms(1), of dst b] assms(2,3) by blast
  then have "least_warp dst p q (length p - 1) (length q - 1) (acc_table dst p q (length p - 1, length q - 1))"
    by (intro acc_table_least) simp_all
  then show ?thesis using pq by (simp add: accFrechetDistC_def)
qed

theorem accFrechetDistC_least_witness:
  "\<exists>v. accFrechetDistC (\<lambda>p q. \<bar>getX p - getX q\<bar> + \<bar>getY p - getY q\<bar>) [(0, 0), (2, 0)] [(0, 1), (2, 1)] 1 = Some v"
  using accFrechetDistC_least [of 1 "[(0, 0), (2, 0)]" "[(0, 1), (2, 1)]" "\<lambda>p q. \<bar>getX p - getX q\<bar> + \<bar>getY p - getY q\<bar>"] by auto

end
