(* ===== verification/Spec2Isabelle.thy ===== *)
theory Spec2Isabelle
  imports Csv_Parser Gtfs_Date Util_String Restrictor Osm_Id_Set Osm_Filter EDijkstra Feed_Writer Router_Optimal Comp_Levels Osm_Extract Bounding_Box Node_Grid Geo_Line
begin

text \<open>
  A verification library for pfaedle, the program that computes the precise shapes of the trips of a transit feed.

  \<^bold>\<open>The program.\<close>  \<^verbatim>\<open>src/apps/pfaedle/main.cpp\<close> reads a feed (\<^verbatim>\<open>src/libs/gtfs\<close>), reads an OpenStreetMap file into a
  graph of the transit network (\<^verbatim>\<open>src/libs/pfaedle/src/{osm,trgraph}\<close>), finds for every trip the cheapest path through
  that graph along its stops (\<^verbatim>\<open>src/libs/pfaedle/src/router\<close>), and writes the feed back with the new shapes.
  \<^verbatim>\<open>src/libs/util\<close> holds strings, graphs and shortest paths.

  \<^bold>\<open>Theories and code.\<close>  Names are those of the code; a definition follows the code it stands for line by line.

  \<^item> \<open>Prelude\<close>: the fixed-width integers, exceptions as the left side of a sum (\<open>res\<close>), the parts of the C++ standard
    library the code calls (\<^verbatim>\<open>stoi\<close>, \<^verbatim>\<open>stod\<close>, \<^verbatim>\<open>strtol\<close>, \<^verbatim>\<open>to_string\<close>, \<^verbatim>\<open>getline\<close>, \<^verbatim>\<open>find\<close>, ordered maps), and the locale
    \<open>key_order\<close> of the comparisons that order a \<^verbatim>\<open>std::map\<close>.
  \<^item> \<open>Gtfs_Misc\<close>, \<open>Gtfs_Time\<close>, \<open>Gtfs_Date\<close>, \<open>Csv_Parser\<close>: the text level of the feed (\<^verbatim>\<open>gtfs/{misc,time,date}\<close>,
    \<^verbatim>\<open>gtfs/access/csv_parser\<close>): quoting, number and colour fields, times of day and calendar dates with their checks,
    splitting a record into fields.  The lemmas are the round trips of every written form, exact arithmetic on times,
    and the dates accepted being the Gregorian ones.
  \<^item> \<open>Gtfs_Feed\<close>: the records, the feed and its index providers.  \<open>Feed_Reader\<close>: one handler per file with its exception
    behaviour, the loop over the rows, the order of the files; the locales \<open>safe_handler\<close> and \<open>invariant_handler\<close> are
    interpreted on every handler.  \<open>Feed_Writer\<close>: one writer per file.  The lemmas: the reader ends with a result on
    every input without stops, keeps the feed well formed, builds indexes that agree with the records, and reads back
    what was written.
  \<^item> \<open>Util_String\<close> (\<^verbatim>\<open>util/String.h\<close>): escaping and its inverses, replacement against a leftmost-first specification,
    edit distance against the least number of edits.
  \<^item> \<open>Osm_Filter\<close>, \<open>Osm_Id_Set\<close>, \<open>Restrictor\<close> (\<^verbatim>\<open>osm/{osm_filter,osm_id_set}\<close>, \<^verbatim>\<open>trgraph/restrictor\<close>): attribute rules; the set
    of ids on disk with its Bloom filter, external merge sort and binary search, shown to answer membership; the store
    of turn restrictions, shown to answer what the whole history of restrictions and ways means, the same in whatever order they arrive
    once no way id changes its edge behind a restriction.
  \<^item> \<open>EDijkstra\<close> (\<^verbatim>\<open>util/graph/EDijkstra.h\<close>): the searches on edges with an arbitrary tie-breaking of the priority queue
    (locale \<open>route_queue\<close>); termination, reachability and least costs.
  \<^item> \<open>Dir_Graph\<close> (\<^verbatim>\<open>util/graph/{Graph,DirGraph,DirNode,Edge,Node}.h\<close>): the heap of nodes and edges; every graph that can be
    built is well formed, and the pointer operations implement the operations of a map from node pairs to payloads.
  \<^item> \<open>Tr_Payload\<close> (\<^verbatim>\<open>trgraph/{edge_payload,node_payload,station_info}\<close>, \<^verbatim>\<open>router/comp.h\<close>): what nodes and edges carry, with
    the reference counters of lines, groups and components (locale \<open>shared_refs\<close>).
  \<^item> \<open>Graph_Search\<close>, \<open>Tr_Graph\<close> (\<^verbatim>\<open>trgraph/graph\<close>): the locale \<open>component_search\<close> of a depth-first marking on a stack, and
    the passes over the transit graph; the components written are the connected components.  \<open>Contraction\<close>: the pass that
    contracts nodes of degree two, and what it keeps.
  \<^item> \<open>Router_Cost\<close>, \<open>Router_Hops\<close>, \<open>Comp_Levels\<close>, \<open>Router\<close>, \<open>Router_Optimal\<close> (\<^verbatim>\<open>router/{misc,routing_attributes,router,edge_payload,node_payload}\<close>):
    the cost functions and heuristics with the cache of line similarities; the hops between candidates with the pilot run
    and the cache of hops; the graph of candidates; and its cheapest path.  The lemmas: cached results are those of the pure functions,
    every hop is a walk with its cost, and the result of routing is a cheapest choice of candidates.  The straight-line estimates of the
    searches may overestimate; when they do not (\<open>straight_lines\<close>), every hop is a cheapest walk.  What this asks of levels and
    components holds for the graph the builder leaves (\<open>Comp_Levels\<close>) and the level factors of \<^verbatim>\<open>pfaedle.cfg\<close>, which rise; that an
    edge is as long as the straight line gains is a condition on the geometry, which is a parameter (\<^verbatim>\<open>webMercMeterDist\<close> scales by the mean
    latitude of its two points, so over long distances it holds up to the distortion of the projection only).

  \<^item> \<open>Osm_Reader\<close>, \<open>Osm_Edges\<close> (\<^verbatim>\<open>osm/osm_builder\<close>, \<^verbatim>\<open>osm/{osm,osm_read_options}.h\<close>): the passes over an OpenStreetMap document that collect the
    ids inside the bounding box, the relations with their restrictions, and the kept ways, which become the edges of the
    transit graph (\<open>Graph_Steps\<close> has the lemmas on adding nodes and edges).  An exception, a failed assertion and undefined behaviour are the three
    values of \<open>fault\<close>.  \<open>Osm_Extract\<close> writes the part of a document that these passes would use.  The lemmas: what the two sets on disk, the relation indexes and the graph hold after their pass, the
    interning of lines, the tags that may be left out without changing a decision, and what reading an extract gives back.
  \<^item> \<open>Geo\<close>, \<open>Geo_Line\<close> (\<^verbatim>\<open>util/geo/{Geo,Box,Point,Line}.h\<close>): points, boxes and segments with containment and intersection; simplifying and
    densifying lines, and the distances between two lines, shown least over all ways to walk along both.  \<open>Bounding_Box\<close>
    (\<^verbatim>\<open>osm/bounding_box\<close>): the tree of boxes that bounds the feed, whose search of only one child is shown to lose no point.
    \<open>Geo_Grid\<close> (\<^verbatim>\<open>util/geo/Grid.h\<close>): the grid of cells with its two ways to remove a value, and what a query answers after any history; \<open>Node_Grid\<close>
    (\<^verbatim>\<open>trgraph/{node_grid,edge_grid}\<close>): the queries for the nearest station node and the candidate edges.

  \<^bold>\<open>Bounds and loops.\<close>  Machine integers are words where the code's width matters (ids, counters, times, bit fields).
  Loops that recurse on a container are structural; the others are \<^theory_text>\<open>partial_function (option)\<close>, where not returning is
  \<^const>\<open>None\<close>, and are proved to return.  No fuel is used.  The costs of the router are exact rationals, and the infinity of the
  search over the candidates is a number \<open>infty\<close>; the results hold for every such number beyond the costs of the choices.

  \<^bold>\<open>What is a parameter.\<close>  The file system, the iteration order of unordered containers, the tie-breaking of the
  priority queue, the costs of a search, the geometry of points, and the centre of the targets of a heuristic; for OpenStreetMap files
  the parsed XML tree with the conversions of attribute texts to numbers, the bounding box, the normalisers of names, and what the memory
  of an unwritten member holds; for the spatial indexes the distances, the scale of the projection and the rounding to \<^verbatim>\<open>float\<close>.  A set of
  pointers is iterated in the order of its references; a router has the cache of one thread.

  Coordinates are exact rationals; a \<^verbatim>\<open>double\<close> rounds, which the statements on geometry leave out.

  \<^bold>\<open>Not modelled.\<close>  Polygons, poly-lines, curves and rotated boxes of \<^verbatim>\<open>util/geo\<close>, the node-based searches and the undirected graph of
  \<^verbatim>\<open>util/graph\<close>, the snapping of stations to the graph, the shape builder around the router, logging and stack traces, XML and JSON
  as text, the evaluation, the command line and configuration files, multi-threading.
\<close>

end
